(* ===== verification/Lz_Prelude.thy ===== *)
theory Lz_Prelude
  imports Main "HOL-Library.Word"
begin

text \<open>
  Shared vocabulary of the development: the machine integers of the C sources as words, the
  errno values the sources return, byte strings, and the generic lemmas on words and lists
  that several components use.  The collections declared here carry the component proofs:
  \<^item> \<open>word_bits\<close>: facts that turn an equation between words into one about bits;
  \<^item> \<open>c_string\<close>: facts about NUL-terminated strings.
\<close>

unbundle bit_operations_syntax

named_theorems word_bits "reduce word equations to bits"
named_theorems c_string "NUL-terminated strings"

section \<open>Machine integers\<close>

type_synonym u8 = "8 word"
type_synonym u16 = "16 word"
type_synonym u32 = "32 word"
type_synonym u64 = "64 word"

text \<open>Left and right shifts of unsigned operands, as the sources write them.\<close>

abbreviation shl :: "'a::len word \<Rightarrow> nat \<Rightarrow> 'a word" where
  "shl x n \<equiv> push_bit n x"

abbreviation shr :: "'a::len word \<Rightarrow> nat \<Rightarrow> 'a word" where
  "shr x n \<equiv> drop_bit n x"

text \<open>A \<^verbatim>\<open>signed char\<close> promoted to a 32-bit operand is sign extended.\<close>

abbreviation sx8 :: "u8 \<Rightarrow> u32" where
  "sx8 b \<equiv> signed_take_bit 7 (ucast b)"

lemma word_eq_bitI:
  fixes a b :: "'a::len word"
  assumes "\<And>n. n < LENGTH('a) \<Longrightarrow> bit a n = bit b n"
  shows "a = b"
  using assms by (rule bit_word_eqI)

lemma all_less_numeral_Suc:
  "(\<forall>n < Suc m. P n) \<longleftrightarrow> P m \<and> (\<forall>n < m. P n)"
  by (auto simp: less_Suc_eq)

declare bit_simps [word_bits]

text \<open>Addresses; \<open>0\<close> is the null pointer.\<close>

type_synonym addr = nat

section \<open>Lists\<close>

lemma find_append:
  "find P (xs @ ys) = (case find P xs of None \<Rightarrow> find P ys | Some x \<Rightarrow> Some x)"
  by (induction xs) auto

lemma find_unique:
  "(\<And>x y. \<lbrakk>x \<in> set xs; y \<in> set xs; P x; P y\<rbrakk> \<Longrightarrow> x = y) \<Longrightarrow>
     find P xs = Some e \<longleftrightarrow> e \<in> set xs \<and> P e"
proof (induction xs)
  case (Cons a xs)
  then show ?case by (cases "P a") (simp_all, blast+)
qed simp

lemma distinct_concat_nth:
  "\<lbrakk>\<And>i. i < length xss \<Longrightarrow> distinct (xss ! i);
    \<And>i j. \<lbrakk>i < j; j < length xss\<rbrakk> \<Longrightarrow> set (xss ! i) \<inter> set (xss ! j) = {}\<rbrakk>
   \<Longrightarrow> distinct (concat xss)"
proof (induction xss)
  case (Cons xs xss)
  have "distinct (concat xss)"
  proof (rule Cons.IH)
    fix i assume "i < length xss"
    then show "distinct (xss ! i)" using Cons.prems(1) [of "Suc i"] by simp
  next
    fix i j assume "i < j" "j < length xss"
    then show "set (xss ! i) \<inter> set (xss ! j) = {}" using Cons.prems(2) [of "Suc i" "Suc j"] by simp
  qed
  moreover have "set xs \<inter> set ys = {}" if "ys \<in> set xss" for ys
    using that Cons.prems(2) [of 0 "Suc _"] by (auto simp: in_set_conv_nth)
  ultimately show ?case using Cons.prems(1) [of 0] by auto
qed simp

lemma map_of_rev_distinct: "distinct (map fst xs) \<Longrightarrow> map_of (rev xs) = map_of xs"
  by (rule map_of_eqI) (auto simp: rev_map [symmetric])

section \<open>Memory blocks\<close>

text \<open>
  \<^verbatim>\<open>memcmp\<close> on \<open>n\<close> bytes; a byte past the end of a block, which no caller in a well-formed run reads,
  counts as 0.
\<close>

definition first_byte :: "u8 list \<Rightarrow> u8" where
  "first_byte xs = (case xs of [] \<Rightarrow> 0 | b # _ \<Rightarrow> b)"

fun memcmp :: "u8 list \<Rightarrow> u8 list \<Rightarrow> nat \<Rightarrow> int" where
  "memcmp xs ys 0 = 0"
| "memcmp xs ys (Suc n) =
     (if first_byte xs = first_byte ys then memcmp (tl xs) (tl ys) n
      else uint (first_byte xs) - uint (first_byte ys))"

text \<open>The bytes that \<open>memcmp\<close> reads.\<close>

definition first_bytes :: "nat \<Rightarrow> u8 list \<Rightarrow> u8 list" where
  "first_bytes n xs = take n (xs @ replicate n 0)"

lemma first_bytes_simps [simp]:
  "first_bytes 0 xs = []"
  "first_bytes (Suc n) (x # xs) = x # first_bytes n xs"
  "first_bytes (Suc n) [] = 0 # first_bytes n []"
  "length xs = n \<Longrightarrow> first_bytes n xs = xs"
  by (simp_all add: first_bytes_def min_def del: replicate_Suc) simp

lemma memcmp_swap: "memcmp xs ys n = - memcmp ys xs n"
  by (induction xs ys n rule: memcmp.induct) (auto simp: Let_def)

lemma first_bytes_Suc: "first_bytes (Suc n) xs = first_byte xs # first_bytes n (tl xs)"
  by (cases xs) (simp_all add: first_byte_def)

lemma memcmp_zero: "memcmp xs ys n = 0 \<longleftrightarrow> first_bytes n xs = first_bytes n ys"
  by (induction xs ys n rule: memcmp.induct) (auto simp: first_bytes_Suc unsigned_word_eqI)

lemma memcmp_trans: "memcmp xs ys n \<le> 0 \<Longrightarrow> memcmp ys zs n \<le> 0 \<Longrightarrow> memcmp xs zs n \<le> 0"
proof (induction n arbitrary: xs ys zs)
  case (Suc n)
  have neq: "uint a \<noteq> uint b" if "a \<noteq> b" for a b :: u8 using that by (metis unsigned_word_eqI)
  show ?case
    using Suc.prems Suc.IH [of "tl xs" "tl ys" "tl zs"]
      neq [of "first_byte xs" "first_byte ys"] neq [of "first_byte ys" "first_byte zs"]
    by (cases "first_byte xs = first_byte ys"; cases "first_byte ys = first_byte zs") auto
qed simp

text \<open>The C string at the start of a block.\<close>

lemma takeWhile_nul [c_string]:
  "0 \<notin> set s \<Longrightarrow> takeWhile (\<lambda>c. c \<noteq> (0 :: u8)) (s @ 0 # ys) = s"
  by (induction s) auto

section \<open>Errno values\<close>

text \<open>The Linux values of the constants the sources negate and return.\<close>

abbreviation (input) ENOENT :: int where "ENOENT \<equiv> 2"
abbreviation (input) ENOMEM :: int where "ENOMEM \<equiv> 12"
abbreviation (input) EINVAL :: int where "EINVAL \<equiv> 22"
abbreviation (input) ERANGE :: int where "ERANGE \<equiv> 34"

end
