(* ===== verification/Lz_Rb.thy ===== *)
theory Lz_Rb
  imports Lz_Prelude
begin

text \<open>
  \<^verbatim>\<open>src/src/rb.c\<close>, \<^verbatim>\<open>src/src/rb.h\<close>: the red-black table.  Nodes reachable from the root are a
  value of \<open>rb_node\<close>; the stacks \<open>pa\<close>, \<open>da\<close> of the C functions are a list of frames, the top of
  the stack first: the frame of \<open>pa[i]\<close> holds that node's data and colour, the direction
  \<open>da[i]\<close> taken from it (\<open>False\<close> for link 0) and the subtree at its other link.  The bottom entry
  \<open>pa[0] = &tree->rb_root\<close> has no frame, so \<open>k\<close> is one more than the number of frames.
  The subtree at \<open>pa[k - 1]->rb_link[da[k - 1]]\<close> is the focus, and \<open>plug\<close> is the whole tree.
  A dereference of a null pointer is the value \<open>None\<close>.

  The theory holds the operations, the red-black and ordering invariants, and the theorems that
  the operations keep them and compute lookup, insertion and deletion on the sorted sequence of
  items.  The comparison function is an interface: the locale \<open>rb_order\<close>.
\<close>

section \<open>Data\<close>

datatype rb_color = RB_BLACK | RB_RED

datatype 'a rb_node = NULL | Node "'a rb_node" 'a rb_color "'a rb_node"

record ('a, 'p) rb_table =
  rb_root :: "'a rb_node"
  rb_compare :: "'a \<Rightarrow> 'a \<Rightarrow> 'p \<Rightarrow> int"
  rb_param :: 'p
  rb_count :: u64
  rb_generation :: u64

datatype 'a frame = Frame bool rb_color 'a "'a rb_node"

definition rb_cmp :: "('a, 'p) rb_table \<Rightarrow> 'a \<Rightarrow> 'a \<Rightarrow> int" where
  "rb_cmp tree a b = rb_compare tree a b (rb_param tree)"

fun is_red :: "'a rb_node \<Rightarrow> bool" where
  "is_red NULL = False"
| "is_red (Node _ _ c _) = (c = RB_RED)"

fun paint :: "rb_color \<Rightarrow> 'a rb_node \<Rightarrow> 'a rb_node" where
  "paint c NULL = NULL"
| "paint c (Node l a _ r) = Node l a c r"

fun plug :: "'a frame list \<Rightarrow> 'a rb_node \<Rightarrow> 'a rb_node" where
  "plug [] t = t"
| "plug (Frame d c a s # fs) t = plug fs (if d then Node s a c t else Node t a c s)"

section \<open>Creation and search\<close>

text \<open>Allocation by \<open>libavl_malloc\<close> succeeds or fails: the argument \<open>ok\<close>.\<close>

definition rb_create :: "bool \<Rightarrow> ('a \<Rightarrow> 'a \<Rightarrow> 'p \<Rightarrow> int) \<Rightarrow> 'p \<Rightarrow> ('a, 'p) rb_table option" where
  "rb_create ok compare param =
     (if ok then Some \<lparr>rb_root = NULL, rb_compare = compare, rb_param = param,
                       rb_count = 0, rb_generation = 0\<rparr>
      else None)"

fun rb_find_node :: "('a \<Rightarrow> 'a \<Rightarrow> int) \<Rightarrow> 'a \<Rightarrow> 'a rb_node \<Rightarrow> 'a option" where
  "rb_find_node cmp item NULL = None"
| "rb_find_node cmp item (Node l a c r) =
     (if cmp item a < 0 then rb_find_node cmp item l
      else if cmp item a > 0 then rb_find_node cmp item r
      else Some a)"

definition rb_find :: "('a, 'p) rb_table \<Rightarrow> 'a \<Rightarrow> 'a option" where
  "rb_find tree item = rb_find_node (rb_cmp tree) item (rb_root tree)"

text \<open>
  The descent of \<open>rb_probe\<close> and \<open>rb_delete\<close>: it ends at a node that compares equal, or at a null
  link, with the stack of the nodes above.
\<close>

datatype 'a rb_pos = Found "'a frame list" "'a rb_node" 'a rb_color "'a rb_node" | Hole "'a frame list"

fun rb_search :: "('a \<Rightarrow> 'a \<Rightarrow> int) \<Rightarrow> 'a \<Rightarrow> 'a frame list \<Rightarrow> 'a rb_node \<Rightarrow> 'a rb_pos" where
  "rb_search cmp item fs NULL = Hole fs"
| "rb_search cmp item fs (Node l a c r) =
     (if cmp item a = 0 then Found fs l a c r
      else if cmp item a > 0 then rb_search cmp item (Frame True c a l # fs) r
      else rb_search cmp item (Frame False c a r # fs) l)"

section \<open>Insertion\<close>

text \<open>
  The rebalancing loop of \<open>rb_probe\<close>.  The focus is the node \<open>Node l a c r\<close>; the parent \<open>p\<close> is at
  \<open>pa[k - 1]\<close> and the grandparent \<open>g\<close> at \<open>pa[k - 2]\<close>.
\<close>

fun rb_probe_fix ::
  "'a frame list \<Rightarrow> 'a rb_node \<Rightarrow> 'a \<Rightarrow> rb_color \<Rightarrow> 'a rb_node \<Rightarrow> 'a rb_node" where
  "rb_probe_fix (Frame d1 RB_RED p s # Frame d2 gc g y # fs) l a c r =
     (if \<not> d2 then
        if is_red y then
          rb_probe_fix fs (if d1 then Node s p RB_BLACK (Node l a c r)
                           else Node (Node l a c r) p RB_BLACK s) g RB_RED (paint RB_BLACK y)
        else if \<not> d1 then
          plug fs (Node (Node l a c r) p RB_BLACK (Node s g RB_RED y))
        else
          plug fs (Node (Node s p RB_RED l) a RB_BLACK (Node r g RB_RED y))
      else
        if is_red y then
          rb_probe_fix fs (paint RB_BLACK y) g RB_RED
                          (if d1 then Node s p RB_BLACK (Node l a c r)
                           else Node (Node l a c r) p RB_BLACK s)
        else if d1 then
          plug fs (Node (Node y g RB_RED s) p RB_BLACK (Node l a c r))
        else
          plug fs (Node (Node y g RB_RED l) a RB_BLACK (Node r p RB_RED s)))"
| "rb_probe_fix fs l a c r = plug fs (Node l a c r)"

text \<open>
  The value of \<open>rb_probe\<close>: null after a failed allocation, or a pointer to the data slot of the
  duplicate or of the new node.
\<close>

datatype 'a probe_result = Probe_Null | Probe_Dup 'a | Probe_New

definition rb_probe ::
  "bool \<Rightarrow> ('a, 'p) rb_table \<Rightarrow> 'a \<Rightarrow> ('a, 'p) rb_table \<times> 'a probe_result" where
  "rb_probe ok tree item =
     (case rb_search (rb_cmp tree) item [] (rb_root tree) of
        Found fs l a c r \<Rightarrow> (tree, Probe_Dup a)
      | Hole fs \<Rightarrow>
          if \<not> ok then (tree\<lparr>rb_root := plug fs NULL\<rparr>, Probe_Null)
          else (tree\<lparr>rb_root := paint RB_BLACK (rb_probe_fix fs NULL item RB_RED NULL),
                     rb_count := rb_count tree + 1,
                     rb_generation := rb_generation tree + 1\<rparr>, Probe_New))"

definition rb_insert ::
  "bool \<Rightarrow> ('a, 'p) rb_table \<Rightarrow> 'a \<Rightarrow> ('a, 'p) rb_table \<times> 'a option" where
  "rb_insert ok table item =
     (case rb_probe ok table item of
        (table', Probe_Null) \<Rightarrow> (table', None)
      | (table', Probe_New) \<Rightarrow> (table', None)
      | (table', Probe_Dup a) \<Rightarrow> (table', if a = item then None else Some a))"

text \<open>\<open>rb_replace\<close> writes the item through the pointer that \<open>rb_probe\<close> returned.\<close>

definition rb_replace ::
  "bool \<Rightarrow> ('a, 'p) rb_table \<Rightarrow> 'a \<Rightarrow> ('a, 'p) rb_table \<times> 'a option" where
  "rb_replace ok table item =
     (case rb_probe ok table item of
        (table', Probe_Null) \<Rightarrow> (table', None)
      | (table', Probe_New) \<Rightarrow> (table', None)
      | (table', Probe_Dup a) \<Rightarrow>
          if a = item then (table', None)
          else (case rb_search (rb_cmp table') item [] (rb_root table') of
                  Found fs l _ c r \<Rightarrow> (table'\<lparr>rb_root := plug fs (Node l item c r)\<rparr>, Some a)
                | Hole _ \<Rightarrow> (table', Some a)))"

text \<open>\<open>None\<close> is a failed assertion.\<close>

definition rb_assert_insert ::
  "bool \<Rightarrow> ('a, 'p) rb_table \<Rightarrow> 'a \<Rightarrow> ('a, 'p) rb_table option" where
  "rb_assert_insert ok table item =
     (case rb_probe ok table item of
        (table', Probe_Null) \<Rightarrow> None
      | (table', Probe_New) \<Rightarrow> Some table'
      | (table', Probe_Dup a) \<Rightarrow> if a = item then Some table' else None)"

section \<open>Deletion\<close>

text \<open>
  The inner loop of \<open>rb_delete\<close> that looks for the successor \<open>s\<close>: the node \<open>r\<close> it came from is
  already on the stack.
\<close>

fun rb_leftmost ::
  "'a rb_node \<Rightarrow> 'a \<Rightarrow> rb_color \<Rightarrow> 'a rb_node \<Rightarrow> 'a frame list
   \<Rightarrow> 'a frame list \<times> 'a \<times> rb_color \<times> 'a rb_node" where
  "rb_leftmost NULL sa sc sr acc = (acc, sa, sc, sr)"
| "rb_leftmost (Node l a c r) sa sc sr acc = rb_leftmost l a c r (Frame False sc sa sr # acc)"

text \<open>
  Unlinking the node \<open>p\<close> with links \<open>l\<close>, \<open>r\<close> and colour \<open>c\<close>: the new stack, the subtree that takes
  the place of the unlinked node, and the colour \<open>p\<close> has after the exchange of colours.
\<close>

fun rb_unlink ::
  "'a frame list \<Rightarrow> 'a rb_node \<Rightarrow> rb_color \<Rightarrow> 'a rb_node
   \<Rightarrow> 'a frame list \<times> 'a rb_node \<times> rb_color" where
  "rb_unlink fs l c NULL = (fs, l, c)"
| "rb_unlink fs l c (Node NULL ra rc rr) = (Frame True c ra l # fs, rr, rc)"
| "rb_unlink fs l c (Node (Node sl sa sc sr) ra rc rr) =
     (let (acc, s, t, x) = rb_leftmost sl sa sc sr [Frame False rc ra rr]
      in (acc @ Frame True c s l # fs, x, t))"

text \<open>
  The last rotation of the loop of \<open>rb_delete\<close>: \<open>p\<close> is at \<open>pa[k - 1]\<close> with colour \<open>pc\<close>, the
  subtree \<open>x\<close> is at the link taken from it and the sibling \<open>w\<close> at the other one; the far child of
  \<open>w\<close> is made red first when it is black.
\<close>

fun rb_delete_rotate ::
  "bool \<Rightarrow> rb_color \<Rightarrow> 'a \<Rightarrow> 'a rb_node \<Rightarrow> 'a rb_node \<Rightarrow> 'a rb_node option" where
  "rb_delete_rotate d pc p x NULL = None"
| "rb_delete_rotate False pc p x (Node wl w wc wr) =
     (if \<not> is_red wr then
        case wl of
          NULL \<Rightarrow> None
        | Node yl y yc yr \<Rightarrow>
            Some (Node (Node x p RB_BLACK yl) y pc (Node yr w RB_BLACK wr))
      else Some (Node (Node x p RB_BLACK wl) w pc (paint RB_BLACK wr)))"
| "rb_delete_rotate True pc p x (Node wl w wc wr) =
     (if \<not> is_red wl then
        case wr of
          NULL \<Rightarrow> None
        | Node yl y yc yr \<Rightarrow>
            Some (Node (Node wl w RB_BLACK yl) y pc (Node yr p RB_BLACK x))
      else Some (Node (paint RB_BLACK wl) w pc (Node wr p RB_BLACK x)))"

text \<open>
  The loop: the focus \<open>x\<close> lacks one black node.  First a red sibling is rotated above \<open>p\<close>, which
  makes \<open>pa\<close> one longer; then either the sibling is made red and the loop goes on with \<open>p\<close>, or
  the last rotation ends it.
\<close>

fun rb_red_sibling ::
  "bool \<Rightarrow> rb_color \<Rightarrow> 'a \<Rightarrow> 'a rb_node \<Rightarrow> 'a frame list
   \<Rightarrow> (rb_color \<times> 'a rb_node \<times> 'a frame list) option" where
  "rb_red_sibling d pc p NULL fs = None"
| "rb_red_sibling d pc p (Node wl w wc wr) fs =
     (if wc = RB_RED then
        if d then Some (RB_RED, wr, Frame True RB_BLACK w wl # fs)
        else Some (RB_RED, wl, Frame False RB_BLACK w wr # fs)
      else Some (pc, Node wl w wc wr, fs))"

fun black_children :: "'a rb_node \<Rightarrow> bool" where
  "black_children NULL = True"
| "black_children (Node l _ _ r) = (\<not> is_red l \<and> \<not> is_red r)"

lemma rb_red_sibling_cases:
  "rb_red_sibling d pc p w fs = Some (pc', w', fs') \<Longrightarrow>
     (pc' = pc \<and> w' = w \<and> fs' = fs) \<or> (pc' = RB_RED \<and> length fs' = Suc (length fs))"
  by (cases w) (auto split: if_splits)

function rb_delete_fix :: "'a frame list \<Rightarrow> 'a rb_node \<Rightarrow> 'a rb_node option" where
  "rb_delete_fix fs x =
     (if is_red x then Some (plug fs (paint RB_BLACK x))
      else case fs of
        [] \<Rightarrow> Some x
      | Frame d pc p w # fs0 \<Rightarrow>
          (case rb_red_sibling d pc p w fs0 of
             None \<Rightarrow> None
           | Some (pc', w', fs') \<Rightarrow>
               if w' = NULL then None
               else if black_children w' then
                 rb_delete_fix fs' (if d then Node (paint RB_RED w') p pc' x
                                    else Node x p pc' (paint RB_RED w'))
               else map_option (plug fs') (rb_delete_rotate d pc' p x w')))"
  by pat_completeness auto
termination
  by (relation "measure (\<lambda>(fs, x). 2 * length fs + (if is_red x then 0 else 1))")
    (auto dest!: rb_red_sibling_cases split: if_splits)

declare rb_delete_fix.simps [simp del]

text \<open>
  \<open>rb_delete\<close> returns the matching item, or null when there is none.  \<open>None\<close> is a null
  dereference.
\<close>

definition rb_delete ::
  "('a, 'p) rb_table \<Rightarrow> 'a \<Rightarrow> (('a, 'p) rb_table \<times> 'a option) option" where
  "rb_delete tree item =
     (case rb_search (rb_cmp tree) item [] (rb_root tree) of
        Hole _ \<Rightarrow> Some (tree, None)
      | Found fs l a c r \<Rightarrow>
          (case rb_unlink fs l c r of (fs', x, t) \<Rightarrow>
             (case (if t = RB_BLACK then rb_delete_fix fs' x else Some (plug fs' x)) of
                None \<Rightarrow> None
              | Some root \<Rightarrow>
                  Some (tree\<lparr>rb_root := root, rb_count := rb_count tree - 1,
                             rb_generation := rb_generation tree + 1\<rparr>, Some a))))"

definition rb_assert_delete ::
  "('a, 'p) rb_table \<Rightarrow> 'a \<Rightarrow> (('a, 'p) rb_table \<times> 'a) option" where
  "rb_assert_delete table item =
     (case rb_delete table item of Some (table', Some p) \<Rightarrow> Some (table', p) | _ \<Rightarrow> None)"

section \<open>Destruction\<close>

text \<open>
  The loop of \<open>rb_destroy\<close>: it rotates right while there is a left link and otherwise destroys
  the node and goes on to its right.  The result is the sequence of data items handed to the
  \<open>destroy\<close> callback; every one of their nodes is freed in the same step.
\<close>

fun rb_right_spine :: "'a rb_node \<Rightarrow> nat" where
  "rb_right_spine NULL = 0"
| "rb_right_spine (Node l a c r) = Suc (rb_right_spine r)"

lemma rb_right_spine_le: "rb_right_spine t \<le> size t"
  by (induction t) auto

function rb_destroy_loop :: "'a rb_node \<Rightarrow> 'a list" where
  "rb_destroy_loop NULL = []"
| "rb_destroy_loop (Node NULL a c r) = a # rb_destroy_loop r"
| "rb_destroy_loop (Node (Node ql qa qc qr) a c r) =
     rb_destroy_loop (Node ql qa qc (Node qr a c r))"
  by pat_completeness auto
termination
proof (relation "measure (\<lambda>t. 2 * size t - rb_right_spine t)", goal_cases)
  case 1 show ?case by simp
next
  case (2 a c r) show ?case using rb_right_spine_le [of r] by simp
next
  case (3 ql qa qc qr a c r) show ?case using rb_right_spine_le [of r] by simp
qed

definition rb_destroy :: "('a, 'p) rb_table \<Rightarrow> 'a list" where
  "rb_destroy tree = rb_destroy_loop (rb_root tree)"

section \<open>The red-black invariant\<close>

fun bheight :: "'a rb_node \<Rightarrow> nat" where
  "bheight NULL = 0"
| "bheight (Node l a c r) = bheight l + (if c = RB_BLACK then 1 else 0)"

fun rb_balanced :: "'a rb_node \<Rightarrow> bool" where
  "rb_balanced NULL = True"
| "rb_balanced (Node l a c r) = (bheight l = bheight r \<and> rb_balanced l \<and> rb_balanced r)"

fun rb_colored :: "'a rb_node \<Rightarrow> bool" where
  "rb_colored NULL = True"
| "rb_colored (Node l a c r) =
     ((c = RB_RED \<longrightarrow> \<not> is_red l \<and> \<not> is_red r) \<and> rb_colored l \<and> rb_colored r)"

definition rb_sub :: "'a rb_node \<Rightarrow> bool" where
  "rb_sub t \<longleftrightarrow> rb_balanced t \<and> rb_colored t"

definition rb_wf :: "'a rb_node \<Rightarrow> bool" where
  "rb_wf t \<longleftrightarrow> rb_sub t \<and> \<not> is_red t"

fun top_black :: "'a frame list \<Rightarrow> bool" where
  "top_black [] = True"
| "top_black (Frame _ c _ _ # _) = (c = RB_BLACK)"

text \<open>The stack fits a focus of black height n\<close>
fun path_ok :: "'a frame list \<Rightarrow> nat \<Rightarrow> bool" where
  "path_ok [] n = True"
| "path_ok (Frame d c a s # fs) n =
     (rb_sub s \<and> bheight s = n \<and> (c = RB_RED \<longrightarrow> \<not> is_red s \<and> fs \<noteq> [] \<and> top_black fs)
      \<and> path_ok fs (if c = RB_BLACK then Suc n else n))"

lemma rb_sub_simps [simp]:
  "rb_sub NULL"
  "rb_sub (Node l a c r) \<longleftrightarrow>
     rb_sub l \<and> rb_sub r \<and> bheight l = bheight r \<and> (c = RB_RED \<longrightarrow> \<not> is_red l \<and> \<not> is_red r)"
  by (auto simp: rb_sub_def)

lemma color_simps [simp]: "(c \<noteq> RB_BLACK) = (c = RB_RED)" "(c \<noteq> RB_RED) = (c = RB_BLACK)"
  by (cases c; simp)+

lemma rb_sub_paint [simp]: "rb_sub t \<Longrightarrow> rb_sub (paint RB_BLACK t)"
  by (cases t) auto

lemma is_red_paint [simp]: "\<not> is_red (paint RB_BLACK t)"
  by (cases t) auto

lemma bheight_paint [simp]:
  "is_red t \<Longrightarrow> bheight (paint RB_BLACK t) = Suc (bheight t)"
  by (cases t) auto

lemma rb_wf_plug:
  "rb_wf (plug fs t) \<longleftrightarrow>
     rb_sub t \<and> path_ok fs (bheight t) \<and> (is_red t \<longrightarrow> fs \<noteq> [] \<and> top_black fs)"
proof (induction fs arbitrary: t)
  case Nil then show ?case by (auto simp: rb_wf_def)
next
  case (Cons f fs)
  obtain d c a s where f: "f = Frame d c a s" by (cases f)
  show ?case by (cases d; cases c; auto simp: f Cons.IH)
qed


lemma rb_wf_Node [simp]: "rb_wf (Node l a c r) \<longleftrightarrow> rb_sub l \<and> rb_sub r \<and> bheight l = bheight r \<and> c = RB_BLACK"
  by (auto simp: rb_wf_def)

lemma rb_wf_paint: "rb_wf t \<Longrightarrow> rb_wf (paint RB_BLACK t)"
  by (simp add: rb_wf_def)

lemma rb_wf_paint_plug:
  assumes "rb_sub t" "path_ok fs (bheight t)" "is_red t \<Longrightarrow> top_black fs"
  shows "rb_wf (paint RB_BLACK (plug fs t))"
proof (cases fs)
  case Nil
  with assms(1) show ?thesis by (simp add: rb_wf_def)
next
  case (Cons f fs')
  with assms have "rb_wf (plug fs t)" by (simp add: rb_wf_plug)
  then show ?thesis by (rule rb_wf_paint)
qed

lemma path_ok_singleton: "path_ok [f] n \<Longrightarrow> top_black [f]"
  by (cases f) auto

lemma rb_probe_fix_wf:
  "\<lbrakk>rb_sub (Node l a RB_RED r); path_ok fs (bheight l)\<rbrakk>
   \<Longrightarrow> rb_wf (paint RB_BLACK (rb_probe_fix fs l a RB_RED r))"
proof (induction fs l a RB_RED r rule: rb_probe_fix.induct)
  case (1 d1 p s d2 gc g y fs l a r)
  then show ?case
    by (cases "is_red y"; cases d1; cases d2; auto intro!: rb_wf_paint_plug)
qed (auto simp: path_ok_singleton intro!: rb_wf_paint_plug)

lemma plug_search:
  "rb_search cmp item fs t = Found fs' l a c r \<Longrightarrow> plug fs' (Node l a c r) = plug fs t"
  "rb_search cmp item fs t = Hole fs' \<Longrightarrow> plug fs' NULL = plug fs t"
  by (induction cmp item fs t rule: rb_search.induct) (auto split: if_splits)

lemma plug_append: "plug (fs @ gs) t = plug gs (plug fs t)"
  by (induction fs t rule: plug.induct) auto

lemma plug_leftmost:
  "rb_leftmost sl sa sc sr acc = (acc', s, t, x) \<Longrightarrow>
     plug acc' (Node NULL s t x) = plug acc (Node sl sa sc sr)"
  by (induction sl sa sc sr acc rule: rb_leftmost.induct) auto

lemma rb_wf_plug_data: "rb_wf (plug fs (Node l a c r)) \<Longrightarrow> rb_wf (plug fs (Node l b c r))"
  by (cases c) (auto simp: rb_wf_plug)

lemma rb_unlink_wf:
  assumes "rb_unlink fs l c r = (fs', x, t)" and "rb_wf (plug fs (Node l a c r))"
  shows "rb_sub x" and "t = RB_RED \<Longrightarrow> rb_wf (plug fs' x)"
    and "t = RB_BLACK \<Longrightarrow> path_ok fs' (Suc (bheight x))"
proof -
  have "\<exists>s. rb_wf (plug fs' (Node NULL s t x))"
    using assms
  proof (induction fs l c r rule: rb_unlink.induct)
    case (1 fs l c)
    then show ?case by (auto simp: rb_wf_plug)
  next
    case (2 fs l c ra rc rr)
    then show ?case using rb_wf_plug_data [OF 2(2), of ra] by auto
  next
    case (3 fs l c sl sa sc sr ra rc rr)
    obtain acc s where lm: "rb_leftmost sl sa sc sr [Frame False rc ra rr] = (acc, s, t, x)"
      and fs': "fs' = acc @ Frame True c s l # fs"
      using 3(1) by (auto split: prod.splits)
    have "plug fs' (Node NULL s t x) = plug fs (Node l s c (Node (Node sl sa sc sr) ra rc rr))"
      using plug_leftmost [OF lm] by (simp add: fs' plug_append)
    then show ?case using rb_wf_plug_data [OF 3(2)] by metis
  qed
  then obtain s where "rb_wf (plug fs' (Node NULL s t x))" ..
  then show "rb_sub x" and "t = RB_RED \<Longrightarrow> rb_wf (plug fs' x)"
    and "t = RB_BLACK \<Longrightarrow> path_ok fs' (Suc (bheight x))"
    by (auto simp: rb_wf_plug)
qed

lemma rb_red_sibling_ok:
  assumes "path_ok (Frame d pc p w # fs) (Suc n)"
  obtains pc' w' fs' where "rb_red_sibling d pc p w fs = Some (pc', w', fs')"
    and "w' \<noteq> NULL" and "\<not> is_red w'" and "path_ok (Frame d pc' p w' # fs') (Suc n)"
proof (cases w)
  case NULL with assms show ?thesis by simp
next
  case (Node wl a wc wr)
  with assms that show ?thesis
    by (cases wc; cases d; cases pc; cases wl; cases wr; auto)
qed

lemma rb_delete_rotate_ok:
  assumes "path_ok (Frame d pc p w # fs) (Suc n)" and "\<not> is_red w" and "\<not> black_children w"
    and "rb_sub x" and "\<not> is_red x" and "bheight x = n"
  shows "\<exists>t. rb_delete_rotate d pc p x w = Some t \<and> rb_wf (plug fs t)"
proof (cases w)
  case NULL with assms show ?thesis by simp
next
  case (Node wl a wc wr)
  with assms show ?thesis
    by (cases d; cases pc; cases wl; cases wr; auto simp: rb_wf_plug)
qed

lemma rb_recolor_ok:
  assumes "path_ok (Frame d pc p w # fs) (Suc (bheight x))" and "w \<noteq> NULL" and "\<not> is_red w"
    and "black_children w" and "rb_sub x" and "\<not> is_red x"
  defines "t \<equiv> if d then Node (paint RB_RED w) p pc x else Node x p pc (paint RB_RED w)"
  shows "rb_sub (paint RB_BLACK t)" and "path_ok fs (Suc (bheight t))"
proof -
  obtain l a c r where w: "w = Node l a c r" using assms by (cases w) auto
  show "rb_sub (paint RB_BLACK t)" "path_ok fs (Suc (bheight t))"
    using assms unfolding w t_def by (cases d; cases pc; simp)+
qed

lemma rb_delete_fix_wf:
  "\<lbrakk>rb_sub (paint RB_BLACK x); path_ok fs (Suc (bheight x))\<rbrakk>
   \<Longrightarrow> \<exists>t. rb_delete_fix fs x = Some t \<and> rb_wf t"
proof (induction fs x rule: rb_delete_fix.induct)
  case (1 fs x)
  show ?case
  proof (cases "is_red x")
    case True
    with 1(2,3) show ?thesis by (subst rb_delete_fix.simps) (simp add: rb_wf_plug)
  next
    case black: False
    then have x: "rb_sub x" using 1(2) by (cases x) auto
    show ?thesis
    proof (cases fs)
      case Nil
      with black x show ?thesis by (subst rb_delete_fix.simps) (simp add: rb_wf_def)
    next
      case (Cons f fs0)
      obtain d pc p w where f: "f = Frame d pc p w" by (cases f)
      obtain pc' w' fs' where sib: "rb_red_sibling d pc p w fs0 = Some (pc', w', fs')"
        and w': "w' \<noteq> NULL" "\<not> is_red w'" "path_ok (Frame d pc' p w' # fs') (Suc (bheight x))"
        by (rule rb_red_sibling_ok [OF 1(3) [unfolded Cons f]])
      show ?thesis
      proof (cases "black_children w'")
        case True
        let ?p = "if d then Node (paint RB_RED w') p pc' x else Node x p pc' (paint RB_RED w')"
        have "\<exists>t. rb_delete_fix fs' ?p = Some t \<and> rb_wf t"
          using 1(1) [OF black Cons f sib refl refl w'(1) True]
            rb_recolor_ok [OF w'(3,1,2) True x black] by simp
        then show ?thesis
          using black Cons f sib w' True by (subst rb_delete_fix.simps) simp
      next
        case False
        from rb_delete_rotate_ok [OF w'(3,2) False x black refl]
        show ?thesis
          using black Cons f sib w' False by (subst rb_delete_fix.simps) auto
      qed
    qed
  qed
qed
section \<open>The items in order\<close>

fun inorder :: "'a rb_node \<Rightarrow> 'a list" where
  "inorder NULL = []"
| "inorder (Node l a c r) = inorder l @ a # inorder r"

fun lefts :: "'a frame list \<Rightarrow> 'a list" where
  "lefts [] = []"
| "lefts (Frame d c a s # fs) = lefts fs @ (if d then inorder s @ [a] else [])"

fun rights :: "'a frame list \<Rightarrow> 'a list" where
  "rights [] = []"
| "rights (Frame d c a s # fs) = (if d then [] else a # inorder s) @ rights fs"

lemma inorder_plug [simp]: "inorder (plug fs t) = lefts fs @ inorder t @ rights fs"
  by (induction fs t rule: plug.induct) auto

lemma inorder_paint [simp]: "inorder (paint c t) = inorder t"
  by (cases t) auto

lemma inorder_probe_fix:
  "inorder (rb_probe_fix fs l a c r) = lefts fs @ inorder l @ a # inorder r @ rights fs"
  by (induction fs l a c r rule: rb_probe_fix.induct) auto

lemma lefts_append [simp]: "lefts (fs @ gs) = lefts gs @ lefts fs"
  by (induction fs rule: lefts.induct) auto

lemma rights_append [simp]: "rights (fs @ gs) = rights fs @ rights gs"
  by (induction fs rule: rights.induct) auto

lemma inorder_leftmost:
  "rb_leftmost sl sa sc sr acc = (acc', s, t, x) \<Longrightarrow>
     lefts acc' @ s # inorder x @ rights acc' =
     lefts acc @ inorder sl @ sa # inorder sr @ rights acc"
  using arg_cong [OF plug_leftmost, of sl sa sc sr acc acc' s t x inorder] by simp

lemma lefts_leftmost:
  "rb_leftmost sl sa sc sr acc = (acc', s, t, x) \<Longrightarrow> lefts acc' = lefts acc"
  by (induction sl sa sc sr acc rule: rb_leftmost.induct) auto

lemma inorder_unlink:
  "rb_unlink fs l c r = (fs', x, t) \<Longrightarrow>
     lefts fs' @ inorder x @ rights fs' = lefts fs @ inorder l @ inorder r @ rights fs"
proof (induction fs l c r rule: rb_unlink.induct)
  case (3 fs l c sl sa sc sr ra rc rr)
  then obtain acc s where lm: "rb_leftmost sl sa sc sr [Frame False rc ra rr] = (acc, s, t, x)"
    and fs': "fs' = acc @ Frame True c s l # fs"
    by (auto split: prod.splits)
  show ?case using inorder_leftmost [OF lm] lefts_leftmost [OF lm] by (simp add: fs')
qed auto

lemma inorder_delete_rotate:
  "rb_delete_rotate d pc p x w = Some t \<Longrightarrow>
     inorder t = (if d then inorder w @ p # inorder x else inorder x @ p # inorder w)"
  by (induction d pc p x w rule: rb_delete_rotate.induct) (auto split: if_splits rb_node.splits)

lemma inorder_red_sibling:
  "rb_red_sibling d pc p w fs = Some (pc', w', fs') \<Longrightarrow>
     lefts (Frame d pc' p w' # fs') = lefts (Frame d pc p w # fs)
     \<and> rights (Frame d pc' p w' # fs') = rights (Frame d pc p w # fs)"
  by (cases w) (auto split: if_splits)

lemma inorder_delete_fix:
  "rb_delete_fix fs x = Some t \<Longrightarrow> inorder t = lefts fs @ inorder x @ rights fs"
proof (induction fs x rule: rb_delete_fix.induct)
  case (1 fs x)
  show ?case
  proof (cases "is_red x \<or> fs = []")
    case True
    with 1(2) show ?thesis by (subst (asm) rb_delete_fix.simps) (auto split: if_splits)
  next
    case False
    then obtain d pc p w fs0 where fs: "fs = Frame d pc p w # fs0"
      by (metis frame.exhaust list.exhaust)
    obtain pc' w' fs' where sib: "rb_red_sibling d pc p w fs0 = Some (pc', w', fs')"
      and w': "w' \<noteq> NULL"
      and cont: "if black_children w' then
          rb_delete_fix fs' (if d then Node (paint RB_RED w') p pc' x
                             else Node x p pc' (paint RB_RED w')) = Some t
        else map_option (plug fs') (rb_delete_rotate d pc' p x w') = Some t"
      using 1(2) False fs by (subst (asm) rb_delete_fix.simps) (auto split: if_splits option.splits)
    note inorder_red_sibling [OF sib]
    moreover have "inorder t = lefts (Frame d pc' p w' # fs') @ inorder x @ rights (Frame d pc' p w' # fs')"
    proof (cases "black_children w'")
      case True
      with 1(1) [OF _ fs refl sib refl refl w' True] False cont show ?thesis by (cases d) auto
    next
      case False
      with cont show ?thesis by (auto dest!: inorder_delete_rotate)
    qed
    ultimately show ?thesis by (simp add: fs)
  qed
qed

lemma rb_destroy_loop_inorder: "rb_destroy_loop t = inorder t"
  by (induction t rule: rb_destroy_loop.induct) auto

section \<open>The comparison interface\<close>

locale rb_order =
  fixes cmp :: "'a \<Rightarrow> 'a \<Rightarrow> int"
  assumes cmp_swap: "cmp a b < 0 \<longleftrightarrow> 0 < cmp b a"
    and cmp_trans: "cmp a b \<le> 0 \<Longrightarrow> cmp b c \<le> 0 \<Longrightarrow> cmp a c \<le> 0"
begin

lemma cmp_less_trans: "cmp a b < 0 \<Longrightarrow> cmp b c \<le> 0 \<Longrightarrow> cmp a c < 0"
  by (metis cmp_swap cmp_trans not_le)

lemma cmp_le_less_trans: "cmp a b \<le> 0 \<Longrightarrow> cmp b c < 0 \<Longrightarrow> cmp a c < 0"
  by (metis cmp_swap cmp_trans not_le)

lemma cmp_greater: "0 \<le> cmp item a \<Longrightarrow> cmp b a < 0 \<Longrightarrow> 0 < cmp item b"
  by (metis cmp_swap cmp_trans not_le)


abbreviation cmp_sorted :: "'a list \<Rightarrow> bool" where
  "cmp_sorted \<equiv> sorted_wrt (\<lambda>a b. cmp a b < 0)"

text \<open>The stack of a search separates the smaller items from the greater ones.\<close>

definition splits_at :: "'a \<Rightarrow> 'a list \<Rightarrow> 'a list \<Rightarrow> bool" where
  "splits_at item xs ys \<longleftrightarrow> (\<forall>b \<in> set xs. 0 < cmp item b) \<and> (\<forall>b \<in> set ys. cmp item b < 0)"

lemma rb_search_splits:
  "\<lbrakk>cmp_sorted (lefts fs @ inorder t @ rights fs); splits_at item (lefts fs) (rights fs)\<rbrakk>
   \<Longrightarrow> case rb_search cmp item fs t of
         Hole fs' \<Rightarrow> splits_at item (lefts fs') (rights fs')
       | Found fs' l a c r \<Rightarrow> cmp item a = 0
           \<and> splits_at item (lefts fs' @ inorder l) (inorder r @ rights fs')"
proof (induction t arbitrary: fs)
  case NULL then show ?case by simp
next
  case (Node l a c r)
  have l: "\<forall>b \<in> set (inorder l). cmp b a < 0" and r: "\<forall>b \<in> set (inorder r). cmp a b < 0"
    using Node.prems(1) by (auto simp: sorted_wrt_append)
  consider "cmp item a = 0" | "0 < cmp item a" | "cmp item a < 0" by linarith
  then show ?case
  proof cases
    case 1
    then have "0 \<le> cmp item a" and "cmp item a \<le> 0" by simp_all
    with l r have "splits_at item (inorder l) (inorder r)"
      unfolding splits_at_def by (blast intro: cmp_greater cmp_le_less_trans)
    with 1 Node.prems(2) show ?thesis by (auto simp: splits_at_def)
  next
    case 2
    with l Node.prems(2) have "splits_at item (lefts (Frame True c a l # fs)) (rights fs)"
      unfolding splits_at_def by (auto intro: cmp_greater [OF less_imp_le])
    with 2 Node.IH(2) [of "Frame True c a l # fs"] Node.prems(1) show ?thesis by simp
  next
    case 3
    with r Node.prems(2) have "splits_at item (lefts fs) (rights (Frame False c a r # fs))"
      unfolding splits_at_def by (auto intro: cmp_less_trans [OF _ less_imp_le])
    with 3 Node.IH(1) [of "Frame False c a r # fs"] Node.prems(1) show ?thesis by simp
  qed
qed

lemma splits_at_filter:
  assumes "splits_at item xs ys"
  shows "filter (\<lambda>b. 0 < cmp item b) (xs @ ys) = xs"
    and "filter (\<lambda>b. cmp item b < 0) (xs @ ys) = ys"
    and "\<forall>b \<in> set xs \<union> set ys. cmp item b \<noteq> 0"
  using assms by (force simp: splits_at_def filter_empty_conv filter_id_conv)+

lemma splits_at_sorted:
  assumes "splits_at item xs ys" and "cmp_sorted (xs @ ys)"
  shows "cmp_sorted (xs @ item # ys)"
  using assms by (auto simp: splits_at_def sorted_wrt_append cmp_swap)

lemma rb_search_root:
  assumes "cmp_sorted (inorder t)"
  shows "rb_search cmp item [] t = Hole fs \<Longrightarrow>
      splits_at item (lefts fs) (rights fs) \<and> inorder t = lefts fs @ rights fs"
    and "rb_search cmp item [] t = Found fs l a c r \<Longrightarrow>
      cmp item a = 0 \<and> splits_at item (lefts fs @ inorder l) (inorder r @ rights fs)
      \<and> inorder t = (lefts fs @ inorder l) @ a # (inorder r @ rights fs)"
  using rb_search_splits [of "[]" t item] assms
    arg_cong [OF plug_search(1), of cmp item "[]" t fs l a c r inorder]
    arg_cong [OF plug_search(2), of cmp item "[]" t fs inorder]
  by (auto simp: splits_at_def)

end

lemma rb_find_node_search:
  "rb_find_node cmp item t =
     (case rb_search cmp item fs t of Found _ _ a _ _ \<Rightarrow> Some a | Hole _ \<Rightarrow> None)"
  by (induction cmp item fs t rule: rb_search.induct) auto

section \<open>Height\<close>

fun rb_height :: "'a rb_node \<Rightarrow> nat" where
  "rb_height NULL = 0"
| "rb_height (Node l a c r) = Suc (max (rb_height l) (rb_height r))"

lemma rb_height_bheight:
  "rb_sub t \<Longrightarrow> rb_height t \<le> 2 * bheight t + (if is_red t then 1 else 0)"
  by (induction t) (auto split: if_splits)

lemma bheight_size: "rb_sub t \<Longrightarrow> 2 ^ bheight t \<le> Suc (length (inorder t))"
  by (induction t) auto

lemma rb_height_log:
  assumes "rb_wf t" and "Suc (length (inorder t)) < 2 ^ k"
  shows "rb_height t < 2 * k"
proof -
  have "(2::nat) ^ bheight t < 2 ^ k"
    using bheight_size [of t] assms unfolding rb_wf_def by linarith
  then have "bheight t < k" using power_less_imp_less_exp [of 2] by simp
  then show ?thesis using rb_height_bheight [of t] assms(1) by (simp add: rb_wf_def)
qed

fun stack_depth :: "'a rb_pos \<Rightarrow> nat" where
  "stack_depth (Found fs l a c r) = length (fst (rb_unlink fs l c r))"
| "stack_depth (Hole fs) = length fs"

lemma rb_leftmost_depth:
  "rb_leftmost sl sa sc sr acc = (acc', s, t, x) \<Longrightarrow>
   length acc' \<le> length acc + rb_height sl"
  by (induction sl sa sc sr acc rule: rb_leftmost.induct) fastforce+

lemma rb_unlink_depth:
  "length (fst (rb_unlink fs l c r)) \<le> length fs + rb_height r"
proof (induction fs l c r rule: rb_unlink.induct)
  case (3 fs l c sl sa sc sr ra rc rr)
  obtain acc' s t x where "rb_leftmost sl sa sc sr [Frame False rc ra rr] = (acc', s, t, x)"
    using prod_cases4 by blast
  with rb_leftmost_depth [OF this] show ?case by simp
qed auto

lemma rb_search_depth: "stack_depth (rb_search cmp item fs t) \<le> length fs + rb_height t"
proof (induction cmp item fs t rule: rb_search.induct)
  case (2 cmp item fs l a c r)
  then show ?case using rb_unlink_depth [of fs l c r] by (auto simp: max_def)
qed simp

section \<open>Tables\<close>

definition rb_items :: "('a, 'p) rb_table \<Rightarrow> 'a list" where
  "rb_items tree = inorder (rb_root tree)"

text \<open>
  The invariant of a table: the tree is red-black, its items are strictly increasing under the
  comparison, and \<open>rb_count\<close> counts them (modulo the width of \<^verbatim>\<open>size_t\<close>).
\<close>

definition rb_ok :: "('a, 'p) rb_table \<Rightarrow> bool" where
  "rb_ok tree \<longleftrightarrow> rb_wf (rb_root tree)
     \<and> sorted_wrt (\<lambda>a b. rb_cmp tree a b < 0) (rb_items tree)
     \<and> rb_count tree = of_nat (length (rb_items tree))"

lemma rb_cmp_update [simp]:
  "rb_cmp (tree\<lparr>rb_root := t\<rparr>) = rb_cmp tree"
  "rb_cmp (tree\<lparr>rb_root := t, rb_count := n, rb_generation := g\<rparr>) = rb_cmp tree"
  by (auto simp: rb_cmp_def fun_eq_iff)

lemma rb_create_ok: "rb_create True compare param = Some tree \<Longrightarrow> rb_ok tree \<and> rb_items tree = []"
  by (auto simp: rb_create_def rb_ok_def rb_items_def rb_wf_def)

lemma rb_probe_new:
  assumes "rb_order (rb_cmp tree)" and "rb_ok tree"
    and "rb_search (rb_cmp tree) item [] (rb_root tree) = Hole fs"
  shows "rb_ok (fst (rb_probe True tree item))"
    and "rb_items (fst (rb_probe True tree item)) =
      filter (\<lambda>b. 0 < rb_cmp tree item b) (rb_items tree) @ item
      # filter (\<lambda>b. rb_cmp tree item b < 0) (rb_items tree)"
proof -
  have srt: "sorted_wrt (\<lambda>a b. rb_cmp tree a b < 0) (inorder (rb_root tree))"
    and wf: "rb_wf (rb_root tree)"
    and cnt: "rb_count tree = of_nat (length (inorder (rb_root tree)))"
    using assms(2) by (auto simp: rb_ok_def rb_items_def)
  note sp = rb_order.rb_search_root(1) [OF assms(1) srt assms(3)]
  have "path_ok fs 0"
    using wf plug_search(2) [OF assms(3)] rb_wf_plug [of fs NULL] by simp
  then have wf': "rb_wf (paint RB_BLACK (rb_probe_fix fs NULL item RB_RED NULL))"
    using rb_probe_fix_wf [of NULL item NULL fs] by simp
  have "sorted_wrt (\<lambda>a b. rb_cmp tree a b < 0) (lefts fs @ item # rights fs)"
    using rb_order.splits_at_sorted [OF assms(1)] sp srt by metis
  then show "rb_ok (fst (rb_probe True tree item))"
    using wf' cnt sp assms(3)
    by (simp add: rb_ok_def rb_items_def rb_probe_def inorder_probe_fix)
  show "rb_items (fst (rb_probe True tree item)) =
      filter (\<lambda>b. 0 < rb_cmp tree item b) (rb_items tree) @ item
      # filter (\<lambda>b. rb_cmp tree item b < 0) (rb_items tree)"
    using sp assms(3) rb_order.splits_at_filter(1,2) [OF assms(1)]
    by (simp add: rb_items_def rb_probe_def inorder_probe_fix)
qed

lemma rb_delete_found:
  assumes "rb_order (rb_cmp tree)" and "rb_ok tree"
    and found: "rb_search (rb_cmp tree) item [] (rb_root tree) = Found fs l a c r"
  shows "\<exists>tree'. rb_delete tree item = Some (tree', Some a) \<and> rb_ok tree'
    \<and> rb_items tree' = filter (\<lambda>b. rb_cmp tree item b \<noteq> 0) (rb_items tree)"
proof -
  have srt: "sorted_wrt (\<lambda>a b. rb_cmp tree a b < 0) (inorder (rb_root tree))"
    and wf: "rb_wf (plug fs (Node l a c r))"
    and cnt: "rb_count tree = of_nat (length (inorder (rb_root tree)))"
    using assms(2) plug_search(1) [OF found] by (auto simp: rb_ok_def rb_items_def)
  note sp = rb_order.rb_search_root(2) [OF assms(1) srt found]
  obtain fs' x t where un: "rb_unlink fs l c r = (fs', x, t)" by (metis prod_cases3)
  note unwf = rb_unlink_wf [OF un wf]
  obtain root where root: "(if t = RB_BLACK then rb_delete_fix fs' x else Some (plug fs' x)) = Some root"
    and "rb_wf root"
    using rb_delete_fix_wf [of x fs'] unwf by (cases t) auto
  have io: "inorder root = (lefts fs @ inorder l) @ (inorder r @ rights fs)"
    using root inorder_delete_fix [of fs' x root] inorder_unlink [OF un] by (auto split: if_splits)
  have flt: "filter (\<lambda>b. rb_cmp tree item b \<noteq> 0) (inorder (rb_root tree)) = inorder root"
    using sp rb_order.splits_at_filter(3) [OF assms(1), of item "lefts fs @ inorder l" "inorder r @ rights fs"] io
    by (simp add: ball_Un)
  have "sorted_wrt (\<lambda>a b. rb_cmp tree a b < 0) (inorder root)"
    using srt sorted_wrt_filter unfolding flt [symmetric] by blast
  then show ?thesis
    using found un root \<open>rb_wf root\<close> flt cnt io sp
    by (simp add: rb_delete_def rb_ok_def rb_items_def)
qed

lemma rb_find_search:
  "rb_find tree item = (case rb_search (rb_cmp tree) item [] (rb_root tree) of
     Found _ _ a _ _ \<Rightarrow> Some a | Hole _ \<Rightarrow> None)"
  by (simp add: rb_find_def rb_find_node_search [of _ _ _ "[]"])

text \<open>The operations on well-formed tables, as the users of the table need them.\<close>

lemma rb_probe_spec:
  assumes "rb_order (rb_cmp tree)" and "rb_ok tree"
  shows "case rb_find tree item of
      Some a \<Rightarrow> rb_probe True tree item = (tree, Probe_Dup a)
    | None \<Rightarrow> (\<exists>tree'. rb_probe True tree item = (tree', Probe_New) \<and> rb_ok tree'
        \<and> rb_items tree' = filter (\<lambda>b. 0 < rb_cmp tree item b) (rb_items tree) @ item
            # filter (\<lambda>b. rb_cmp tree item b < 0) (rb_items tree))"
  using rb_probe_new [OF assms]
  by (cases "rb_search (rb_cmp tree) item [] (rb_root tree)")
    (auto simp: rb_find_search, auto simp: rb_probe_def)

lemma rb_delete_spec:
  assumes "rb_order (rb_cmp tree)" and "rb_ok tree"
  shows "\<exists>tree'. rb_delete tree item = Some (tree', rb_find tree item) \<and> rb_ok tree'
    \<and> rb_items tree' = filter (\<lambda>b. rb_cmp tree item b \<noteq> 0) (rb_items tree)"
proof (cases "rb_search (rb_cmp tree) item [] (rb_root tree)")
  case (Found fs l a c r)
  with rb_delete_found [OF assms Found] show ?thesis by (simp add: rb_find_search)
next
  case (Hole fs)
  have srt: "sorted_wrt (\<lambda>a b. rb_cmp tree a b < 0) (inorder (rb_root tree))"
    using assms(2) by (simp add: rb_ok_def rb_items_def)
  have "\<forall>b \<in> set (rb_items tree). rb_cmp tree item b \<noteq> 0"
    using rb_order.rb_search_root(1) [OF assms(1) srt Hole]
      rb_order.splits_at_filter(3) [OF assms(1)] by (auto simp: rb_items_def)
  with Hole assms(2) show ?thesis by (simp add: rb_delete_def rb_find_search)
qed

lemma rb_find_spec:
  assumes "rb_order (rb_cmp tree)" and "rb_ok tree"
  shows "rb_find tree item = find (\<lambda>b. rb_cmp tree item b = 0) (rb_items tree)"
proof -
  have srt: "sorted_wrt (\<lambda>a b. rb_cmp tree a b < 0) (inorder (rb_root tree))"
    using assms(2) by (simp add: rb_ok_def rb_items_def)
  note sp = rb_order.splits_at_filter(3) [OF assms(1)]
  show ?thesis
  proof (cases "rb_search (rb_cmp tree) item [] (rb_root tree)")
    case (Found fs l a c r)
    note r = rb_order.rb_search_root(2) [OF assms(1) srt Found]
    then have "find (\<lambda>b. rb_cmp tree item b = 0) (lefts fs @ inorder l) = None"
      using sp [of item] by (fastforce simp: find_None_iff)
    with r Found show ?thesis
      by (simp add: rb_find_search rb_items_def find_append del: append_assoc inorder_plug)
  next
    case (Hole fs)
    note r = rb_order.rb_search_root(1) [OF assms(1) srt Hole]
    have "find (\<lambda>b. rb_cmp tree item b = 0) (inorder (rb_root tree)) = None"
      using r sp [of item "lefts fs" "rights fs"] by (auto simp: find_None_iff)
    with Hole show ?thesis by (simp add: rb_find_search rb_items_def)
  qed
qed

lemma rb_probe_same_cmp:
  "rb_compare (fst (rb_probe ok tree item)) = rb_compare tree"
  "rb_param (fst (rb_probe ok tree item)) = rb_param tree"
  by (auto simp: rb_probe_def split: rb_pos.splits)

lemma rb_delete_same_cmp:
  assumes "rb_delete tree item = Some (tree', res)"
  shows "rb_compare tree' = rb_compare tree" and "rb_param tree' = rb_param tree"
  using assms by (auto simp: rb_delete_def split: rb_pos.splits prod.splits option.splits)

lemma rb_probe_fail:
  "\<lbrakk>rb_find tree item = None\<rbrakk> \<Longrightarrow> rb_probe False tree item = (tree, Probe_Null)"
  using plug_search(2) [of "rb_cmp tree" item "[]" "rb_root tree"]
  by (auto simp: rb_probe_def rb_find_search split: rb_pos.splits)

section \<open>Properties\<close>

text \<open>
  A two-node table of integers, ordered by subtraction, for the witnesses.
\<close>

definition int_table :: "(int, unit) rb_table" where
  "int_table = \<lparr>rb_root = Node (Node NULL 3 RB_RED NULL) 5 RB_BLACK (Node NULL 8 RB_RED NULL),
     rb_compare = (\<lambda>a b _. a - b), rb_param = (), rb_count = 3, rb_generation = 3\<rparr>"

lemma int_table_order: "rb_order (rb_cmp int_table)"
  by unfold_locales (simp_all add: rb_cmp_def int_table_def)

lemma int_table_ok: "rb_ok int_table"
  by (simp add: rb_ok_def rb_items_def int_table_def rb_cmp_def)

text \<open>
  C4: insertion.  On a well-formed table and with a lawful comparison \<open>rb_probe\<close> finds the
  duplicate and leaves the table alone, or puts the new item at its place in the order, and the
  result is again a well-formed (red-black, ordered, counted) table.
\<close>

theorem rb_probe_correct:
  assumes "rb_order (rb_cmp tree)" and "rb_ok tree"
  shows "case rb_find tree item of
      Some a \<Rightarrow> rb_probe True tree item = (tree, Probe_Dup a)
    | None \<Rightarrow> (\<exists>tree'. rb_probe True tree item = (tree', Probe_New) \<and> rb_ok tree'
        \<and> rb_items tree' = filter (\<lambda>b. 0 < rb_cmp tree item b) (rb_items tree) @ item
            # filter (\<lambda>b. rb_cmp tree item b < 0) (rb_items tree))"
  using assms by (rule rb_probe_spec)

theorem rb_probe_correct_witness:
  "\<exists>tree'. rb_probe True int_table 4 = (tree', Probe_New) \<and> rb_ok tree'
     \<and> rb_items tree' = [3, 4, 5, 8]"
  using rb_probe_correct [OF int_table_order int_table_ok, of 4]
  by (simp add: rb_find_def rb_cmp_def rb_items_def int_table_def)

text \<open>
  C5: deletion.  On a well-formed table \<open>rb_delete\<close> never dereferences a null pointer, returns the
  item that a lookup finds (null when there is none), removes exactly the items that compare
  equal, and keeps the table well-formed.
\<close>

theorem rb_delete_correct:
  assumes "rb_order (rb_cmp tree)" and "rb_ok tree"
  shows "\<exists>tree'. rb_delete tree item = Some (tree', rb_find tree item) \<and> rb_ok tree'
    \<and> rb_items tree' = filter (\<lambda>b. rb_cmp tree item b \<noteq> 0) (rb_items tree)"
  using assms by (rule rb_delete_spec)

theorem rb_delete_correct_witness:
  "\<exists>tree'. rb_delete int_table 5 = Some (tree', Some 5) \<and> rb_ok tree' \<and> rb_items tree' = [3, 8]"
  using rb_delete_correct [OF int_table_order int_table_ok, of 5]
  by (simp add: rb_find_def rb_cmp_def rb_items_def int_table_def)

text \<open>
  lookup.  \<open>rb_find\<close> returns the first item, in order, that compares equal.
\<close>

theorem rb_find_correct:
  assumes "rb_order (rb_cmp tree)" and "rb_ok tree"
  shows "rb_find tree item = find (\<lambda>b. rb_cmp tree item b = 0) (rb_items tree)"
  using assms by (rule rb_find_spec)

theorem rb_find_correct_witness: "rb_find int_table 8 = Some 8"
  using rb_find_correct [OF int_table_order int_table_ok, of 8]
  by (simp add: rb_items_def int_table_def rb_cmp_def)

text \<open>
  C15: the stacks fit.  In a well-formed table of fewer than \<open>2\<^sup>2\<^sup>3 - 1\<close> items the descents of
  \<open>rb_probe\<close> and \<open>rb_delete\<close>, the entry for the root link and the entry that a red sibling adds
  need at most \<open>RB_MAX_HEIGHT = 48\<close> entries of \<open>pa\<close> and \<open>da\<close>.
\<close>

theorem rb_stack_bound:
  assumes "rb_ok tree" and "Suc (length (rb_items tree)) < 2 ^ 23"
  shows "stack_depth (rb_search (rb_cmp tree) item [] (rb_root tree)) + 2 \<le> 48"
proof -
  have "rb_height (rb_root tree) < 2 * 23"
    using assms rb_height_log [of "rb_root tree" 23] by (simp add: rb_ok_def rb_items_def)
  then show ?thesis
    using rb_search_depth [of "rb_cmp tree" item "[]" "rb_root tree"] by simp
qed

theorem rb_stack_bound_witness:
  "stack_depth (rb_search (rb_cmp int_table) 4 [] (rb_root int_table)) + 2 \<le> 48"
  by (rule rb_stack_bound [OF int_table_ok]) (simp add: rb_items_def int_table_def)

text \<open>
  \<open>rb_destroy\<close> terminates and hands every item of the tree to the callback exactly once, in
  order, whatever the shape of the tree.
\<close>

theorem rb_destroy_inorder: "rb_destroy tree = rb_items tree"
  by (simp add: rb_destroy_def rb_items_def rb_destroy_loop_inorder)

end
