(* ===== verification/Lz_List.thy ===== *)
theory Lz_List
  imports Lz_Prelude
begin

text \<open>
  \<^verbatim>\<open>src/src/list.h\<close>: the intrusive circular doubly-linked list.  The store maps the address of a
  \<open>list_head\<close> to its two links; each function of the header is the sequence of stores it does.
  The abstraction is \<open>ring h head xs\<close>: following \<open>next\<close> from \<open>head\<close> visits \<open>xs\<close> and comes back, and
  \<open>prev\<close> is the way back.  The lemmas show every function as an operation on \<open>xs\<close>; the laws that
  the users of the header rely on are the locale \<open>ring_ops\<close>, interpreted for both deletions.
\<close>

section \<open>Stores and operations\<close>

record list_head =
  list_next :: addr
  list_prev :: addr

type_synonym list_store = "addr \<Rightarrow> list_head"

definition set_next :: "addr \<Rightarrow> addr \<Rightarrow> list_store \<Rightarrow> list_store" where
  "set_next a v h = h(a := (h a)\<lparr>list_next := v\<rparr>)"

definition set_prev :: "addr \<Rightarrow> addr \<Rightarrow> list_store \<Rightarrow> list_store" where
  "set_prev a v h = h(a := (h a)\<lparr>list_prev := v\<rparr>)"

definition init_list_head :: "addr \<Rightarrow> list_store \<Rightarrow> list_store" where
  "init_list_head head h = set_next head head (set_prev head head h)"

definition list_add :: "addr \<Rightarrow> addr \<Rightarrow> list_store \<Rightarrow> list_store" where
  "list_add new head h0 =
     (let h1 = set_prev new head h0;
          h2 = set_next new (list_next (h1 head)) h1;
          h3 = set_next (list_prev (h2 new)) new h2
      in set_prev (list_next (h3 new)) new h3)"

definition list_add_tail :: "addr \<Rightarrow> addr \<Rightarrow> list_store \<Rightarrow> list_store" where
  "list_add_tail new head h0 =
     (let h1 = set_next new head h0;
          h2 = set_prev new (list_prev (h1 head)) h1;
          h3 = set_next (list_prev (h2 new)) new h2
      in set_prev (list_next (h3 new)) new h3)"

definition list_unlink :: "addr \<Rightarrow> list_store \<Rightarrow> list_store" where
  "list_unlink old h0 =
     (let h1 = set_next (list_prev (h0 old)) (list_next (h0 old)) h0
      in set_prev (list_next (h1 old)) (list_prev (h1 old)) h1)"

definition list_del :: "addr \<Rightarrow> list_store \<Rightarrow> list_store" where
  "list_del old h = set_prev old 0xcafecafe (set_next old 0xbabebabe (list_unlink old h))"

definition list_del_init :: "addr \<Rightarrow> list_store \<Rightarrow> list_store" where
  "list_del_init old h = set_prev old old (set_next old old (list_unlink old h))"

definition list_move :: "addr \<Rightarrow> addr \<Rightarrow> list_store \<Rightarrow> list_store" where
  "list_move l head h = list_add l head (list_del l h)"

definition list_move_tail :: "addr \<Rightarrow> addr \<Rightarrow> list_store \<Rightarrow> list_store" where
  "list_move_tail l head h = list_add_tail l head (list_del l h)"

definition list_empty :: "addr \<Rightarrow> list_store \<Rightarrow> bool" where
  "list_empty head h \<longleftrightarrow> list_next (h head) = head"

definition list_splice_raw :: "addr \<Rightarrow> addr \<Rightarrow> list_store \<Rightarrow> list_store" where
  "list_splice_raw l head h0 =
     (let h1 = set_next (list_prev (h0 l)) (list_next (h0 head)) h0;
          h2 = set_prev (list_next (h1 head)) (list_prev (h1 l)) h1;
          h3 = set_next head (list_next (h2 l)) h2
      in set_prev (list_next (h3 l)) head h3)"

definition list_splice :: "addr \<Rightarrow> addr \<Rightarrow> list_store \<Rightarrow> list_store" where
  "list_splice l head h = (if list_empty l h then h else list_splice_raw l head h)"

definition list_splice_init :: "addr \<Rightarrow> addr \<Rightarrow> list_store \<Rightarrow> list_store" where
  "list_splice_init l head h =
     (if list_empty l h then h else init_list_head l (list_splice_raw l head h))"

text \<open>
  \<open>list_for_each\<close>: the addresses the loop visits.  The loop may run forever on a store that is no
  ring, so it takes fuel; \<open>None\<close> is running out of it.
\<close>

fun list_for_each :: "nat \<Rightarrow> addr \<Rightarrow> addr \<Rightarrow> list_store \<Rightarrow> addr list option" where
  "list_for_each 0 pos head h = None"
| "list_for_each (Suc fuel) pos head h =
     (if pos = head then Some []
      else map_option (Cons pos) (list_for_each fuel (list_next (h pos)) head h))"

section \<open>Rings\<close>

fun seg :: "list_store \<Rightarrow> addr \<Rightarrow> addr list \<Rightarrow> addr \<Rightarrow> bool" where
  "seg h a [] b \<longleftrightarrow> list_next (h a) = b \<and> list_prev (h b) = a"
| "seg h a (x # xs) b \<longleftrightarrow> list_next (h a) = x \<and> list_prev (h x) = a \<and> seg h x xs b"

definition ring :: "list_store \<Rightarrow> addr \<Rightarrow> addr list \<Rightarrow> bool" where
  "ring h head xs \<longleftrightarrow> distinct (head # xs) \<and> seg h head xs head"

lemmas link_defs = set_next_def set_prev_def

lemma set_links_simps [simp]:
  "list_next (set_next a v h b) = (if b = a then v else list_next (h b))"
  "list_prev (set_next a v h b) = list_prev (h b)"
  "list_prev (set_prev a v h b) = (if b = a then v else list_prev (h b))"
  "list_next (set_prev a v h b) = list_next (h b)"
  by (auto simp: link_defs)

lemma seg_append: "seg h a (xs @ y # ys) b \<longleftrightarrow> seg h a xs y \<and> seg h y ys b"
  by (induction xs arbitrary: a) auto

lemma seg_cong:
  assumes "\<And>c. c = a \<or> c \<in> set xs \<Longrightarrow> list_next (h' c) = list_next (h c)"
    and "\<And>c. c = b \<or> c \<in> set xs \<Longrightarrow> list_prev (h' c) = list_prev (h c)"
  shows "seg h' a xs b = seg h a xs b"
  using assms by (induction xs arbitrary: a) auto

lemma ring_cong: "(\<And>c. c \<in> set (head # xs) \<Longrightarrow> h' c = h c) \<Longrightarrow> ring h' head xs = ring h head xs"
  using seg_cong [of head xs h' h head] by (auto simp: ring_def)

lemma seg_next_last: "seg h a xs b \<Longrightarrow> list_prev (h b) = last (a # xs)"
  by (induction xs arbitrary: a) auto

lemma seg_next_hd: "seg h a xs b \<Longrightarrow> list_next (h a) = hd (xs @ [b])"
  by (cases xs) auto

text \<open>The links around an element that splits a ring.\<close>

lemma ring_next: "ring h head xs \<Longrightarrow> list_next (h head) = hd (xs @ [head])"
  by (simp add: ring_def seg_next_hd)

lemma ring_prev: "ring h head xs \<Longrightarrow> list_prev (h head) = last (head # xs)"
  unfolding ring_def by (rule seg_next_last) simp

lemma ring_list_empty: "ring h head xs \<Longrightarrow> list_empty head h \<longleftrightarrow> xs = []"
  by (cases xs) (auto simp: ring_def list_empty_def)

lemma ring_init: "ring (init_list_head head h) head []"
  by (simp add: ring_def init_list_head_def)

lemma list_for_each_seg:
  "\<lbrakk>seg h a xs b; distinct (xs @ [b]); length xs < fuel\<rbrakk>
   \<Longrightarrow> list_for_each fuel (list_next (h a)) b h = Some xs"
  by (induction xs arbitrary: a fuel; case_tac fuel) auto

lemma ring_list_add:
  assumes "ring h head xs" and "new \<notin> set (head # xs)"
  shows "ring (list_add new head h) head (new # xs)"
proof (cases xs)
  case Nil with assms show ?thesis by (auto simp: ring_def list_add_def Let_def)
next
  case (Cons x ys)
  have s: "seg h x ys head" "list_next (h head) = x" "list_prev (h x) = head"
    using assms(1) unfolding Cons ring_def by auto
  have "seg (list_add new head h) x ys head = seg h x ys head"
    using assms Cons s by (intro seg_cong) (auto simp: ring_def list_add_def Let_def)
  with assms s show ?thesis unfolding Cons by (auto simp: ring_def list_add_def Let_def)
qed

lemma ring_list_add_tail:
  assumes "ring h head xs" and "new \<notin> set (head # xs)"
  shows "ring (list_add_tail new head h) head (xs @ [new])"
proof (cases xs rule: rev_cases)
  case Nil with assms show ?thesis by (auto simp: ring_def list_add_tail_def Let_def)
next
  case (snoc ys y)
  have s: "seg h head ys y" "list_next (h y) = head" "list_prev (h head) = y"
    using assms(1) unfolding snoc ring_def by (auto simp: seg_append)
  have "seg (list_add_tail new head h) head ys y = seg h head ys y"
    using assms snoc s by (intro seg_cong) (auto simp: ring_def list_add_tail_def Let_def)
  with assms s show ?thesis
    unfolding snoc by (auto simp: ring_def list_add_tail_def Let_def seg_append)
qed

lemma seg_redirect:
  "\<lbrakk>seg h a xs y; distinct (a # xs); q \<notin> set xs\<rbrakk>
   \<Longrightarrow> seg (set_prev q (last (a # xs)) (set_next (last (a # xs)) q h)) a xs q"
  by (induction xs arbitrary: a) (auto split: if_splits)

lemma ring_unlink:
  assumes "ring h head (xs @ old # ys)"
  shows "ring (list_unlink old h) head (xs @ ys)"
proof -
  let ?p = "last (head # xs)" and ?q = "hd (ys @ [head])"
  have seg: "seg h head xs old" "seg h old ys head" and dist: "distinct (head # xs @ old # ys)"
    using assms by (auto simp: ring_def seg_append)
  have links: "list_prev (h old) = ?p" "list_next (h old) = ?q"
    using seg_next_last [OF seg(1)] seg_next_hd [OF seg(2)] by simp_all
  have "?p \<in> set (head # xs)" by (rule last_in_set) simp
  with dist have p: "?p \<noteq> old" "?p \<notin> set ys" by fastforce+
  from p(1) have unl: "list_unlink old h = set_prev ?q ?p (set_next ?p ?q h)"
    by (simp add: list_unlink_def Let_def links)
  have first: "seg (set_prev ?q ?p (set_next ?p ?q h)) head xs ?q"
    using dist seg by (intro seg_redirect [OF seg(1)]) (auto simp: hd_append)
  show ?thesis
  proof (cases ys)
    case Nil with first dist show ?thesis by (simp add: unl ring_def)
  next
    case (Cons q zs)
    from p(2) Cons dist have "seg (set_prev ?q ?p (set_next ?p ?q h)) q zs head = seg h q zs head"
      by (intro seg_cong) auto
    then show ?thesis using first dist seg(2) Cons by (simp add: unl ring_def seg_append)
  qed
qed

lemma ring_set_other:
  assumes "ring h head xs" and "a \<notin> set (head # xs)"
  shows "ring (set_next a v h) head xs" and "ring (set_prev a v h) head xs"
proof -
  have "set_next a v h c = h c" and "set_prev a v h c = h c" if "c \<in> set (head # xs)" for c
    using that assms(2) by (auto simp: link_defs)
  then show "ring (set_next a v h) head xs" and "ring (set_prev a v h) head xs"
    using assms(1) ring_cong [of head xs _ h] by blast+
qed

lemma ring_list_del:
  assumes "ring h head (xs @ old # ys)"
  shows "ring (list_del old h) head (xs @ ys)" and "ring (list_del_init old h) head (xs @ ys)"
proof -
  have "old \<notin> set (head # xs @ ys)" using assms by (auto simp: ring_def)
  with ring_unlink [OF assms] show "ring (list_del old h) head (xs @ ys)"
    and "ring (list_del_init old h) head (xs @ ys)"
    unfolding list_del_def list_del_init_def by (blast intro: ring_set_other)+
qed

lemma ring_list_del_init_self: "ring (list_del_init old h) old []"
  by (simp add: ring_def list_del_init_def)

text \<open>Frames: addresses an operation does not write.\<close>

lemma list_add_frame:
  "a \<notin> {new, head, list_next (h head)} \<Longrightarrow> new \<noteq> head \<Longrightarrow> list_add new head h a = h a"
  by (auto simp: list_add_def Let_def link_defs)

lemma list_add_tail_frame:
  "a \<notin> {new, head, list_prev (h head)} \<Longrightarrow> new \<noteq> head \<Longrightarrow> list_add_tail new head h a = h a"
  by (auto simp: list_add_tail_def Let_def link_defs)

lemma list_unlink_frame:
  "a \<notin> {old, list_prev (h old), list_next (h old)} \<Longrightarrow> list_unlink old h a = h a"
  by (auto simp: list_unlink_def Let_def link_defs)

lemma list_del_frame:
  "a \<notin> {old, list_prev (h old), list_next (h old)} \<Longrightarrow>
     list_del old h a = h a \<and> list_del_init old h a = h a"
  using list_unlink_frame [of a old h] by (auto simp: list_del_def list_del_init_def link_defs)

lemma hd_snoc_in: "hd (xs @ [a]) \<in> set (a # xs)"
  by (cases xs) auto

lemma last_Cons_in: "last (a # xs) \<in> set (a # xs)"
  by (rule last_in_set) simp

lemma ring_neighbours:
  assumes "ring h head (xs @ old # ys)"
  shows "{list_prev (h old), list_next (h old)} \<subseteq> set (head # xs @ ys)"
proof -
  have "seg h head xs old" "seg h old ys head"
    using assms by (auto simp: ring_def seg_append)
  then show ?thesis
    using seg_next_last [of h head xs old] seg_next_hd [of h old ys head]
      last_Cons_in [of head xs] hd_snoc_in [of ys head] by auto
qed

text \<open>A ring that shares no node with the one an operation works on stays as it is.\<close>

lemma list_add_other:
  assumes "ring h head xs" and "new \<notin> set (head # xs)" and "ring h head' zs"
    and "set (head' # zs) \<inter> set (new # head # xs) = {}"
  shows "ring (list_add new head h) head' zs" and "ring (list_add_tail new head h) head' zs"
proof -
  have "{list_next (h head), list_prev (h head)} \<subseteq> set (head # xs)"
    using ring_next [OF assms(1)] ring_prev [OF assms(1)] hd_snoc_in [of xs head] last_Cons_in [of head xs]
    by simp
  then have fr: "list_add new head h c = h c" "list_add_tail new head h c = h c"
    if "c \<in> set (head' # zs)" for c
    using assms(2,4) that
    by (intro list_add_frame list_add_tail_frame; auto)+
  show "ring (list_add new head h) head' zs"
    using assms(3) ring_cong [of head' zs "list_add new head h" h] fr(1) by blast
  show "ring (list_add_tail new head h) head' zs"
    using assms(3) ring_cong [of head' zs "list_add_tail new head h" h] fr(2) by blast
qed

lemma list_del_other:
  assumes "ring h head (xs @ old # ys)" and "ring h head' zs"
    and "set (head' # zs) \<inter> set (head # xs @ old # ys) = {}"
  shows "ring (list_del old h) head' zs" and "ring (list_del_init old h) head' zs"
proof -
  have fr: "list_del old h c = h c \<and> list_del_init old h c = h c" if "c \<in> set (head' # zs)" for c
    using assms(3) that ring_neighbours [OF assms(1)] by (intro list_del_frame) auto
  show "ring (list_del old h) head' zs"
    using assms(2) ring_cong [of head' zs "list_del old h" h] fr by blast
  show "ring (list_del_init old h) head' zs"
    using assms(2) ring_cong [of head' zs "list_del_init old h" h] fr by blast
qed

lemma ring_splice_raw:
  assumes "ring h l xs" and "xs \<noteq> []" and "ring h head ys"
    and "set (l # xs) \<inter> set (head # ys) = {}"
  shows "ring (list_splice_raw l head h) head (xs @ ys)"
proof -
  obtain x xs' where xs: "xs = x # xs'" using assms(2) by (cases xs) auto
  let ?z = "last (l # xs)" and ?q = "hd (ys @ [head])"
  have z: "?z \<in> set xs" using xs by simp
  have q: "?q \<in> set (head # ys)" by (rule hd_snoc_in)
  have dist: "distinct (l # xs)" "distinct (head # ys)" and seg: "seg h l xs l" "seg h head ys head"
    using assms by (auto simp: ring_def)
  have links: "list_prev (h l) = ?z" "list_next (h l) = x" "list_next (h head) = ?q"
    using ring_prev [OF assms(1)] ring_next [OF assms(1)] ring_next [OF assms(3)] xs by simp_all
  define h2 where "h2 = set_prev ?q ?z (set_next ?z ?q h)"
  have h4: "list_splice_raw l head h = set_prev x head (set_next head x h2)"
    using z q links assms(4) dist by (auto simp: list_splice_raw_def h2_def Let_def)
  have "seg h2 l xs ?q"
    unfolding h2_def using seg(1) dist q assms(4) by (intro seg_redirect) auto
  then have "seg h2 x xs' ?q" by (simp add: xs)
  moreover have "seg (set_prev x head (set_next head x h2)) x xs' ?q = seg h2 x xs' ?q"
    using dist q assms(4) xs by (intro seg_cong) auto
  ultimately have first: "seg (list_splice_raw l head h) head xs ?q"
    by (simp add: h4 xs)
  show ?thesis
  proof (cases ys)
    case Nil with first dist assms(4) show ?thesis by (auto simp: ring_def)
  next
    case (Cons q ys')
    have "seg (list_splice_raw l head h) q ys' head = seg h q ys' head"
      unfolding h4 h2_def using Cons dist z assms(4) xs by (intro seg_cong) auto
    with first seg(2) dist assms(4) Cons show ?thesis by (auto simp: ring_def seg_append)
  qed
qed

lemma ring_splice:
  assumes "ring h l xs" and "ring h head ys" and "set (l # xs) \<inter> set (head # ys) = {}"
  shows "ring (list_splice l head h) head (xs @ ys)"
    and "ring (list_splice_init l head h) head (xs @ ys)"
    and "ring (list_splice_init l head h) l []"
proof -
  have l: "l \<notin> set (head # xs @ ys)" using assms by (auto simp: ring_def)
  show "ring (list_splice l head h) head (xs @ ys)"
    using assms ring_splice_raw [of h l xs head ys] ring_list_empty [OF assms(1)]
    by (auto simp: list_splice_def)
  show "ring (list_splice_init l head h) head (xs @ ys)"
    using assms ring_splice_raw [of h l xs head ys] ring_list_empty [OF assms(1)] l
    by (auto simp: list_splice_init_def init_list_head_def intro!: ring_set_other)
  show "ring (list_splice_init l head h) l []"
    using assms(1) ring_init ring_list_empty [OF assms(1)] by (auto simp: list_splice_init_def)
qed

section \<open>The interface the users of the header rely on\<close>

locale ring_ops =
  fixes add :: "addr \<Rightarrow> addr \<Rightarrow> list_store \<Rightarrow> list_store"
    and del :: "addr \<Rightarrow> list_store \<Rightarrow> list_store"
    and place :: "addr \<Rightarrow> addr list \<Rightarrow> addr list"
  assumes add_ring: "\<lbrakk>ring h head xs; new \<notin> set (head # xs)\<rbrakk> \<Longrightarrow> ring (add new head h) head (place new xs)"
    and add_other: "\<lbrakk>ring h head xs; new \<notin> set (head # xs); ring h head' zs;
        set (head' # zs) \<inter> set (new # head # xs) = {}\<rbrakk> \<Longrightarrow> ring (add new head h) head' zs"
    and del_ring: "ring h head (xs @ old # ys) \<Longrightarrow> ring (del old h) head (xs @ ys)"
    and del_other: "\<lbrakk>ring h head (xs @ old # ys); ring h head' zs;
        set (head' # zs) \<inter> set (head # xs @ old # ys) = {}\<rbrakk> \<Longrightarrow> ring (del old h) head' zs"
begin

text \<open>Moving an element inside its ring, and from one ring to another.\<close>

lemma move_same:
  assumes "ring h head (xs @ x # ys)"
  shows "ring (add x head (del x h)) head (place x (xs @ ys))"
proof -
  have "x \<notin> set (head # xs @ ys)" using assms by (auto simp: ring_def)
  then show ?thesis using add_ring [OF del_ring [OF assms]] by simp
qed

lemma move_between:
  assumes "ring h src (xs @ x # ys)" and "ring h dst zs"
    and "set (dst # zs) \<inter> set (src # xs @ x # ys) = {}"
  shows "ring (add x dst (del x h)) src (xs @ ys)"
    and "ring (add x dst (del x h)) dst (place x zs)"
proof -
  have x: "x \<notin> set (dst # zs)" "x \<notin> set (src # xs @ ys)"
    using assms by (auto simp: ring_def)
  have d: "ring (del x h) dst zs" by (rule del_other [OF assms])
  show "ring (add x dst (del x h)) dst (place x zs)" by (rule add_ring [OF d x(1)])
  show "ring (add x dst (del x h)) src (xs @ ys)"
    by (rule add_other [OF d x(1) del_ring [OF assms(1)]]) (use assms(3) x in auto)
qed

end

interpretation front: ring_ops list_add list_del "\<lambda>x xs. x # xs"
  by unfold_locales (blast intro: ring_list_add list_add_other ring_list_del list_del_other)+

interpretation rear: ring_ops list_add_tail list_del "\<lambda>x xs. xs @ [x]"
  by unfold_locales (blast intro: ring_list_add_tail list_add_other ring_list_del list_del_other)+

interpretation front_init: ring_ops list_add list_del_init "\<lambda>x xs. x # xs"
  by unfold_locales (blast intro: ring_list_add list_add_other ring_list_del list_del_other)+

section \<open>Properties\<close>

text \<open>A store with the ring 10, 11, 12 and the ring 20, 21, for the witnesses.\<close>

definition two_rings :: list_store where
  "two_rings = (\<lambda>a.
     if a = 10 then \<lparr>list_next = 11, list_prev = 12\<rparr>
     else if a = 11 then \<lparr>list_next = 12, list_prev = 10\<rparr>
     else if a = 12 then \<lparr>list_next = 10, list_prev = 11\<rparr>
     else if a = 20 then \<lparr>list_next = 21, list_prev = 21\<rparr>
     else \<lparr>list_next = 20, list_prev = 20\<rparr>)"

lemma two_rings_rings: "ring two_rings 10 ([] @ 11 # [12])" "ring two_rings 20 [21]"
  by (simp_all add: ring_def two_rings_def)

text \<open>
  C11: the header refines sequences.  On a ring, adding at the head or the tail, deleting (with or
  without re-initialising) and moving an element to the head or the tail of a disjoint ring are
  the sequence operations, and the other ring of a move loses exactly that element.
\<close>

theorem list_ops_refine:
  assumes "ring h src (xs @ x # ys)" and "ring h dst zs"
    and "set (dst # zs) \<inter> set (src # xs @ x # ys) = {}"
    and "new \<notin> set (dst # zs)"
  shows "ring (list_add new dst h) dst (new # zs) \<and> ring (list_add_tail new dst h) dst (zs @ [new])
    \<and> ring (list_del x h) src (xs @ ys)
    \<and> ring (list_del_init x h) src (xs @ ys) \<and> ring (list_del_init x h) x []
    \<and> ring (list_move x dst h) src (xs @ ys) \<and> ring (list_move x dst h) dst (x # zs)
    \<and> ring (list_move_tail x dst h) src (xs @ ys) \<and> ring (list_move_tail x dst h) dst (zs @ [x])"
  unfolding list_move_def list_move_tail_def
  using assms(4) ring_list_del [OF assms(1)] front.move_between [OF assms(1-3)]
    rear.move_between [OF assms(1-3)] ring_list_add [OF assms(2)] ring_list_add_tail [OF assms(2)]
    ring_list_del_init_self [of x h]
  by blast

theorem list_ops_refine_witness:
  "ring (list_move_tail 11 20 two_rings) 20 [21, 11] \<and> ring (list_move_tail 11 20 two_rings) 10 [12]"
  using list_ops_refine [OF two_rings_rings, of 30] by simp

text \<open>
  splicing puts the elements of one ring, in order, before those of another, and
  \<open>list_splice_init\<close> leaves the source empty.
\<close>

theorem list_splice_refine:
  assumes "ring h l xs" and "ring h head ys" and "set (l # xs) \<inter> set (head # ys) = {}"
  shows "ring (list_splice l head h) head (xs @ ys)
    \<and> ring (list_splice_init l head h) head (xs @ ys) \<and> ring (list_splice_init l head h) l []"
  using ring_splice [OF assms] by blast

theorem list_splice_refine_witness:
  "ring (list_splice_init 10 20 two_rings) 20 [11, 12, 21]"
  using list_splice_refine [OF two_rings_rings] by simp

text \<open>
  \<open>list_for_each\<close> over a ring terminates and visits its elements in order.
\<close>

theorem list_for_each_visits:
  assumes "ring h head xs" and "length xs < fuel"
  shows "list_for_each fuel (list_next (h head)) head h = Some xs"
  using assms list_for_each_seg [of h head xs head fuel] by (auto simp: ring_def)

theorem list_for_each_visits_witness:
  "list_for_each 3 (list_next (two_rings 10)) 10 two_rings = Some [11, 12]"
  using list_for_each_visits [OF two_rings_rings(1), of 3] by simp

end
