(* ===== verification/Lz_Mem_Pool.thy ===== *)
theory Lz_Mem_Pool
  imports Lz_List
begin

text \<open>
  \<^verbatim>\<open>src/src/mem-pool.c\<close>, \<^verbatim>\<open>src/src/mem-pool.h\<close>: a slab of \<open>count\<close> chunks, each a \<open>list_head\<close>
  followed by the object, with the free chunks on a list; when the slab is used up objects come
  from \<^verbatim>\<open>malloc\<close>.  The store of links is that of the list theory, so the free list is the real
  pointer structure.  Addresses are natural numbers, \<open>0\<close> is the null pointer, and what
  \<^verbatim>\<open>CALLOC\<close> and \<^verbatim>\<open>MALLOC\<close> return is an argument.  The theory shows that the pool keeps its free
  list, its counters and the disjointness of the objects it hands out through every run.
\<close>

section \<open>Data\<close>

record mem_pool =
  mp_list :: addr
  hot_count :: int
  cold_count :: int
  padded_sizeof_type :: nat
  mp_pool :: addr
  mp_pool_end :: addr
  real_sizeof_type :: int

text \<open>\<open>sizeof (struct list_head)\<close> on a 64-bit machine.\<close>

definition pad_boundary :: nat where
  "pad_boundary = 16"

definition mem_pool_chunkhead2ptr :: "addr \<Rightarrow> addr" where
  "mem_pool_chunkhead2ptr head = head + pad_boundary"

definition mem_pool_ptr2chunkhead :: "addr \<Rightarrow> addr" where
  "mem_pool_ptr2chunkhead ptr = ptr - pad_boundary"

text \<open>Conversion of an \<^verbatim>\<open>unsigned long\<close> to \<^verbatim>\<open>int\<close>.\<close>

definition to_cint :: "nat \<Rightarrow> int" where
  "to_cint n = signed_take_bit 31 (int n)"

section \<open>Operations\<close>

fun mem_pool_link_chunks :: "nat \<Rightarrow> nat \<Rightarrow> addr \<Rightarrow> nat \<Rightarrow> addr \<Rightarrow> list_store \<Rightarrow> list_store" where
  "mem_pool_link_chunks i 0 pool padded head h = h"
| "mem_pool_link_chunks i (Suc n) pool padded head h =
     (let l = pool + i * padded
      in mem_pool_link_chunks (Suc i) n pool padded head
           (list_add_tail l head (init_list_head l h)))"

text \<open>
  \<open>mp\<close> is the result of the allocation of the structure, with its list head at that address, and
  \<open>pool\<close> that of the slab.
\<close>

definition mem_pool_new_fn ::
  "nat \<Rightarrow> nat \<Rightarrow> addr \<Rightarrow> addr \<Rightarrow> list_store \<Rightarrow> list_store \<times> mem_pool option" where
  "mem_pool_new_fn sizeof_type count mp pool h =
     (if sizeof_type = 0 \<or> count = 0 then (h, None)
      else
        let padded = (sizeof_type + pad_boundary) mod 2 ^ 64
        in if mp = 0 then (h, None)
           else
             let h1 = init_list_head mp h
             in if pool = 0 then (h1, None)
                else (mem_pool_link_chunks 0 count pool padded mp h1,
                      Some \<lparr>mp_list = mp, hot_count = 0, cold_count = to_cint count,
                            padded_sizeof_type = padded, mp_pool = pool,
                            mp_pool_end = pool + count * padded,
                            real_sizeof_type = to_cint sizeof_type\<rparr>))"

text \<open>
  \<open>m\<close> is the result of \<^verbatim>\<open>MALLOC\<close>, used when no cold chunk is left; a null pool gives the null
  pointer.
\<close>

fun mem_get ::
  "addr \<Rightarrow> mem_pool option \<Rightarrow> list_store \<Rightarrow> list_store \<times> mem_pool option \<times> addr" where
  "mem_get m None h = (h, None, 0)"
| "mem_get m (Some mem_pool) h =
     (if cold_count mem_pool \<noteq> 0 then
        let l = list_next (h (mp_list mem_pool))
        in (list_del l h,
            Some (mem_pool\<lparr>hot_count := hot_count mem_pool + 1,
                           cold_count := cold_count mem_pool - 1\<rparr>),
            mem_pool_chunkhead2ptr l)
      else (h, Some mem_pool, m))"

text \<open>
  The difference of the pointers is converted to \<^verbatim>\<open>unsigned long\<close> before the remainder is taken.
\<close>

definition is_member :: "mem_pool \<Rightarrow> addr \<Rightarrow> int" where
  "is_member pool ptr =
     (if ptr = 0 then -1
      else if ptr < mp_pool pool \<or> mp_pool_end pool \<le> ptr then 0
      else if ((int ptr - int pad_boundary - int (mp_pool pool)) mod 2 ^ 64)
                mod int (padded_sizeof_type pool) \<noteq> 0 then -1
      else 1)"

datatype put_outcome = Put_Done | Put_Abort | Put_Free addr

fun mem_put ::
  "mem_pool option \<Rightarrow> addr \<Rightarrow> list_store \<Rightarrow> list_store \<times> mem_pool option \<times> put_outcome" where
  "mem_put None ptr h = (h, None, Put_Done)"
| "mem_put (Some pool) ptr h =
     (if ptr = 0 then (h, Some pool, Put_Done)
      else if is_member pool ptr = 1 then
        (list_add (mem_pool_ptr2chunkhead ptr) (mp_list pool) h,
         Some (pool\<lparr>hot_count := hot_count pool - 1, cold_count := cold_count pool + 1\<rparr>), Put_Done)
      else if is_member pool ptr = -1 then (h, Some pool, Put_Abort)
      else (h, Some pool, Put_Free ptr))"

text \<open>\<open>mem_pool_destroy\<close> frees the slab and the structure: the addresses it frees.\<close>

fun mem_pool_destroy :: "mem_pool option \<Rightarrow> addr list" where
  "mem_pool_destroy None = []"
| "mem_pool_destroy (Some pool) = [mp_pool pool, mp_list pool]"

section \<open>The invariant\<close>

definition chunk :: "mem_pool \<Rightarrow> nat \<Rightarrow> addr" where
  "chunk pool i = mp_pool pool + i * padded_sizeof_type pool"

definition pool_geometry :: "nat \<Rightarrow> mem_pool \<Rightarrow> bool" where
  "pool_geometry n pool \<longleftrightarrow> pad_boundary < padded_sizeof_type pool
     \<and> mp_pool_end pool = mp_pool pool + n * padded_sizeof_type pool
     \<and> mp_pool_end pool < 2 ^ 64 \<and> 0 < mp_pool pool
     \<and> (mp_list pool < mp_pool pool \<or> mp_pool_end pool \<le> mp_list pool)"

text \<open>
  \<open>free\<close> are the indices of the free chunks in list order, \<open>used\<close> those handed out.
\<close>

definition pool_inv :: "nat \<Rightarrow> mem_pool \<Rightarrow> list_store \<Rightarrow> nat list \<Rightarrow> nat set \<Rightarrow> bool" where
  "pool_inv n pool h free used \<longleftrightarrow>
     ring h (mp_list pool) (map (chunk pool) free)
     \<and> set free \<union> used = {..<n} \<and> set free \<inter> used = {} \<and> distinct free
     \<and> cold_count pool = int (length free) \<and> hot_count pool = int (card used)"

lemma chunk_inj: "pool_geometry n pool \<Longrightarrow> chunk pool i = chunk pool j \<longleftrightarrow> i = j"
  by (auto simp: chunk_def pool_geometry_def)

lemma chunk_range:
  assumes "pool_geometry n pool" and "i < n"
  shows "mp_pool pool \<le> chunk pool i" and "chunk pool i + padded_sizeof_type pool \<le> mp_pool_end pool"
proof -
  have "Suc i * padded_sizeof_type pool \<le> n * padded_sizeof_type pool"
    using assms(2) by (intro mult_le_mono1) simp
  then show "chunk pool i + padded_sizeof_type pool \<le> mp_pool_end pool"
    using assms(1) by (simp add: chunk_def pool_geometry_def)
qed (simp add: chunk_def)

lemma is_member_chunk:
  assumes "pool_geometry n pool" and "i < n"
  shows "is_member pool (mem_pool_chunkhead2ptr (chunk pool i)) = 1"
proof -
  have r: "mp_pool pool \<le> chunk pool i" "chunk pool i + padded_sizeof_type pool \<le> mp_pool_end pool"
    using chunk_range [OF assms] by auto
  have g: "pad_boundary < padded_sizeof_type pool" "0 < mp_pool pool" "mp_pool_end pool < 2 ^ 64"
    using assms(1) by (auto simp: pool_geometry_def)
  have "int (chunk pool i + pad_boundary) - int pad_boundary - int (mp_pool pool)
      = int (i * padded_sizeof_type pool)"
    by (simp add: chunk_def)
  moreover have "int (i * padded_sizeof_type pool) mod 2 ^ 64 = int (i * padded_sizeof_type pool)"
  proof (rule mod_pos_pos_trivial)
    have "i * padded_sizeof_type pool < 2 ^ 64" using r g by (simp add: chunk_def)
    then show "int (i * padded_sizeof_type pool) < 2 ^ 64"
      by (metis of_nat_less_iff of_nat_numeral of_nat_power)
  qed simp
  ultimately show ?thesis
    using r g by (simp add: is_member_def mem_pool_chunkhead2ptr_def)
qed

lemma chunk_ptr_inverse [simp]: "mem_pool_ptr2chunkhead (mem_pool_chunkhead2ptr a) = a"
  by (simp add: mem_pool_ptr2chunkhead_def mem_pool_chunkhead2ptr_def)

lemma is_member_outside:
  "\<lbrakk>ptr \<noteq> 0; ptr < mp_pool pool \<or> mp_pool_end pool \<le> ptr\<rbrakk> \<Longrightarrow> is_member pool ptr = 0"
  by (auto simp: is_member_def)

lemma list_not_chunk:
  assumes "pool_geometry n pool" and "i < n"
  shows "mp_list pool \<noteq> chunk pool i"
  using chunk_range [OF assms] assms(1) by (auto simp: pool_geometry_def pad_boundary_def)

text \<open>The loop of \<open>mem_pool_new_fn\<close> appends the chunks in address order.\<close>

lemma init_list_head_other: "a \<noteq> l \<Longrightarrow> init_list_head l h a = h a"
  by (simp add: init_list_head_def link_defs)

lemma mem_pool_link_chunks_ring:
  assumes "ring h head (map (\<lambda>k. pool + k * padded) [0..<i])" and "0 < padded"
    and "\<And>k. k < i + n \<Longrightarrow> head \<noteq> pool + k * padded"
  shows "ring (mem_pool_link_chunks i n pool padded head h) head
           (map (\<lambda>k. pool + k * padded) [0..<i + n])"
  using assms
proof (induction n arbitrary: i h)
  case (Suc n)
  let ?l = "pool + i * padded"
  let ?xs = "map (\<lambda>k. pool + k * padded) [0..<i]"
  have new: "?l \<notin> set (head # ?xs)"
    using Suc.prems(2) Suc.prems(3) [of i] by auto
  have "ring (init_list_head ?l h) head ?xs"
    using Suc.prems(1) new ring_cong [of head ?xs "init_list_head ?l h" h]
    by (metis init_list_head_other)
  from ring_list_add_tail [OF this new]
  have "ring (list_add_tail ?l head (init_list_head ?l h)) head
          (map (\<lambda>k. pool + k * padded) [0..<Suc i])" by simp
  from Suc.IH [OF this Suc.prems(2)] Suc.prems(3) show ?case by (simp add: Let_def)
qed simp

lemma to_cint_small: "n < 2 ^ 31 \<Longrightarrow> to_cint n = int n"
  by (simp add: to_cint_def signed_take_bit_int_eq_self)

text \<open>What \<open>CALLOC\<close> promises for the two allocations of \<open>mem_pool_new_fn\<close>.\<close>

definition new_args_ok :: "nat \<Rightarrow> nat \<Rightarrow> addr \<Rightarrow> addr \<Rightarrow> bool" where
  "new_args_ok sizeof_type count mp pool \<longleftrightarrow>
     0 < sizeof_type \<and> 0 < count \<and> count < 2 ^ 31 \<and> mp \<noteq> 0 \<and> pool \<noteq> 0
     \<and> pool + count * (sizeof_type + pad_boundary) < 2 ^ 64
     \<and> (mp < pool \<or> pool + count * (sizeof_type + pad_boundary) \<le> mp)"

lemma mem_pool_new_fn_inv:
  assumes "new_args_ok sizeof_type count mp pool"
  obtains h' p where "mem_pool_new_fn sizeof_type count mp pool h = (h', Some p)"
    and "pool_geometry count p" and "pool_inv count p h' [0..<count] {}"
proof -
  let ?w = "sizeof_type + pad_boundary"
  have "?w \<le> count * ?w" using assms by (simp add: new_args_ok_def)
  also have "\<dots> < 2 ^ 64" using assms by (simp add: new_args_ok_def)
  finally have w: "?w mod 2 ^ 64 = ?w" by simp
  define p where "p = \<lparr>mp_list = mp, hot_count = 0, cold_count = to_cint count,
      padded_sizeof_type = ?w, mp_pool = pool, mp_pool_end = pool + count * ?w,
      real_sizeof_type = to_cint sizeof_type\<rparr>"
  define h' where "h' = mem_pool_link_chunks 0 count pool ?w mp (init_list_head mp h)"
  have new: "mem_pool_new_fn sizeof_type count mp pool h = (h', Some p)"
    using assms w by (simp add: mem_pool_new_fn_def new_args_ok_def Let_def h'_def p_def)
  have geo: "pool_geometry count p"
    using assms by (auto simp: pool_geometry_def new_args_ok_def p_def)
  have "ring h' mp (map (\<lambda>k. pool + k * ?w) [0..<0 + count])"
    unfolding h'_def
  proof (rule mem_pool_link_chunks_ring)
    fix k assume "k < 0 + count"
    then show "mp \<noteq> pool + k * ?w" using list_not_chunk [OF geo, of k] by (simp add: p_def chunk_def)
  qed (simp_all add: ring_init pad_boundary_def)
  then have "pool_inv count p h' [0..<count] {}"
    using assms by (auto simp: pool_inv_def p_def chunk_def [abs_def] to_cint_small new_args_ok_def)
  with new geo show thesis by (rule that)
qed

section \<open>Getting and putting\<close>

lemma geometry_counts [simp]:
  "pool_geometry n (pool\<lparr>hot_count := a, cold_count := b\<rparr>) = pool_geometry n pool"
  "pool_geometry n (pool\<lparr>hot_count := a\<rparr>) = pool_geometry n pool"
  "chunk (pool\<lparr>hot_count := a, cold_count := b\<rparr>) = chunk pool"
  by (auto simp: pool_geometry_def chunk_def)

lemma mem_get_cold:
  assumes "pool_geometry n pool" and "pool_inv n pool h (i # free) used"
  shows "mem_get m (Some pool) h =
      (list_del (chunk pool i) h,
       Some (pool\<lparr>hot_count := hot_count pool + 1, cold_count := cold_count pool - 1\<rparr>),
       mem_pool_chunkhead2ptr (chunk pool i))"
    and "pool_inv n (pool\<lparr>hot_count := hot_count pool + 1, cold_count := cold_count pool - 1\<rparr>)
           (list_del (chunk pool i) h) free (insert i used)"
proof -
  have r: "ring h (mp_list pool) ([] @ chunk pool i # map (chunk pool) free)"
    and fin: "finite used" and i: "i \<notin> used" "i \<notin> set free"
    using assms(2) finite_subset [of used "{..<n}"] by (auto simp: pool_inv_def)
  have "list_next (h (mp_list pool)) = chunk pool i" using ring_next [OF r] by simp
  then show "mem_get m (Some pool) h =
      (list_del (chunk pool i) h,
       Some (pool\<lparr>hot_count := hot_count pool + 1, cold_count := cold_count pool - 1\<rparr>),
       mem_pool_chunkhead2ptr (chunk pool i))"
    using assms(2) by (simp add: pool_inv_def Let_def)
  show "pool_inv n (pool\<lparr>hot_count := hot_count pool + 1, cold_count := cold_count pool - 1\<rparr>)
           (list_del (chunk pool i) h) free (insert i used)"
    using ring_list_del(1) [OF r] assms(2) fin i by (auto simp: pool_inv_def)
qed

lemma mem_get_hot:
  "pool_inv n pool h [] used \<Longrightarrow> mem_get m (Some pool) h = (h, Some pool, m)"
  by (simp add: pool_inv_def)

lemma mem_put_chunk:
  assumes geo: "pool_geometry n pool" and inv: "pool_inv n pool h free used" and i: "i \<in> used"
  shows "mem_put (Some pool) (mem_pool_chunkhead2ptr (chunk pool i)) h =
      (list_add (chunk pool i) (mp_list pool) h,
       Some (pool\<lparr>hot_count := hot_count pool - 1, cold_count := cold_count pool + 1\<rparr>), Put_Done)"
    and "pool_inv n (pool\<lparr>hot_count := hot_count pool - 1, cold_count := cold_count pool + 1\<rparr>)
           (list_add (chunk pool i) (mp_list pool) h) (i # free) (used - {i})"
proof -
  have n: "i < n" and fin: "finite used" and nf: "i \<notin> set free"
    using inv i finite_subset [of used "{..<n}"] by (auto simp: pool_inv_def)
  show "mem_put (Some pool) (mem_pool_chunkhead2ptr (chunk pool i)) h =
      (list_add (chunk pool i) (mp_list pool) h,
       Some (pool\<lparr>hot_count := hot_count pool - 1, cold_count := cold_count pool + 1\<rparr>), Put_Done)"
    using is_member_chunk [OF geo n] by (simp add: mem_pool_chunkhead2ptr_def [of "chunk pool i"] pad_boundary_def
        mem_pool_ptr2chunkhead_def)
  have "chunk pool i \<notin> set (mp_list pool # map (chunk pool) free)"
    using list_not_chunk [OF geo n] nf by (auto simp: chunk_inj [OF geo])
  moreover have "card used = Suc (card (used - {i}))"
    using card.remove [OF fin i] by simp
  ultimately show "pool_inv n (pool\<lparr>hot_count := hot_count pool - 1, cold_count := cold_count pool + 1\<rparr>)
           (list_add (chunk pool i) (mp_list pool) h) (i # free) (used - {i})"
    using inv i nf ring_list_add [of h "mp_list pool" "map (chunk pool) free" "chunk pool i"]
    by (auto simp: pool_inv_def)
qed

section \<open>Runs of a pool\<close>

text \<open>
  A client calls \<open>mem_get\<close> at any time and \<open>mem_put\<close> on an object it holds; \<open>live\<close> are the objects it
  holds.  What \<^verbatim>\<open>MALLOC\<close> returns is null or lies outside the slab and is not a live object.
\<close>

inductive pool_reach :: "nat \<Rightarrow> list_store \<Rightarrow> mem_pool \<Rightarrow> addr set \<Rightarrow> bool" for n where
  pool_start: "\<lbrakk>new_args_ok s n mp pl; mem_pool_new_fn s n mp pl h0 = (h, Some p)\<rbrakk>
    \<Longrightarrow> pool_reach n h p {}"
| pool_get: "\<lbrakk>pool_reach n h p live; m \<notin> live; m < mp_pool p \<or> mp_pool_end p \<le> m;
      mem_get m (Some p) h = (h', Some p', ptr)\<rbrakk>
    \<Longrightarrow> pool_reach n h' p' (if ptr = 0 then live else insert ptr live)"
| pool_put: "\<lbrakk>pool_reach n h p live; ptr \<in> live; mem_put (Some p) ptr h = (h', Some p', out)\<rbrakk>
    \<Longrightarrow> pool_reach n h' p' (live - {ptr})"

definition pool_state :: "nat \<Rightarrow> list_store \<Rightarrow> mem_pool \<Rightarrow> addr set \<Rightarrow> nat list \<Rightarrow> nat set \<Rightarrow> addr set \<Rightarrow> bool" where
  "pool_state n h p live free used ext \<longleftrightarrow>
     pool_geometry n p \<and> pool_inv n p h free used
     \<and> live = (\<lambda>i. mem_pool_chunkhead2ptr (chunk p i)) ` used \<union> ext
     \<and> (\<forall>a \<in> ext. a \<noteq> 0 \<and> (a < mp_pool p \<or> mp_pool_end p \<le> a))"

lemma chunk_ptr_inside:
  assumes "pool_geometry n p" and "i < n"
  shows "mp_pool p < mem_pool_chunkhead2ptr (chunk p i)"
    and "mem_pool_chunkhead2ptr (chunk p i) + (padded_sizeof_type p - pad_boundary)
           = chunk p i + padded_sizeof_type p"
    and "mem_pool_chunkhead2ptr (chunk p i) < mp_pool_end p"
  using chunk_range [OF assms] assms(1)
  by (auto simp: mem_pool_chunkhead2ptr_def pool_geometry_def pad_boundary_def)

lemma chunk_ptr_inj:
  "pool_geometry n p \<Longrightarrow>
     mem_pool_chunkhead2ptr (chunk p i) = mem_pool_chunkhead2ptr (chunk p j) \<longleftrightarrow> i = j"
  by (simp add: mem_pool_chunkhead2ptr_def chunk_inj)

lemma pool_used_less: "\<lbrakk>pool_inv n p h free used; i \<in> used\<rbrakk> \<Longrightarrow> i < n"
  by (auto simp: pool_inv_def)

text \<open>Both branches of \<open>mem_get\<close>, from the invariant.\<close>

lemma pool_state_get:
  assumes "pool_state n h p live free used ext" and "m < mp_pool p \<or> mp_pool_end p \<le> m"
    and "mem_get m (Some p) h = (h', Some p', ptr)"
  shows "\<exists>free' used' ext'. pool_state n h' p' (if ptr = 0 then live else insert ptr live) free' used' ext'
      \<and> (free = [] \<longrightarrow> ptr = m \<and> h' = h \<and> p' = p) \<and> (free \<noteq> [] \<longrightarrow> ptr \<notin> live \<and> ptr \<noteq> 0)"
proof (cases free)
  case Nil
  with assms have "h' = h" "p' = p" "ptr = m"
    using mem_get_hot [of n p h used m] by (auto simp: pool_state_def simp del: mem_get.simps)
  moreover have "pool_state n h p (if m = 0 then live else insert m live) free used
      (if m = 0 then ext else insert m ext)"
    using assms(1,2) by (simp add: pool_state_def)
  ultimately show ?thesis using Nil by blast
next
  case (Cons i free')
  have geo: "pool_geometry n p" and inv: "pool_inv n p h (i # free') used"
    using assms(1) Cons by (auto simp: pool_state_def)
  note get = mem_get_cold [OF geo inv]
  have res: "h' = list_del (chunk p i) h"
    "p' = p\<lparr>hot_count := hot_count p + 1, cold_count := cold_count p - 1\<rparr>"
    "ptr = mem_pool_chunkhead2ptr (chunk p i)"
    using assms(3) get(1) [of m] by auto
  have i: "i < n" "i \<notin> used" using inv by (auto simp: pool_inv_def)
  have out: "ptr \<noteq> 0" "mp_pool p < ptr" "ptr < mp_pool_end p"
    using chunk_ptr_inside [OF geo i(1)] res(3) by auto
  have "ptr \<notin> (\<lambda>i. mem_pool_chunkhead2ptr (chunk p i)) ` used"
    using i(2) res(3) by (auto simp: chunk_ptr_inj [OF geo])
  then have "ptr \<notin> live" using assms(1) out unfolding pool_state_def by (metis UnE leD less_asym)
  moreover have "pool_state n h' p' (insert ptr live) free' (insert i used) ext"
    using get(2) assms(1) res by (auto simp: pool_state_def)
  ultimately show ?thesis using out(1) Cons by auto
qed

lemma pool_state_put:
  assumes "pool_state n h p live free used ext" and "ptr \<in> live"
    and "mem_put (Some p) ptr h = (h', Some p', out)"
  shows "\<exists>free' used' ext'. pool_state n h' p' (live - {ptr}) free' used' ext'
      \<and> out = (if mp_pool p \<le> ptr \<and> ptr < mp_pool_end p then Put_Done else Put_Free ptr)"
proof (cases "ptr \<in> ext")
  case True
  then have o: "ptr \<noteq> 0" "ptr < mp_pool p \<or> mp_pool_end p \<le> ptr"
    using assms(1) by (auto simp: pool_state_def)
  then have "mem_put (Some p) ptr h = (h, Some p, Put_Free ptr)"
    using is_member_outside [of ptr p] by simp
  then have res: "h' = h" "p' = p" "out = Put_Free ptr" using assms(3) by (simp_all del: mem_put.simps)
  have "ptr \<notin> (\<lambda>i. mem_pool_chunkhead2ptr (chunk p i)) ` used"
  proof
    assume "ptr \<in> (\<lambda>i. mem_pool_chunkhead2ptr (chunk p i)) ` used"
    then obtain i where "i \<in> used" "ptr = mem_pool_chunkhead2ptr (chunk p i)" by blast
    moreover have "pool_geometry n p" "pool_inv n p h free used"
      using assms(1) by (auto simp: pool_state_def)
    ultimately show False using o chunk_ptr_inside [of n p i] pool_used_less [of n p h free used i] by simp
  qed
  then have "live - {ptr} = (\<lambda>i. mem_pool_chunkhead2ptr (chunk p i)) ` used \<union> (ext - {ptr})"
    using assms(1) by (auto simp: pool_state_def)
  then have "pool_state n h p (live - {ptr}) free used (ext - {ptr})"
    using assms(1) by (simp add: pool_state_def)
  then show ?thesis using o res by auto
next
  case False
  then obtain i where i: "i \<in> used" "ptr = mem_pool_chunkhead2ptr (chunk p i)"
    using assms(1,2) by (auto simp: pool_state_def)
  have geo: "pool_geometry n p" and inv: "pool_inv n p h free used"
    using assms(1) by (auto simp: pool_state_def)
  note put = mem_put_chunk [OF geo inv i(1)]
  have res: "h' = list_add (chunk p i) (mp_list p) h"
    "p' = p\<lparr>hot_count := hot_count p - 1, cold_count := cold_count p + 1\<rparr>" "out = Put_Done"
    using assms(3) put(1) i(2) by (simp_all del: mem_put.simps)
  have "mp_pool p \<le> ptr" "ptr < mp_pool_end p"
    using chunk_ptr_inside [OF geo pool_used_less [OF inv i(1)]] i(2) by auto
  moreover have "pool_state n h' p' (live - {ptr}) (i # free) (used - {i}) ext"
  proof -
    have "live - {ptr} = (\<lambda>i. mem_pool_chunkhead2ptr (chunk p i)) ` (used - {i}) \<union> ext"
      using assms(1) i False by (auto simp: pool_state_def chunk_ptr_inj [OF geo])
    with put(2) assms(1) res show ?thesis by (simp add: pool_state_def)
  qed
  ultimately show ?thesis using res(3) by auto
qed

lemma pool_reach_state:
  assumes "pool_reach n h p live"
  shows "\<exists>free used ext. pool_state n h p live free used ext"
  using assms
proof (induction rule: pool_reach.induct)
  case (pool_start s mp pl h0 h p)
  obtain h' p' where "mem_pool_new_fn s n mp pl h0 = (h', Some p')"
    and "pool_geometry n p'" and "pool_inv n p' h' [0..<n] {}"
    by (rule mem_pool_new_fn_inv [OF pool_start(1)])
  with pool_start(2) have "pool_state n h p {} [0..<n] {} {}" by (simp add: pool_state_def)
  then show ?case by blast
next
  case (pool_get h p live m h' p' ptr)
  then obtain free used ext where "pool_state n h p live free used ext" by blast
  from pool_state_get [OF this pool_get(3,4)] show ?case by blast
next
  case (pool_put h p live ptr h' p' out)
  then obtain free used ext where "pool_state n h p live free used ext" by blast
  from pool_state_put [OF this pool_put(2,3)] show ?case by blast
qed

text \<open>Chunks that are not the same do not overlap.\<close>

lemma chunks_disjoint:
  assumes "pool_geometry n p" and "i \<noteq> j"
  shows "{chunk p i ..< chunk p i + padded_sizeof_type p}
       \<inter> {chunk p j ..< chunk p j + padded_sizeof_type p} = {}"
proof -
  have "chunk p a + padded_sizeof_type p \<le> chunk p b" if "a < b" for a b
    using mult_le_mono1 [of "Suc a" b "padded_sizeof_type p"] that by (simp add: chunk_def)
  with assms(2) show ?thesis by (cases i j rule: linorder_cases) force+
qed

section \<open>Properties\<close>

text \<open>
  C17: in every run of a pool the counters account for every chunk: the hot and the cold count add
  up to the number of chunks and neither is negative, the cold count is the number of nodes on the
  free list, and the free list is a well-formed ring of chunk addresses of the slab.
\<close>

theorem pool_counts:
  assumes "pool_reach n h p live"
  shows "hot_count p + cold_count p = int n \<and> 0 \<le> hot_count p
    \<and> (\<exists>xs. ring h (mp_list p) xs \<and> cold_count p = int (length xs) \<and> set xs \<subseteq> chunk p ` {..<n})"
proof -
  obtain free used ext where st: "pool_state n h p live free used ext"
    using pool_reach_state [OF assms] by blast
  then have u: "set free \<union> used = {..<n}" "set free \<inter> used = {}" "distinct free"
    by (auto simp: pool_state_def pool_inv_def)
  then have "finite used" using finite_subset [of used "{..<n}"] by auto
  then have "card used + length free = n"
    using u card_Un_disjoint [of "set free" used] distinct_card [of free] by simp
  moreover have "set (map (chunk p) free) \<subseteq> chunk p ` {..<n}" using u(1) by auto
  moreover have "ring h (mp_list p) (map (chunk p) free) \<and> cold_count p = int (length (map (chunk p) free))"
    and "hot_count p = int (card used)"
    using st by (auto simp: pool_state_def pool_inv_def)
  ultimately show ?thesis by (metis add.commute length_map of_nat_0_le_iff of_nat_add)
qed

lemma mem_get_Some: "\<exists>h' q ptr. mem_get m (Some p) h = (h', Some q, ptr)"
  by (simp add: Let_def)

lemma mem_put_Some: "\<exists>h' q out. mem_put (Some p) ptr h = (h', Some q, out)"
  by simp

text \<open>A pool of two chunks at 1000, its structure at 100, after one \<open>mem_get\<close>, for the witnesses.\<close>

definition demo_pool :: mem_pool where
  "demo_pool = \<lparr>mp_list = 100, hot_count = 1, cold_count = 1, padded_sizeof_type = 24,
     mp_pool = 1000, mp_pool_end = 1048, real_sizeof_type = 8\<rparr>"

lemma demo_pool_reach: "\<exists>h. pool_reach 2 h demo_pool {1016}"
proof -
  define h0 :: list_store where "h0 = (\<lambda>_. \<lparr>list_next = 0, list_prev = 0\<rparr>)"
  have ok: "new_args_ok 8 2 100 1000" by (simp add: new_args_ok_def pad_boundary_def)
  then obtain h p where new: "mem_pool_new_fn 8 2 100 1000 h0 = (h, Some p)"
    and geo: "pool_geometry 2 p" and inv: "pool_inv 2 p h [0..<2] {}"
    by (rule mem_pool_new_fn_inv)
  have p: "p = demo_pool\<lparr>hot_count := 0, cold_count := 2\<rparr>"
    using new by (auto simp: mem_pool_new_fn_def pad_boundary_def to_cint_small Let_def demo_pool_def)
  have "[0..<2] = [0, Suc 0]" by (simp add: upt_rec)
  with inv have inv': "pool_inv 2 p h [0, Suc 0] {}" by simp
  have "pool_reach 2 h p {}" using ok new by (rule pool_start)
  from pool_get [OF this _ _ mem_get_cold(1) [OF geo inv', of 5]]
  show ?thesis by (auto simp: p demo_pool_def chunk_def mem_pool_chunkhead2ptr_def pad_boundary_def)
qed

theorem pool_counts_witness:
  "\<exists>h xs. pool_reach 2 h demo_pool {1016} \<and> ring h 100 xs \<and> length xs = 1"
proof -
  obtain h where h: "pool_reach 2 h demo_pool {1016}" using demo_pool_reach by blast
  then show ?thesis using pool_counts [OF h] by (auto simp: demo_pool_def)
qed

lemma pool_get_fresh:
  assumes "pool_state n h p live free used ext" and "m \<notin> live" and "m < mp_pool p \<or> mp_pool_end p \<le> m"
  shows "snd (snd (mem_get m (Some p) h)) \<notin> live"
proof -
  obtain h' q ptr where g: "mem_get m (Some p) h = (h', Some q, ptr)"
    using mem_get_Some by blast
  show ?thesis using pool_state_get [OF assms(1) _ g] assms(2,3) g by (cases free) (simp_all del: mem_get.simps)
qed

lemma pool_put_live:
  assumes "pool_state n h p live free used ext" and "ptr \<in> live"
  shows "snd (snd (mem_put (Some p) ptr h)) = (if mp_pool p \<le> ptr \<and> ptr < mp_pool_end p then Put_Done else Put_Free ptr)"
proof -
  obtain h' q out where g: "mem_put (Some p) ptr h = (h', Some q, out)"
    using mem_put_Some by blast
  show ?thesis using pool_state_put [OF assms g] g by (simp del: mem_put.simps)
qed

lemma pool_slab_object:
  assumes "pool_state n h p live free used ext" and "c \<in> live" and "c \<in> {mp_pool p ..< mp_pool_end p}"
  shows "\<exists>i < n. c = mem_pool_chunkhead2ptr (chunk p i)"
proof -
  have inv: "pool_inv n p h free used" using assms(1) by (simp add: pool_state_def)
  have "c \<notin> ext" using assms(1,3) by (auto simp: pool_state_def)
  then obtain i where "i \<in> used" "c = mem_pool_chunkhead2ptr (chunk p i)"
    using assms(1,2) by (auto simp: pool_state_def)
  with pool_used_less [OF inv] show ?thesis by blast
qed

lemma pool_objects_disjoint:
  assumes st: "pool_state n h p live free used ext" and ab: "a \<in> live" "b \<in> live" "a \<noteq> b" "{a, b} \<subseteq> {mp_pool p ..< mp_pool_end p}"
  shows "a + (padded_sizeof_type p - pad_boundary) \<le> mp_pool_end p"
    and "{a ..< a + (padded_sizeof_type p - pad_boundary)} \<inter> {b ..< b + (padded_sizeof_type p - pad_boundary)} = {}"
proof -
  have geo: "pool_geometry n p" using st by (simp add: pool_state_def)
  obtain i j where ij: "i < n" "a = mem_pool_chunkhead2ptr (chunk p i)"
      "j < n" "b = mem_pool_chunkhead2ptr (chunk p j)"
    using pool_slab_object [OF st, of a] pool_slab_object [OF st, of b] ab by auto
  show "a + (padded_sizeof_type p - pad_boundary) \<le> mp_pool_end p"
    using chunk_ptr_inside(2) [OF geo ij(1)] chunk_range(2) [OF geo ij(1)] ij(2) by simp
  have sub: "{c ..< c + (padded_sizeof_type p - pad_boundary)}
      \<subseteq> {chunk p k ..< chunk p k + padded_sizeof_type p}"
    if "k < n" "c = mem_pool_chunkhead2ptr (chunk p k)" for c k
    using chunk_ptr_inside(2) [OF geo that(1)] that(2) by (auto simp: mem_pool_chunkhead2ptr_def)
  have "i \<noteq> j" using ab(3) ij by auto
  then show "{a ..< a + (padded_sizeof_type p - pad_boundary)} \<inter> {b ..< b + (padded_sizeof_type p - pad_boundary)} = {}"
    using chunks_disjoint [OF geo, of i j] sub [OF ij(1,2)] sub [OF ij(3,4)] by blast
qed

text \<open>
  C9: in every run \<open>mem_get\<close> never hands out an object the client already holds, the objects from
  the slab lie inside it and do not overlap, and putting back a held object never takes the
  aborting branch: a slab object goes back to the free list, any other is freed.
\<close>

theorem pool_objects_safe:
  assumes "pool_reach n h p live"
  shows "(\<forall>m. m \<notin> live \<and> (m < mp_pool p \<or> mp_pool_end p \<le> m) \<longrightarrow>
             snd (snd (mem_get m (Some p) h)) \<notin> live)
    \<and> (\<forall>ptr \<in> live. snd (snd (mem_put (Some p) ptr h)) =
             (if mp_pool p \<le> ptr \<and> ptr < mp_pool_end p then Put_Done else Put_Free ptr))
    \<and> (\<forall>a \<in> live. \<forall>b \<in> live. a \<noteq> b \<and> {a, b} \<subseteq> {mp_pool p ..< mp_pool_end p} \<longrightarrow>
             a + (padded_sizeof_type p - pad_boundary) \<le> mp_pool_end p
           \<and> {a ..< a + (padded_sizeof_type p - pad_boundary)}
             \<inter> {b ..< b + (padded_sizeof_type p - pad_boundary)} = {})"
proof -
  obtain free used ext where st: "pool_state n h p live free used ext"
    using pool_reach_state [OF assms] by blast
  show ?thesis
    by (intro conjI allI ballI impI; (elim conjE)?)
      (rule pool_get_fresh [OF st] pool_put_live [OF st] pool_objects_disjoint [OF st]; assumption)+
qed

theorem pool_objects_safe_witness:
  "\<exists>h. pool_reach 2 h demo_pool {1016} \<and> snd (snd (mem_put (Some demo_pool) 1016 h)) = Put_Done"
proof -
  obtain h where h: "pool_reach 2 h demo_pool {1016}" using demo_pool_reach by blast
  then show ?thesis using pool_objects_safe [OF h] by (auto simp: demo_pool_def simp del: mem_put.simps)
qed

section \<open>The pool as an interface\<close>

text \<open>
  What the users of a pool rely on: an object handed out is not one they hold, and an object they
  hold can be put back.  \<open>None\<close> is a call of \<^verbatim>\<open>abort\<close>.
\<close>

locale object_pool =
  fixes get :: "'m \<Rightarrow> 's \<Rightarrow> 's \<times> addr"
    and put :: "addr \<Rightarrow> 's \<Rightarrow> 's option"
    and holds :: "'s \<Rightarrow> addr set \<Rightarrow> bool"
    and fresh :: "'s \<Rightarrow> addr set \<Rightarrow> 'm \<Rightarrow> bool"
  assumes get_holds: "\<lbrakk>holds s L; fresh s L m; get m s = (s', a)\<rbrakk>
      \<Longrightarrow> holds s' (if a = 0 then L else insert a L) \<and> a \<notin> L"
    and put_holds: "\<lbrakk>holds s L; a \<in> L\<rbrakk> \<Longrightarrow> \<exists>s'. put a s = Some s' \<and> holds s' (L - {a})"
begin

fun put_all :: "addr list \<Rightarrow> 's \<Rightarrow> 's option" where
  "put_all [] s = Some s"
| "put_all (a # as) s = (case put a s of None \<Rightarrow> None | Some s' \<Rightarrow> put_all as s')"

lemma put_all_holds:
  "\<lbrakk>holds s L; distinct as; set as \<subseteq> L\<rbrakk> \<Longrightarrow> \<exists>s'. put_all as s = Some s' \<and> holds s' (L - set as)"
proof (induction as arbitrary: s L)
  case (Cons a as)
  obtain s1 where s1: "put a s = Some s1" "holds s1 (L - {a})"
    using put_holds [OF Cons.prems(1), of a] Cons.prems(3) by auto
  obtain s' where "put_all as s1 = Some s'" "holds s' (L - {a} - set as)"
    using Cons.IH [OF s1(2)] Cons.prems(2,3) by auto
  then show ?case using s1(1) by (auto simp: Diff_insert2 [symmetric])
qed auto

lemma put_after_get:
  assumes "holds s L" and "fresh s L m" and "get m s = (s', a)" and "a \<noteq> 0"
  shows "\<exists>s''. put a s' = Some s'' \<and> holds s'' L"
  using get_holds [OF assms(1-3)] put_holds [of s' "insert a L" a] assms(4) by auto

end

type_synonym pool_handle = "list_store \<times> mem_pool option"

definition pool_get_handle :: "addr \<Rightarrow> pool_handle \<Rightarrow> pool_handle \<times> addr" where
  "pool_get_handle m s = (case mem_get m (snd s) (fst s) of (h, p, ptr) \<Rightarrow> ((h, p), ptr))"

definition pool_put_handle :: "addr \<Rightarrow> pool_handle \<Rightarrow> pool_handle option" where
  "pool_put_handle ptr s =
     (case mem_put (snd s) ptr (fst s) of (h, p, out) \<Rightarrow> if out = Put_Abort then None else Some (h, p))"

definition pool_holds :: "pool_handle \<Rightarrow> addr set \<Rightarrow> bool" where
  "pool_holds s L \<longleftrightarrow> (\<exists>n p. snd s = Some p \<and> pool_reach n (fst s) p L)"

text \<open>What \<^verbatim>\<open>MALLOC\<close> may return: nothing the client holds, and no address of the slab.\<close>

fun pool_fresh :: "pool_handle \<Rightarrow> addr set \<Rightarrow> addr \<Rightarrow> bool" where
  "pool_fresh (h, None) L m = True"
| "pool_fresh (h, Some p) L m = (m \<notin> L \<and> (m < mp_pool p \<or> mp_pool_end p \<le> m))"

interpretation pool: object_pool pool_get_handle pool_put_handle pool_holds pool_fresh
proof
  fix s s' L m a
  assume h: "pool_holds s L" and f: "pool_fresh s L m" and g: "pool_get_handle m s = (s', a)"
  obtain n p where p: "snd s = Some p" "pool_reach n (fst s) p L"
    using h by (auto simp: pool_holds_def)
  have m: "m \<notin> L" "m < mp_pool p \<or> mp_pool_end p \<le> m" using f p(1) by (cases s; auto)+
  obtain h' q where get: "mem_get m (Some p) (fst s) = (h', Some q, a)" "s' = (h', Some q)"
    using g p(1) mem_get_Some [of m p "fst s"] by (auto simp: pool_get_handle_def simp del: mem_get.simps)
  obtain free used ext where st: "pool_state n (fst s) p L free used ext"
    using pool_reach_state [OF p(2)] by blast
  have "a \<notin> L" using pool_state_get [OF st m(2) get(1)] m(1) by (cases free) auto
  with pool_get [OF p(2) m get(1)] get(2)
  show "pool_holds s' (if a = 0 then L else insert a L) \<and> a \<notin> L"
    by (auto simp: pool_holds_def)
next
  fix s L a
  assume h: "pool_holds s L" and a: "a \<in> L"
  obtain n p where p: "snd s = Some p" "pool_reach n (fst s) p L"
    using h by (auto simp: pool_holds_def)
  obtain h' q out where put: "mem_put (Some p) a (fst s) = (h', Some q, out)"
    using mem_put_Some by blast
  obtain free used ext where st: "pool_state n (fst s) p L free used ext"
    using pool_reach_state [OF p(2)] by blast
  have "out \<noteq> Put_Abort" using pool_state_put [OF st a put] by auto
  then have "pool_put_handle a s = Some (h', Some q)"
    using put p(1) by (simp add: pool_put_handle_def del: mem_put.simps)
  moreover have "pool_holds (h', Some q) (L - {a})"
    using pool_put [OF p(2) a put] by (auto simp: pool_holds_def)
  ultimately show "\<exists>s'. pool_put_handle a s = Some s' \<and> pool_holds s' (L - {a})" by blast
qed

end
