(* ===== verification/Lz_Rbthash.thy ===== *)
theory Lz_Rbthash
  imports Lz_Rb Lz_Mem_Pool
begin

text \<open>
  \<^verbatim>\<open>src/src/rbthash.c\<close>, \<^verbatim>\<open>src/src/rbthash.h\<close>: a hash table whose buckets are red-black tables and
  whose entries come from a memory pool.  Every function is modelled with the calls it makes to
  \<^verbatim>\<open>rb.c\<close> and \<^verbatim>\<open>mem-pool.c\<close>; the pool's free list is threaded as the store of links.  A null table is
  \<open>None\<close>, a null key is \<open>None\<close>, a null data pointer is \<open>0\<close>.  The outcome of each allocation is an
  argument.  The whole result \<open>None\<close> is a run that ends in \<^verbatim>\<open>abort\<close>, a null dereference or an access
  outside the bucket array; the theorems show that this never happens on a well-formed table, and
  that the table refines a finite map from keys to data.  The locks are not modelled.
\<close>

section \<open>Data\<close>

record rbthash_entry =
  rh_addr :: addr
  rh_data :: addr
  rh_key :: "u8 list"
  rh_keylen :: int
  rh_keyhash :: u32

type_synonym rbthash_bucket = "(rbthash_entry, addr) rb_table"

record rbthash_table =
  rh_self :: addr
  rh_numbuckets :: int
  rh_entrypool :: "mem_pool option"
  rh_buckets :: "rbthash_bucket list"
  rh_hashfunc :: "u8 list \<Rightarrow> int \<Rightarrow> u32"
  rh_dfunc :: bool
  rh_pool_alloced :: bool

section \<open>Comparison\<close>

definition rbthash_comparator ::
  "rbthash_entry option \<Rightarrow> rbthash_entry option \<Rightarrow> addr \<Rightarrow> int" where
  "rbthash_comparator entry1 entry2 param =
     (case (entry1, entry2) of
        (Some e1, Some e2) \<Rightarrow>
          if param = 0 then -1
          else if rh_keylen e1 \<noteq> rh_keylen e2 then
            if rh_keylen e1 < rh_keylen e2 then -1
            else if rh_keylen e1 > rh_keylen e2 then 1 else 0
          else memcmp (rh_key e1) (rh_key e2) (nat (rh_keylen e1))
      | _ \<Rightarrow> -1)"

text \<open>The comparison as \<open>rb.c\<close> calls it, on the entries of a table.\<close>

definition rbthash_compare :: "rbthash_entry \<Rightarrow> rbthash_entry \<Rightarrow> addr \<Rightarrow> int" where
  "rbthash_compare e1 e2 param = rbthash_comparator (Some e1) (Some e2) param"

section \<open>Creation\<close>

text \<open>\<open>ok i\<close> is the outcome of the allocation of bucket \<open>i\<close>; \<open>None\<close> is the result -1.\<close>

fun rbthash_init_buckets ::
  "(nat \<Rightarrow> bool) \<Rightarrow> addr \<Rightarrow> nat \<Rightarrow> nat \<Rightarrow> rbthash_bucket list option" where
  "rbthash_init_buckets ok tbl i 0 = (if tbl = 0 then None else Some [])"
| "rbthash_init_buckets ok tbl i (Suc n) =
     (if tbl = 0 then None
      else case rb_create (ok i) rbthash_compare tbl of
        None \<Rightarrow> None
      | Some b \<Rightarrow> map_option (Cons b) (rbthash_init_buckets ok tbl (Suc i) n))"

text \<open>\<open>sizeof (rbthash_entry_t)\<close> on a 64-bit machine.\<close>

definition sizeof_rbthash_entry :: nat where
  "sizeof_rbthash_entry = 24"

record table_allocs =
  alloc_table :: addr
  alloc_buckets :: bool
  alloc_pool :: addr
  alloc_slab :: addr
  alloc_bucket :: "nat \<Rightarrow> bool"

text \<open>
  The new table, or null.  The addresses of a pool that is destroyed again after a failure are
  the third component.
\<close>

definition rbthash_table_init ::
  "table_allocs \<Rightarrow> int \<Rightarrow> (u8 list \<Rightarrow> int \<Rightarrow> u32) option \<Rightarrow> bool \<Rightarrow> nat \<Rightarrow> mem_pool option
   \<Rightarrow> list_store \<Rightarrow> list_store \<times> rbthash_table option \<times> addr list" where
  "rbthash_table_init al buckets hfunc dfunc expected_entries entrypool h =
     (case hfunc of
        None \<Rightarrow> (h, None, [])
      | Some hashfunc \<Rightarrow>
          if entrypool = None \<and> expected_entries = 0 then (h, None, [])
          else if entrypool \<noteq> None \<and> expected_entries \<noteq> 0 then (h, None, [])
          else if alloc_table al = 0 then (h, None, [])
          else if \<not> alloc_buckets al then (h, None, [])
          else
            let (h1, pool) =
              (if expected_entries \<noteq> 0
               then mem_pool_new_fn sizeof_rbthash_entry expected_entries
                      (alloc_pool al) (alloc_slab al) h
               else (h, entrypool))
            in (case pool of
                 None \<Rightarrow> (h1, None, [])
               | Some p \<Rightarrow>
                   (case rbthash_init_buckets (alloc_bucket al) (alloc_table al) 0 (nat buckets) of
                      None \<Rightarrow> (h1, None, if expected_entries \<noteq> 0 then mem_pool_destroy pool else [])
                    | Some bs \<Rightarrow>
                        (h1, Some \<lparr>rh_self = alloc_table al, rh_numbuckets = buckets,
                                   rh_entrypool = pool, rh_buckets = bs, rh_hashfunc = hashfunc,
                                   rh_dfunc = dfunc, rh_pool_alloced = (expected_entries \<noteq> 0)\<rparr>, []))))"

section \<open>Entries\<close>

definition rbthash_mem_put ::
  "rbthash_table \<Rightarrow> addr \<Rightarrow> list_store \<Rightarrow> (list_store \<times> rbthash_table) option" where
  "rbthash_mem_put tbl ptr h =
     map_option (\<lambda>(h', p). (h', tbl\<lparr>rh_entrypool := p\<rparr>)) (pool_put_handle ptr (h, rh_entrypool tbl))"

text \<open>
  \<open>m\<close> is what \<^verbatim>\<open>MALLOC\<close> would return inside \<open>mem_get\<close>, \<open>key_ok\<close> the outcome of the allocation of the
  copy of the key.
\<close>

fun rbthash_init_entry ::
  "addr \<Rightarrow> bool \<Rightarrow> rbthash_table option \<Rightarrow> addr \<Rightarrow> u8 list option \<Rightarrow> int \<Rightarrow> list_store
   \<Rightarrow> (list_store \<times> rbthash_table option \<times> rbthash_entry option) option" where
  "rbthash_init_entry m key_ok (Some tbl) data (Some key) keylen h =
     (if data = 0 then Some (h, Some tbl, None)
      else
        let ((h1, p1), entry) = pool_get_handle m (h, rh_entrypool tbl);
            tbl1 = tbl\<lparr>rh_entrypool := p1\<rparr>
        in if entry = 0 then Some (h1, Some tbl1, None)
           else if \<not> key_ok then
             map_option (\<lambda>(h2, tbl2). (h2, Some tbl2, None)) (rbthash_mem_put tbl1 entry h1)
           else
             let copy = take (nat keylen) key
             in Some (h1, Some tbl1,
                      Some \<lparr>rh_addr = entry, rh_data = data, rh_key = copy, rh_keylen = keylen,
                            rh_keyhash = rh_hashfunc tbl copy keylen\<rparr>))"
| "rbthash_init_entry m key_ok tbl data key keylen h = Some (h, tbl, None)"

text \<open>The list is that of the data pointers handed to the destroyer \<open>dfunc\<close>.\<close>

fun rbthash_deinit_entry ::
  "rbthash_table option \<Rightarrow> rbthash_entry option \<Rightarrow> list_store
   \<Rightarrow> (list_store \<times> rbthash_table option \<times> addr list) option" where
  "rbthash_deinit_entry tbl None h = Some (h, tbl, [])"
| "rbthash_deinit_entry None (Some entry) h = Some (h, None, [])"
| "rbthash_deinit_entry (Some tbl) (Some entry) h =
     map_option (\<lambda>(h', tbl'). (h', Some tbl',
         if rh_data entry \<noteq> 0 \<and> rh_dfunc tbl then [rh_data entry] else []))
       (rbthash_mem_put tbl (rh_addr entry) h)"

text \<open>
  The number of a bucket: \<^verbatim>\<open>uint32_t % int\<close> converts the divisor to unsigned.  A number outside
  the array is the result \<open>None\<close>.
\<close>

definition bucket_number :: "rbthash_table \<Rightarrow> u32 \<Rightarrow> nat option" where
  "bucket_number tbl keyhash =
     (let n = word_of_int (rh_numbuckets tbl) :: u32; b = unat (keyhash mod n)
      in if n = 0 \<or> length (rh_buckets tbl) \<le> b then None else Some b)"

definition rbthash_entry_bucket :: "rbthash_table \<Rightarrow> rbthash_entry \<Rightarrow> nat option" where
  "rbthash_entry_bucket tbl entry = bucket_number tbl (rh_keyhash entry)"

definition rbthash_key_bucket :: "rbthash_table \<Rightarrow> u8 list \<Rightarrow> int \<Rightarrow> nat option" where
  "rbthash_key_bucket tbl key keylen = bucket_number tbl (rh_hashfunc tbl key keylen)"

section \<open>Insertion, lookup, removal\<close>

definition set_bucket :: "rbthash_table \<Rightarrow> nat \<Rightarrow> rbthash_bucket \<Rightarrow> rbthash_table" where
  "set_bucket tbl b t = tbl\<lparr>rh_buckets := (rh_buckets tbl)[b := t]\<rparr>"

fun rbthash_insert_entry ::
  "bool \<Rightarrow> rbthash_table option \<Rightarrow> rbthash_entry option \<Rightarrow> (rbthash_table option \<times> int) option" where
  "rbthash_insert_entry node_ok (Some tbl) (Some entry) =
     (case rbthash_entry_bucket tbl entry of
        None \<Rightarrow> None
      | Some b \<Rightarrow>
          (case rb_probe node_ok (rh_buckets tbl ! b) entry of
             (t, Probe_Null) \<Rightarrow> Some (Some (set_bucket tbl b t), -1)
           | (t, _) \<Rightarrow> Some (Some (set_bucket tbl b t), 0)))"
| "rbthash_insert_entry node_ok tbl entry = Some (tbl, -1)"

record insert_allocs =
  alloc_entry :: addr
  alloc_key :: bool
  alloc_node :: bool

definition rbthash_insert ::
  "insert_allocs \<Rightarrow> rbthash_table option \<Rightarrow> addr \<Rightarrow> u8 list option \<Rightarrow> int \<Rightarrow> list_store
   \<Rightarrow> (list_store \<times> rbthash_table option \<times> int \<times> addr list) option" where
  "rbthash_insert al tbl data key keylen h =
     (if tbl = None \<or> data = 0 \<or> key = None then Some (h, tbl, -1, [])
      else case rbthash_init_entry (alloc_entry al) (alloc_key al) tbl data key keylen h of
        None \<Rightarrow> None
      | Some (h1, tbl1, None) \<Rightarrow> Some (h1, tbl1, -1, [])
      | Some (h1, tbl1, Some entry) \<Rightarrow>
          (case rbthash_insert_entry (alloc_node al) tbl1 (Some entry) of
             None \<Rightarrow> None
           | Some (tbl2, ret) \<Rightarrow>
               if ret = -1 then
                 map_option (\<lambda>(h3, tbl3, ds). (h3, tbl3, ret, ds))
                   (rbthash_deinit_entry tbl2 (Some entry) h1)
               else Some (h1, tbl2, ret, [])))"

definition search_entry :: "u8 list \<Rightarrow> int \<Rightarrow> rbthash_entry" where
  "search_entry key keylen =
     \<lparr>rh_addr = 0, rh_data = 0, rh_key = key, rh_keylen = keylen, rh_keyhash = 0\<rparr>"

fun rbthash_get :: "rbthash_table option \<Rightarrow> u8 list option \<Rightarrow> int \<Rightarrow> addr option" where
  "rbthash_get (Some tbl) (Some key) keylen =
     (case rbthash_key_bucket tbl key keylen of
        None \<Rightarrow> None
      | Some b \<Rightarrow>
          (case rb_find (rh_buckets tbl ! b) (search_entry key keylen) of
             None \<Rightarrow> Some 0
           | Some entry \<Rightarrow> Some (rh_data entry)))"
| "rbthash_get tbl key keylen = Some 0"

fun rbthash_remove ::
  "rbthash_table option \<Rightarrow> u8 list option \<Rightarrow> int \<Rightarrow> list_store
   \<Rightarrow> (list_store \<times> rbthash_table option \<times> addr) option" where
  "rbthash_remove (Some tbl) (Some key) keylen h =
     (case rbthash_key_bucket tbl key keylen of
        None \<Rightarrow> None
      | Some b \<Rightarrow>
          (case rb_delete (rh_buckets tbl ! b) (search_entry key keylen) of
             None \<Rightarrow> None
           | Some (t, None) \<Rightarrow> Some (h, Some (set_bucket tbl b t), 0)
           | Some (t, Some entry) \<Rightarrow>
               map_option (\<lambda>(h', tbl'). (h', Some tbl', rh_data entry))
                 (rbthash_mem_put (set_bucket tbl b t) (rh_addr entry) h)))"
| "rbthash_remove tbl key keylen h = Some (h, tbl, 0)"

section \<open>Destruction\<close>

definition rbthash_entry_deiniter ::
  "rbthash_entry option \<Rightarrow> rbthash_table option \<Rightarrow> list_store
   \<Rightarrow> (list_store \<times> rbthash_table option \<times> addr list) option" where
  "rbthash_entry_deiniter entry rbparam h =
     (if entry = None then Some (h, rbparam, []) else rbthash_deinit_entry rbparam entry h)"

text \<open>The callbacks that \<open>rb_destroy\<close> makes, one for every item.\<close>

fun rbthash_deinit_all ::
  "rbthash_entry list \<Rightarrow> rbthash_table option \<Rightarrow> list_store
   \<Rightarrow> (list_store \<times> rbthash_table option \<times> addr list) option" where
  "rbthash_deinit_all [] tbl h = Some (h, tbl, [])"
| "rbthash_deinit_all (e # es) tbl h =
     (case rbthash_entry_deiniter (Some e) tbl h of
        None \<Rightarrow> None
      | Some (h1, tbl1, ds) \<Rightarrow>
          map_option (\<lambda>(h2, tbl2, ds'). (h2, tbl2, ds @ ds')) (rbthash_deinit_all es tbl1 h1))"

fun rbthash_destroy_loop ::
  "rbthash_bucket list \<Rightarrow> rbthash_table option \<Rightarrow> list_store
   \<Rightarrow> (list_store \<times> rbthash_table option \<times> addr list) option" where
  "rbthash_destroy_loop [] tbl h = Some (h, tbl, [])"
| "rbthash_destroy_loop (b # bs) tbl h =
     (case rbthash_deinit_all (rb_destroy b) tbl h of
        None \<Rightarrow> None
      | Some (h1, tbl1, ds) \<Rightarrow>
          map_option (\<lambda>(h2, tbl2, ds'). (h2, tbl2, ds @ ds')) (rbthash_destroy_loop bs tbl1 h1))"

fun rbthash_table_destroy_buckets ::
  "rbthash_table option \<Rightarrow> list_store \<Rightarrow> (list_store \<times> rbthash_table option \<times> addr list) option" where
  "rbthash_table_destroy_buckets None h = Some (h, None, [])"
| "rbthash_table_destroy_buckets (Some tbl) h =
     (if length (rh_buckets tbl) < nat (rh_numbuckets tbl) then None
      else rbthash_destroy_loop (take (nat (rh_numbuckets tbl)) (rh_buckets tbl)) (Some tbl) h)"

text \<open>The data destroyed, and the addresses freed with the pool and the table.\<close>

fun rbthash_table_destroy ::
  "rbthash_table option \<Rightarrow> list_store \<Rightarrow> (list_store \<times> addr list \<times> addr list) option" where
  "rbthash_table_destroy None h = Some (h, [], [])"
| "rbthash_table_destroy (Some tbl) h =
     (case rbthash_table_destroy_buckets (Some tbl) h of
        Some (h', Some tbl', ds) \<Rightarrow>
          Some (h', ds,
                (if rh_pool_alloced tbl' then mem_pool_destroy (rh_entrypool tbl') else []) @ [rh_self tbl])
      | _ \<Rightarrow> None)"

section \<open>The comparison is an order\<close>

interpretation entry_order: rb_order "\<lambda>e1 e2. rbthash_compare e1 e2 (Suc param)"
proof
  fix a b c :: rbthash_entry
  show "rbthash_compare a b (Suc param) < 0 \<longleftrightarrow> 0 < rbthash_compare b a (Suc param)"
    using memcmp_swap [of "rh_key a" "rh_key b"]
    by (auto simp: rbthash_compare_def rbthash_comparator_def)
  show "rbthash_compare a c (Suc param) \<le> 0"
    if "rbthash_compare a b (Suc param) \<le> 0" "rbthash_compare b c (Suc param) \<le> 0"
    using that memcmp_trans [of "rh_key a" "rh_key b" _ "rh_key c"]
    by (auto simp: rbthash_compare_def rbthash_comparator_def split: if_splits)
qed

section \<open>Invariant and abstraction\<close>

definition rh_entries :: "rbthash_table \<Rightarrow> rbthash_entry list" where
  "rh_entries tbl = concat (map rb_items (rh_buckets tbl))"

text \<open>The map a table stands for.\<close>

definition rh_map :: "rbthash_table \<Rightarrow> u8 list \<rightharpoonup> addr" where
  "rh_map tbl k = map_option rh_data (find (\<lambda>e. rh_key e = k) (rh_entries tbl))"

definition rh_entry_ok :: "rbthash_table \<Rightarrow> nat \<Rightarrow> rbthash_entry \<Rightarrow> bool" where
  "rh_entry_ok tbl b e \<longleftrightarrow> rh_keylen e = int (length (rh_key e))
     \<and> rbthash_key_bucket tbl (rh_key e) (rh_keylen e) = Some b"

definition rh_bucket_ok :: "rbthash_table \<Rightarrow> nat \<Rightarrow> rbthash_bucket \<Rightarrow> bool" where
  "rh_bucket_ok tbl b t \<longleftrightarrow> rb_ok t \<and> rb_compare t = rbthash_compare \<and> rb_param t = rh_self tbl
     \<and> list_all (rh_entry_ok tbl b) (rb_items t)"

definition rh_ok :: "rbthash_table \<Rightarrow> bool" where
  "rh_ok tbl \<longleftrightarrow> 0 < rh_numbuckets tbl \<and> rh_numbuckets tbl < 2 ^ 31
     \<and> length (rh_buckets tbl) = nat (rh_numbuckets tbl) \<and> rh_self tbl \<noteq> 0
     \<and> (\<forall>b < length (rh_buckets tbl). rh_bucket_ok tbl b (rh_buckets tbl ! b))"

text \<open>The whole state: the addresses of the entries are objects the table holds from its pool.\<close>

definition rh_inv :: "list_store \<Rightarrow> rbthash_table \<Rightarrow> addr set \<Rightarrow> bool" where
  "rh_inv h tbl L \<longleftrightarrow> rh_ok tbl \<and> pool_holds (h, rh_entrypool tbl) L
     \<and> rh_addr ` set (rh_entries tbl) \<subseteq> L \<and> inj_on rh_addr (set (rh_entries tbl))"

lemma rh_order: "rb_compare t = rbthash_compare \<Longrightarrow> rb_param t \<noteq> 0 \<Longrightarrow> rb_order (rb_cmp t)"
  using entry_order.rb_order_axioms [of "rb_param t - 1"] by (simp add: rb_cmp_def [abs_def])

lemma rh_cmp_zero:
  assumes "rb_compare t = rbthash_compare" and "rb_param t \<noteq> 0"
    and "rh_keylen e = int (length (rh_key e))" and "rh_keylen f = int (length (rh_key f))"
  shows "rb_cmp t e f = 0 \<longleftrightarrow> rh_key e = rh_key f"
  using assms by (auto simp: rb_cmp_def rbthash_compare_def rbthash_comparator_def memcmp_zero)

lemma bucket_number_ok:
  assumes "rh_ok tbl"
  obtains b where "bucket_number tbl kh = Some b" and "b < length (rh_buckets tbl)"
proof -
  let ?n = "word_of_int (rh_numbuckets tbl) :: u32"
  have "uint ?n = rh_numbuckets tbl"
    using assms by (simp add: rh_ok_def uint_word_of_int)
  then have "unat ?n = length (rh_buckets tbl)" "unat ?n \<noteq> 0"
    using assms by (simp_all add: rh_ok_def unat_eq_nat_uint)
  then have "unat (kh mod ?n) < length (rh_buckets tbl)" "?n \<noteq> 0"
    by (simp add: unat_mod_distrib) (metis \<open>unat ?n \<noteq> 0\<close> unsigned_0)
  then show thesis using that by (simp add: bucket_number_def Let_def)
qed

lemma rh_entries_iff:
  "e \<in> set (rh_entries tbl) \<longleftrightarrow>
     (\<exists>b < length (rh_buckets tbl). e \<in> set (rb_items (rh_buckets tbl ! b)))"
  by (simp add: rh_entries_def) (metis in_set_conv_nth)

lemma rh_entry_bucket:
  assumes "rh_ok tbl" and "e \<in> set (rh_entries tbl)"
    and "rbthash_key_bucket tbl (rh_key e) (int (length (rh_key e))) = Some b"
  shows "e \<in> set (rb_items (rh_buckets tbl ! b))"
proof -
  obtain c where c: "c < length (rh_buckets tbl)" "e \<in> set (rb_items (rh_buckets tbl ! c))"
    using assms(2) by (auto simp: rh_entries_iff)
  then have "rh_entry_ok tbl c e"
    using assms(1) unfolding rh_ok_def rh_bucket_ok_def list_all_iff by blast
  then have "b = c" using assms(3) by (auto simp: rh_entry_ok_def)
  with c show ?thesis by simp
qed

lemma rb_ok_cmp_distinct:
  assumes "rb_order (rb_cmp t)" and "rb_ok t" and "e \<in> set (rb_items t)" and "f \<in> set (rb_items t)"
    and "rb_cmp t e f = 0"
  shows "e = f"
proof (rule ccontr)
  assume "e \<noteq> f"
  obtain i j where ij: "i < length (rb_items t)" "j < length (rb_items t)"
      "rb_items t ! i = e" "rb_items t ! j = f"
    using assms(3,4) by (auto simp: in_set_conv_nth)
  with \<open>e \<noteq> f\<close> have "i \<noteq> j" by blast
  then have "i < j \<or> j < i" by linarith
  then have "rb_cmp t e f < 0 \<or> rb_cmp t f e < 0"
    using ij assms(2) by (auto simp: rb_ok_def dest: sorted_wrt_nth_less)
  with assms(1,5) show False by (metis less_irrefl rb_order.cmp_swap)
qed

lemma rh_key_unique:
  assumes "rh_ok tbl" and "e \<in> set (rh_entries tbl)" and "f \<in> set (rh_entries tbl)"
    and "rh_key e = rh_key f"
  shows "e = f"
proof -
  obtain b where b: "rbthash_key_bucket tbl (rh_key e) (int (length (rh_key e))) = Some b"
    "b < length (rh_buckets tbl)"
    using bucket_number_ok [OF assms(1)] unfolding rbthash_key_bucket_def by metis
  let ?t = "rh_buckets tbl ! b"
  have bk: "rh_bucket_ok tbl b ?t" "rh_self tbl \<noteq> 0" using assms(1) b(2) by (auto simp: rh_ok_def)
  have ef: "e \<in> set (rb_items ?t)" "f \<in> set (rb_items ?t)"
    using rh_entry_bucket [OF assms(1)] assms(2-4) b(1) by auto
  moreover have "rb_cmp ?t e f = 0"
    using bk ef assms(4) rh_cmp_zero [of ?t e f]
    by (auto simp: rh_bucket_ok_def rh_entry_ok_def list_all_iff)
  ultimately show ?thesis
    using bk rb_ok_cmp_distinct [OF rh_order [of ?t]] by (auto simp: rh_bucket_ok_def)
qed

lemma rh_map_Some:
  assumes "rh_ok tbl"
  shows "rh_map tbl k = Some d \<longleftrightarrow> (\<exists>e \<in> set (rh_entries tbl). rh_key e = k \<and> rh_data e = d)"
proof -
  have "find (\<lambda>e. rh_key e = k) (rh_entries tbl) = Some e \<longleftrightarrow> e \<in> set (rh_entries tbl) \<and> rh_key e = k" for e
    using rh_key_unique [OF assms] by (intro find_unique) auto
  then show ?thesis by (auto simp: rh_map_def)
qed

text \<open>A lookup in the bucket of a key is the map.\<close>

lemma rh_find:
  assumes "rh_ok tbl" and "rbthash_key_bucket tbl k (int (length k)) = Some b"
  shows "rb_find (rh_buckets tbl ! b) (search_entry k (int (length k))) = Some e \<longleftrightarrow>
    e \<in> set (rh_entries tbl) \<and> rh_key e = k"
proof -
  let ?t = "rh_buckets tbl ! b" and ?s = "search_entry k (int (length k))"
  have b: "b < length (rh_buckets tbl)"
    using assms bucket_number_ok [OF assms(1)] unfolding rbthash_key_bucket_def by (metis option.inject)
  then have bk: "rb_ok ?t" "rb_compare ?t = rbthash_compare" "rb_param ?t \<noteq> 0"
    and es: "\<forall>e \<in> set (rb_items ?t). rh_entry_ok tbl b e"
    using assms(1) by (auto simp: rh_ok_def rh_bucket_ok_def list_all_iff)
  have z: "rb_cmp ?t ?s e = 0 \<longleftrightarrow> rh_key e = k" if "e \<in> set (rb_items ?t)" for e
    using rh_cmp_zero [OF bk(2,3), of ?s e] es that by (auto simp: search_entry_def rh_entry_ok_def)
  have f: "rb_find ?t ?s = find (\<lambda>e. rh_key e = k) (rb_items ?t)"
    unfolding rb_find_spec [OF rh_order [OF bk(2,3)] bk(1)] using z by (intro find_cong) auto
  have sub: "set (rb_items ?t) \<subseteq> set (rh_entries tbl)" using b rh_entries_iff by blast
  have "find (\<lambda>e. rh_key e = k) (rb_items ?t) = Some e \<longleftrightarrow> e \<in> set (rb_items ?t) \<and> rh_key e = k"
  proof (rule find_unique)
    fix x y assume "x \<in> set (rb_items ?t)" "y \<in> set (rb_items ?t)" "rh_key x = k" "rh_key y = k"
    then show "x = y" using sub by (intro rh_key_unique [OF assms(1)]) auto
  qed
  moreover have "e \<in> set (rb_items ?t)" if "e \<in> set (rh_entries tbl)" "rh_key e = k"
    using rh_entry_bucket [OF assms(1) that(1)] that(2) assms(2) by simp
  ultimately show ?thesis using f sub by auto
qed

section \<open>Updates\<close>

lemma rh_bucket_simps [simp]:
  "rbthash_key_bucket (set_bucket tbl b t) = rbthash_key_bucket tbl"
  "rbthash_key_bucket (tbl\<lparr>rh_entrypool := p\<rparr>) = rbthash_key_bucket tbl"
  by (auto simp: bucket_number_def set_bucket_def rbthash_key_bucket_def fun_eq_iff Let_def)

lemma rh_entry_simps [simp]:
  "rh_entry_ok (set_bucket tbl b t) = rh_entry_ok tbl"
  "rh_entry_ok (tbl\<lparr>rh_entrypool := p\<rparr>) = rh_entry_ok tbl"
  by (simp_all add: rh_entry_ok_def fun_eq_iff)

lemma rh_update_simps [simp]:
  "rh_bucket_ok (set_bucket tbl b t) = rh_bucket_ok tbl"
  "rh_bucket_ok (tbl\<lparr>rh_entrypool := p\<rparr>) = rh_bucket_ok tbl"
  "rh_entries (tbl\<lparr>rh_entrypool := p\<rparr>) = rh_entries tbl"
  "rh_map (tbl\<lparr>rh_entrypool := p\<rparr>) = rh_map tbl"
  "rh_entrypool (set_bucket tbl b t) = rh_entrypool tbl"
  "rh_buckets (set_bucket tbl b t) = (rh_buckets tbl)[b := t]"
  by (simp_all add: rh_bucket_ok_def rh_entries_def rh_map_def fun_eq_iff) (simp_all add: set_bucket_def)

lemma rh_ok_pool [simp]: "rh_ok (tbl\<lparr>rh_entrypool := p\<rparr>) = rh_ok tbl"
  by (simp add: rh_ok_def)

lemma rh_ok_set_bucket:
  "\<lbrakk>rh_ok tbl; b < length (rh_buckets tbl); rh_bucket_ok tbl b t\<rbrakk> \<Longrightarrow> rh_ok (set_bucket tbl b t)"
  by (simp add: rh_ok_def nth_list_update) (simp add: set_bucket_def)

lemma rh_entries_set_bucket:
  assumes "rh_ok tbl" and "b < length (rh_buckets tbl)"
  shows "set (rh_entries (set_bucket tbl b t)) =
    {e \<in> set (rh_entries tbl). e \<notin> set (rb_items (rh_buckets tbl ! b))} \<union> set (rb_items t)"
proof -
  have "c = d" if "c < length (rh_buckets tbl)" "d < length (rh_buckets tbl)"
    "e \<in> set (rb_items (rh_buckets tbl ! c))" "e \<in> set (rb_items (rh_buckets tbl ! d))" for c d e
  proof -
    have "rh_entry_ok tbl c e" "rh_entry_ok tbl d e"
      using assms(1) that unfolding rh_ok_def rh_bucket_ok_def list_all_iff by blast+
    then show ?thesis by (auto simp: rh_entry_ok_def)
  qed
  then show ?thesis using assms(2)
    by (auto simp: rh_entries_iff nth_list_update split: if_splits) metis+
qed

lemma rh_map_insert:
  assumes "rh_ok tbl" and "rh_ok tbl'" and "set (rh_entries tbl') = insert e (set (rh_entries tbl))"
    and "rh_map tbl (rh_key e) = None"
  shows "rh_map tbl' = (rh_map tbl)(rh_key e \<mapsto> rh_data e)"
proof
  fix k
  have none: "\<forall>f \<in> set (rh_entries tbl). rh_key f \<noteq> rh_key e"
    using assms(4) by (auto simp: rh_map_def find_None_iff)
  have "rh_map tbl' k = Some d \<longleftrightarrow> ((rh_map tbl)(rh_key e \<mapsto> rh_data e)) k = Some d" for d
    using none by (auto simp: rh_map_Some [OF assms(1)] rh_map_Some [OF assms(2)] assms(3))
  then show "rh_map tbl' k = ((rh_map tbl)(rh_key e \<mapsto> rh_data e)) k"
    by (metis not_None_eq)
qed

lemma rh_map_remove:
  assumes "rh_ok tbl" and "rh_ok tbl'"
    and "set (rh_entries tbl') = {e \<in> set (rh_entries tbl). rh_key e \<noteq> k}"
  shows "rh_map tbl' = (rh_map tbl)(k := None)"
proof
  fix k'
  have "rh_map tbl' k' = Some d \<longleftrightarrow> ((rh_map tbl)(k := None)) k' = Some d" for d
    by (auto simp: rh_map_Some [OF assms(1)] rh_map_Some [OF assms(2)] assms(3))
  then show "rh_map tbl' k' = ((rh_map tbl)(k := None)) k'" by (metis not_None_eq)
qed

text \<open>The comparison looks at the key only.\<close>

lemma rb_find_node_item: "cmp a = cmp b \<Longrightarrow> rb_find_node cmp a t = rb_find_node cmp b t"
  by (induction t) auto

lemma rh_find_entry:
  assumes "rb_compare t = rbthash_compare"
  shows "rb_find t e = rb_find t (search_entry (rh_key e) (rh_keylen e))"
proof -
  have "rb_cmp t e = rb_cmp t (search_entry (rh_key e) (rh_keylen e))"
    using assms by (simp add: fun_eq_iff rb_cmp_def rbthash_compare_def rbthash_comparator_def search_entry_def)
  then show ?thesis unfolding rb_find_def by (rule rb_find_node_item)
qed

text \<open>Probing for an entry that is not in the table, and deleting a key.\<close>

lemma rh_probe_new:
  assumes ok: "rh_ok tbl" and b: "b < length (rh_buckets tbl)" "rh_entry_ok tbl b e"
    and none: "rh_map tbl (rh_key e) = None"
  shows "\<exists>t. rb_probe True (rh_buckets tbl ! b) e = (t, Probe_New) \<and> rh_ok (set_bucket tbl b t)
      \<and> set (rh_entries (set_bucket tbl b t)) = insert e (set (rh_entries tbl))"
    and "rb_probe False (rh_buckets tbl ! b) e = (rh_buckets tbl ! b, Probe_Null)"
proof -
  let ?t = "rh_buckets tbl ! b"
  have bk: "rb_ok ?t" "rb_compare ?t = rbthash_compare" "rb_param ?t = rh_self tbl" "rb_param ?t \<noteq> 0"
    and es: "list_all (rh_entry_ok tbl b) (rb_items ?t)"
    using ok b by (auto simp: rh_ok_def rh_bucket_ok_def)
  have nof: "\<forall>f \<in> set (rh_entries tbl). rh_key f \<noteq> rh_key e"
    using none by (auto simp: rh_map_def find_None_iff)
  have nf: "rb_find ?t e = None"
  proof (rule ccontr)
    assume "rb_find ?t e \<noteq> None"
    then obtain f where "rb_find ?t e = Some f" by blast
    then have "rb_find ?t (search_entry (rh_key e) (int (length (rh_key e)))) = Some f"
      using rh_find_entry [OF bk(2), of e] b(2) by (auto simp: rh_entry_ok_def)
    with rh_find [OF ok, of "rh_key e" b f] b(2) nof show False by (auto simp: rh_entry_ok_def)
  qed
  have cmp: "\<forall>f \<in> set (rb_items ?t). rb_cmp ?t e f \<noteq> 0"
    using nf rb_find_spec [OF rh_order [OF bk(2,4)] bk(1), of e] by (auto simp: find_None_iff)
  obtain t where t: "rb_probe True ?t e = (t, Probe_New)" "rb_ok t"
      "rb_items t = filter (\<lambda>b. 0 < rb_cmp ?t e b) (rb_items ?t) @ e # filter (\<lambda>b. rb_cmp ?t e b < 0) (rb_items ?t)"
    using rb_probe_spec [OF rh_order [OF bk(2,4)] bk(1), of e] nf by auto
  have items: "set (rb_items t) = insert e (set (rb_items ?t))"
    using cmp t(3) by (auto simp: neq_iff)
  have "rh_bucket_ok tbl b t"
    using bk es b(2) t items rb_probe_same_cmp [of True ?t e] by (auto simp: rh_bucket_ok_def list_all_iff)
  moreover have "set (rb_items ?t) \<subseteq> set (rh_entries tbl)" using b(1) rh_entries_iff by blast
  ultimately show "\<exists>t. rb_probe True ?t e = (t, Probe_New) \<and> rh_ok (set_bucket tbl b t)
      \<and> set (rh_entries (set_bucket tbl b t)) = insert e (set (rh_entries tbl))"
    using t(1) rh_ok_set_bucket [OF ok b(1)] rh_entries_set_bucket [OF ok b(1)] items by (intro exI [of _ t]) auto
  show "rb_probe False ?t e = (?t, Probe_Null)" by (rule rb_probe_fail [OF nf])
qed

lemma rh_probe_dup:
  assumes ok: "rh_ok tbl" and b: "b < length (rh_buckets tbl)" "rh_entry_ok tbl b e"
    and some: "rh_map tbl (rh_key e) \<noteq> None"
  shows "\<exists>f. rb_probe node_ok (rh_buckets tbl ! b) e = (rh_buckets tbl ! b, Probe_Dup f)"
proof -
  let ?t = "rh_buckets tbl ! b"
  obtain f where f: "f \<in> set (rh_entries tbl)" "rh_key f = rh_key e"
    using some rh_map_Some [OF ok, of "rh_key e"] by auto
  have "rb_compare ?t = rbthash_compare" using ok b by (auto simp: rh_ok_def rh_bucket_ok_def)
  then have "rb_find ?t e = Some f"
    using rh_find [OF ok, of "rh_key e" b f] b(2) f rh_find_entry [of ?t e] by (auto simp: rh_entry_ok_def)
  then show ?thesis by (auto simp: rb_find_search rb_probe_def split: rb_pos.splits)
qed

lemma rh_delete:
  assumes ok: "rh_ok tbl" and b: "b < length (rh_buckets tbl)"
      "rbthash_key_bucket tbl k (int (length k)) = Some b"
  shows "\<exists>t. rb_delete (rh_buckets tbl ! b) (search_entry k (int (length k))) =
          Some (t, rb_find (rh_buckets tbl ! b) (search_entry k (int (length k))))
      \<and> rh_ok (set_bucket tbl b t)
      \<and> set (rh_entries (set_bucket tbl b t)) = {e \<in> set (rh_entries tbl). rh_key e \<noteq> k}"
proof -
  let ?t = "rh_buckets tbl ! b" and ?s = "search_entry k (int (length k))"
  have bk: "rb_ok ?t" "rb_compare ?t = rbthash_compare" "rb_param ?t = rh_self tbl" "rb_param ?t \<noteq> 0"
    and es: "list_all (rh_entry_ok tbl b) (rb_items ?t)"
    using ok b by (auto simp: rh_ok_def rh_bucket_ok_def)
  obtain t where t: "rb_delete ?t ?s = Some (t, rb_find ?t ?s)" "rb_ok t"
      "rb_items t = filter (\<lambda>b. rb_cmp ?t ?s b \<noteq> 0) (rb_items ?t)"
    using rb_delete_spec [OF rh_order [OF bk(2,4)] bk(1), of ?s] by blast
  have z: "rb_cmp ?t ?s e = 0 \<longleftrightarrow> rh_key e = k" if "e \<in> set (rb_items ?t)" for e
    using rh_cmp_zero [OF bk(2,4), of ?s e] es that
    by (auto simp: search_entry_def rh_entry_ok_def list_all_iff)
  have items: "set (rb_items t) = {e \<in> set (rb_items ?t). rh_key e \<noteq> k}"
    using t(3) z by auto
  have "rh_bucket_ok tbl b t"
    using bk es t items rb_delete_same_cmp [OF t(1)] by (auto simp: rh_bucket_ok_def list_all_iff)
  moreover have "set (rb_items ?t) \<subseteq> set (rh_entries tbl)" using b(1) rh_entries_iff by blast
  moreover have "e \<in> set (rb_items ?t)" if "e \<in> set (rh_entries tbl)" "rh_key e = k" for e
    using rh_entry_bucket [OF ok that(1)] that(2) b(2) by simp
  ultimately show ?thesis
    using t(1) rh_ok_set_bucket [OF ok b(1)] rh_entries_set_bucket [OF ok b(1)] items
    by (intro exI [of _ t]) auto
qed

section \<open>The operations keep the invariant\<close>

lemma rh_bucket_of:
  assumes "rh_ok tbl"
  obtains b where "rbthash_key_bucket tbl k n = Some b" and "b < length (rh_buckets tbl)"
  using bucket_number_ok [OF assms] unfolding rbthash_key_bucket_def by metis

lemma rh_mem_put_held:
  assumes "pool_holds (h, rh_entrypool tbl) L" and "a \<in> L"
  shows "\<exists>h' p. rbthash_mem_put tbl a h = Some (h', tbl\<lparr>rh_entrypool := p\<rparr>) \<and> pool_holds (h', p) (L - {a})"
  using pool.put_holds [OF assms] by (auto simp: rbthash_mem_put_def)

text \<open>The entry that \<open>rbthash_init_entry\<close> builds.\<close>

lemma rh_init_entry:
  assumes hold: "pool_holds (h, rh_entrypool tbl) L" and fr: "pool_fresh (h, rh_entrypool tbl) L m"
    and d: "data \<noteq> 0"
  shows "(\<exists>h' p. rbthash_init_entry m key_ok (Some tbl) data (Some key) (int (length key)) h
            = Some (h', Some (tbl\<lparr>rh_entrypool := p\<rparr>), None) \<and> pool_holds (h', p) L
            \<and> (key_ok \<longrightarrow> snd (pool_get_handle m (h, rh_entrypool tbl)) = 0))
    \<or> (\<exists>h' p a. rbthash_init_entry m key_ok (Some tbl) data (Some key) (int (length key)) h
            = Some (h', Some (tbl\<lparr>rh_entrypool := p\<rparr>),
                Some \<lparr>rh_addr = a, rh_data = data, rh_key = key, rh_keylen = int (length key),
                      rh_keyhash = rh_hashfunc tbl key (int (length key))\<rparr>)
            \<and> pool_holds (h', p) (insert a L) \<and> a \<notin> L)"
proof -
  obtain h1 p1 a where g: "pool_get_handle m (h, rh_entrypool tbl) = ((h1, p1), a)"
    by (metis surj_pair)
  note gh = pool.get_holds [OF hold fr g]
  consider "a = 0" | "a \<noteq> 0" "key_ok" | "a \<noteq> 0" "\<not> key_ok" by blast
  then show ?thesis
  proof cases
    case 1 with g gh d show ?thesis by auto
  next
    case 2 with g gh d show ?thesis by auto
  next
    case 3
    obtain h2 p2 where "pool_put_handle a (h1, p1) = Some (h2, p2)" "pool_holds (h2, p2) L"
      using pool.put_after_get [OF hold fr g] 3(1) by auto
    with 3 g d show ?thesis by (auto simp: rbthash_mem_put_def)
  qed
qed

lemma rh_inv_pool:
  "\<lbrakk>rh_inv h tbl L; pool_holds (h', p) L\<rbrakk> \<Longrightarrow> rh_inv h' (tbl\<lparr>rh_entrypool := p\<rparr>) L"
  by (simp add: rh_inv_def)

text \<open>\<open>rbthash_insert_entry\<close> on each of its branches.\<close>

lemma rh_insert_entry:
  assumes ok: "rh_ok tbl" and e: "rh_keylen e = int (length (rh_key e))"
      "rh_keyhash e = rh_hashfunc tbl (rh_key e) (rh_keylen e)"
  shows "rh_map tbl (rh_key e) \<noteq> None \<Longrightarrow>
      rbthash_insert_entry node_ok (Some tbl) (Some e) = Some (Some tbl, 0)"
    and "rh_map tbl (rh_key e) = None \<Longrightarrow>
      rbthash_insert_entry False (Some tbl) (Some e) = Some (Some tbl, -1)"
    and "rh_map tbl (rh_key e) = None \<Longrightarrow> \<exists>b t.
      rbthash_insert_entry True (Some tbl) (Some e) = Some (Some (set_bucket tbl b t), 0)
      \<and> rh_ok (set_bucket tbl b t)
      \<and> set (rh_entries (set_bucket tbl b t)) = insert e (set (rh_entries tbl))"
proof -
  obtain b where b: "rbthash_key_bucket tbl (rh_key e) (rh_keylen e) = Some b" "b < length (rh_buckets tbl)"
    by (rule rh_bucket_of [OF ok])
  then have eb: "rbthash_entry_bucket tbl e = Some b" "rh_entry_ok tbl b e"
    using e by (simp_all add: rbthash_entry_bucket_def rbthash_key_bucket_def rh_entry_ok_def)
  have same: "set_bucket tbl b (rh_buckets tbl ! b) = tbl" by (simp add: set_bucket_def)
  show "rbthash_insert_entry node_ok (Some tbl) (Some e) = Some (Some tbl, 0)"
    if "rh_map tbl (rh_key e) \<noteq> None"
    using rh_probe_dup [OF ok b(2) eb(2) that, of node_ok] eb(1) same by auto
  show "rbthash_insert_entry False (Some tbl) (Some e) = Some (Some tbl, -1)"
    if "rh_map tbl (rh_key e) = None"
    using rh_probe_new(2) [OF ok b(2) eb(2) that] eb(1) same by simp
  show "\<exists>b t. rbthash_insert_entry True (Some tbl) (Some e) = Some (Some (set_bucket tbl b t), 0)
      \<and> rh_ok (set_bucket tbl b t)
      \<and> set (rh_entries (set_bucket tbl b t)) = insert e (set (rh_entries tbl))"
    if "rh_map tbl (rh_key e) = None"
    using rh_probe_new(1) [OF ok b(2) eb(2) that] eb(1) by fastforce
qed

lemma rh_deinit_all:
  "rbthash_deinit_all es (Some tbl) h =
     map_option (\<lambda>(h', p). (h', Some (tbl\<lparr>rh_entrypool := p\<rparr>),
         if rh_dfunc tbl then filter (\<lambda>d. d \<noteq> 0) (map rh_data es) else []))
       (pool.put_all (map rh_addr es) (h, rh_entrypool tbl))"
proof (induction es arbitrary: tbl h)
  case (Cons e es)
  show ?case
  proof (cases "pool_put_handle (rh_addr e) (h, rh_entrypool tbl)")
    case None then show ?thesis by (simp add: rbthash_entry_deiniter_def rbthash_mem_put_def)
  next
    case (Some s)
    obtain h1 p1 where s: "s = (h1, p1)" by (cases s)
    show ?thesis using Some Cons.IH [of "tbl\<lparr>rh_entrypool := p1\<rparr>" h1]
      by (auto simp: s rbthash_entry_deiniter_def rbthash_mem_put_def option.map_comp o_def
          split_beta intro!: map_option_cong)
  qed
qed simp

lemma rh_destroy_loop:
  "rbthash_destroy_loop bs tbl h = rbthash_deinit_all (concat (map rb_destroy bs)) tbl h"
proof (induction bs arbitrary: tbl h)
  case (Cons b bs)
  have app: "rbthash_deinit_all (xs @ ys) tbl h =
      (case rbthash_deinit_all xs tbl h of None \<Rightarrow> None
       | Some (h1, tbl1, ds) \<Rightarrow>
           map_option (\<lambda>(h2, tbl2, ds'). (h2, tbl2, ds @ ds')) (rbthash_deinit_all ys tbl1 h1))"
    for xs ys tbl h
    by (induction xs arbitrary: tbl h)
      (auto simp: option.map_comp o_def split_beta option.map_id [unfolded id_def] id_def split: option.splits intro!: map_option_cong)
  show ?case by (simp add: app Cons.IH split: option.split)
qed simp

lemma rh_insert:
  assumes inv: "rh_inv h tbl L" and d: "data \<noteq> 0"
    and fr: "pool_fresh (h, rh_entrypool tbl) L (alloc_entry al)"
  obtains h' tbl' ret ds L' where
    "rbthash_insert al (Some tbl) data (Some key) (int (length key)) h = Some (h', Some tbl', ret, ds)"
    and "rh_inv h' tbl' L'"
    and "ret = 0 \<and> ds = [] \<and> rh_map tbl' =
           (if key \<in> dom (rh_map tbl) then rh_map tbl else (rh_map tbl)(key \<mapsto> data))
       \<or> ret = -1 \<and> rh_map tbl' = rh_map tbl"
    and "alloc_key al \<Longrightarrow> alloc_node al \<Longrightarrow>
           snd (pool_get_handle (alloc_entry al) (h, rh_entrypool tbl)) \<noteq> 0 \<Longrightarrow> ret = 0"
proof -
  have hold: "pool_holds (h, rh_entrypool tbl) L" and ok: "rh_ok tbl" using inv by (auto simp: rh_inv_def)
  let ?init = "rbthash_init_entry (alloc_entry al) (alloc_key al) (Some tbl) data (Some key) (int (length key)) h"
  from rh_init_entry [OF hold fr d, of "alloc_key al" key] show thesis
  proof (elim disjE exE conjE)
    fix h' p
    assume i: "?init = Some (h', Some (tbl\<lparr>rh_entrypool := p\<rparr>), None)" "pool_holds (h', p) L"
      "alloc_key al \<longrightarrow> snd (pool_get_handle (alloc_entry al) (h, rh_entrypool tbl)) = 0"
    show thesis
      by (rule that [of h' "tbl\<lparr>rh_entrypool := p\<rparr>" "-1" "[]" L])
        (use i d inv rh_inv_pool in \<open>auto simp: rbthash_insert_def simp del: rbthash_init_entry.simps\<close>)
  next
    fix h' p a
    let ?tbl = "tbl\<lparr>rh_entrypool := p\<rparr>"
    let ?e = "\<lparr>rh_addr = a, rh_data = data, rh_key = key, rh_keylen = int (length key),
               rh_keyhash = rh_hashfunc tbl key (int (length key))\<rparr>"
    assume i: "?init = Some (h', Some ?tbl, Some ?e)" and hold': "pool_holds (h', p) (insert a L)" and a: "a \<notin> L"
    have ins: "rbthash_insert al (Some tbl) data (Some key) (int (length key)) h =
        (case rbthash_insert_entry (alloc_node al) (Some ?tbl) (Some ?e) of
           None \<Rightarrow> None
         | Some (tbl2, ret) \<Rightarrow>
             if ret = -1 then
               map_option (\<lambda>(h3, tbl3, ds). (h3, tbl3, ret, ds)) (rbthash_deinit_entry tbl2 (Some ?e) h')
             else Some (h', tbl2, ret, []))"
      using i d by (simp add: rbthash_insert_def del: rbthash_init_entry.simps)
    have ok': "rh_ok ?tbl" "rh_keylen ?e = int (length (rh_key ?e))"
      "rh_keyhash ?e = rh_hashfunc ?tbl (rh_key ?e) (rh_keylen ?e)" using ok by simp_all
    note br = rh_insert_entry [OF ok']
    consider (dup) "rh_map tbl key \<noteq> None" | (fail) "rh_map tbl key = None" "\<not> alloc_node al"
      | (new) "rh_map tbl key = None" "alloc_node al" by blast
    then show thesis
    proof cases
      case dup
      have "rh_inv h' ?tbl (insert a L)" using inv hold' by (auto simp: rh_inv_def)
      with dup show thesis using br(1) [of "alloc_node al"] ins
        by (intro that [of h' ?tbl 0 "[]" "insert a L"]) (auto simp: domIff)
    next
      case fail
      obtain h2 p2 where put: "rbthash_mem_put ?tbl a h' = Some (h2, ?tbl\<lparr>rh_entrypool := p2\<rparr>)"
        "pool_holds (h2, p2) (insert a L - {a})"
        using rh_mem_put_held [of h' ?tbl "insert a L" a] hold' by auto
      have "insert a L - {a} = L" using a by simp
      then have "rh_inv h2 (tbl\<lparr>rh_entrypool := p2\<rparr>) L" using put(2) rh_inv_pool [OF inv] by simp
      with fail show thesis using br(2) ins put(1)
        by (intro that [of h2 "tbl\<lparr>rh_entrypool := p2\<rparr>" "-1"]) (auto simp del: rbthash_insert_entry.simps)
    next
      case new
      then obtain b t where t: "rbthash_insert_entry True (Some ?tbl) (Some ?e) = Some (Some (set_bucket ?tbl b t), 0)"
        "rh_ok (set_bucket ?tbl b t)"
        "set (rh_entries (set_bucket ?tbl b t)) = insert ?e (set (rh_entries ?tbl))"
        using br(3) by auto
      have "rh_map (set_bucket ?tbl b t) = (rh_map tbl)(key \<mapsto> data)"
        using rh_map_insert [OF ok'(1) t(2,3)] new(1) by simp
      moreover have "rh_inv h' (set_bucket ?tbl b t) (insert a L)"
        using inv hold' a t(2) t(3) by (auto simp: rh_inv_def)
      ultimately show thesis using new t(1) ins
        by (intro that [of h' "set_bucket ?tbl b t" 0 "[]"])
          (auto simp: domIff simp del: rbthash_insert_entry.simps)
    qed
  qed
qed

lemma rh_init_buckets:
  assumes "self \<noteq> 0" and "\<forall>j. ok j"
  shows "rbthash_init_buckets ok self i n =
    Some (replicate n \<lparr>rb_root = NULL, rb_compare = rbthash_compare, rb_param = self,
                       rb_count = 0, rb_generation = 0\<rparr>)"
  using assms by (induction n arbitrary: i) (auto simp: rb_create_def)

lemma rh_table_init:
  assumes "0 < buckets" and "buckets < 2 ^ 31" and "alloc_table al \<noteq> 0" and "alloc_buckets al"
    and "\<forall>i. alloc_bucket al i"
    and "new_args_ok sizeof_rbthash_entry n (alloc_pool al) (alloc_slab al)"
  shows "\<exists>h' tbl. rbthash_table_init al buckets (Some hf) df n None h = (h', Some tbl, [])
    \<and> rh_inv h' tbl {} \<and> rh_map tbl = Map.empty"
proof -
  obtain h' p where new: "mem_pool_new_fn sizeof_rbthash_entry n (alloc_pool al) (alloc_slab al) h = (h', Some p)"
    using mem_pool_new_fn_inv [OF assms(6)] by metis
  define t :: rbthash_bucket where "t = \<lparr>rb_root = NULL, rb_compare = rbthash_compare,
      rb_param = alloc_table al, rb_count = 0, rb_generation = 0\<rparr>"
  define tbl where "tbl = \<lparr>rh_self = alloc_table al, rh_numbuckets = buckets, rh_entrypool = Some p,
      rh_buckets = replicate (nat buckets) t, rh_hashfunc = hf, rh_dfunc = df, rh_pool_alloced = True\<rparr>"
  have n: "n \<noteq> 0" using assms(6) by (simp add: new_args_ok_def)
  have "rbthash_table_init al buckets (Some hf) df n None h = (h', Some tbl, [])"
    using n assms(3,4) new rh_init_buckets [OF assms(3,5)]
    by (simp add: rbthash_table_init_def tbl_def t_def)
  moreover have "rb_ok t" "rb_items t = []" using rb_create_ok [of rbthash_compare "alloc_table al" t]
    by (auto simp: rb_create_def t_def)
  then have "rh_ok tbl"
    using assms(1-3) by (simp add: rh_ok_def rh_bucket_ok_def tbl_def) (simp add: t_def)
  moreover have "rh_entries tbl = []" by (simp add: rh_entries_def tbl_def t_def rb_items_def)
  moreover have "pool_holds (h', Some p) {}"
    using pool_start [OF assms(6) new] by (auto simp: pool_holds_def)
  ultimately show ?thesis
    by (intro exI [of _ h'] exI [of _ tbl]) (auto simp: rh_inv_def rh_map_def fun_eq_iff, auto simp: tbl_def)
qed

lemma rh_insert_ex:
  assumes "rh_inv h tbl L" and "data \<noteq> 0" and "pool_fresh (h, rh_entrypool tbl) L (alloc_entry al)"
  shows "\<exists>h' tbl' ret ds L'.
      rbthash_insert al (Some tbl) data (Some key) (int (length key)) h = Some (h', Some tbl', ret, ds)
    \<and> rh_inv h' tbl' L'
    \<and> (ret = 0 \<and> ds = [] \<and> rh_map tbl' =
           (if key \<in> dom (rh_map tbl) then rh_map tbl else (rh_map tbl)(key \<mapsto> data))
       \<or> ret = -1 \<and> rh_map tbl' = rh_map tbl)
    \<and> (alloc_key al \<and> alloc_node al
         \<and> snd (pool_get_handle (alloc_entry al) (h, rh_entrypool tbl)) \<noteq> 0 \<longrightarrow> ret = 0)"
  by (rule rh_insert [OF assms, of key]) blast

lemma rh_get_nonnull:
  "\<lbrakk>pool_holds s L; m \<noteq> 0\<rbrakk> \<Longrightarrow> snd (pool_get_handle m s) \<noteq> 0"
  by (cases s) (auto simp: pool_holds_def pool_get_handle_def mem_pool_chunkhead2ptr_def pad_boundary_def Let_def)

section \<open>Properties\<close>

text \<open>
  A table of four buckets and a pool of two entries, hashed by the length of the key, with the key
  \<open>[1, 2]\<close> in it, for the witnesses.
\<close>

definition demo_allocs :: table_allocs where
  "demo_allocs = \<lparr>alloc_table = 7, alloc_buckets = True, alloc_pool = 100, alloc_slab = 1000,
     alloc_bucket = (\<lambda>_. True)\<rparr>"

definition demo_insert :: insert_allocs where
  "demo_insert = \<lparr>alloc_entry = 50, alloc_key = True, alloc_node = True\<rparr>"

definition length_hash :: "u8 list \<Rightarrow> int \<Rightarrow> u32" where
  "length_hash key keylen = word_of_int keylen"

lemma demo_table_init:
  "\<exists>h tbl. rbthash_table_init demo_allocs 4 (Some length_hash) True 2 None
        (\<lambda>_. \<lparr>list_next = 0, list_prev = 0\<rparr>) = (h, Some tbl, [])
     \<and> rh_inv h tbl {} \<and> rh_map tbl = Map.empty \<and> pool_fresh (h, rh_entrypool tbl) {} 50"
proof -
  have "new_args_ok sizeof_rbthash_entry 2 (alloc_pool demo_allocs) (alloc_slab demo_allocs)"
    by (simp add: new_args_ok_def demo_allocs_def sizeof_rbthash_entry_def pad_boundary_def)
  moreover have "alloc_table demo_allocs \<noteq> 0" "alloc_buckets demo_allocs" "\<forall>i. alloc_bucket demo_allocs i"
    by (simp_all add: demo_allocs_def)
  ultimately have "\<exists>h tbl. rbthash_table_init demo_allocs 4 (Some length_hash) True 2 None
        (\<lambda>_. \<lparr>list_next = 0, list_prev = 0\<rparr>) = (h, Some tbl, [])
      \<and> rh_inv h tbl {} \<and> rh_map tbl = Map.empty"
    by (intro rh_table_init) simp_all
  then obtain h tbl where t: "rbthash_table_init demo_allocs 4 (Some length_hash) True 2 None
        (\<lambda>_. \<lparr>list_next = 0, list_prev = 0\<rparr>) = (h, Some tbl, [])"
    "rh_inv h tbl {}" "rh_map tbl = Map.empty" by blast
  then have "mp_pool (the (rh_entrypool tbl)) = 1000" "rh_entrypool tbl \<noteq> None"
    by (auto simp: rbthash_table_init_def demo_allocs_def mem_pool_new_fn_def Let_def
        sizeof_rbthash_entry_def split: option.splits prod.splits)
  then have "pool_fresh (h, rh_entrypool tbl) {} 50" by auto
  with t show ?thesis by blast
qed

lemma demo_table: "\<exists>h tbl L. rh_inv h tbl L \<and> rh_map tbl = [[1, 2] \<mapsto> 9]"
proof -
  obtain h tbl where t: "rh_inv h tbl {}" "rh_map tbl = Map.empty" "pool_fresh (h, rh_entrypool tbl) {} 50"
    using demo_table_init by blast
  have fr: "pool_fresh (h, rh_entrypool tbl) {} (alloc_entry demo_insert)"
    using t(3) by (simp add: demo_insert_def)
  have nz: "snd (pool_get_handle 50 (h, rh_entrypool tbl)) \<noteq> 0"
    using t(1) by (intro rh_get_nonnull) (auto simp: rh_inv_def)
  have "(9 :: addr) \<noteq> 0" by simp
  from rh_insert_ex [OF t(1) this fr, of "[1, 2]"] show ?thesis
  proof (elim exE conjE)
    fix h' tbl' L' and ret :: int and ds :: "addr list"
    assume inv: "rh_inv h' tbl' L'"
      and "ret = 0 \<and> ds = [] \<and> rh_map tbl' =
           (if [1, 2] \<in> dom (rh_map tbl) then rh_map tbl else (rh_map tbl)([1, 2] \<mapsto> 9))
         \<or> ret = -1 \<and> rh_map tbl' = rh_map tbl"
      and "alloc_key demo_insert \<and> alloc_node demo_insert
         \<and> snd (pool_get_handle (alloc_entry demo_insert) (h, rh_entrypool tbl)) \<noteq> 0 \<longrightarrow> ret = 0"
    then have "rh_map tbl' = [[1, 2] \<mapsto> 9]" using t(2) nz by (auto simp: demo_insert_def)
    with inv show ?thesis by blast
  qed
qed

text \<open>
  C10: insertion refines the map and is safe.  From a well-formed state \<open>rbthash_insert\<close> never aborts
  or leaves the bucket array, keeps the state well-formed, and returns 0 with the key bound to the
  data when the key was new (an old binding wins over the new data), or -1 with the map
  unchanged; it returns 0 when no allocation fails.
\<close>

theorem rbthash_insert_refines:
  assumes "rh_inv h tbl L" and "data \<noteq> 0" and "pool_fresh (h, rh_entrypool tbl) L (alloc_entry al)"
  shows "\<exists>h' tbl' ret ds L'.
      rbthash_insert al (Some tbl) data (Some key) (int (length key)) h = Some (h', Some tbl', ret, ds)
    \<and> rh_inv h' tbl' L'
    \<and> (ret = 0 \<and> ds = [] \<and> rh_map tbl' =
           (if key \<in> dom (rh_map tbl) then rh_map tbl else (rh_map tbl)(key \<mapsto> data))
       \<or> ret = -1 \<and> rh_map tbl' = rh_map tbl)
    \<and> (alloc_key al \<and> alloc_node al
         \<and> snd (pool_get_handle (alloc_entry al) (h, rh_entrypool tbl)) \<noteq> 0 \<longrightarrow> ret = 0)"
  using assms by (rule rh_insert_ex)

theorem rbthash_insert_refines_witness:
  "\<exists>h tbl h' tbl' ret ds L'. rh_inv h tbl {} \<and>
     rbthash_insert demo_insert (Some tbl) 9 (Some [1, 2]) (int (length [1, 2 :: u8])) h
       = Some (h', Some tbl', ret, ds) \<and> rh_inv h' tbl' L'"
proof -
  obtain h tbl where t: "rh_inv h tbl {}" "pool_fresh (h, rh_entrypool tbl) {} 50"
    using demo_table_init by blast
  have "pool_fresh (h, rh_entrypool tbl) {} (alloc_entry demo_insert)" "(9 :: addr) \<noteq> 0"
    using t(2) by (simp_all add: demo_insert_def)
  from rbthash_insert_refines [OF t(1) this(2,1), of "[1, 2]"] t(1) show ?thesis by blast
qed

text \<open>
  lookup.  On a well-formed table \<open>rbthash_get\<close> returns the data bound to the key, or null, and
  never leaves the bucket array.
\<close>

theorem rbthash_get_refines:
  assumes "rh_ok tbl"
  shows "rbthash_get (Some tbl) (Some key) (int (length key)) =
    Some (case rh_map tbl key of None \<Rightarrow> 0 | Some d \<Rightarrow> d)"
proof -
  obtain b where b: "rbthash_key_bucket tbl key (int (length key)) = Some b"
    by (rule rh_bucket_of [OF assms])
  note f = rh_find [OF assms b]
  show ?thesis
  proof (cases "rb_find (rh_buckets tbl ! b) (search_entry key (int (length key)))")
    case None
    then have "rh_map tbl key = None" using f by (auto simp: rh_map_def find_None_iff)
    with None b show ?thesis by simp
  next
    case (Some e)
    then have "rh_map tbl key = Some (rh_data e)" using f [of e] rh_map_Some [OF assms] by blast
    with Some b show ?thesis by simp
  qed
qed

theorem rbthash_get_refines_witness:
  "\<exists>tbl. rh_ok tbl \<and> rbthash_get (Some tbl) (Some [1, 2]) (int (length [1, 2 :: u8])) = Some 9"
proof -
  obtain h tbl L where t: "rh_inv h tbl L" "rh_map tbl = [[1, 2] \<mapsto> 9]" using demo_table by blast
  then have "rh_ok tbl" by (simp add: rh_inv_def)
  from rbthash_get_refines [OF this, of "[1, 2]"] this t(2) show ?thesis by auto
qed

text \<open>
  C12: removal.  From a well-formed state \<open>rbthash_remove\<close> unbinds the key and no other, returns the
  data that was bound (null when there was none), and keeps the state well-formed.  It gives the entry of the key back to
  the pool without aborting, and nothing else: the objects the pool counts as held afterwards are those held before
  without the entries of that key (there is one at most), all of them when the key was not bound.
\<close>

theorem rbthash_remove_refines:
  assumes inv: "rh_inv h tbl L"
  shows "\<exists>h' tbl' L'. rbthash_remove (Some tbl) (Some key) (int (length key)) h =
      Some (h', Some tbl', case rh_map tbl key of None \<Rightarrow> 0 | Some d \<Rightarrow> d)
    \<and> rh_inv h' tbl' L' \<and> L' = L - rh_addr ` {e \<in> set (rh_entries tbl). rh_key e = key}
    \<and> rh_map tbl' = (rh_map tbl)(key := None)"
proof -
  have ok: "rh_ok tbl" and hold: "pool_holds (h, rh_entrypool tbl) L" using inv by (auto simp: rh_inv_def)
  obtain b where b: "rbthash_key_bucket tbl key (int (length key)) = Some b" "b < length (rh_buckets tbl)"
    by (rule rh_bucket_of [OF ok])
  let ?s = "search_entry key (int (length key))"
  obtain t where t: "rb_delete (rh_buckets tbl ! b) ?s = Some (t, rb_find (rh_buckets tbl ! b) ?s)"
      "rh_ok (set_bucket tbl b t)"
      "set (rh_entries (set_bucket tbl b t)) = {e \<in> set (rh_entries tbl). rh_key e \<noteq> key}"
    using rh_delete [OF ok b(2,1)] by blast
  have m: "rh_map (set_bucket tbl b t) = (rh_map tbl)(key := None)" by (rule rh_map_remove [OF ok t(2,3)])
  have sub: "set (rh_entries (set_bucket tbl b t)) \<subseteq> set (rh_entries tbl)" using t(3) by auto
  have inj: "inj_on rh_addr (set (rh_entries (set_bucket tbl b t)))"
    using inv sub by (auto simp: rh_inv_def intro: inj_on_subset)
  note f = rh_find [OF ok b(1)]
  show ?thesis
  proof (cases "rb_find (rh_buckets tbl ! b) ?s")
    case None
    then have none: "{e \<in> set (rh_entries tbl). rh_key e = key} = {}" using f by auto
    then have "rh_map tbl key = None" by (auto simp: rh_map_def find_None_iff)
    moreover have "rh_inv h (set_bucket tbl b t) L" using inv inj sub t(2) by (auto simp: rh_inv_def)
    ultimately show ?thesis using None b(1) t(1) m unfolding none by auto
  next
    case (Some e)
    then have e: "e \<in> set (rh_entries tbl)" "rh_key e = key" using f by auto
    have d: "rh_map tbl key = Some (rh_data e)" using e rh_map_Some [OF ok] by blast
    have one: "{e' \<in> set (rh_entries tbl). rh_key e' = key} = {e}" using e rh_key_unique [OF ok] by blast
    have "rh_addr e \<in> L" using e(1) inv by (auto simp: rh_inv_def)
    then obtain h' p where put: "rbthash_mem_put (set_bucket tbl b t) (rh_addr e) h =
        Some (h', (set_bucket tbl b t)\<lparr>rh_entrypool := p\<rparr>)" "pool_holds (h', p) (L - {rh_addr e})"
      using rh_mem_put_held [of h "set_bucket tbl b t" L "rh_addr e"] hold by auto
    have "rh_addr ` set (rh_entries (set_bucket tbl b t)) \<subseteq> L - {rh_addr e}"
      using inv e t(3) unfolding rh_inv_def inj_on_def by auto
    then have "rh_inv h' ((set_bucket tbl b t)\<lparr>rh_entrypool := p\<rparr>) (L - {rh_addr e})"
      using put(2) inj t(2) by (simp add: rh_inv_def)
    then show ?thesis using Some b(1) t(1) m d put(1) one
      by (intro exI [of _ h'] exI [of _ "(set_bucket tbl b t)\<lparr>rh_entrypool := p\<rparr>"]
          exI [of _ "L - {rh_addr e}"]) auto
  qed
qed

theorem rbthash_remove_refines_witness:
  "\<exists>h tbl L h' tbl'. rh_inv h tbl L \<and> rh_map tbl' = Map.empty \<and>
     rbthash_remove (Some tbl) (Some [1, 2]) (int (length [1, 2 :: u8])) h = Some (h', Some tbl', 9)"
proof -
  obtain h tbl L where t: "rh_inv h tbl L" "rh_map tbl = [[1, 2] \<mapsto> 9]" using demo_table by blast
  from rbthash_remove_refines [OF t(1), of "[1, 2]"] obtain h' tbl' where
    "rbthash_remove (Some tbl) (Some [1, 2]) (int (length [1, 2 :: u8])) h = Some (h', Some tbl', 9)"
    "rh_map tbl' = Map.empty" by (auto simp: t(2) simp del: rbthash_remove.simps)
  with t(1) show ?thesis by blast
qed

lemma rb_ok_distinct:
  assumes "rb_order (rb_cmp t)" and "rb_ok t"
  shows "distinct (rb_items t)"
proof -
  have "\<not> rb_cmp t a a < 0" for a using rb_order.cmp_swap [OF assms(1), of a a] by linarith
  then show ?thesis
    using assms(2) by (auto simp: rb_ok_def distinct_conv_nth sorted_wrt_iff_nth_less) (metis linorder_neqE_nat)
qed

lemma rh_entries_distinct:
  assumes "rh_ok tbl"
  shows "distinct (rh_entries tbl)"
  unfolding rh_entries_def
proof (rule distinct_concat_nth)
  fix b assume "b < length (map rb_items (rh_buckets tbl))"
  then show "distinct (map rb_items (rh_buckets tbl) ! b)"
    using assms rb_ok_distinct [OF rh_order [of "rh_buckets tbl ! b"]]
    by (simp add: rh_ok_def rh_bucket_ok_def)
next
  fix b c assume bc: "b < c" "c < length (map rb_items (rh_buckets tbl))"
  then have "rh_bucket_ok tbl b (rh_buckets tbl ! b)" "rh_bucket_ok tbl c (rh_buckets tbl ! c)"
    using assms by (auto simp: rh_ok_def)
  with bc show "set (map rb_items (rh_buckets tbl) ! b) \<inter> set (map rb_items (rh_buckets tbl) ! c) = {}"
    by (auto simp: rh_bucket_ok_def list_all_iff rh_entry_ok_def) force
qed

lemma rb_destroy_items: "rb_destroy t = rb_items t"
  by (simp add: rb_destroy_def rb_items_def rb_destroy_loop_inorder)

text \<open>
  destruction.  From a well-formed state \<open>rbthash_table_destroy\<close> runs to the end without
  aborting, every key of the map has exactly one entry, and the destroyer, when there is one,
  is called once for the (non-null) data of every entry and for nothing else.
\<close>

theorem rbthash_table_destroy_complete:
  assumes inv: "rh_inv h tbl L"
  shows "\<exists>h' fr. rbthash_table_destroy (Some tbl) h =
      Some (h', if rh_dfunc tbl then filter (\<lambda>d. d \<noteq> 0) (map rh_data (rh_entries tbl)) else [], fr)
    \<and> distinct (map rh_key (rh_entries tbl))
    \<and> (\<forall>k d. rh_map tbl k = Some d \<longleftrightarrow> (k, d) \<in> set (map (\<lambda>e. (rh_key e, rh_data e)) (rh_entries tbl)))"
proof -
  have ok: "rh_ok tbl" and hold: "pool_holds (h, rh_entrypool tbl) L" using inv by (auto simp: rh_inv_def)
  have "distinct (map rh_addr (rh_entries tbl))" "set (map rh_addr (rh_entries tbl)) \<subseteq> L"
    using inv rh_entries_distinct [OF ok] by (auto simp: rh_inv_def distinct_map)
  from pool.put_all_holds [OF hold this]
  obtain h' p where put: "pool.put_all (map rh_addr (rh_entries tbl)) (h, rh_entrypool tbl) = Some (h', p)"
    by auto
  have "concat (map rb_destroy (take (nat (rh_numbuckets tbl)) (rh_buckets tbl))) = rh_entries tbl"
    using ok by (simp add: rh_entries_def rh_ok_def rb_destroy_items cong: map_cong)
  then have "\<exists>fr. rbthash_table_destroy (Some tbl) h =
      Some (h', if rh_dfunc tbl then filter (\<lambda>d. d \<noteq> 0) (map rh_data (rh_entries tbl)) else [], fr)"
    using ok put by (simp add: rh_destroy_loop rh_deinit_all rh_ok_def)
  moreover have "distinct (map rh_key (rh_entries tbl))"
    using rh_entries_distinct [OF ok] rh_key_unique [OF ok] by (auto simp: distinct_map intro: inj_onI)
  moreover have "rh_map tbl k = Some d \<longleftrightarrow> (k, d) \<in> set (map (\<lambda>e. (rh_key e, rh_data e)) (rh_entries tbl))" for k d
    using rh_map_Some [OF ok] by auto
  ultimately show ?thesis by blast
qed

theorem rbthash_table_destroy_complete_witness:
  "\<exists>h tbl L h' ds fr. rh_inv h tbl L \<and> rh_map tbl = [[1, 2] \<mapsto> 9]
     \<and> rbthash_table_destroy (Some tbl) h = Some (h', ds, fr)"
proof -
  obtain h tbl L where t: "rh_inv h tbl L" "rh_map tbl = [[1, 2] \<mapsto> 9]" using demo_table by blast
  with rbthash_table_destroy_complete [OF t(1)] show ?thesis by blast
qed

text \<open>
  creation.  When the allocations succeed \<open>rbthash_table_init\<close> gives a well-formed table that
  holds no entry and stands for the empty map.
\<close>

theorem rbthash_table_init_empty:
  assumes "0 < buckets" and "buckets < 2 ^ 31" and "alloc_table al \<noteq> 0" and "alloc_buckets al"
    and "\<forall>i. alloc_bucket al i"
    and "new_args_ok sizeof_rbthash_entry n (alloc_pool al) (alloc_slab al)"
  shows "\<exists>h' tbl. rbthash_table_init al buckets (Some hf) df n None h = (h', Some tbl, [])
    \<and> rh_inv h' tbl {} \<and> rh_map tbl = Map.empty"
  using assms by (rule rh_table_init)

theorem rbthash_table_init_empty_witness:
  "\<exists>h' tbl. rbthash_table_init demo_allocs 4 (Some length_hash) True 2 None
        (\<lambda>_. \<lparr>list_next = 0, list_prev = 0\<rparr>) = (h', Some tbl, [])
     \<and> rh_inv h' tbl {} \<and> rh_map tbl = Map.empty"
  by (rule rbthash_table_init_empty)
    (simp_all add: demo_allocs_def new_args_ok_def sizeof_rbthash_entry_def pad_boundary_def)

end
