(* ===== verification/Lz_Rb_Traverse.thy ===== *)
theory Lz_Rb_Traverse
  imports Lz_Rb "HOL-Library.Monad_Syntax"
begin

text \<open>
  \<^verbatim>\<open>src/src/rb.c\<close>: the traversers \<open>rb_t_*\<close> of the red-black table.  The stack of a traverser holds the
  nodes above its current node; here it is the list of the directions taken from them, the last one
  first, so that what the pointers lead to is read in the table as it is at the moment.  The current
  node is known by its item: a node never changes its place in the order.  The stack is used only while
  the generation numbers of traverser and table agree; otherwise the node is searched again.  A failed
  \<^verbatim>\<open>assert\<close>, a null or a dangling pointer is the result \<open>None\<close>.

  The lemmas show that a traverser walks over the items in order, in both directions, also when the
  table changes between the calls, and that the stack of 48 entries is long enough.
\<close>

section \<open>Data\<close>

record 'a rb_traverser =
  tr_node :: "'a option"
  tr_stack :: "bool list"
  tr_generation :: u64

abbreviation (input) RB_MAX_HEIGHT :: nat where "RB_MAX_HEIGHT \<equiv> 48"

fun frame_dir :: "'a frame \<Rightarrow> bool" where
  "frame_dir (Frame d _ _ _) = d"

fun node_item :: "'a rb_node \<Rightarrow> 'a option" where
  "node_item NULL = None"
| "node_item (Node _ a _ _) = Some a"

text \<open>The nodes on a path from the root, and the node it ends at.\<close>

fun rb_follow :: "bool list \<Rightarrow> 'a frame list \<Rightarrow> 'a rb_node \<Rightarrow> ('a frame list \<times> 'a rb_node) option" where
  "rb_follow [] fs t = Some (fs, t)"
| "rb_follow (d # ds) fs NULL = None"
| "rb_follow (d # ds) fs (Node l a c r) =
     (if d then rb_follow ds (Frame True c a l # fs) r else rb_follow ds (Frame False c a r # fs) l)"

text \<open>
  The search of \<open>trav_refresh\<close>.  The test \<open>i != node\<close> compares addresses; the items of a table all
  compare different, so the node is the one whose item compares equal.
\<close>

fun trav_search :: "('a \<Rightarrow> 'a \<Rightarrow> int) \<Rightarrow> 'a \<Rightarrow> 'a frame list \<Rightarrow> 'a rb_node \<Rightarrow> ('a frame list \<times> 'a rb_node) option" where
  "trav_search cmp item fs NULL = None"
| "trav_search cmp item fs (Node l a c r) =
     (if cmp item a = 0 then Some (fs, Node l a c r)
      else if RB_MAX_HEIGHT \<le> length fs then None
      else if cmp item a > 0 then trav_search cmp item (Frame True c a l # fs) r
      else trav_search cmp item (Frame False c a r # fs) l)"

text \<open>What \<open>trav->rb_node\<close> points at, with the nodes above it.\<close>

definition trav_node :: "('a, 'p) rb_table \<Rightarrow> 'a rb_traverser \<Rightarrow> 'a \<Rightarrow> ('a frame list \<times> 'a rb_node) option" where
  "trav_node tree trav a =
     (if tr_generation trav = rb_generation tree then rb_follow (rev (tr_stack trav)) [] (rb_root tree)
      else trav_search (rb_cmp tree) a [] (rb_root tree))"

section \<open>Operations\<close>

definition trav_refresh :: "('a, 'p) rb_table \<Rightarrow> 'a rb_traverser \<Rightarrow> 'a rb_traverser option" where
  "trav_refresh tree trav =
     (case tr_node trav of
        None \<Rightarrow> Some (trav\<lparr>tr_generation := rb_generation tree\<rparr>)
      | Some a \<Rightarrow>
          map_option (\<lambda>(fs, _). trav\<lparr>tr_generation := rb_generation tree, tr_stack := map frame_dir fs\<rparr>)
            (trav_search (rb_cmp tree) a [] (rb_root tree)))"

definition rb_t_init :: "('a, 'p) rb_table \<Rightarrow> 'a rb_traverser" where
  "rb_t_init tree = \<lparr>tr_node = None, tr_stack = [], tr_generation = rb_generation tree\<rparr>"

text \<open>The loops that go down along one link.\<close>

fun descend :: "bool \<Rightarrow> 'a frame list \<Rightarrow> 'a rb_node \<Rightarrow> ('a frame list \<times> 'a rb_node) option" where
  "descend d fs NULL = Some (fs, NULL)"
| "descend d fs (Node l a c r) =
     (if (if d then r else l) = NULL then Some (fs, Node l a c r)
      else if RB_MAX_HEIGHT \<le> length fs then None
      else if d then descend d (Frame True c a l # fs) r
      else descend d (Frame False c a r # fs) l)"

definition trav_at :: "('a, 'p) rb_table \<Rightarrow> 'a frame list \<times> 'a rb_node \<Rightarrow> 'a rb_traverser \<times> 'a option" where
  "trav_at tree pos =
     (\<lparr>tr_node = node_item (snd pos), tr_stack = map frame_dir (fst pos), tr_generation = rb_generation tree\<rparr>,
      node_item (snd pos))"

definition rb_t_first :: "('a, 'p) rb_table \<Rightarrow> ('a rb_traverser \<times> 'a option) option" where
  "rb_t_first tree = map_option (trav_at tree) (descend False [] (rb_root tree))"

definition rb_t_last :: "('a, 'p) rb_table \<Rightarrow> ('a rb_traverser \<times> 'a option) option" where
  "rb_t_last tree = map_option (trav_at tree) (descend True [] (rb_root tree))"

fun trav_find :: "('a \<Rightarrow> 'a \<Rightarrow> int) \<Rightarrow> 'a \<Rightarrow> 'a frame list \<Rightarrow> 'a rb_node \<Rightarrow> ('a frame list \<times> 'a rb_node) option" where
  "trav_find cmp item fs NULL = Some ([], NULL)"
| "trav_find cmp item fs (Node l a c r) =
     (if cmp item a = 0 then Some (fs, Node l a c r)
      else if RB_MAX_HEIGHT \<le> length fs then None
      else if cmp item a < 0 then trav_find cmp item (Frame False c a r # fs) l
      else trav_find cmp item (Frame True c a l # fs) r)"

definition rb_t_find :: "('a, 'p) rb_table \<Rightarrow> 'a \<Rightarrow> ('a rb_traverser \<times> 'a option) option" where
  "rb_t_find tree item = map_option (trav_at tree) (trav_find (rb_cmp tree) item [] (rb_root tree))"

text \<open>
  The traverser that \<open>rb_t_insert\<close> leaves has no stack: its generation is made to differ, so that the
  next step searches the node.
\<close>

definition rb_t_insert ::
  "bool \<Rightarrow> ('a, 'p) rb_table \<Rightarrow> 'a \<Rightarrow> bool list \<Rightarrow> ('a, 'p) rb_table \<times> 'a rb_traverser \<times> 'a option" where
  "rb_t_insert ok tree item stack =
     (case rb_probe ok tree item of
        (tree', Probe_Null) \<Rightarrow> (tree', rb_t_init tree', None)
      | (tree', Probe_Dup a) \<Rightarrow>
          (tree', \<lparr>tr_node = Some a, tr_stack = stack, tr_generation = rb_generation tree' - 1\<rparr>, Some a)
      | (tree', Probe_New) \<Rightarrow>
          (tree', \<lparr>tr_node = Some item, tr_stack = stack, tr_generation = rb_generation tree' - 1\<rparr>, Some item))"

definition rb_t_cur :: "('a, 'p) rb_table \<Rightarrow> 'a rb_traverser \<Rightarrow> 'a option option" where
  "rb_t_cur tree trav =
     (case tr_node trav of
        None \<Rightarrow> Some None
      | Some a \<Rightarrow> (case trav_node tree trav a of Some (fs, Node l b c r) \<Rightarrow> Some (Some b) | _ \<Rightarrow> None))"

definition rb_t_copy ::
  "('a, 'p) rb_table \<Rightarrow> bool list \<Rightarrow> 'a rb_traverser \<Rightarrow> ('a rb_traverser \<times> 'a option) option" where
  "rb_t_copy tree stack src =
     (let trav = (if tr_generation src = rb_generation tree then src else src\<lparr>tr_stack := stack\<rparr>)
      in map_option (Pair trav) (rb_t_cur tree trav))"

text \<open>The loop that goes up while it comes from the link \<open>d\<close>.\<close>

fun climb :: "bool \<Rightarrow> 'a frame list \<Rightarrow> 'a rb_node \<Rightarrow> 'a frame list \<times> 'a rb_node" where
  "climb d [] y = ([], NULL)"
| "climb d (Frame e c a s # fs) y =
     (let x = (if e then Node s a c y else Node y a c s) in if e = d then climb d fs x else (fs, x))"

text \<open>From a node to its neighbour: down into a subtree, or up.\<close>

definition trav_move ::
  "bool \<Rightarrow> 'a frame list \<Rightarrow> 'a rb_node \<Rightarrow> 'a \<Rightarrow> rb_color \<Rightarrow> 'a rb_node \<Rightarrow> ('a frame list \<times> 'a rb_node) option" where
  "trav_move d fs l a c r =
     (if (if d then r else l) \<noteq> NULL then
        if RB_MAX_HEIGHT \<le> length fs then None
        else if d then descend False (Frame True c a l # fs) r
        else descend True (Frame False c a r # fs) l
      else Some (climb d fs (Node l a c r)))"

definition rb_t_step ::
  "bool \<Rightarrow> ('a, 'p) rb_table \<Rightarrow> 'a rb_traverser \<Rightarrow> ('a rb_traverser \<times> 'a option) option" where
  "rb_t_step d tree trav0 =
     do {
       trav \<leftarrow> (if tr_generation trav0 \<noteq> rb_generation tree then trav_refresh tree trav0 else Some trav0);
       case tr_node trav of
         None \<Rightarrow> if d then rb_t_first tree else rb_t_last tree
       | Some a \<Rightarrow>
           (case trav_node tree trav a of
              Some (fs, Node l b c r) \<Rightarrow> map_option (trav_at tree) (trav_move d fs l b c r)
            | _ \<Rightarrow> None)
     }"

definition rb_t_next :: "('a, 'p) rb_table \<Rightarrow> 'a rb_traverser \<Rightarrow> ('a rb_traverser \<times> 'a option) option" where
  "rb_t_next = rb_t_step True"

definition rb_t_prev :: "('a, 'p) rb_table \<Rightarrow> 'a rb_traverser \<Rightarrow> ('a rb_traverser \<times> 'a option) option" where
  "rb_t_prev = rb_t_step False"

definition rb_t_replace ::
  "('a, 'p) rb_table \<Rightarrow> 'a rb_traverser \<Rightarrow> 'a \<Rightarrow> (('a, 'p) rb_table \<times> 'a rb_traverser \<times> 'a) option" where
  "rb_t_replace tree trav new =
     (case tr_node trav of
        None \<Rightarrow> None
      | Some a \<Rightarrow>
          (case trav_node tree trav a of
             Some (fs, Node l b c r) \<Rightarrow>
               Some (tree\<lparr>rb_root := plug fs (Node l new c r)\<rparr>, trav\<lparr>tr_node := Some new\<rparr>, b)
           | _ \<Rightarrow> None))"

section \<open>Positions\<close>

lemma rb_follow_append:
  "rb_follow (ds @ es) fs t = (case rb_follow ds fs t of None \<Rightarrow> None | Some (fs', t') \<Rightarrow> rb_follow es fs' t')"
  by (induction ds fs t rule: rb_follow.induct) auto

lemma rb_follow_plug: "rb_follow (rev (map frame_dir fs)) gs (plug fs t) = Some (fs @ gs, t)"
proof (induction fs arbitrary: t)
  case (Cons f fs)
  show ?case using Cons by (cases f) (simp add: rb_follow_append)
qed simp

lemma rb_height_plug: "length fs + rb_height t \<le> rb_height (plug fs t)"
proof (induction fs arbitrary: t)
  case (Cons f fs)
  obtain d c a s where f: "f = Frame d c a s" by (cases f)
  have "length fs + rb_height (if d then Node s a c t else Node t a c s) \<le> rb_height (plug (f # fs) t)"
    using Cons [of "if d then Node s a c t else Node t a c s"] by (simp add: f)
  then show ?case by (simp split: if_splits)
qed simp

lemma descend_spec:
  assumes "t \<noteq> NULL" and "length fs + rb_height t \<le> RB_MAX_HEIGHT"
  shows "\<exists>gs l a c r. descend d fs t = Some (gs, Node l a c r) \<and> plug gs (Node l a c r) = plug fs t
    \<and> (d \<longrightarrow> r = NULL \<and> rights gs = rights fs) \<and> (\<not> d \<longrightarrow> l = NULL \<and> lefts gs = lefts fs)"
  using assms
proof (induction d fs t rule: descend.induct)
  case (2 d fs l a c r)
  have "length fs < RB_MAX_HEIGHT" using 2(4) by simp
  then show ?case
    using 2(1) [of] 2(2) [of] 2(4) by (cases "(if d then r else l) = NULL"; cases d) (auto split: if_splits)
qed simp

lemma climb_spec:
  assumes "climb d fs y = (gs, t)"
  shows "t = NULL \<Longrightarrow> (if d then rights fs else lefts fs) = []"
    and "t = Node l a c r \<Longrightarrow> plug gs t = plug fs y
      \<and> (if d then lefts gs @ inorder l = lefts fs @ inorder y else inorder r @ rights gs = inorder y @ rights fs)"
  using assms
  by (induction d fs y arbitrary: l a c r rule: climb.induct) (auto simp: Let_def split: if_splits)

section \<open>Steps\<close>

text \<open>
  A traverser of a table: its node is in the table, and as long as the generations agree the stack is
  the path to it.
\<close>

definition on_path :: "('a, 'p) rb_table \<Rightarrow> 'a rb_traverser \<Rightarrow> 'a \<Rightarrow> bool" where
  "on_path tree trav a \<longleftrightarrow> (\<exists>fs l c r. rb_root tree = plug fs (Node l a c r) \<and> tr_stack trav = map frame_dir fs)"

definition trav_ok :: "('a, 'p) rb_table \<Rightarrow> 'a rb_traverser \<Rightarrow> bool" where
  "trav_ok tree trav \<longleftrightarrow>
     (case tr_node trav of
        None \<Rightarrow> True
      | Some a \<Rightarrow> a \<in> set (rb_items tree) \<and> (tr_generation trav = rb_generation tree \<longrightarrow> on_path tree trav a))"

definition low :: "('a, 'p) rb_table \<Rightarrow> bool" where
  "low tree \<longleftrightarrow> rb_height (rb_root tree) \<le> RB_MAX_HEIGHT"

definition first_of :: "'a list \<Rightarrow> 'a option" where
  "first_of xs = (case xs of [] \<Rightarrow> None | x # _ \<Rightarrow> Some x)"

lemma trav_at_ok:
  assumes "rb_root tree = plug fs t"
  shows "trav_ok tree (fst (trav_at tree (fs, t)))" and "tr_node (fst (trav_at tree (fs, t))) = node_item t"
    and "snd (trav_at tree (fs, t)) = node_item t"
  using assms by (cases t; auto simp: trav_at_def trav_ok_def on_path_def rb_items_def)+

text \<open>A position is resolved to the items before and after it.\<close>

lemma move_up:
  assumes "low tree" and "rb_root tree = plug fs (Node l a c r)" and "r \<noteq> NULL"
  shows "\<exists>gs l' x c' r'. descend False (Frame True c a l # fs) r = Some (gs, Node l' x c' r') \<and> rb_root tree = plug gs (Node l' x c' r')
    \<and> first_of (inorder r @ rights fs) = Some x"
proof -
  have "length (Frame True c a l # fs) + rb_height r \<le> RB_MAX_HEIGHT"
    using rb_height_plug [of fs "Node l a c r"] assms(1,2) by (simp add: low_def)
  from descend_spec [OF assms(3) this, of False]
  obtain gs x c' r' where g: "descend False (Frame True c a l # fs) r = Some (gs, Node NULL x c' r')"
      "plug gs (Node NULL x c' r') = plug (Frame True c a l # fs) r" "lefts gs = lefts (Frame True c a l # fs)" by auto
  have "inorder (plug gs (Node NULL x c' r')) = inorder (plug (Frame True c a l # fs) r)" using g(2) by simp
  then have "inorder r @ rights fs = x # inorder r' @ rights gs" using g(3) by simp
  then have "first_of (inorder r @ rights fs) = Some x" by (simp add: first_of_def)
  then show ?thesis using g(1,2) assms(2) by auto
qed

lemma move_down:
  assumes "low tree" and "rb_root tree = plug fs (Node l a c r)" and "l \<noteq> NULL"
  shows "\<exists>gs l' x c' r'. descend True (Frame False c a r # fs) l = Some (gs, Node l' x c' r') \<and> rb_root tree = plug gs (Node l' x c' r')
    \<and> first_of (rev (lefts fs @ inorder l)) = Some x"
proof -
  have "length (Frame False c a r # fs) + rb_height l \<le> RB_MAX_HEIGHT"
    using rb_height_plug [of fs "Node l a c r"] assms(1,2) by (simp add: low_def)
  from descend_spec [OF assms(3) this, of True]
  obtain gs l' x c' where g: "descend True (Frame False c a r # fs) l = Some (gs, Node l' x c' NULL)"
      "plug gs (Node l' x c' NULL) = plug (Frame False c a r # fs) l" "rights gs = rights (Frame False c a r # fs)" by auto
  have "inorder (plug gs (Node l' x c' NULL)) = inorder (plug (Frame False c a r # fs) l)" using g(2) by simp
  then have "lefts fs @ inorder l = (lefts gs @ inorder l') @ [x]" using g(3) by simp
  then have "first_of (rev (lefts fs @ inorder l)) = Some x" by (simp add: first_of_def)
  then show ?thesis using g(1,2) assms(2) by auto
qed

lemma append_common:
  assumes "xs @ x # ys = us @ a # zs" and "xs = us @ [a]"
  shows "zs = x # ys"
  using assms by simp

lemma trav_move_up:
  assumes low: "low tree" and root: "rb_root tree = plug fs (Node l a c r)"
  shows "\<exists>gs t. trav_move True fs l a c r = Some (gs, t) \<and> node_item t = first_of (inorder r @ rights fs)
    \<and> (t \<noteq> NULL \<longrightarrow> rb_root tree = plug gs t)"
proof (cases "r = NULL")
  case False
  have "\<not> RB_MAX_HEIGHT \<le> length fs"
    using rb_height_plug [of fs "Node l a c r"] low root by (simp add: low_def)
  then show ?thesis using move_up [OF low root False] False by (auto simp: trav_move_def)
next
  case True
  obtain gs t where c: "climb True fs (Node l a c r) = (gs, t)" by fastforce
  show ?thesis
  proof (cases t)
    case NULL
    then show ?thesis using climb_spec(1) [OF c] c True by (auto simp: first_of_def trav_move_def)
  next
    case (Node l' x c' r')
    from climb_spec(2) [OF c Node] have p: "plug gs t = rb_root tree"
        and l: "lefts gs @ inorder l' = (lefts fs @ inorder l) @ [a]" using root True by auto
    have "inorder (plug gs t) = inorder (plug fs (Node l a c r))" using p root by simp
    then have "(lefts gs @ inorder l') @ x # (inorder r' @ rights gs) = (lefts fs @ inorder l) @ a # (inorder r @ rights fs)"
      using Node by simp
    from append_common [OF this l] have "first_of (inorder r @ rights fs) = Some x" by (simp add: first_of_def)
    then show ?thesis using c True p Node by (auto simp: trav_move_def)
  qed
qed

lemma trav_move_down:
  assumes low: "low tree" and root: "rb_root tree = plug fs (Node l a c r)"
  shows "\<exists>gs t. trav_move False fs l a c r = Some (gs, t) \<and> node_item t = first_of (rev (lefts fs @ inorder l))
    \<and> (t \<noteq> NULL \<longrightarrow> rb_root tree = plug gs t)"
proof (cases "l = NULL")
  case False
  have "\<not> RB_MAX_HEIGHT \<le> length fs"
    using rb_height_plug [of fs "Node l a c r"] low root by (simp add: low_def)
  then show ?thesis using move_down [OF low root False] False by (auto simp: trav_move_def)
next
  case True
  obtain gs t where c: "climb False fs (Node l a c r) = (gs, t)" by fastforce
  show ?thesis
  proof (cases t)
    case NULL
    then show ?thesis using climb_spec(1) [OF c] c True by (auto simp: first_of_def trav_move_def)
  next
    case (Node l' x c' r')
    from climb_spec(2) [OF c Node] have p: "plug gs t = rb_root tree"
        and r: "inorder r' @ rights gs = a # inorder r @ rights fs" using root True by auto
    have "inorder (plug gs t) = inorder (plug fs (Node l a c r))" using p root by simp
    then have "(lefts gs @ inorder l' @ [x]) @ (a # inorder r @ rights fs) = (lefts fs @ inorder l) @ (a # inorder r @ rights fs)"
      using Node r by simp
    then have "lefts gs @ inorder l' @ [x] = lefts fs @ inorder l" unfolding append_same_eq .
    then have e: "lefts fs @ inorder l = (lefts gs @ inorder l') @ [x]" by simp
    have "first_of (rev (lefts fs @ inorder l)) = Some x" unfolding e by (simp add: first_of_def)
    then show ?thesis using c True p Node by (auto simp: trav_move_def)
  qed
qed

lemma trav_search_found:
  "\<lbrakk>rb_search cmp item fs t = Found gs l a c r; length fs + rb_height t \<le> RB_MAX_HEIGHT\<rbrakk>
   \<Longrightarrow> trav_search cmp item fs t = Some (gs, Node l a c r)"
proof (induction cmp item fs t rule: trav_search.induct)
  case (2 cmp item fs l' a' c' r')
  then show ?case by (auto split: if_splits)
qed simp

lemma search_own_item:
  assumes ord: "rb_order (rb_cmp tree)" and ok: "rb_ok tree" and a: "a \<in> set (rb_items tree)"
  obtains fs l c r where "rb_search (rb_cmp tree) a [] (rb_root tree) = Found fs l a c r"
    "rb_root tree = plug fs (Node l a c r)"
proof -
  have srt: "sorted_wrt (\<lambda>a b. rb_cmp tree a b < 0) (inorder (rb_root tree))"
    using ok by (simp add: rb_ok_def rb_items_def)
  have refl: "rb_cmp tree a a = 0" using rb_order.cmp_swap [OF ord, of a a] by linarith
  note sp = rb_order.splits_at_filter(3) [OF ord]
  show ?thesis
  proof (cases "rb_search (rb_cmp tree) a [] (rb_root tree)")
    case (Hole fs)
    from rb_order.rb_search_root(1) [OF ord srt Hole] sp a refl show ?thesis
      by (auto simp: rb_items_def)
  next
    case (Found fs l b c r)
    from rb_order.rb_search_root(2) [OF ord srt Found] sp a refl have "b = a"
      by (auto simp: rb_items_def)
    then have "rb_search (rb_cmp tree) a [] (rb_root tree) = Found fs l a c r" "rb_root tree = plug fs (Node l a c r)"
      using Found plug_search(1) [OF Found] by simp_all
    then show ?thesis by (rule that)
  qed
qed

lemma trav_resolve:
  assumes ord: "rb_order (rb_cmp tree)" and ok: "rb_ok tree" and low: "low tree" and tr: "trav_ok tree trav" "tr_node trav = Some a"
  obtains trav1 fs l c r where
    "(if tr_generation trav \<noteq> rb_generation tree then trav_refresh tree trav else Some trav) = Some trav1"
    "tr_node trav1 = Some a" "trav_node tree trav1 a = Some (fs, Node l a c r)" "rb_root tree = plug fs (Node l a c r)"
proof (cases "tr_generation trav = rb_generation tree")
  case True
  then obtain fs l c r where f: "rb_root tree = plug fs (Node l a c r)" "tr_stack trav = map frame_dir fs"
    using tr by (auto simp: trav_ok_def on_path_def)
  then have "trav_node tree trav a = Some (fs, Node l a c r)"
    using True rb_follow_plug [of fs "[]"] by (simp add: trav_node_def)
  then show ?thesis using that True tr(2) f(1) by simp
next
  case False
  have "a \<in> set (rb_items tree)" using tr by (simp add: trav_ok_def)
  then obtain fs l c r where f: "rb_search (rb_cmp tree) a [] (rb_root tree) = Found fs l a c r"
      "rb_root tree = plug fs (Node l a c r)" by (rule search_own_item [OF ord ok])
  have s: "trav_search (rb_cmp tree) a [] (rb_root tree) = Some (fs, Node l a c r)"
    using trav_search_found [OF f(1)] low by (simp add: low_def)
  let ?t = "trav\<lparr>tr_generation := rb_generation tree, tr_stack := map frame_dir fs\<rparr>"
  have "trav_refresh tree trav = Some ?t" using s tr(2) by (simp add: trav_refresh_def)
  moreover have "trav_node tree ?t a = Some (fs, Node l a c r)"
    using rb_follow_plug [of fs "[]"] f(2) by (simp add: trav_node_def)
  ultimately show ?thesis using that [of ?t] False tr(2) f(2) by simp
qed

lemma rb_t_step_spec:
  assumes ord: "rb_order (rb_cmp tree)" and ok: "rb_ok tree" and low: "low tree" and tr: "trav_ok tree trav" "tr_node trav = Some a"
    and items: "rb_items tree = xs @ a # ys"
  shows "\<exists>trav'. rb_t_step d tree trav = Some (trav', first_of (if d then ys else rev xs)) \<and> trav_ok tree trav'
    \<and> tr_node trav' = first_of (if d then ys else rev xs)"
proof -
  obtain trav1 fs l c r where t: "(if tr_generation trav \<noteq> rb_generation tree then trav_refresh tree trav else Some trav) = Some trav1"
    "tr_node trav1 = Some a" "trav_node tree trav1 a = Some (fs, Node l a c r)" "rb_root tree = plug fs (Node l a c r)"
    by (rule trav_resolve [OF ord ok low tr])
  have dist: "a \<notin> set xs" "a \<notin> set ys"
    using ok rb_order.cmp_swap [OF ord, of a a] unfolding rb_ok_def items by (auto simp: sorted_wrt_append)
  have "xs @ a # ys = (lefts fs @ inorder l) @ a # (inorder r @ rights fs)"
    using items t(4) by (simp add: rb_items_def)
  then have eq: "lefts fs @ inorder l = xs" "inorder r @ rights fs = ys"
    using dist append_Cons_eq_iff by metis+
  obtain gs u where u: "trav_move d fs l a c r = Some (gs, u)" "node_item u = first_of (if d then ys else rev xs)"
      "u \<noteq> NULL \<longrightarrow> rb_root tree = plug gs u"
    using trav_move_up [OF low t(4)] trav_move_down [OF low t(4)] eq by (cases d) auto
  have "rb_t_step d tree trav = Some (trav_at tree (gs, u))"
    using t(1-3) u(1) by (simp add: rb_t_step_def)
  moreover have "trav_ok tree (fst (trav_at tree (gs, u)))"
    using u(3) trav_at_ok(1) [of tree gs u] by (cases u) (auto simp: trav_ok_def trav_at_def)
  ultimately show ?thesis using u(2) by (simp add: trav_at_def)
qed

section \<open>The other operations\<close>

lemma rb_t_first_last:
  assumes "low tree"
  shows "\<exists>trav. rb_t_first tree = Some (trav, first_of (rb_items tree)) \<and> trav_ok tree trav \<and> tr_node trav = first_of (rb_items tree)"
    and "\<exists>trav. rb_t_last tree = Some (trav, first_of (rev (rb_items tree))) \<and> trav_ok tree trav
      \<and> tr_node trav = first_of (rev (rb_items tree))"
proof -
  have both: "\<exists>gs t. descend d [] (rb_root tree) = Some (gs, t) \<and> rb_root tree = plug gs t
      \<and> node_item t = first_of (if d then rev (rb_items tree) else rb_items tree)" for d
  proof (cases "rb_root tree = NULL")
    case True then show ?thesis by (simp add: rb_items_def first_of_def)
  next
    case False
    have "length ([] :: 'a frame list) + rb_height (rb_root tree) \<le> RB_MAX_HEIGHT" using assms by (simp add: low_def)
    from descend_spec [OF False this, of d] obtain gs l a c r where
      g: "descend d [] (rb_root tree) = Some (gs, Node l a c r)" "plug gs (Node l a c r) = rb_root tree"
        "d \<longrightarrow> r = NULL \<and> rights gs = []" "\<not> d \<longrightarrow> l = NULL \<and> lefts gs = []" by auto
    have "rb_items tree = lefts gs @ inorder l @ a # inorder r @ rights gs"
      using g(2) inorder_plug [of gs "Node l a c r"] by (simp add: rb_items_def)
    then show ?thesis using g by (cases d) (auto simp: first_of_def)
  qed
  show "\<exists>trav. rb_t_first tree = Some (trav, first_of (rb_items tree)) \<and> trav_ok tree trav \<and> tr_node trav = first_of (rb_items tree)"
    using both [of False] trav_at_ok [of tree] by (force simp: rb_t_first_def trav_at_def)
  show "\<exists>trav. rb_t_last tree = Some (trav, first_of (rev (rb_items tree))) \<and> trav_ok tree trav
      \<and> tr_node trav = first_of (rev (rb_items tree))"
    using both [of True] trav_at_ok [of tree] by (force simp: rb_t_last_def trav_at_def)
qed

lemma low_bound:
  assumes "rb_ok tree" and "Suc (length (rb_items tree)) < 2 ^ 23"
  shows "low tree"
  using rb_height_log [of "rb_root tree" 23] assms by (simp add: low_def rb_ok_def rb_items_def)

text \<open>What a traverser at an item, or at the null item, comes to next in a sequence.\<close>

fun next_in :: "'a option \<Rightarrow> 'a list \<Rightarrow> 'a option" where
  "next_in None zs = first_of zs"
| "next_in (Some a) zs = first_of (tl (dropWhile (\<lambda>b. b \<noteq> a) zs))"

lemma next_in_split: "a \<notin> set xs \<Longrightarrow> next_in (Some a) (xs @ a # ys) = first_of ys"
  by (induction xs) auto

lemma rb_t_step_next:
  assumes ord: "rb_order (rb_cmp tree)" and ok: "rb_ok tree" and size: "Suc (length (rb_items tree)) < 2 ^ 23" and tr: "trav_ok tree trav"
    and zs: "zs = (if d then rb_items tree else rev (rb_items tree))"
  shows "\<exists>trav'. rb_t_step d tree trav = Some (trav', next_in (tr_node trav) zs) \<and> trav_ok tree trav'
    \<and> tr_node trav' = next_in (tr_node trav) zs"
proof (cases "tr_node trav")
  case None
  then show ?thesis using rb_t_first_last [OF low_bound [OF ok size]] zs
    by (cases d) (auto simp: rb_t_step_def trav_refresh_def)
next
  case (Some a)
  then have "a \<in> set (rb_items tree)" using tr by (simp add: trav_ok_def)
  then obtain xs ys where items: "rb_items tree = xs @ a # ys" by (meson split_list)
  have dist: "a \<notin> set xs" "a \<notin> set ys"
    using ok rb_order.cmp_swap [OF ord, of a a] unfolding rb_ok_def items by (auto simp: sorted_wrt_append)
  have "next_in (Some a) zs = first_of (if d then ys else rev xs)"
    using next_in_split [OF dist(1), of ys] next_in_split [of a "rev ys" "rev xs"] dist(2) items zs
    by (cases d) (simp_all del: next_in.simps)
  then show ?thesis using rb_t_step_spec [OF ord ok low_bound [OF ok size] tr Some items, of d] Some by simp
qed

text \<open>
  C14: traversal.  Whether or not the table changed since the last step, \<open>rb_t_next\<close> moves a traverser
  to the item that follows its item in the order of the table, or from the null item to the first one,
  and \<open>rb_t_prev\<close> to the one before it, or to the last one; at the ends both return null.  The bounds
  asserted for the stack hold, and the traverser stays usable.
\<close>

theorem rb_t_next_prev_correct:
  assumes "rb_order (rb_cmp tree)" and "rb_ok tree" and "Suc (length (rb_items tree)) < 2 ^ 23" and "trav_ok tree trav"
  shows "\<exists>trav' trav''.
      rb_t_next tree trav = Some (trav', next_in (tr_node trav) (rb_items tree))
      \<and> trav_ok tree trav' \<and> tr_node trav' = next_in (tr_node trav) (rb_items tree)
      \<and> rb_t_prev tree trav = Some (trav'', next_in (tr_node trav) (rev (rb_items tree)))
      \<and> trav_ok tree trav'' \<and> tr_node trav'' = next_in (tr_node trav) (rev (rb_items tree))"
  using rb_t_step_next [OF assms, of _ True] rb_t_step_next [OF assms, of _ False]
  by (auto simp: rb_t_next_def rb_t_prev_def)

theorem rb_t_next_prev_correct_witness:
  "\<exists>trav. rb_t_next int_table \<lparr>tr_node = Some 5, tr_stack = [], tr_generation = 0\<rparr> = Some (trav, Some 8)"
proof -
  have "trav_ok int_table \<lparr>tr_node = Some 5, tr_stack = [], tr_generation = 0\<rparr>"
    by (simp add: trav_ok_def rb_items_def int_table_def)
  from rb_t_next_prev_correct [OF int_table_order int_table_ok _ this] show ?thesis
    by (auto simp: rb_items_def int_table_def first_of_def)
qed

text \<open>
  The other ways to place a traverser: a search, and an insertion.
\<close>

lemma trav_find_spec:
  "length fs + rb_height t \<le> RB_MAX_HEIGHT \<Longrightarrow>
     trav_find cmp item fs t =
       Some (case rb_search cmp item fs t of Found gs l a c r \<Rightarrow> (gs, Node l a c r) | Hole _ \<Rightarrow> ([], NULL))"
  by (induction cmp item fs t rule: trav_find.induct) auto

lemma rb_t_find_spec:
  assumes "low tree"
  shows "\<exists>trav. rb_t_find tree item = Some (trav, rb_find tree item) \<and> trav_ok tree trav \<and> tr_node trav = rb_find tree item"
proof -
  have "length ([] :: 'a frame list) + rb_height (rb_root tree) \<le> RB_MAX_HEIGHT" using assms by (simp add: low_def)
  note f = trav_find_spec [OF this, of "rb_cmp tree" item]
  show ?thesis
  proof (cases "rb_search (rb_cmp tree) item [] (rb_root tree)")
    case (Found gs l a c r)
    then have root: "rb_root tree = plug gs (Node l a c r)" using plug_search(1) [OF Found] by simp
    show ?thesis using f Found trav_at_ok [OF root]
      by (simp add: rb_t_find_def rb_find_def rb_find_node_search [where fs = "[]"] trav_at_def)
  next
    case (Hole gs)
    then show ?thesis using f
      by (simp add: rb_t_find_def rb_find_def rb_find_node_search [where fs = "[]"] trav_at_def trav_ok_def)
  qed
qed

section \<open>Copying a table\<close>

text \<open>
  \<open>rb_copy\<close> walks over the tree without recursion and builds the new tree on the way.  The path from
  the root of the new tree to the node \<open>y\<close> is a list of frames: \<open>Pending\<close> is a node on the stack of the C
  function, whose left subtree is being copied and whose data and right link are not set yet; \<open>Done\<close> is a
  node whose right subtree is being copied, with its copied left subtree and data.
\<close>

datatype 'a copy_frame = Pending 'a rb_color "'a rb_node" | Done "'a rb_node" 'a rb_color

datatype ('a, 'p) copy_outcome = Copy_Null "'a list" | Copy_New "('a, 'p) rb_table"

fun is_pending :: "'a copy_frame \<Rightarrow> bool" where
  "is_pending (Pending _ _ _) = True"
| "is_pending (Done _ _ _) = False"

text \<open>
  The items the error recovery passes to \<open>destroy\<close>, in order: \<open>items\<close> are those below the frames.  The
  data of a pending node was never written, and \<open>rb_destroy\<close> reads it if there is a function \<open>destroy\<close>:
  the result is \<open>None\<close> then.
\<close>

fun copied_items :: "'a copy_frame list \<Rightarrow> 'a list \<Rightarrow> 'a list" where
  "copied_items [] items = items"
| "copied_items (Pending _ _ _ # st) items = copied_items st items"
| "copied_items (Done l a _ # st) items = copied_items st (inorder l @ a # items)"

definition copy_error_recovery :: "bool \<Rightarrow> 'a copy_frame list \<Rightarrow> 'a list \<Rightarrow> ('a rb_node + 'a list) option" where
  "copy_error_recovery destroy st items =
     (if destroy \<and> list_ex is_pending st then None
      else Some (Inr (if destroy then copied_items st items else [])))"

definition copy_height :: "'a copy_frame list \<Rightarrow> nat" where
  "copy_height st = 2 * Suc (length (filter is_pending st))"

fun copy_work :: "'a copy_frame list \<Rightarrow> nat" where
  "copy_work [] = 0"
| "copy_work (Pending a c r # st) = 4 * size r + 3 + copy_work st"
| "copy_work (Done l a c # st) = 1 + copy_work st"

text \<open>
  \<open>ok n\<close> says whether the allocation number \<open>n\<close> succeeds; \<open>copy\<close> fails with \<open>None\<close>.  \<open>copy_down\<close> is the
  inner while loop, \<open>copy_item\<close> the body of the inner for loop and \<open>copy_up\<close> its end, which goes back to
  the last pending node.  The entry of the root link itself is the first on the stack: it counts for the
  height.
\<close>

function copy_down :: "(nat \<Rightarrow> bool) \<Rightarrow> ('a \<Rightarrow> 'a option) \<Rightarrow> bool \<Rightarrow> nat \<Rightarrow> 'a copy_frame list \<Rightarrow> 'a rb_node \<Rightarrow> ('a rb_node + 'a list) option"
  and copy_item :: "(nat \<Rightarrow> bool) \<Rightarrow> ('a \<Rightarrow> 'a option) \<Rightarrow> bool \<Rightarrow> nat \<Rightarrow> 'a copy_frame list \<Rightarrow> 'a rb_node \<Rightarrow> 'a \<Rightarrow> rb_color \<Rightarrow> 'a rb_node \<Rightarrow> ('a rb_node + 'a list) option"
  and copy_up :: "(nat \<Rightarrow> bool) \<Rightarrow> ('a \<Rightarrow> 'a option) \<Rightarrow> bool \<Rightarrow> nat \<Rightarrow> 'a copy_frame list \<Rightarrow> 'a rb_node \<Rightarrow> ('a rb_node + 'a list) option" where
  "copy_down ok copy destroy n st NULL = None"
| "copy_down ok copy destroy n st (Node l a c r) =
     (if l = NULL then copy_item ok copy destroy n st NULL a c r
      else if 2 * (RB_MAX_HEIGHT + 1) \<le> copy_height st then None
      else if \<not> ok n then copy_error_recovery destroy st []
      else copy_down ok copy destroy (Suc n) (Pending a c r # st) l)"
| "copy_item ok copy destroy n st l a c r =
     (case copy a of
        None \<Rightarrow> copy_error_recovery destroy st (inorder l)
      | Some b \<Rightarrow>
          if r \<noteq> NULL then
            if \<not> ok n then copy_error_recovery destroy st (inorder l @ [b])
            else copy_down ok copy destroy (Suc n) (Done l b c # st) r
          else copy_up ok copy destroy n st (Node l b c NULL))"
| "copy_up ok copy destroy n [] t = Some (Inl t)"
| "copy_up ok copy destroy n (Done l a c # st) t = copy_up ok copy destroy n st (Node l a c t)"
| "copy_up ok copy destroy n (Pending a c r # st) t = copy_item ok copy destroy n st t a c r"
  by pat_completeness auto
termination
  by (relation "measure (\<lambda>x. case x of
        Inl (ok, copy, destroy, n, st, t) \<Rightarrow> 4 * size t + copy_work st
      | Inr (Inl (ok, copy, destroy, n, st, l, a, c, r)) \<Rightarrow> 4 * size r + 2 + copy_work st
      | Inr (Inr (ok, copy, destroy, n, st, t)) \<Rightarrow> 1 + copy_work st)") auto

text \<open>
  The first allocation is that of the table, the second that of the root node.  \<open>copy\<close> and \<open>destroy\<close> may
  be null.  A table that counts items but has no root makes the function read colour and data of the
  root link, which has none.
\<close>

definition rb_copy ::
  "(nat \<Rightarrow> bool) \<Rightarrow> ('a, 'p) rb_table \<Rightarrow> ('a \<Rightarrow> 'a option) option \<Rightarrow> bool \<Rightarrow> ('a, 'p) copy_outcome option" where
  "rb_copy ok org copy destroy =
     (case rb_create (ok 0) (rb_compare org) (rb_param org) of
        None \<Rightarrow> Some (Copy_Null [])
      | Some new0 \<Rightarrow>
          let new = new0\<lparr>rb_count := rb_count org\<rparr>
          in if rb_count new = 0 then Some (Copy_New new)
             else if rb_root org = NULL then None
             else if \<not> ok 1 then Some (Copy_Null [])
             else map_option (\<lambda>res. case res of Inl t \<Rightarrow> Copy_New (new\<lparr>rb_root := t\<rparr>) | Inr items \<Rightarrow> Copy_Null items)
                    (copy_down ok (case copy of None \<Rightarrow> Some | Some f \<Rightarrow> f) destroy 2 [] (rb_root org)))"

lemma copy_down_total:
  assumes "\<And>n. ok n" and "\<And>a. a \<in> set (inorder t) \<Longrightarrow> copy a = Some (f a)" and "t \<noteq> NULL"
    and "length (filter is_pending st) + rb_height t \<le> RB_MAX_HEIGHT"
  shows "\<exists>n'. copy_down ok copy destroy n st t = copy_up ok copy destroy n' st (map_rb_node f t)"
  using assms
proof (induction t arbitrary: n st)
  case (Node l a c r)
  have a: "copy a = Some (f a)" using Node.prems(2) by simp
  have item: "\<exists>n'. copy_item ok copy destroy m st (map_rb_node f l) a c r
      = copy_up ok copy destroy n' st (map_rb_node f (Node l a c r))" for m
  proof (cases "r = NULL")
    case True then show ?thesis using a by auto
  next
    case False
    have "length (filter is_pending (Done (map_rb_node f l) (f a) c # st)) + rb_height r \<le> RB_MAX_HEIGHT"
      using Node.prems(4) by simp
    then obtain n' where "copy_down ok copy destroy (Suc m) (Done (map_rb_node f l) (f a) c # st) r =
        copy_up ok copy destroy n' (Done (map_rb_node f l) (f a) c # st) (map_rb_node f r)"
      using Node.IH(2) [OF Node.prems(1) _ False, of "Done (map_rb_node f l) (f a) c # st" "Suc m"] Node.prems(2)
      by auto
    then show ?thesis using a False Node.prems(1) by auto
  qed
  show ?case
  proof (cases "l = NULL")
    case True then show ?thesis using item [of n] by simp
  next
    case False
    have "\<not> 2 * (RB_MAX_HEIGHT + 1) \<le> copy_height st" using Node.prems(4) by (simp add: copy_height_def)
    then have step: "copy_down ok copy destroy n st (Node l a c r) = copy_down ok copy destroy (Suc n) (Pending a c r # st) l"
      using False Node.prems(1) [of n] by simp
    have "length (filter is_pending (Pending a c r # st)) + rb_height l \<le> RB_MAX_HEIGHT" using Node.prems(4) by simp
    then obtain n' where "copy_down ok copy destroy (Suc n) (Pending a c r # st) l =
        copy_up ok copy destroy n' (Pending a c r # st) (map_rb_node f l)"
      using Node.IH(1) [OF Node.prems(1) _ False, of "Pending a c r # st" "Suc n"] Node.prems(2) by auto
    then show ?thesis using item [of n'] unfolding step copy_up.simps by simp
  qed
qed simp

lemma inorder_map: "inorder (map_rb_node f t) = map f (inorder t)"
  by (induction t) auto

text \<open>
  copying.  If no allocation fails and the copy function succeeds on every item, \<open>rb_copy\<close> returns a
  table with the shape and the colours of the original in which every item is replaced by its copy.
\<close>

theorem rb_copy_correct:
  assumes "rb_ok org" and "Suc (length (rb_items org)) < 2 ^ 23" and "\<forall>a \<in> set (rb_items org). copy a = Some (f a)"
  shows "\<exists>new. rb_copy (\<lambda>n. True) org (Some copy) destroy = Some (Copy_New new) \<and> rb_root new = map_rb_node f (rb_root org)
    \<and> rb_items new = map f (rb_items org) \<and> rb_count new = rb_count org \<and> rb_cmp new = rb_cmp org"
proof -
  let ?new = "\<lparr>rb_root = NULL, rb_compare = rb_compare org, rb_param = rb_param org, rb_count = rb_count org, rb_generation = 0\<rparr>"
  have cnt: "rb_count org = of_nat (length (rb_items org))" using assms(1) by (simp add: rb_ok_def)
  have small: "length (rb_items org) < 2 ^ LENGTH(64)" using assms(2) by simp
  have zero: "rb_count org = 0 \<longleftrightarrow> rb_items org = []"
    using cnt small by (auto simp: word_of_nat_eq_0_iff dest: dvd_imp_le)
  have root: "rb_items org = [] \<longleftrightarrow> rb_root org = NULL" by (cases "rb_root org") (auto simp: rb_items_def)
  have cmp: "rb_cmp (?new\<lparr>rb_root := t\<rparr>) = rb_cmp org" for t by (simp add: rb_cmp_def fun_eq_iff)
  show ?thesis
  proof (cases "rb_root org = NULL")
    case True
    then have "rb_copy (\<lambda>n. True) org (Some copy) destroy = Some (Copy_New ?new)"
      using zero root by (simp add: rb_copy_def rb_create_def Let_def)
    then show ?thesis using True cmp [of NULL] by (simp add: rb_items_def)
  next
    case False
    have "length (filter is_pending []) + rb_height (rb_root org) \<le> RB_MAX_HEIGHT"
      using low_bound [OF assms(1,2)] by (simp add: low_def)
    from copy_down_total [of "\<lambda>n. True" "rb_root org" copy f "[]" destroy 2, OF _ _ False this] assms(3)
    have "copy_down (\<lambda>n. True) copy destroy 2 [] (rb_root org) = Some (Inl (map_rb_node f (rb_root org)))"
      by (auto simp: rb_items_def)
    then have "rb_copy (\<lambda>n. True) org (Some copy) destroy = Some (Copy_New (?new\<lparr>rb_root := map_rb_node f (rb_root org)\<rparr>))"
      using False zero root by (simp add: rb_copy_def rb_create_def Let_def)
    then show ?thesis using cmp by (simp add: rb_items_def inorder_map)
  qed
qed

theorem rb_copy_correct_witness:
  "\<exists>new. rb_copy (\<lambda>n. True) int_table (Some (\<lambda>a. Some (a + 1))) True = Some (Copy_New new) \<and> rb_items new = [4, 6, 9]"
  using rb_copy_correct [OF int_table_ok, of "\<lambda>a. Some (a + 1)" "\<lambda>a. a + 1" True]
  by (auto simp: rb_items_def int_table_def)

text \<open>
  When an allocation fails below a node whose left subtree is being copied, the recovery reads the data
  of that node, which was never written.
\<close>

lemma rb_copy_reads_uninitialised: "rb_copy (\<lambda>n. n < 2) int_table None True = Some (Copy_Null [])"
    "rb_copy (\<lambda>n. n < 3) (int_table\<lparr>rb_root := Node (Node NULL 3 RB_RED (Node NULL 4 RB_BLACK NULL)) 5 RB_BLACK NULL\<rparr>) None True = None"
  by (simp_all add: rb_copy_def rb_create_def int_table_def copy_error_recovery_def copy_height_def)

end
