(* ===== verification/Lz_Iobuf.thy ===== *)
theory Lz_Iobuf
  imports Lz_Mem_Pool "HOL-Library.Monad_Syntax"
begin

text \<open>
  The buffer pool of \<^verbatim>\<open>iobuf.c\<close>: pools of arenas, arenas of pages, reference-counted handles
  (\<open>iobuf\<close>) of the pages, and vectors of handles (\<open>iobref\<close>).  All objects live in one store, keyed by
  address; a freed object is no longer in the store, and an access to it is the result \<open>None\<close>, as are a
  failed \<^verbatim>\<open>assert\<close>, a division by zero and a lock taken twice.  The intrusive lists are the sequences
  of their elements, which is what the operations of \<^verbatim>\<open>list.h\<close> implement (theory \<open>Lz_List\<close>); unlinking
  an element removes it from the list it is in.  The lemmas show that in every run the lists, the
  counters and the reference counts agree, that \<open>iobuf_get\<close> hands out pages nobody holds and that
  releasing them never aborts.
\<close>

section \<open>State\<close>

record iobuf =
  buf_arena :: addr
  buf_ref :: int
  buf_ptr :: addr

record iobuf_arena =
  arena_pool :: addr
  mem_base :: addr
  arena_iobufs :: addr
  active_cnt :: int
  active_list :: "addr list"
  passive_cnt :: int
  passive_list :: "addr list"

record iobuf_pool =
  page_size :: nat
  arena_size :: nat
  arena_cnt :: int
  arenas :: "addr list"
  filled :: "addr list"
  purge :: "addr list"

record iobref =
  iobref_refs :: int
  iobrefs :: "addr list"

text \<open>The store; \<open>mapped\<close> are the regions obtained from \<^verbatim>\<open>mmap\<close>, with their sizes.\<close>

record iob_store =
  bufs :: "addr \<rightharpoonup> iobuf"
  ars :: "addr \<rightharpoonup> iobuf_arena"
  pls :: "addr \<rightharpoonup> iobuf_pool"
  brefs :: "addr \<rightharpoonup> iobref"
  mapped :: "addr \<rightharpoonup> nat"

definition put_buf :: "addr \<Rightarrow> iobuf \<Rightarrow> iob_store \<Rightarrow> iob_store" where
  "put_buf a b w = w\<lparr>bufs := (bufs w)(a \<mapsto> b)\<rparr>"

definition put_arena :: "addr \<Rightarrow> iobuf_arena \<Rightarrow> iob_store \<Rightarrow> iob_store" where
  "put_arena a r w = w\<lparr>ars := (ars w)(a \<mapsto> r)\<rparr>"

definition put_pool :: "addr \<Rightarrow> iobuf_pool \<Rightarrow> iob_store \<Rightarrow> iob_store" where
  "put_pool a p w = w\<lparr>pls := (pls w)(a \<mapsto> p)\<rparr>"

definition put_bref :: "addr \<Rightarrow> iobref \<Rightarrow> iob_store \<Rightarrow> iob_store" where
  "put_bref a r w = w\<lparr>brefs := (brefs w)(a \<mapsto> r)\<rparr>"

text \<open>
  \<^verbatim>\<open>sizeof (struct iobuf)\<close> with a \<^verbatim>\<open>pthread_mutex_t\<close> of 40 bytes, and the value of \<^verbatim>\<open>mmap\<close> on failure.
\<close>

definition sizeof_iobuf :: nat where "sizeof_iobuf = 80"

definition MAP_FAILED :: addr where "MAP_FAILED = 2 ^ 64 - 1"

text \<open>
  The results of the allocations of one call of \<open>iobuf_arena_alloc\<close>: the structure, the region and the
  array of handles; \<open>0\<close> is a failure of \<^verbatim>\<open>CALLOC\<close>.
\<close>

record arena_allocs =
  al_arena :: addr
  al_mem :: addr
  al_iobufs :: addr

section \<open>Arenas\<close>

definition iobuf_cnt :: "iobuf_pool \<Rightarrow> int option" where
  "iobuf_cnt p = (if page_size p = 0 then None else Some (to_cint (arena_size p div page_size p)))"

fun init_iobufs_loop ::
  "addr \<Rightarrow> nat \<Rightarrow> nat \<Rightarrow> addr \<Rightarrow> int \<Rightarrow> (addr \<rightharpoonup> iobuf) \<Rightarrow> iobuf_arena \<Rightarrow> (addr \<rightharpoonup> iobuf) \<times> iobuf_arena" where
  "init_iobufs_loop a page 0 iobuf offset bs r = (bs, r)"
| "init_iobufs_loop a page (Suc n) iobuf offset bs r =
     init_iobufs_loop a page n (iobuf + sizeof_iobuf) (signed_take_bit 31 (offset + int page))
       (bs(iobuf \<mapsto> \<lparr>buf_arena = a, buf_ref = 0, buf_ptr = nat (int (mem_base r) + offset)\<rparr>))
       (r\<lparr>passive_list := iobuf # passive_list r, passive_cnt := passive_cnt r + 1\<rparr>)"

definition iobuf_arena_init_iobufs :: "addr \<Rightarrow> addr \<Rightarrow> iob_store \<Rightarrow> iob_store option" where
  "iobuf_arena_init_iobufs new a w =
     do {
       r \<leftarrow> ars w a;
       p \<leftarrow> pls w (arena_pool r);
       cnt \<leftarrow> iobuf_cnt p;
       let r1 = r\<lparr>arena_iobufs := new\<rparr>;
       if new = 0 then Some (put_arena a r1 w)
       else
         let (bs, r2) = init_iobufs_loop a (page_size p) (nat cnt) new 0 (bufs w) r1
         in Some (put_arena a r2 (w\<lparr>bufs := bs\<rparr>))
     }"

text \<open>A handle is unlinked from the list it is in.\<close>

definition unlink_iobuf :: "addr \<Rightarrow> iobuf_arena \<Rightarrow> iobuf_arena" where
  "unlink_iobuf iobuf r = r\<lparr>active_list := remove1 iobuf (active_list r), passive_list := remove1 iobuf (passive_list r)\<rparr>"

fun destroy_iobufs_loop ::
  "nat \<Rightarrow> addr \<Rightarrow> (addr \<rightharpoonup> iobuf) \<Rightarrow> iobuf_arena \<Rightarrow> iobuf_arena option" where
  "destroy_iobufs_loop 0 iobuf bs r = Some r"
| "destroy_iobufs_loop (Suc n) iobuf bs r =
     do {
       b \<leftarrow> bs iobuf;
       if buf_ref b \<noteq> 0 then None
       else destroy_iobufs_loop n (iobuf + sizeof_iobuf) bs (unlink_iobuf iobuf r)
     }"

text \<open>The addresses of the handles of an array.\<close>

definition iobuf_array :: "addr \<Rightarrow> nat \<Rightarrow> addr list" where
  "iobuf_array base n = map (\<lambda>i. base + i * sizeof_iobuf) [0..<n]"

text \<open>\<^verbatim>\<open>FREE\<close> of the array takes its handles from the store and leaves its mark in the pointer.\<close>

definition iobuf_arena_destroy_iobufs :: "addr \<Rightarrow> iob_store \<Rightarrow> iob_store option" where
  "iobuf_arena_destroy_iobufs a w =
     do {
       r \<leftarrow> ars w a;
       p \<leftarrow> pls w (arena_pool r);
       cnt \<leftarrow> iobuf_cnt p;
       if arena_iobufs r = 0 then Some w
       else do {
         r1 \<leftarrow> destroy_iobufs_loop (nat cnt) (arena_iobufs r) (bufs w) r;
         Some (put_arena a (r1\<lparr>arena_iobufs := 0xeeeeeeee\<rparr>)
           (w\<lparr>bufs := bufs w |` (- set (iobuf_array (arena_iobufs r) (nat cnt)))\<rparr>))
       }
     }"

definition iobuf_arena_destroy :: "addr \<Rightarrow> iob_store \<Rightarrow> iob_store option" where
  "iobuf_arena_destroy a w =
     (if a = 0 then Some w
      else do {
        r \<leftarrow> ars w a;
        w1 \<leftarrow> iobuf_arena_destroy_iobufs a w;
        let w2 = (if mem_base r \<noteq> 0 \<and> mem_base r \<noteq> MAP_FAILED
                  then w1\<lparr>mapped := (mapped w1)(mem_base r := None)\<rparr> else w1);
        Some (w2\<lparr>ars := (ars w2)(a := None)\<rparr>)
      })"

definition zero_arena :: iobuf_arena where
  "zero_arena = \<lparr>arena_pool = 0, mem_base = 0, arena_iobufs = 0, active_cnt = 0, active_list = [],
                 passive_cnt = 0, passive_list = []\<rparr>"

definition iobuf_arena_alloc :: "arena_allocs \<Rightarrow> addr \<Rightarrow> iob_store \<Rightarrow> (iob_store \<times> addr) option" where
  "iobuf_arena_alloc al pool w =
     (let a = al_arena al
      in if a = 0 then map_option (\<lambda>w'. (w', 0)) (iobuf_arena_destroy 0 w)
         else do {
           p \<leftarrow> pls w pool;
           let mem = al_mem al;
           let w1 = put_arena a (zero_arena\<lparr>arena_pool := pool, mem_base := mem\<rparr>) w;
           if mem = MAP_FAILED then map_option (\<lambda>w'. (w', 0)) (iobuf_arena_destroy a w1)
           else do {
             w2 \<leftarrow> iobuf_arena_init_iobufs (al_iobufs al) a (w1\<lparr>mapped := (mapped w1)(mem \<mapsto> arena_size p)\<rparr>);
             r \<leftarrow> ars w2 a;
             if arena_iobufs r = 0 then map_option (\<lambda>w'. (w', 0)) (iobuf_arena_destroy a w2)
             else Some (put_pool pool (p\<lparr>arena_cnt := arena_cnt p + 1\<rparr>) w2, a)
           }
         })"

section \<open>Pools\<close>

text \<open>An arena is unlinked from the list of the pool it is in.\<close>

definition unlink_arena :: "addr \<Rightarrow> iobuf_pool \<Rightarrow> iobuf_pool" where
  "unlink_arena a p =
     p\<lparr>arenas := remove1 a (arenas p), filled := remove1 a (filled p), purge := remove1 a (purge p)\<rparr>"

definition iobuf_arena_unprune :: "addr \<Rightarrow> iob_store \<Rightarrow> (iob_store \<times> addr) option" where
  "iobuf_arena_unprune pool w =
     do {
       p \<leftarrow> pls w pool;
       case purge p of
         [] \<Rightarrow> Some (w, 0)
       | tmp # _ \<Rightarrow> Some (put_pool pool (unlink_arena tmp p) w, tmp)
     }"

definition iobuf_pool_add_arena :: "arena_allocs \<Rightarrow> addr \<Rightarrow> iob_store \<Rightarrow> (iob_store \<times> addr) option" where
  "iobuf_pool_add_arena al pool w =
     do {
       (w1, a1) \<leftarrow> iobuf_arena_unprune pool w;
       (w2, a) \<leftarrow> (if a1 = 0 then iobuf_arena_alloc al pool w1 else Some (w1, a1));
       if a = 0 then Some (w2, 0)
       else do {
         p \<leftarrow> pls w2 pool;
         Some (put_pool pool (p\<lparr>arenas := arenas p @ [a]\<rparr>) w2, a)
       }
     }"

text \<open>
  The loops that take arenas off a list and destroy them.  The loop has read the next element before it
  unlinks the current one, so it visits the elements the list had at the start.
\<close>

fun destroy_arenas :: "addr \<Rightarrow> addr list \<Rightarrow> iob_store \<Rightarrow> iob_store option" where
  "destroy_arenas pool [] w = Some w"
| "destroy_arenas pool (a # as) w =
     do {
       p \<leftarrow> pls w pool;
       w1 \<leftarrow> iobuf_arena_destroy a
               (put_pool pool ((unlink_arena a p)\<lparr>arena_cnt := arena_cnt p - 1\<rparr>) w);
       destroy_arenas pool as w1
     }"

definition iobuf_pool_destroy :: "addr \<Rightarrow> iob_store \<Rightarrow> iob_store option" where
  "iobuf_pool_destroy pool w =
     (if pool = 0 then Some w
      else do {
        p \<leftarrow> pls w pool;
        destroy_arenas pool (arenas p) w
      })"

definition iobuf_pool_new ::
  "addr \<Rightarrow> arena_allocs \<Rightarrow> nat \<Rightarrow> nat \<Rightarrow> iob_store \<Rightarrow> (iob_store \<times> addr) option" where
  "iobuf_pool_new new al asize psize w =
     (if asize < psize then Some (w, 0)
      else if new = 0 then Some (w, 0)
      else do {
        (w1, _) \<leftarrow> iobuf_pool_add_arena al new
          (put_pool new \<lparr>page_size = psize, arena_size = asize, arena_cnt = 0,
                         arenas = [], filled = [], purge = []\<rparr> w);
        Some (w1, new)
      })"

fun prune_arenas :: "addr \<Rightarrow> addr list \<Rightarrow> iob_store \<Rightarrow> iob_store option" where
  "prune_arenas pool [] w = Some w"
| "prune_arenas pool (a # as) w =
     do {
       r \<leftarrow> ars w a;
       if active_cnt r \<noteq> 0 then prune_arenas pool as w
       else do {
         p \<leftarrow> pls w pool;
         w1 \<leftarrow> iobuf_arena_destroy a
                 (put_pool pool ((unlink_arena a p)\<lparr>arena_cnt := arena_cnt p - 1\<rparr>) w);
         prune_arenas pool as w1
       }
     }"

definition iobuf_pool_prune :: "addr \<Rightarrow> iob_store \<Rightarrow> iob_store option" where
  "iobuf_pool_prune pool w =
     do {
       p \<leftarrow> pls w pool;
       if arenas p = [] then Some w else prune_arenas pool (purge p) w
     }"

section \<open>Getting and releasing buffers\<close>

fun select_passive :: "addr list \<Rightarrow> iob_store \<Rightarrow> addr option" where
  "select_passive [] w = Some 0"
| "select_passive (a # as) w =
     do {
       r \<leftarrow> ars w a;
       if passive_cnt r \<noteq> 0 then Some a else select_passive as w
     }"

definition iobuf_select_arena :: "arena_allocs \<Rightarrow> addr \<Rightarrow> iob_store \<Rightarrow> (iob_store \<times> addr) option" where
  "iobuf_select_arena al pool w =
     do {
       p \<leftarrow> pls w pool;
       a \<leftarrow> select_passive (arenas p) w;
       if a = 0 then iobuf_pool_add_arena al pool w else Some (w, a)
     }"

definition iobuf_add_ref :: "int \<Rightarrow> addr \<Rightarrow> iob_store \<Rightarrow> iob_store option" where
  "iobuf_add_ref d iobuf w =
     do {
       b \<leftarrow> bufs w iobuf;
       Some (put_buf iobuf (b\<lparr>buf_ref := buf_ref b + d\<rparr>) w)
     }"

text \<open>
  An arena whose list of passive handles is empty would make the loop variable point at the list head,
  which is no handle.
\<close>

definition iobuf_get_from :: "addr \<Rightarrow> iob_store \<Rightarrow> (iob_store \<times> addr) option" where
  "iobuf_get_from a w =
     do {
       r \<leftarrow> ars w a;
       p \<leftarrow> pls w (arena_pool r);
       case passive_list r of
         [] \<Rightarrow> None
       | iobuf # _ \<Rightarrow>
           let r1 = unlink_iobuf iobuf r;
               r2 = r1\<lparr>passive_cnt := passive_cnt r1 - 1, active_list := iobuf # active_list r1,
                       active_cnt := active_cnt r1 + 1\<rparr>;
               w1 = put_arena a r2 w;
               p1 = unlink_arena a p
           in Some (if passive_cnt r2 = 0
                    then put_pool (arena_pool r) (p1\<lparr>filled := a # filled p1\<rparr>) w1
                    else w1, iobuf)
     }"

definition iobuf_get :: "arena_allocs \<Rightarrow> addr \<Rightarrow> iob_store \<Rightarrow> (iob_store \<times> addr) option" where
  "iobuf_get al pool w =
     do {
       (w1, a) \<leftarrow> iobuf_select_arena al pool w;
       if a = 0 then Some (w1, 0)
       else do {
         (w2, iobuf) \<leftarrow> iobuf_get_from a w1;
         if iobuf = 0 then Some (w2, 0)
         else do {
           w3 \<leftarrow> iobuf_add_ref 1 iobuf w2;
           Some (w3, iobuf)
         }
       }
     }"

definition iobuf_put_to :: "addr \<Rightarrow> addr \<Rightarrow> iob_store \<Rightarrow> iob_store option" where
  "iobuf_put_to iobuf a w =
     do {
       r \<leftarrow> ars w a;
       p \<leftarrow> pls w (arena_pool r);
       let p1 = (if passive_cnt r = 0
                 then let q = unlink_arena a p in q\<lparr>arenas := arenas q @ [a]\<rparr> else p);
       let r1 = unlink_iobuf iobuf r;
       let r2 = r1\<lparr>active_cnt := active_cnt r1 - 1, passive_list := iobuf # passive_list r1,
                   passive_cnt := passive_cnt r1 + 1\<rparr>;
       let p2 = (if active_cnt r2 = 0
                 then let q = unlink_arena a p1 in q\<lparr>purge := purge q @ [a]\<rparr> else p1);
       Some (put_pool (arena_pool r) p2 (put_arena a r2 w))
     }"

definition iobuf_put :: "addr \<Rightarrow> iob_store \<Rightarrow> iob_store option" where
  "iobuf_put iobuf w =
     (if iobuf = 0 then Some w
      else do {
        b \<leftarrow> bufs w iobuf;
        if buf_arena b = 0 then Some w
        else do {
          r \<leftarrow> ars w (buf_arena b);
          if arena_pool r = 0 then Some w
          else do {
            w1 \<leftarrow> iobuf_put_to iobuf (buf_arena b) w;
            iobuf_pool_prune (arena_pool r) w1
          }
        }
      })"

definition iobuf_unref :: "addr \<Rightarrow> iob_store \<Rightarrow> iob_store option" where
  "iobuf_unref iobuf w =
     (if iobuf = 0 then Some w
      else do {
        w1 \<leftarrow> iobuf_add_ref (-1) iobuf w;
        b \<leftarrow> bufs w1 iobuf;
        if buf_ref b = 0 then iobuf_put iobuf w1 else Some w1
      })"

definition iobuf_ref :: "addr \<Rightarrow> iob_store \<Rightarrow> (iob_store \<times> addr) option" where
  "iobuf_ref iobuf w =
     (if iobuf = 0 then Some (w, 0)
      else map_option (\<lambda>w'. (w', iobuf)) (iobuf_add_ref 1 iobuf w))"

section \<open>Vectors of buffers\<close>

definition iobref_new :: "addr \<Rightarrow> iob_store \<Rightarrow> iob_store \<times> addr" where
  "iobref_new new w =
     (if new = 0 then (w, 0)
      else (put_bref new \<lparr>iobref_refs = 1, iobrefs = replicate 8 0\<rparr> w, new))"

definition iobref_ref :: "addr \<Rightarrow> iob_store \<Rightarrow> (iob_store \<times> addr) option" where
  "iobref_ref iobref w =
     (if iobref = 0 then Some (w, 0)
      else do {
        r \<leftarrow> brefs w iobref;
        Some (put_bref iobref (r\<lparr>iobref_refs := iobref_refs r + 1\<rparr>) w, iobref)
      })"

fun iobref_clear :: "nat \<Rightarrow> nat \<Rightarrow> addr \<Rightarrow> iob_store \<Rightarrow> iob_store option" where
  "iobref_clear 0 i iobref w = Some w"
| "iobref_clear (Suc n) i iobref w =
     do {
       r \<leftarrow> brefs w iobref;
       let iobuf = iobrefs r ! i;
       let w1 = put_bref iobref (r\<lparr>iobrefs := (iobrefs r)[i := 0]\<rparr>) w;
       w2 \<leftarrow> (if iobuf \<noteq> 0 then iobuf_unref iobuf w1 else Some w1);
       iobref_clear n (Suc i) iobref w2
     }"

definition iobref_destroy :: "addr \<Rightarrow> iob_store \<Rightarrow> iob_store option" where
  "iobref_destroy iobref w =
     (if iobref = 0 then Some w
      else do {
        w1 \<leftarrow> iobref_clear 8 0 iobref w;
        Some (w1\<lparr>brefs := (brefs w1)(iobref := None)\<rparr>)
      })"

definition iobref_unref :: "addr \<Rightarrow> iob_store \<Rightarrow> iob_store option" where
  "iobref_unref iobref w =
     (if iobref = 0 then Some w
      else do {
        r \<leftarrow> brefs w iobref;
        let ref = iobref_refs r - 1;
        let w1 = put_bref iobref (r\<lparr>iobref_refs := ref\<rparr>) w;
        if ref = 0 then iobref_destroy iobref w1 else Some w1
      })"

fun iobref_add_loop :: "nat \<Rightarrow> nat \<Rightarrow> addr \<Rightarrow> addr \<Rightarrow> iob_store \<Rightarrow> (iob_store \<times> int) option" where
  "iobref_add_loop 0 i iobref iobuf w = Some (w, -ENOMEM)"
| "iobref_add_loop (Suc n) i iobref iobuf w =
     do {
       r \<leftarrow> brefs w iobref;
       if iobrefs r ! i = 0 then do {
         (w1, b) \<leftarrow> iobuf_ref iobuf w;
         Some (put_bref iobref (r\<lparr>iobrefs := (iobrefs r)[i := b]\<rparr>) w1, 0)
       }
       else iobref_add_loop n (Suc i) iobref iobuf w
     }"

definition iobref_add :: "addr \<Rightarrow> addr \<Rightarrow> iob_store \<Rightarrow> (iob_store \<times> int) option" where
  "iobref_add iobref iobuf w =
     (if iobref = 0 then Some (w, -EINVAL)
      else if iobuf = 0 then Some (w, -EINVAL)
      else iobref_add_loop 8 0 iobref iobuf w)"

text \<open>
  \<open>iobref_merge\<close> holds the lock of \<open>from\<close> while \<open>iobref_add\<close> takes that of \<open>to\<close>: if they are the same
  vector the call never returns.
\<close>

fun iobref_merge_loop :: "nat \<Rightarrow> nat \<Rightarrow> addr \<Rightarrow> addr \<Rightarrow> int \<Rightarrow> iob_store \<Rightarrow> (iob_store \<times> int) option" where
  "iobref_merge_loop 0 i to from ret w = Some (w, ret)"
| "iobref_merge_loop (Suc n) i to from ret w =
     do {
       r \<leftarrow> brefs w from;
       let iobuf = iobrefs r ! i;
       if iobuf = 0 then Some (w, ret)
       else if to = from then None
       else do {
         (w1, ret1) \<leftarrow> iobref_add to iobuf w;
         if ret1 < 0 then Some (w1, ret1) else iobref_merge_loop n (Suc i) to from ret1 w1
       }
     }"

definition iobref_merge :: "addr \<Rightarrow> addr \<Rightarrow> iob_store \<Rightarrow> (iob_store \<times> int) option" where
  "iobref_merge to from w = (if from = 0 then None else iobref_merge_loop 8 0 to from 0 w)"

definition iobuf_size :: "addr \<Rightarrow> iob_store \<Rightarrow> nat option" where
  "iobuf_size iobuf w =
     (if iobuf = 0 then Some 0
      else do {
        b \<leftarrow> bufs w iobuf;
        if buf_arena b = 0 then Some 0
        else do {
          r \<leftarrow> ars w (buf_arena b);
          if arena_pool r = 0 then Some 0 else map_option page_size (pls w (arena_pool r))
        }
      })"

fun iobref_size_loop :: "addr list \<Rightarrow> nat \<Rightarrow> iob_store \<Rightarrow> nat option" where
  "iobref_size_loop [] sz w = Some sz"
| "iobref_size_loop (iobuf # bs) sz w =
     (if iobuf \<noteq> 0
      then do {
        s \<leftarrow> iobuf_size iobuf w;
        iobref_size_loop bs ((sz + s) mod 2 ^ 64) w
      }
      else iobref_size_loop bs sz w)"

definition iobref_size :: "addr \<Rightarrow> iob_store \<Rightarrow> nat option" where
  "iobref_size iobref w =
     (if iobref = 0 then Some 0
      else do {
        r \<leftarrow> brefs w iobref;
        iobref_size_loop (iobrefs r) 0 w
      })"

section \<open>The invariant\<close>

text \<open>
  The sizes of a pool: \<open>int\<close> offsets and counts do not overflow, and an arena has at least one page.
\<close>

definition pages :: "iobuf_pool \<Rightarrow> nat" where
  "pages p = arena_size p div page_size p"

definition sizes_ok :: "iobuf_pool \<Rightarrow> bool" where
  "sizes_ok p \<longleftrightarrow> 0 < page_size p \<and> page_size p \<le> arena_size p \<and> arena_size p < 2 ^ 31"

text \<open>
  An arena: its handles are those of its array, each is in exactly one of its lists, the counters are
  the lengths of the lists, and the handles with references are the active ones.
\<close>

definition buf_ok :: "addr \<Rightarrow> nat \<Rightarrow> iobuf_arena \<Rightarrow> nat \<Rightarrow> iobuf option \<Rightarrow> bool" where
  "buf_ok a psize r i ob \<longleftrightarrow>
     (\<exists>b. ob = Some b \<and> buf_arena b = a \<and> buf_ptr b = mem_base r + i * psize \<and> 0 \<le> buf_ref b
        \<and> (0 < buf_ref b \<longleftrightarrow> arena_iobufs r + i * sizeof_iobuf \<in> set (active_list r)))"

definition lists_ok :: "nat \<Rightarrow> iobuf_arena \<Rightarrow> bool" where
  "lists_ok n r \<longleftrightarrow>
     distinct (active_list r @ passive_list r)
     \<and> set (active_list r @ passive_list r) = set (iobuf_array (arena_iobufs r) n)
     \<and> active_cnt r = int (length (active_list r)) \<and> passive_cnt r = int (length (passive_list r))"

definition arena_ok :: "addr \<Rightarrow> nat \<Rightarrow> nat \<Rightarrow> (addr \<rightharpoonup> iobuf) \<Rightarrow> addr \<Rightarrow> iobuf_arena \<Rightarrow> bool" where
  "arena_ok pool psize n bs a r \<longleftrightarrow>
     arena_pool r = pool \<and> arena_iobufs r \<noteq> 0 \<and> mem_base r \<noteq> 0 \<and> mem_base r \<noteq> MAP_FAILED
     \<and> lists_ok n r \<and> (\<forall>i<n. buf_ok a psize r i (bs (arena_iobufs r + i * sizeof_iobuf)))"

text \<open>Which list of the pool an arena is in says what it has to offer.\<close>

definition place_ok :: "iobuf_pool \<Rightarrow> addr \<Rightarrow> iobuf_arena \<Rightarrow> bool" where
  "place_ok p a r \<longleftrightarrow>
     (a \<in> set (arenas p) \<longrightarrow> passive_list r \<noteq> []) \<and> (a \<in> set (filled p) \<longrightarrow> passive_list r = [])
     \<and> (a \<in> set (purge p) \<longrightarrow> active_list r = [])"

definition pool_lists_ok :: "iobuf_pool \<Rightarrow> addr set \<Rightarrow> bool" where
  "pool_lists_ok p A \<longleftrightarrow>
     distinct (arenas p @ filled p @ purge p) \<and> set (arenas p @ filled p @ purge p) = A
     \<and> arena_cnt p = int (length (arenas p @ filled p @ purge p))"

text \<open>The regions of the arenas are exactly the mapped ones and do not overlap.\<close>

definition regions_ok :: "nat \<Rightarrow> (addr \<rightharpoonup> iobuf_arena) \<Rightarrow> (addr \<rightharpoonup> nat) \<Rightarrow> bool" where
  "regions_ok asize rs mp \<longleftrightarrow>
     (\<forall>m. mp m \<noteq> None \<longleftrightarrow> (\<exists>a r. rs a = Some r \<and> mem_base r = m)) \<and> (\<forall>m s. mp m = Some s \<longrightarrow> s = asize)
     \<and> (\<forall>a r a' r'. rs a = Some r \<longrightarrow> rs a' = Some r' \<longrightarrow> a \<noteq> a' \<longrightarrow>
          {mem_base r ..< mem_base r + asize} \<inter> {mem_base r' ..< mem_base r' + asize} = {})"

definition owned_ok :: "(addr \<rightharpoonup> iobuf) \<Rightarrow> (addr \<rightharpoonup> iobuf_arena) \<Rightarrow> nat \<Rightarrow> bool" where
  "owned_ok bs rs n \<longleftrightarrow>
     (\<forall>x b. bs x = Some b \<longrightarrow> (\<exists>r. rs (buf_arena b) = Some r \<and> x \<in> set (iobuf_array (arena_iobufs r) n)))"

definition iob_inv :: "addr \<Rightarrow> iobuf_pool \<Rightarrow> iob_store \<Rightarrow> bool" where
  "iob_inv pool p w \<longleftrightarrow>
     pool \<noteq> 0 \<and> pls w pool = Some p \<and> sizes_ok p \<and> pool_lists_ok p (dom (ars w)) \<and> ars w 0 = None
     \<and> (\<forall>a r. ars w a = Some r \<longrightarrow> arena_ok pool (page_size p) (pages p) (bufs w) a r \<and> place_ok p a r)
     \<and> owned_ok (bufs w) (ars w) (pages p) \<and> regions_ok (arena_size p) (ars w) (mapped w)"

text \<open>
  What the allocators may return: null, or memory that overlaps nothing in use.
\<close>

definition allocs_fresh :: "iobuf_pool \<Rightarrow> iob_store \<Rightarrow> arena_allocs \<Rightarrow> bool" where
  "allocs_fresh p w al \<longleftrightarrow>
     ars w (al_arena al) = None \<and> al_mem al \<noteq> 0
     \<and> (al_mem al \<noteq> MAP_FAILED \<longrightarrow>
          list_all (\<lambda>a. case ars w a of None \<Rightarrow> True | Some r \<Rightarrow>
              {mem_base r ..< mem_base r + arena_size p} \<inter> {al_mem al ..< al_mem al + arena_size p} = {})
            (arenas p @ filled p @ purge p))
     \<and> (al_iobufs al \<noteq> 0 \<longrightarrow> list_all (\<lambda>x. x \<noteq> 0 \<and> bufs w x = None) (iobuf_array (al_iobufs al) (pages p)))"

section \<open>Arenas keep the invariant\<close>

lemma pages_pos: "sizes_ok p \<Longrightarrow> 0 < pages p"
  by (auto simp: sizes_ok_def pages_def div_greater_zero_iff)

lemma pages_fit: "sizes_ok p \<Longrightarrow> pages p * page_size p \<le> arena_size p"
  by (simp add: pages_def)

lemma pages_small: "sizes_ok p \<Longrightarrow> pages p < 2 ^ 31"
  unfolding sizes_ok_def pages_def by (metis div_le_dividend le_less_trans)

lemma iobuf_cnt_pages: "sizes_ok p \<Longrightarrow> iobuf_cnt p = Some (int (pages p))"
  using to_cint_small [OF pages_small, of p] by (simp add: iobuf_cnt_def pages_def sizes_ok_def)

lemma set_iobuf_array: "x \<in> set (iobuf_array base n) \<longleftrightarrow> (\<exists>i<n. x = base + i * sizeof_iobuf)"
  by (auto simp: iobuf_array_def)

lemma iobuf_array_Suc: "iobuf_array base (Suc n) = base # iobuf_array (base + sizeof_iobuf) n"
proof -
  have "iobuf_array base (Suc n) = base # map (\<lambda>i. base + i * sizeof_iobuf) (map Suc [0..<n])"
    by (simp add: iobuf_array_def map_Suc_upt upt_conv_Cons del: upt_Suc)
  then show ?thesis by (simp add: iobuf_array_def comp_def add.assoc)
qed

lemma distinct_iobuf_array: "distinct (iobuf_array base n)"
  by (auto simp: iobuf_array_def distinct_map inj_on_def sizeof_iobuf_def)

lemma slot_inj: "base + i * sizeof_iobuf = base + j * sizeof_iobuf \<longleftrightarrow> i = j"
  by (simp add: sizeof_iobuf_def)

lemma length_iobuf_array [simp]: "length (iobuf_array base n) = n"
  by (simp add: iobuf_array_def)

text \<open>What the loop of \<open>iobuf_arena_init_iobufs\<close> leaves.\<close>

lemma init_iobufs_loop_arena:
  "snd (init_iobufs_loop a page n iobuf off bs r) =
     r\<lparr>passive_list := rev (iobuf_array iobuf n) @ passive_list r, passive_cnt := passive_cnt r + int n\<rparr>"
proof (induction n arbitrary: iobuf off bs r)
  case 0 show ?case by (simp add: iobuf_array_def)
next
  case (Suc n) show ?case by (simp add: Suc iobuf_array_Suc)
qed

lemma init_iobufs_loop_other:
  "x \<notin> set (iobuf_array iobuf n) \<Longrightarrow> fst (init_iobufs_loop a page n iobuf off bs r) x = bs x"
  by (induction n arbitrary: iobuf off bs r) (simp_all add: iobuf_array_Suc)

lemma offset_small:
  "int (k * page) + int (Suc n * page) < 2 ^ 31 \<Longrightarrow>
     signed_take_bit 31 (int (k * page) + int page) = int (Suc k * page)"
proof -
  assume a: "int (k * page) + int (Suc n * page) < 2 ^ 31"
  have b: "int (k * page) + int page = int (Suc k * page)" by simp
  have "int (Suc k * page) < 2 ^ 31" using a by (simp add: algebra_simps del: of_nat_mult)
  then show ?thesis unfolding b by (subst signed_take_bit_int_eq_self) (simp_all del: of_nat_mult)
qed

lemma init_iobufs_loop_slot:
  assumes "int (k * page) + int (n * page) < 2 ^ 31" and "i < n"
  shows "fst (init_iobufs_loop a page n iobuf (int (k * page)) bs r) (iobuf + i * sizeof_iobuf) =
    Some \<lparr>buf_arena = a, buf_ref = 0, buf_ptr = mem_base r + (k + i) * page\<rparr>"
  using assms
proof (induction n arbitrary: iobuf k bs r i)
  case (Suc n)
  note off = offset_small [OF Suc.prems(1)]
  show ?case
  proof (cases i)
    case 0
    have "iobuf \<notin> set (iobuf_array (iobuf + sizeof_iobuf) n)"
      by (auto simp: set_iobuf_array sizeof_iobuf_def)
    moreover have "nat (int (mem_base r) + int (k * page)) = mem_base r + k * page"
      by (simp only: of_nat_add [symmetric] nat_int)
    ultimately show ?thesis using 0 by (simp add: init_iobufs_loop_other del: of_nat_mult)
  next
    case (Suc j)
    have "int (Suc k * page) + int (n * page) < 2 ^ 31" using Suc.prems(1) by (simp add: algebra_simps)
    moreover have "j < n" using Suc.prems(2) Suc by simp
    ultimately show ?thesis
      using Suc.IH [of "Suc k" j "iobuf + sizeof_iobuf"] Suc off by (simp add: add.assoc)
  qed
qed simp

lemma arena_ok_cong:
  assumes "\<And>x. x \<in> set (iobuf_array (arena_iobufs r) n) \<Longrightarrow> bs' x = bs x"
  shows "arena_ok pool psize n bs' a r \<longleftrightarrow> arena_ok pool psize n bs a r"
proof -
  have "bs' (arena_iobufs r + i * sizeof_iobuf) = bs (arena_iobufs r + i * sizeof_iobuf)" if "i < n" for i
    using assms that by (auto simp: set_iobuf_array)
  then show ?thesis unfolding arena_ok_def by auto
qed

text \<open>The arena that \<open>iobuf_arena_alloc\<close> sets up.\<close>

definition new_arena :: "addr \<Rightarrow> nat \<Rightarrow> arena_allocs \<Rightarrow> iobuf_arena" where
  "new_arena pool n al =
     zero_arena\<lparr>arena_pool := pool, mem_base := al_mem al, arena_iobufs := al_iobufs al,
                passive_list := rev (iobuf_array (al_iobufs al) n), passive_cnt := int n\<rparr>"

definition new_bufs :: "iobuf_pool \<Rightarrow> arena_allocs \<Rightarrow> (addr \<rightharpoonup> iobuf) \<Rightarrow> (addr \<rightharpoonup> iobuf)" where
  "new_bufs p al bs = fst (init_iobufs_loop (al_arena al) (page_size p) (pages p) (al_iobufs al) 0 bs
     (zero_arena\<lparr>mem_base := al_mem al\<rparr>))"

definition alloc_succeeds :: "arena_allocs \<Rightarrow> bool" where
  "alloc_succeeds al \<longleftrightarrow> al_arena al \<noteq> 0 \<and> al_mem al \<noteq> MAP_FAILED \<and> al_iobufs al \<noteq> 0"

lemma init_iobufs_loop_cong:
  "mem_base r = mem_base r' \<Longrightarrow>
     fst (init_iobufs_loop a page n x off bs r) = fst (init_iobufs_loop a page n x off bs r')"
proof (induction n arbitrary: x off bs r r')
  case (Suc n)
  show ?case unfolding init_iobufs_loop.simps Suc.prems by (rule Suc.IH) (simp add: Suc.prems)
qed simp

text \<open>The parts of the invariant.\<close>

lemma iob_invD:
  assumes "iob_inv pool p w"
  shows "pool \<noteq> 0" "pls w pool = Some p" "sizes_ok p" "pool_lists_ok p (dom (ars w))" "ars w 0 = None"
    "\<And>a r. ars w a = Some r \<Longrightarrow> arena_ok pool (page_size p) (pages p) (bufs w) a r"
    "\<And>a r. ars w a = Some r \<Longrightarrow> place_ok p a r"
    "owned_ok (bufs w) (ars w) (pages p)" "regions_ok (arena_size p) (ars w) (mapped w)"
  using assms by (simp_all add: iob_inv_def)

lemma fresh_region:
  assumes "iob_inv pool p w" and "allocs_fresh p w al" and "al_mem al \<noteq> MAP_FAILED"
  shows "ars w a = Some r \<Longrightarrow>
      {mem_base r ..< mem_base r + arena_size p} \<inter> {al_mem al ..< al_mem al + arena_size p} = {}"
    and "mapped w (al_mem al) = None"
proof -
  have dis: "{mem_base r ..< mem_base r + arena_size p} \<inter> {al_mem al ..< al_mem al + arena_size p} = {}"
    if "ars w a = Some r" for a r
  proof -
    have "a \<in> set (arenas p @ filled p @ purge p)"
      using that iob_invD(4) [OF assms(1)] by (auto simp: pool_lists_ok_def)
    moreover have "list_all (\<lambda>a. case ars w a of None \<Rightarrow> True | Some r \<Rightarrow>
        {mem_base r ..< mem_base r + arena_size p} \<inter> {al_mem al ..< al_mem al + arena_size p} = {})
        (arenas p @ filled p @ purge p)"
      using assms(2,3) unfolding allocs_fresh_def by blast
    ultimately show ?thesis using that by (force simp only: list_all_iff option.case)
  qed
  then show "ars w a = Some r \<Longrightarrow>
      {mem_base r ..< mem_base r + arena_size p} \<inter> {al_mem al ..< al_mem al + arena_size p} = {}" .
  have "0 < arena_size p" using iob_invD(3) [OF assms(1)] by (auto simp: sizes_ok_def)
  then have "mem_base r \<noteq> al_mem al" if "ars w a = Some r" for a r using dis [OF that] by force
  then show "mapped w (al_mem al) = None"
    using iob_invD(9) [OF assms(1)] unfolding regions_ok_def by blast
qed

lemma iobuf_arena_alloc_fails:
  assumes inv: "iob_inv pool p w" and f: "allocs_fresh p w al" "\<not> alloc_succeeds al"
  shows "iobuf_arena_alloc al pool w = Some (w, 0)"
proof -
  note p = iob_invD(2,3) [OF inv]
  have free: "(ars w)(al_arena al := None) = ars w" using f(1) by (auto simp: allocs_fresh_def)
  note defs = iobuf_arena_alloc_def iobuf_arena_destroy_def iobuf_arena_destroy_iobufs_def put_arena_def
    iobuf_cnt_pages [OF p(2)] Let_def zero_arena_def
  consider "al_arena al = 0" | "al_arena al \<noteq> 0" "al_mem al = MAP_FAILED"
    | "al_arena al \<noteq> 0" "al_mem al \<noteq> MAP_FAILED" "al_iobufs al = 0"
    using f(2) by (auto simp: alloc_succeeds_def)
  then show ?thesis
  proof cases
    case 1 then show ?thesis by (simp add: defs)
  next
    case 2 then show ?thesis using p(1) free by (simp add: defs)
  next
    case 3
    then have "(mapped w)(al_mem al := None) = mapped w" using fresh_region(2) [OF inv f(1)] by auto
    then show ?thesis using 3 p(1) free f(1)
      by (simp add: defs iobuf_arena_init_iobufs_def allocs_fresh_def)
  qed
qed

lemma iobuf_arena_alloc_ok:
  assumes inv: "iob_inv pool p w" and f: "allocs_fresh p w al" "alloc_succeeds al"
  shows "iobuf_arena_alloc al pool w =
    Some (w\<lparr>bufs := new_bufs p al (bufs w), ars := (ars w)(al_arena al \<mapsto> new_arena pool (pages p) al),
            mapped := (mapped w)(al_mem al \<mapsto> arena_size p),
            pls := (pls w)(pool \<mapsto> p\<lparr>arena_cnt := arena_cnt p + 1\<rparr>)\<rparr>, al_arena al)"
proof -
  note p = iob_invD(2,3) [OF inv]
  define r1 where "r1 = zero_arena\<lparr>arena_pool := pool, mem_base := al_mem al, arena_iobufs := al_iobufs al\<rparr>"
  obtain bs r2 where loop: "init_iobufs_loop (al_arena al) (page_size p) (pages p) (al_iobufs al) 0 (bufs w) r1 = (bs, r2)"
    by fastforce
  have "bs = new_bufs p al (bufs w)"
    unfolding new_bufs_def
    using init_iobufs_loop_cong [of r1 "zero_arena\<lparr>mem_base := al_mem al\<rparr>" "al_arena al" "page_size p"
      "pages p" "al_iobufs al" 0 "bufs w"] loop
    by (simp add: r1_def)
  moreover have "r2 = new_arena pool (pages p) al"
    using init_iobufs_loop_arena [of "al_arena al" "page_size p" "pages p" "al_iobufs al" 0 "bufs w" r1] loop
    by (simp add: new_arena_def r1_def zero_arena_def)
  ultimately show ?thesis using f(2) p loop
    by (simp add: iobuf_arena_alloc_def iobuf_arena_init_iobufs_def alloc_succeeds_def put_arena_def put_pool_def
        iobuf_cnt_pages new_arena_def r1_def Let_def zero_arena_def)
qed

text \<open>The references of a handle; a handle that is not in the store has none.\<close>

definition refs :: "iob_store \<Rightarrow> addr \<Rightarrow> int" where
  "refs w x = (case bufs w x of None \<Rightarrow> 0 | Some b \<Rightarrow> buf_ref b)"

text \<open>A step that leaves the references and the held handles as they are.\<close>

definition keeps :: "iob_store \<Rightarrow> iob_store \<Rightarrow> bool" where
  "keeps w w' \<longleftrightarrow> refs w' = refs w \<and> (\<forall>x. 0 < refs w x \<longrightarrow> bufs w' x = bufs w x)"

definition same_sizes :: "iobuf_pool \<Rightarrow> iobuf_pool \<Rightarrow> bool" where
  "same_sizes p p' \<longleftrightarrow> page_size p' = page_size p \<and> arena_size p' = arena_size p"

lemma same_sizes_simps [simp]:
  "same_sizes p p" "same_sizes p (unlink_arena a p)" "same_sizes p (p\<lparr>arena_cnt := c\<rparr>)"
  "same_sizes p (p'\<lparr>arenas := xs\<rparr>) = same_sizes p p'" "same_sizes p (p'\<lparr>filled := xs\<rparr>) = same_sizes p p'"
  "same_sizes p (p'\<lparr>purge := xs\<rparr>) = same_sizes p p'" "same_sizes p (p'\<lparr>arena_cnt := c\<rparr>) = same_sizes p p'"
  by (simp_all add: same_sizes_def unlink_arena_def)

lemma same_sizes_trans: "same_sizes p q \<Longrightarrow> same_sizes q r \<Longrightarrow> same_sizes p r"
  by (simp add: same_sizes_def)

lemma keeps_trans: "keeps w w1 \<Longrightarrow> keeps w1 w2 \<Longrightarrow> keeps w w2"
  by (simp add: keeps_def)

lemma keeps_refl [simp]: "keeps w w" "keeps w (put_pool pool p w)"
  by (simp_all add: keeps_def refs_def fun_eq_iff put_pool_def)

lemma put_pool_simps [simp]:
  "bufs (put_pool a p w) = bufs w" "ars (put_pool a p w) = ars w" "mapped (put_pool a p w) = mapped w"
  "pls (put_pool a p w) = (pls w)(a \<mapsto> p)" "brefs (put_pool a p w) = brefs w"
  by (simp_all add: put_pool_def)

lemma iob_inv_lists:
  assumes "iob_inv pool p w" and "same_sizes p p'" and "pool_lists_ok p' (dom (ars w))"
    and "\<And>a r. ars w a = Some r \<Longrightarrow> place_ok p' a r"
  shows "iob_inv pool p' (put_pool pool p' w)"
  using assms by (auto simp: iob_inv_def same_sizes_def sizes_ok_def pages_def)

lemma new_arena_ok:
  assumes p: "sizes_ok p" and f: "alloc_succeeds al" "al_mem al \<noteq> 0"
  shows "arena_ok pool (page_size p) (pages p) (new_bufs p al bs) (al_arena al) (new_arena pool (pages p) al)"
proof -
  have "int (0 * page_size p) + int (pages p * page_size p) < 2 ^ 31"
    using pages_fit [OF p] p by (simp add: sizes_ok_def del: of_nat_mult)
  note slot = init_iobufs_loop_slot [OF this]
  have "buf_ok (al_arena al) (page_size p) (new_arena pool (pages p) al) i
      (new_bufs p al bs (al_iobufs al + i * sizeof_iobuf))" if "i < pages p" for i
    using slot [OF that] by (simp add: buf_ok_def new_bufs_def new_arena_def zero_arena_def)
  moreover have "lists_ok (pages p) (new_arena pool (pages p) al)"
    by (simp add: lists_ok_def new_arena_def zero_arena_def distinct_iobuf_array)
  ultimately show ?thesis using f by (simp add: arena_ok_def alloc_succeeds_def new_arena_def)
qed

lemma new_bufs_other:
  "x \<notin> set (iobuf_array (al_iobufs al) (pages p)) \<Longrightarrow> new_bufs p al bs x = bs x"
  by (simp add: new_bufs_def init_iobufs_loop_other)

lemma new_bufs_slot:
  assumes "sizes_ok p" and "i < pages p"
  shows "new_bufs p al bs (al_iobufs al + i * sizeof_iobuf) =
    Some \<lparr>buf_arena = al_arena al, buf_ref = 0, buf_ptr = al_mem al + i * page_size p\<rparr>"
proof -
  have "int (0 * page_size p) + int (pages p * page_size p) < 2 ^ 31"
    using pages_fit [OF assms(1)] assms(1) by (simp add: sizes_ok_def del: of_nat_mult)
  from init_iobufs_loop_slot [OF this assms(2)] show ?thesis by (simp add: new_bufs_def zero_arena_def)
qed

lemma arena_buf:
  assumes "arena_ok pool psize n bs a r" and "x \<in> set (iobuf_array (arena_iobufs r) n)"
  obtains b i where "bs x = Some b" "buf_arena b = a" "0 \<le> buf_ref b"
    "0 < buf_ref b \<longleftrightarrow> x \<in> set (active_list r)" "i < n" "x = arena_iobufs r + i * sizeof_iobuf"
    "buf_ptr b = mem_base r + i * psize"
proof -
  obtain i where "i < n" "x = arena_iobufs r + i * sizeof_iobuf" using assms(2) by (auto simp: set_iobuf_array)
  with assms(1) that show ?thesis by (auto simp: arena_ok_def buf_ok_def)
qed

lemma regions_ok_insert:
  assumes reg: "regions_ok asize rs mp" and a: "rs a = None"
    and dis: "\<And>b r'. rs b = Some r' \<Longrightarrow>
      {mem_base r' ..< mem_base r' + asize} \<inter> {mem_base r ..< mem_base r + asize} = {}"
  shows "regions_ok asize (rs(a \<mapsto> r)) (mp(mem_base r \<mapsto> asize))"
  unfolding regions_ok_def
proof (intro conjI allI impI)
  fix m show "(mp(mem_base r \<mapsto> asize)) m \<noteq> None \<longleftrightarrow> (\<exists>b r'. (rs(a \<mapsto> r)) b = Some r' \<and> mem_base r' = m)"
    using reg a unfolding regions_ok_def by (auto split: if_splits) (metis option.distinct(1))+
next
  fix m s assume "(mp(mem_base r \<mapsto> asize)) m = Some s"
  then show "s = asize" using reg by (auto simp: regions_ok_def split: if_splits)
next
  fix b r1 b' r2 assume h: "(rs(a \<mapsto> r)) b = Some r1" "(rs(a \<mapsto> r)) b' = Some r2" "b \<noteq> b'"
  show "{mem_base r1 ..< mem_base r1 + asize} \<inter> {mem_base r2 ..< mem_base r2 + asize} = {}"
  proof (cases "b = a \<or> b' = a")
    case True
    then show ?thesis using h dis by (auto split: if_splits)
  next
    case False
    then have "rs b = Some r1" "rs b' = Some r2" using h by auto
    then show ?thesis using reg h(3) unfolding regions_ok_def by blast
  qed
qed

lemma new_owned:
  assumes "sizes_ok p" and "owned_ok bs rs (pages p)" and "rs (al_arena al) = None"
  shows "owned_ok (new_bufs p al bs) (rs(al_arena al \<mapsto> new_arena pool (pages p) al)) (pages p)"
  unfolding owned_ok_def
proof (intro allI impI)
  fix x b assume b: "new_bufs p al bs x = Some b"
  show "\<exists>r. (rs(al_arena al \<mapsto> new_arena pool (pages p) al)) (buf_arena b) = Some r
      \<and> x \<in> set (iobuf_array (arena_iobufs r) (pages p))"
  proof (cases "x \<in> set (iobuf_array (al_iobufs al) (pages p))")
    case True
    then obtain i where "i < pages p" "x = al_iobufs al + i * sizeof_iobuf" by (auto simp: set_iobuf_array)
    then have "buf_arena b = al_arena al" using b new_bufs_slot [OF assms(1)] by auto
    then show ?thesis using True by (simp add: new_arena_def)
  next
    case False
    then have "bs x = Some b" using b by (simp add: new_bufs_other)
    then obtain r where "rs (buf_arena b) = Some r" "x \<in> set (iobuf_array (arena_iobufs r) (pages p))"
      using assms(2) by (auto simp: owned_ok_def)
    then show ?thesis using assms(3) by auto
  qed
qed

lemma new_bufs_keeps:
  assumes "sizes_ok p" and "\<And>x. x \<in> set (iobuf_array (al_iobufs al) (pages p)) \<Longrightarrow> bufs w x = None"
    and "bufs w' = new_bufs p al (bufs w)"
  shows "keeps w w'"
proof -
  have "refs w' x = refs w x \<and> (0 < refs w x \<longrightarrow> bufs w' x = bufs w x)" for x
  proof (cases "x \<in> set (iobuf_array (al_iobufs al) (pages p))")
    case True
    then obtain i where "i < pages p" "x = al_iobufs al + i * sizeof_iobuf" by (auto simp: set_iobuf_array)
    then show ?thesis using assms(2) [OF True] new_bufs_slot [OF assms(1)] by (simp add: refs_def assms(3))
  next
    case False then show ?thesis by (simp add: refs_def assms(3) new_bufs_other)
  qed
  then show ?thesis by (simp add: keeps_def fun_eq_iff)
qed

lemma new_arena_inv:
  assumes inv: "iob_inv pool p w" and f: "allocs_fresh p w al" "alloc_succeeds al"
    and p': "p' = p\<lparr>arena_cnt := arena_cnt p + 1, arenas := arenas p @ [al_arena al]\<rparr>"
    and w': "w' = w\<lparr>bufs := new_bufs p al (bufs w), ars := (ars w)(al_arena al \<mapsto> new_arena pool (pages p) al),
            mapped := (mapped w)(al_mem al \<mapsto> arena_size p), pls := (pls w)(pool \<mapsto> p')\<rparr>"
  shows "iob_inv pool p' w'" and "keeps w w'"
proof -
  let ?a = "al_arena al" and ?arr = "iobuf_array (al_iobufs al) (pages p)"
  note I = iob_invD [OF inv]
  have fresh: "bufs w x = None" if "x \<in> set ?arr" for x
    using f that by (auto simp: allocs_fresh_def alloc_succeeds_def list_all_iff)
  have a: "ars w ?a = None" "al_mem al \<noteq> 0" "?a \<noteq> 0" "al_mem al \<noteq> MAP_FAILED"
    using f by (auto simp: allocs_fresh_def alloc_succeeds_def)
  have old: "arena_ok pool (page_size p) (pages p) (new_bufs p al (bufs w)) b r" if b: "ars w b = Some r" for b r
  proof -
    have "x \<notin> set ?arr" if "x \<in> set (iobuf_array (arena_iobufs r) (pages p))" for x
      by (rule arena_buf [OF I(6) [OF b] that]) (use fresh [of x] in auto)
    then show ?thesis using arena_ok_cong [of r "pages p" "new_bufs p al (bufs w)" "bufs w"] I(6) [OF b]
      by (simp add: new_bufs_other)
  qed
  have pl: "place_ok p' b r" if b: "ars w b = Some r" for b r
    using I(7) [OF b] b a(1) by (auto simp: place_ok_def p')
  have "pages p \<noteq> 0" using pages_pos [OF I(3)] by simp
  then have pn: "place_ok p' ?a (new_arena pool (pages p) al)"
    using I(4) a(1) by (auto simp: place_ok_def p' new_arena_def zero_arena_def iobuf_array_def pool_lists_ok_def)
  have own: "owned_ok (bufs w') (ars w') (pages p)"
    using new_owned [OF I(3,8) a(1)] by (simp add: w')
  have reg: "regions_ok (arena_size p) (ars w') (mapped w')"
    using regions_ok_insert [OF I(9) a(1), of "new_arena pool (pages p) al"] fresh_region(1) [OF inv f(1) a(4)]
    by (simp add: w' new_arena_def)
  have lists: "pool_lists_ok p' (dom (ars w'))"
    using I(4) a(1) by (auto simp: pool_lists_ok_def p' w')
  have "ars w' 0 = None" using I(5) a(3) by (simp add: w')
  moreover have "arena_ok pool (page_size p) (pages p) (bufs w') b r \<and> place_ok p' b r"
    if "ars w' b = Some r" for b r
    using that old pl pn new_arena_ok [OF I(3) f(2) a(2)] by (auto simp: w' split: if_splits)
  moreover have "sizes_ok p'" "page_size p' = page_size p" "pages p' = pages p" "arena_size p' = arena_size p"
    using I(3) by (simp_all add: p' sizes_ok_def pages_def)
  ultimately show "iob_inv pool p' w'"
    using I(1) own reg lists by (simp add: iob_inv_def w')
  show "keeps w w'" using new_bufs_keeps [OF I(3) fresh] by (simp add: w')
qed

section \<open>Selecting an arena\<close>

lemma unlink_arena_simps [simp]:
  "page_size (unlink_arena a p) = page_size p" "arena_size (unlink_arena a p) = arena_size p"
  "arena_cnt (unlink_arena a p) = arena_cnt p" "arenas (unlink_arena a p) = remove1 a (arenas p)"
  "filled (unlink_arena a p) = remove1 a (filled p)" "purge (unlink_arena a p) = remove1 a (purge p)"
  by (simp_all add: unlink_arena_def)

lemma int_length_remove1: "x \<in> set xs \<Longrightarrow> int (length (remove1 x xs)) = int (length xs) - 1"
  by (induction xs) auto

lemma unlink_arena_lists:
  assumes "pool_lists_ok p A" and "a \<in> A"
  shows "distinct (arenas (unlink_arena a p) @ filled (unlink_arena a p) @ purge (unlink_arena a p))"
    and "set (arenas (unlink_arena a p)) = set (arenas p) - {a}"
    and "set (filled (unlink_arena a p)) = set (filled p) - {a}"
    and "set (purge (unlink_arena a p)) = set (purge p) - {a}"
    and "int (length (arenas (unlink_arena a p) @ filled (unlink_arena a p) @ purge (unlink_arena a p))) = arena_cnt p - 1"
proof -
  have d: "distinct (arenas p)" "distinct (filled p)" "distinct (purge p)"
      "set (arenas p) \<inter> set (filled p) = {}" "set (arenas p) \<inter> set (purge p) = {}"
      "set (filled p) \<inter> set (purge p) = {}"
    using assms(1) by (auto simp: pool_lists_ok_def)
  show "distinct (arenas (unlink_arena a p) @ filled (unlink_arena a p) @ purge (unlink_arena a p))"
    using d by auto
  show "set (arenas (unlink_arena a p)) = set (arenas p) - {a}"
    "set (filled (unlink_arena a p)) = set (filled p) - {a}" "set (purge (unlink_arena a p)) = set (purge p) - {a}"
    using d by simp_all
  have c: "arena_cnt p = int (length (arenas p)) + int (length (filled p)) + int (length (purge p))"
    using assms(1) by (simp add: pool_lists_ok_def)
  consider "a \<in> set (arenas p)" "a \<notin> set (filled p)" "a \<notin> set (purge p)"
    | "a \<notin> set (arenas p)" "a \<in> set (filled p)" "a \<notin> set (purge p)"
    | "a \<notin> set (arenas p)" "a \<notin> set (filled p)" "a \<in> set (purge p)"
    using assms d(4-6) by (auto simp: pool_lists_ok_def)
  then show "int (length (arenas (unlink_arena a p) @ filled (unlink_arena a p) @ purge (unlink_arena a p))) = arena_cnt p - 1"
    by cases (use c in \<open>simp_all add: int_length_remove1 remove1_idem\<close>)
qed

text \<open>Moving an arena to the end of one of the lists, or to the front of the filled ones.\<close>

lemma relink_arena_lists:
  assumes "pool_lists_ok p A" and "a \<in> A" and "q = unlink_arena a p"
  shows "pool_lists_ok (q\<lparr>arenas := arenas q @ [a]\<rparr>) A" "pool_lists_ok (q\<lparr>purge := purge q @ [a]\<rparr>) A"
    "pool_lists_ok (q\<lparr>filled := a # filled q\<rparr>) A"
proof -
  note u = unlink_arena_lists [OF assms(1,2)]
  have A: "A = set (arenas p) \<union> set (filled p) \<union> set (purge p)" using assms(1) by (auto simp: pool_lists_ok_def)
  have c: "arena_cnt q = arena_cnt p" by (simp add: assms(3))
  have "{a} \<union> (A - {a}) = A" using assms(2) by auto
  then show "pool_lists_ok (q\<lparr>arenas := arenas q @ [a]\<rparr>) A" "pool_lists_ok (q\<lparr>purge := purge q @ [a]\<rparr>) A"
    "pool_lists_ok (q\<lparr>filled := a # filled q\<rparr>) A"
    using u c A unfolding assms(3) [symmetric] pool_lists_ok_def by auto
qed

lemma iobuf_pool_add_arena_inv:
  assumes inv: "iob_inv pool p w" and f: "allocs_fresh p w al"
  shows "\<exists>w' a p'. iobuf_pool_add_arena al pool w = Some (w', a) \<and> iob_inv pool p' w' \<and> keeps w w'
    \<and> same_sizes p p' \<and> (a = 0 \<longrightarrow> w' = w \<and> p' = p \<and> \<not> alloc_succeeds al \<and> purge p = [])
    \<and> (a \<noteq> 0 \<longrightarrow> a \<in> set (arenas p') \<and> ars w' a \<noteq> None)"
proof (cases "purge p")
  case Nil
  then have un: "iobuf_arena_unprune pool w = Some (w, 0)"
    by (simp add: iobuf_arena_unprune_def iob_invD(2) [OF inv])
  show ?thesis
  proof (cases "alloc_succeeds al")
    case True
    let ?p' = "p\<lparr>arena_cnt := arena_cnt p + 1, arenas := arenas p @ [al_arena al]\<rparr>"
    let ?w' = "w\<lparr>bufs := new_bufs p al (bufs w), ars := (ars w)(al_arena al \<mapsto> new_arena pool (pages p) al),
            mapped := (mapped w)(al_mem al \<mapsto> arena_size p), pls := (pls w)(pool \<mapsto> ?p')\<rparr>"
    have "iobuf_pool_add_arena al pool w = Some (?w', al_arena al)"
      using un iobuf_arena_alloc_ok [OF inv f True] True
      by (simp add: iobuf_pool_add_arena_def put_pool_def alloc_succeeds_def)
    moreover note new_arena_inv [OF inv f True refl refl]
    ultimately show ?thesis using True by (intro exI [of _ ?w'] exI [of _ "al_arena al"] exI [of _ ?p']) (simp add: alloc_succeeds_def)
  next
    case False
    then show ?thesis using un iobuf_arena_alloc_fails [OF inv f False] inv
      by (intro exI [of _ w] exI [of _ 0] exI [of _ p]) (simp add: iobuf_pool_add_arena_def Nil)
  qed
next
  case (Cons a as)
  let ?q = "unlink_arena a p"
  let ?p' = "?q\<lparr>arenas := arenas ?q @ [a]\<rparr>"
  note I = iob_invD [OF inv]
  have a: "a \<in> dom (ars w)" using I(4) Cons by (auto simp: pool_lists_ok_def)
  then have nz: "a \<noteq> 0" using I(5) by (metis domIff)
  have "iobuf_pool_add_arena al pool w = Some (put_pool pool ?p' w, a)"
    using I(2) Cons nz by (simp add: iobuf_pool_add_arena_def iobuf_arena_unprune_def put_pool_def)
  moreover have "place_ok ?p' b r" if b: "ars w b = Some r" for b r
  proof (cases "b = a")
    case True
    have "active_list r = []" using I(7) [OF b] True Cons by (simp add: place_ok_def)
    moreover have "pages p \<noteq> 0" using pages_pos [OF I(3)] by simp
    ultimately have "passive_list r \<noteq> []" using I(6) [OF b]
      by (auto simp: arena_ok_def lists_ok_def iobuf_array_def)
    then show ?thesis using True unlink_arena_lists(3,4) [OF I(4) a] by (simp add: place_ok_def)
  next
    case False
    then show ?thesis using I(7) [OF b] unlink_arena_lists(2-4) [OF I(4) a] by (simp add: place_ok_def)
  qed
  then have "iob_inv pool ?p' (put_pool pool ?p' w)"
    by (intro iob_inv_lists [OF inv _ relink_arena_lists(1) [OF I(4) a refl]]) simp_all
  ultimately show ?thesis using nz a
    by (intro exI [of _ "put_pool pool ?p' w"] exI [of _ a] exI [of _ ?p']) auto
qed

lemma select_passive_inv:
  assumes inv: "iob_inv pool p w" and "set as \<subseteq> set (arenas p)"
  shows "select_passive as w = Some (case as of [] \<Rightarrow> 0 | a # _ \<Rightarrow> a)"
proof (cases as)
  case (Cons a bs)
  note I = iob_invD [OF inv]
  have a: "a \<in> set (arenas p)" using assms(2) Cons by simp
  then obtain r where r: "ars w a = Some r" using I(4) by (force simp: pool_lists_ok_def)
  have "passive_cnt r \<noteq> 0" using I(6,7) [OF r] a by (auto simp: arena_ok_def lists_ok_def place_ok_def)
  then show ?thesis using Cons r by simp
qed simp

lemma iobuf_select_arena_inv:
  assumes inv: "iob_inv pool p w" and f: "allocs_fresh p w al"
  shows "\<exists>w' a p'. iobuf_select_arena al pool w = Some (w', a) \<and> iob_inv pool p' w' \<and> keeps w w'
    \<and> same_sizes p p' \<and> (a = 0 \<longrightarrow> w' = w \<and> p' = p \<and> \<not> alloc_succeeds al \<and> arenas p = [] \<and> purge p = [])
    \<and> (a \<noteq> 0 \<longrightarrow> a \<in> set (arenas p') \<and> ars w' a \<noteq> None)"
proof (cases "arenas p")
  case Nil
  then show ?thesis using iobuf_pool_add_arena_inv [OF assms] iob_invD(2) [OF inv]
    by (simp add: iobuf_select_arena_def)
next
  case (Cons a as)
  note I = iob_invD [OF inv]
  have a: "a \<in> dom (ars w)" using I(4) Cons by (auto simp: pool_lists_ok_def)
  then have nz: "a \<noteq> 0" using I(5) by (metis domIff)
  have "iobuf_select_arena al pool w = Some (w, a)"
    using select_passive_inv [OF inv subset_refl] Cons I(2) nz by (simp add: iobuf_select_arena_def)
  then show ?thesis using inv nz a Cons by (intro exI [of _ w] exI [of _ a] exI [of _ p]) auto
qed

section \<open>Getting a buffer\<close>

lemma put_simps [simp]:
  "bufs (put_arena a r w) = bufs w" "ars (put_arena a r w) = (ars w)(a \<mapsto> r)" "mapped (put_arena a r w) = mapped w"
  "pls (put_arena a r w) = pls w" "brefs (put_arena a r w) = brefs w"
  "bufs (put_buf x b w) = (bufs w)(x \<mapsto> b)" "ars (put_buf x b w) = ars w" "mapped (put_buf x b w) = mapped w"
  "pls (put_buf x b w) = pls w" "brefs (put_buf x b w) = brefs w"
  "bufs (put_bref a q w) = bufs w" "ars (put_bref a q w) = ars w" "mapped (put_bref a q w) = mapped w"
  "pls (put_bref a q w) = pls w" "brefs (put_bref a q w) = (brefs w)(a \<mapsto> q)"
  by (simp_all add: put_arena_def put_buf_def put_bref_def)

definition same_array :: "iobuf_arena \<Rightarrow> iobuf_arena \<Rightarrow> bool" where
  "same_array r r' \<longleftrightarrow>
     arena_pool r' = arena_pool r \<and> mem_base r' = mem_base r \<and> arena_iobufs r' = arena_iobufs r"

lemma regions_ok_update:
  assumes "regions_ok asize rs mp" and "rs a = Some r" and "mem_base r' = mem_base r"
  shows "regions_ok asize (rs(a \<mapsto> r')) mp"
proof -
  let ?rs = "rs(a \<mapsto> r')"
  have old: "\<exists>q'. rs b = Some q' \<and> mem_base q' = mem_base q" if "?rs b = Some q" for b q
    using that assms(2,3) by (cases "b = a") auto
  have new: "\<exists>q'. ?rs b = Some q' \<and> mem_base q' = mem_base q" if "rs b = Some q" for b q
    using that assms(2,3) by (cases "b = a") auto
  have "(\<exists>b q. ?rs b = Some q \<and> mem_base q = m) \<longleftrightarrow> (\<exists>b q. rs b = Some q \<and> mem_base q = m)" for m
    using old new by metis
  moreover have "{mem_base q ..< mem_base q + asize} \<inter> {mem_base q' ..< mem_base q' + asize} = {}"
    if h: "?rs b = Some q" "?rs b' = Some q'" "b \<noteq> b'" for b b' q q'
    using assms(1) old [OF h(1)] old [OF h(2)] h(3) unfolding regions_ok_def by metis
  ultimately show ?thesis using assms(1) unfolding regions_ok_def by simp
qed

text \<open>A step that changes one arena, one of its handles and the lists of the pool.\<close>

lemma iob_inv_update:
  assumes inv: "iob_inv pool p w" and a: "ars w a = Some r" and r': "same_array r r'" "lists_ok (pages p) r'"
    and x: "bufs w x = Some b" "buf_arena b = a" and b': "buf_arena b' = a" "buf_ptr b' = buf_ptr b" "0 \<le> buf_ref b'"
      "0 < buf_ref b' \<longleftrightarrow> x \<in> set (active_list r')"
    and act: "\<And>y. y \<noteq> x \<Longrightarrow> y \<in> set (active_list r') \<longleftrightarrow> y \<in> set (active_list r)"
    and p': "same_sizes p p'" "pool_lists_ok p' (dom (ars w))" "place_ok p' a r'"
      "\<And>c q. \<lbrakk>ars w c = Some q; c \<noteq> a\<rbrakk> \<Longrightarrow> place_ok p' c q"
  shows "iob_inv pool p' (put_buf x b' (put_pool pool p' (put_arena a r' w)))"
proof -
  note I = iob_invD [OF inv]
  have sizes: "page_size p' = page_size p" "arena_size p' = arena_size p" "pages p' = pages p" "sizes_ok p'"
    using p'(1) I(3) by (simp_all add: same_sizes_def pages_def sizes_ok_def)
  have other: "arena_ok pool (page_size p) (pages p) ((bufs w)(x \<mapsto> b')) c q"
    if c: "ars w c = Some q" "c \<noteq> a" for c q
  proof -
    have "y \<noteq> x" if "y \<in> set (iobuf_array (arena_iobufs q) (pages p))" for y
      by (rule arena_buf [OF I(6) [OF c(1)] that]) (use x c(2) in auto)
    then show ?thesis using arena_ok_cong [of q "pages p" "(bufs w)(x \<mapsto> b')" "bufs w"] I(6) [OF c(1)] by simp
  qed
  have "buf_ok a (page_size p) r' i (((bufs w)(x \<mapsto> b')) (arena_iobufs r' + i * sizeof_iobuf))"
    if i: "i < pages p" for i
  proof -
    have "buf_ok a (page_size p) r i (bufs w (arena_iobufs r + i * sizeof_iobuf))"
      using I(6) [OF a] i by (simp add: arena_ok_def)
    then show ?thesis using r'(1) x(1) b' act [of "arena_iobufs r + i * sizeof_iobuf"]
      by (cases "arena_iobufs r + i * sizeof_iobuf = x") (auto simp: buf_ok_def same_array_def)
  qed
  then have this_ok: "arena_ok pool (page_size p) (pages p) ((bufs w)(x \<mapsto> b')) a r'"
    using I(6) [OF a] r' unfolding arena_ok_def same_array_def by (metis (no_types))
  have "owned_ok ((bufs w)(x \<mapsto> b')) ((ars w)(a \<mapsto> r')) (pages p)"
    using I(8) a x b'(1) r'(1) unfolding owned_ok_def same_array_def by (auto split: if_splits) fastforce+
  moreover have "regions_ok (arena_size p) ((ars w)(a \<mapsto> r')) (mapped w)"
    using regions_ok_update [OF I(9) a] r'(1) by (simp add: same_array_def)
  moreover have "a \<noteq> 0" using I(5) a by (metis option.distinct(1))
  moreover have "dom ((ars w)(a \<mapsto> r')) = dom (ars w)" using a by auto
  ultimately show ?thesis using I(1,5) p' sizes this_ok other by (simp add: iob_inv_def insert_dom)
qed

lemma lists_ok_moves:
  assumes "lists_ok n r" and "passive_list r = x # ps"
    and "r2 = (unlink_iobuf x r)\<lparr>passive_cnt := passive_cnt r - 1, active_list := x # active_list (unlink_iobuf x r),
      active_cnt := active_cnt r + 1\<rparr>"
  shows "lists_ok n r2" "same_array r r2" "active_list r2 = x # active_list r" "passive_list r2 = ps"
    "passive_cnt r2 = passive_cnt r - 1" "x \<notin> set (active_list r)"
  using assms by (auto simp: lists_ok_def unlink_iobuf_def same_array_def remove1_idem)

text \<open>
  The abstract effect of taking one reference more or less: the counts change at one handle, and the
  other held handles stay as they are.
\<close>

definition changes_ref :: "iob_store \<Rightarrow> iob_store \<Rightarrow> addr \<Rightarrow> int \<Rightarrow> bool" where
  "changes_ref w w' x d \<longleftrightarrow>
     refs w' = (refs w)(x := refs w x + d) \<and> (\<forall>y. y \<noteq> x \<longrightarrow> 0 < refs w y \<longrightarrow> bufs w' y = bufs w y)"

lemma keeps_changes_ref:
  assumes "keeps w w1" and "changes_ref w1 w2 x d"
  shows "changes_ref w w2 x d"
  using assms by (auto simp: keeps_def changes_ref_def)

lemma changes_ref_keeps:
  assumes "changes_ref w w1 x d" and "keeps w1 w2"
  shows "changes_ref w w2 x d"
  using assms by (auto simp: keeps_def changes_ref_def split: if_splits)

lemma iobuf_get_from_inv:
  assumes inv: "iob_inv pool p w" and a: "a \<in> set (arenas p)"
  shows "\<exists>w1 w2 x p' b. iobuf_get_from a w = Some (w1, x) \<and> iobuf_add_ref 1 x w1 = Some w2 \<and> iob_inv pool p' w2
    \<and> same_sizes p p' \<and> refs w x = 0 \<and> changes_ref w w2 x 1
    \<and> bufs w x = Some b \<and> bufs w2 x = Some (b\<lparr>buf_ref := 1\<rparr>)"
proof -
  note I = iob_invD [OF inv]
  have dom: "a \<in> dom (ars w)" using I(4) a by (auto simp: pool_lists_ok_def)
  then obtain r where r: "ars w a = Some r" by auto
  have ok: "arena_ok pool (page_size p) (pages p) (bufs w) a r" by (rule I(6) [OF r])
  obtain x ps where ps: "passive_list r = x # ps"
    using I(7) [OF r] a by (cases "passive_list r") (auto simp: place_ok_def)
  have lists: "lists_ok (pages p) r" using ok by (simp add: arena_ok_def)
  define r2 where "r2 = (unlink_iobuf x r)\<lparr>passive_cnt := passive_cnt r - 1,
    active_list := x # active_list (unlink_iobuf x r), active_cnt := active_cnt r + 1\<rparr>"
  note m = lists_ok_moves [OF lists ps r2_def]
  have "x \<in> set (iobuf_array (arena_iobufs r) (pages p))" using lists ps by (auto simp: lists_ok_def)
  then obtain b where b: "bufs w x = Some b" "buf_arena b = a" "0 \<le> buf_ref b"
      "0 < buf_ref b \<longleftrightarrow> x \<in> set (active_list r)"
    by (rule arena_buf [OF ok])
  then have ref0: "buf_ref b = 0" using m(6) by simp
  define p' where "p' = (if ps = [] then (unlink_arena a p)\<lparr>filled := a # filled (unlink_arena a p)\<rparr> else p)"
  define w1 where "w1 = (if ps = [] then put_pool pool p' (put_arena a r2 w) else put_arena a r2 w)"
  define w2 where "w2 = put_buf x (b\<lparr>buf_ref := 1\<rparr>) (put_pool pool p' (put_arena a r2 w))"
  have c0: "passive_cnt r2 = 0 \<longleftrightarrow> ps = []" using m(1,4) by (simp add: lists_ok_def)
  have "iobuf_get_from a w = Some (w1, x)"
    using r ps I(2) ok c0 by (auto simp: iobuf_get_from_def arena_ok_def w1_def p'_def r2_def unlink_iobuf_def Let_def)
  moreover have "iobuf_add_ref 1 x w1 = Some w2"
    using b(1) ref0 I(2) by (auto simp: iobuf_add_ref_def w1_def w2_def p'_def put_pool_def put_arena_def put_buf_def fun_upd_idem)
  moreover have "iob_inv pool p' w2"
    unfolding w2_def
  proof (rule iob_inv_update [OF inv r m(2,1) b(1,2)])
    show "pool_lists_ok p' (dom (ars w))"
      using relink_arena_lists(3) [OF I(4) dom refl] I(4) unfolding p'_def by (cases "ps = []") (simp_all only: if_True if_False simp_thms)
    show "place_ok p' c q" if "ars w c = Some q" "c \<noteq> a" for c q
      using I(7) [OF that(1)] that(2) unlink_arena_lists(2-4) [OF I(4) dom] by (auto simp: place_ok_def p'_def)
    show "place_ok p' a r2"
      using m(4) a I(4) unlink_arena_lists(2-4) [OF I(4) dom] by (auto simp: place_ok_def p'_def pool_lists_ok_def)
    show "(0 < buf_ref (b\<lparr>buf_ref := 1\<rparr>)) = (x \<in> set (active_list r2))" using m(3) by simp
  qed (use b m(3) in \<open>auto simp: p'_def\<close>)
  moreover have "changes_ref w w2 x 1"
    using b(1) ref0 by (auto simp: changes_ref_def refs_def w2_def fun_eq_iff)
  ultimately show ?thesis using b(1) ref0
    by (intro exI [of _ w1] exI [of _ w2] exI [of _ x] exI [of _ p'] exI [of _ b])
      (auto simp: refs_def w2_def p'_def)
qed

section \<open>Destroying arenas\<close>

lemma destroy_iobufs_loop_ok:
  "(\<And>x. x \<in> set (iobuf_array base n) \<Longrightarrow> \<exists>b. bs x = Some b \<and> buf_ref b = 0) \<Longrightarrow>
     \<exists>r'. destroy_iobufs_loop n base bs r = Some r'"
proof (induction n arbitrary: base r)
  case (Suc n)
  then show ?case by (fastforce simp: iobuf_array_Suc)
qed simp

text \<open>An arena without active handles, taken off the lists of its pool and destroyed.\<close>

definition drop_arena :: "addr \<Rightarrow> addr \<Rightarrow> iobuf_pool \<Rightarrow> iobuf_arena \<Rightarrow> iob_store \<Rightarrow> iob_store" where
  "drop_arena pool a p r w =
     w\<lparr>bufs := bufs w |` (- set (iobuf_array (arena_iobufs r) (pages p))), ars := (ars w)(a := None),
       mapped := (mapped w)(mem_base r := None),
       pls := (pls w)(pool \<mapsto> (unlink_arena a p)\<lparr>arena_cnt := arena_cnt p - 1\<rparr>)\<rparr>"

lemma idle_refs:
  assumes "arena_ok pool psize n bs a r" and "active_list r = []" and "x \<in> set (iobuf_array (arena_iobufs r) n)"
  shows "\<exists>b. bs x = Some b \<and> buf_ref b = 0"
  by (rule arena_buf [OF assms(1,3)]) (use assms(2) in auto)

lemma iobuf_arena_destroy_step:
  assumes inv: "iob_inv pool p w" and r: "ars w a = Some r" and idle: "active_list r = []"
  shows "iobuf_arena_destroy a (put_pool pool ((unlink_arena a p)\<lparr>arena_cnt := arena_cnt p - 1\<rparr>) w) =
    Some (drop_arena pool a p r w)"
proof -
  note I = iob_invD [OF inv]
  define q where "q = (unlink_arena a p)\<lparr>arena_cnt := arena_cnt p - 1\<rparr>"
  have ok: "arena_ok pool (page_size p) (pages p) (bufs w) a r" by (rule I(6) [OF r])
  have "sizes_ok q" "pages q = pages p" using I(3) by (simp_all add: q_def sizes_ok_def pages_def)
  then have cnt: "iobuf_cnt q = Some (int (pages p))" using iobuf_cnt_pages [of q] by simp
  obtain r1 where "destroy_iobufs_loop (pages p) (arena_iobufs r) (bufs w) r = Some r1"
    using destroy_iobufs_loop_ok [of "arena_iobufs r" "pages p" "bufs w" r] idle_refs [OF ok idle] by blast
  moreover have "a \<noteq> 0" using I(5) r by (metis option.distinct(1))
  ultimately show ?thesis using r cnt ok
    by (simp add: iobuf_arena_destroy_def iobuf_arena_destroy_iobufs_def drop_arena_def arena_ok_def put_arena_def
        put_pool_def q_def [symmetric] Let_def)
qed

lemma regions_ok_delete:
  assumes reg: "regions_ok asize rs mp" and a: "rs a = Some r" and pos: "0 < asize"
  shows "regions_ok asize (rs(a := None)) (mp(mem_base r := None))"
  unfolding regions_ok_def
proof (intro conjI allI impI)
  have dis: "mem_base r' \<noteq> mem_base r" if "rs b = Some r'" "b \<noteq> a" for b r'
  proof
    assume "mem_base r' = mem_base r"
    moreover have "{mem_base r' ..< mem_base r' + asize} \<inter> {mem_base r ..< mem_base r + asize} = {}"
      using reg that a unfolding regions_ok_def by blast
    ultimately show False using pos by simp
  qed
  fix m show "(mp(mem_base r := None)) m \<noteq> None \<longleftrightarrow> (\<exists>b r'. (rs(a := None)) b = Some r' \<and> mem_base r' = m)"
  proof (cases "m = mem_base r")
    case True then show ?thesis using dis by (auto split: if_splits)
  next
    case False
    have "mp m \<noteq> None \<longleftrightarrow> (\<exists>b r'. rs b = Some r' \<and> mem_base r' = m)" using reg unfolding regions_ok_def by blast
    moreover have "(rs(a := None)) b = Some r' \<and> mem_base r' = m \<longleftrightarrow> rs b = Some r' \<and> mem_base r' = m" for b r'
      using False a by auto
    ultimately show ?thesis using False by simp
  qed
next
  fix m s assume "(mp(mem_base r := None)) m = Some s"
  then show "s = asize" using reg by (auto simp: regions_ok_def split: if_splits)
next
  fix b r1 b' r2 assume "(rs(a := None)) b = Some r1" "(rs(a := None)) b' = Some r2" "b \<noteq> b'"
  then show "{mem_base r1 ..< mem_base r1 + asize} \<inter> {mem_base r2 ..< mem_base r2 + asize} = {}"
    using reg unfolding regions_ok_def by (auto split: if_splits)
qed

lemma drop_arena_inv:
  assumes inv: "iob_inv pool p w" and r: "ars w a = Some r" and idle: "active_list r = []"
    and p': "p' = (unlink_arena a p)\<lparr>arena_cnt := arena_cnt p - 1\<rparr>"
  shows "iob_inv pool p' (drop_arena pool a p r w)" and "keeps w (drop_arena pool a p r w)"
proof -
  let ?w = "drop_arena pool a p r w" and ?arr = "set (iobuf_array (arena_iobufs r) (pages p))"
  note I = iob_invD [OF inv]
  have dom: "a \<in> dom (ars w)" using r by auto
  have ok: "arena_ok pool (page_size p) (pages p) (bufs w) a r" by (rule I(6) [OF r])
  have sizes: "page_size p' = page_size p" "arena_size p' = arena_size p" "pages p' = pages p" "sizes_ok p'"
    using I(3) by (simp_all add: p' pages_def sizes_ok_def)
  have mine: "buf_arena b = a" if "x \<in> ?arr" "bufs w x = Some b" for x b
    by (rule arena_buf [OF ok that(1)]) (use that(2) in auto)
  have other: "arena_ok pool (page_size p) (pages p) (bufs ?w) c q \<and> place_ok p' c q"
    if c: "ars w c = Some q" "c \<noteq> a" for c q
  proof -
    have "x \<notin> ?arr" if "x \<in> set (iobuf_array (arena_iobufs q) (pages p))" for x
      by (rule arena_buf [OF I(6) [OF c(1)] that]) (use mine c(2) in auto)
    then have "arena_ok pool (page_size p) (pages p) (bufs ?w) c q"
      using arena_ok_cong [of q "pages p" "bufs ?w" "bufs w"] I(6) [OF c(1)] by (simp add: drop_arena_def)
    then show ?thesis using I(7) [OF c(1)] c(2) unlink_arena_lists(2-4) [OF I(4) dom]
      by (simp add: place_ok_def p')
  qed
  have "pool_lists_ok p' (dom (ars ?w))"
    using unlink_arena_lists [OF I(4) dom] I(4)
    by (auto simp: pool_lists_ok_def drop_arena_def p')
  moreover have "owned_ok (bufs ?w) (ars ?w) (pages p)"
    unfolding owned_ok_def
  proof (intro allI impI)
    fix x b assume x: "bufs ?w x = Some b"
    then have x': "bufs w x = Some b" "x \<notin> ?arr" by (auto simp: drop_arena_def restrict_map_def split: if_splits)
    then obtain q where "ars w (buf_arena b) = Some q" "x \<in> set (iobuf_array (arena_iobufs q) (pages p))"
      using I(8) by (auto simp: owned_ok_def)
    moreover from this have "buf_arena b \<noteq> a" using x'(2) r by auto
    ultimately show "\<exists>q. ars ?w (buf_arena b) = Some q \<and> x \<in> set (iobuf_array (arena_iobufs q) (pages p))"
      by (auto simp: drop_arena_def)
  qed
  moreover have "regions_ok (arena_size p) (ars ?w) (mapped ?w)"
    using regions_ok_delete [OF I(9) r] I(3) by (simp add: drop_arena_def sizes_ok_def)
  moreover have "pls ?w pool = Some p'" "ars ?w 0 = None" using I(5) by (simp_all add: drop_arena_def p')
  moreover have "arena_ok pool (page_size p) (pages p) (bufs ?w) c q \<and> place_ok p' c q"
    if "ars ?w c = Some q" for c q
    using that other by (auto simp: drop_arena_def split: if_splits)
  ultimately show "iob_inv pool p' ?w" using I(1) sizes by (simp add: iob_inv_def)
  have "refs ?w x = refs w x \<and> (0 < refs w x \<longrightarrow> bufs ?w x = bufs w x)" for x
    using idle_refs [OF ok idle, of x] by (cases "x \<in> ?arr") (auto simp: refs_def drop_arena_def)
  then show "keeps w ?w" by (simp add: keeps_def fun_eq_iff)
qed

lemma prune_arenas_inv:
  assumes "iob_inv pool p w" and "set as \<subseteq> set (purge p)" and "distinct as"
  shows "\<exists>w' p'. prune_arenas pool as w = Some w' \<and> iob_inv pool p' w' \<and> same_sizes p p' \<and> keeps w w'
    \<and> brefs w' = brefs w \<and> set (purge p') = set (purge p) - set as"
  using assms
proof (induction as arbitrary: p w)
  case (Cons a as)
  note I = iob_invD [OF Cons.prems(1)]
  have a: "a \<in> set (purge p)" using Cons.prems(2) by simp
  have dom: "a \<in> dom (ars w)" using a I(4) by (auto simp: pool_lists_ok_def)
  then obtain r where r: "ars w a = Some r" by auto
  have idle: "active_list r = []" using I(7) [OF r] a by (simp add: place_ok_def)
  then have "active_cnt r = 0" using I(6) [OF r] by (simp add: arena_ok_def lists_ok_def)
  then have step: "prune_arenas pool (a # as) w = prune_arenas pool as (drop_arena pool a p r w)"
    using r I(2) iobuf_arena_destroy_step [OF Cons.prems(1) r idle] by simp
  let ?p1 = "(unlink_arena a p)\<lparr>arena_cnt := arena_cnt p - 1\<rparr>"
  note d = drop_arena_inv [OF Cons.prems(1) r idle refl]
  have sub: "set as \<subseteq> set (purge ?p1)" "set (purge ?p1) = set (purge p) - {a}"
    using Cons.prems(2,3) unlink_arena_lists(4) [OF I(4) dom] by auto
  obtain w' p' where w': "prune_arenas pool as (drop_arena pool a p r w) = Some w'" "iob_inv pool p' w'"
      "same_sizes ?p1 p'" "keeps (drop_arena pool a p r w) w'" "brefs w' = brefs (drop_arena pool a p r w)"
      "set (purge p') = set (purge ?p1) - set as"
    using Cons.IH [OF d(1) sub(1)] Cons.prems(3) by auto
  have "same_sizes p p'" using w'(3) by (simp add: same_sizes_def)
  moreover have "keeps w w'" using keeps_trans [OF d(2) w'(4)] .
  ultimately show ?case using w' step sub(2) by (intro exI [of _ w'] exI [of _ p']) (auto simp: drop_arena_def)
qed auto

section \<open>Releasing a buffer\<close>

lemma lists_ok_releases:
  assumes "lists_ok n r" and "x \<in> set (active_list r)"
    and "r2 = (unlink_iobuf x r)\<lparr>active_cnt := active_cnt r - 1, passive_list := x # passive_list (unlink_iobuf x r),
      passive_cnt := passive_cnt r + 1\<rparr>"
  shows "lists_ok n r2" "same_array r r2" "set (active_list r2) = set (active_list r) - {x}"
    "passive_list r2 = x # passive_list r" "active_list r2 = [] \<longleftrightarrow> active_cnt r - 1 = 0"
proof -
  have x: "x \<notin> set (passive_list r)" "distinct (active_list r)" using assms(1,2) by (auto simp: lists_ok_def)
  have l: "int (length (remove1 x (active_list r))) = active_cnt r - 1"
    using int_length_remove1 [OF assms(2)] assms(1) by (simp add: lists_ok_def)
  show "set (active_list r2) = set (active_list r) - {x}" "passive_list r2 = x # passive_list r" "same_array r r2"
    using x by (simp_all add: assms(3) unlink_iobuf_def remove1_idem same_array_def)
  show "lists_ok n r2"
    using assms(1,2) x l by (auto simp: lists_ok_def assms(3) unlink_iobuf_def remove1_idem)
  show "active_list r2 = [] \<longleftrightarrow> active_cnt r - 1 = 0"
    using l by (auto simp: assms(3) unlink_iobuf_def)
qed

text \<open>The lists of the pool after a release into the arena \<open>a\<close>.\<close>

definition put_lists :: "bool \<Rightarrow> bool \<Rightarrow> addr \<Rightarrow> iobuf_pool \<Rightarrow> iobuf_pool" where
  "put_lists full idle a p =
     (let p1 = (if full then let q = unlink_arena a p in q\<lparr>arenas := arenas q @ [a]\<rparr> else p)
      in if idle then let q = unlink_arena a p1 in q\<lparr>purge := purge q @ [a]\<rparr> else p1)"

lemma put_lists_ok:
  assumes "pool_lists_ok p A" and "a \<in> A"
  shows "pool_lists_ok (put_lists full idle a p) A" and "same_sizes p (put_lists full idle a p)"
    and "c \<noteq> a \<Longrightarrow> c \<in> set (arenas (put_lists full idle a p)) \<longleftrightarrow> c \<in> set (arenas p)"
    and "c \<noteq> a \<Longrightarrow> c \<in> set (filled (put_lists full idle a p)) \<longleftrightarrow> c \<in> set (filled p)"
    and "c \<noteq> a \<Longrightarrow> c \<in> set (purge (put_lists full idle a p)) \<longleftrightarrow> c \<in> set (purge p)"
    and "idle \<Longrightarrow> a \<notin> set (arenas (put_lists full idle a p)) \<and> a \<notin> set (filled (put_lists full idle a p))"
    and "\<lbrakk>\<not> idle; full\<rbrakk> \<Longrightarrow> a \<notin> set (filled (put_lists full idle a p)) \<and> a \<notin> set (purge (put_lists full idle a p))"
proof -
  let ?q = "unlink_arena a p"
  define p1 where "p1 = (if full then ?q\<lparr>arenas := arenas ?q @ [a]\<rparr> else p)"
  have p1: "pool_lists_ok p1 A" "same_sizes p p1"
    using relink_arena_lists(1) [OF assms refl] assms(1) unfolding p1_def by (cases full, simp_all only: if_True if_False simp_thms same_sizes_simps)+
  have eq: "put_lists full idle a p = (if idle then (unlink_arena a p1)\<lparr>purge := purge (unlink_arena a p1) @ [a]\<rparr> else p1)"
    by (simp add: put_lists_def p1_def Let_def)
  show "pool_lists_ok (put_lists full idle a p) A"
    using relink_arena_lists(2) [OF p1(1) assms(2) refl] p1(1) unfolding eq by (cases idle) (simp_all only: if_True if_False simp_thms)
  show "same_sizes p (put_lists full idle a p)"
    using p1(2) unfolding eq by (simp add: same_sizes_def)
  note u = unlink_arena_lists(2-4) [OF assms] unlink_arena_lists(2-4) [OF p1(1) assms(2)]
  show "c \<noteq> a \<Longrightarrow> c \<in> set (arenas (put_lists full idle a p)) \<longleftrightarrow> c \<in> set (arenas p)"
    "c \<noteq> a \<Longrightarrow> c \<in> set (filled (put_lists full idle a p)) \<longleftrightarrow> c \<in> set (filled p)"
    "c \<noteq> a \<Longrightarrow> c \<in> set (purge (put_lists full idle a p)) \<longleftrightarrow> c \<in> set (purge p)"
    unfolding eq p1_def by simp_all
  show "idle \<Longrightarrow> a \<notin> set (arenas (put_lists full idle a p)) \<and> a \<notin> set (filled (put_lists full idle a p))"
    unfolding eq using u by simp
  show "\<lbrakk>\<not> idle; full\<rbrakk> \<Longrightarrow> a \<notin> set (filled (put_lists full idle a p)) \<and> a \<notin> set (purge (put_lists full idle a p))"
    unfolding eq p1_def using u by simp
qed

lemma iobuf_put_to_inv:
  assumes inv: "iob_inv pool p w" and b: "bufs w x = Some b" "buf_ref b = 1"
    and w1: "w1 = put_buf x (b\<lparr>buf_ref := 0\<rparr>) w"
  shows "\<exists>w2 p'. iobuf_put_to x (buf_arena b) w1 = Some w2 \<and> iob_inv pool p' w2 \<and> same_sizes p p'
    \<and> changes_ref w w2 x (-1) \<and> brefs w2 = brefs w"
proof -
  let ?a = "buf_arena b"
  note I = iob_invD [OF inv]
  obtain r where r: "ars w ?a = Some r" "x \<in> set (iobuf_array (arena_iobufs r) (pages p))"
    using I(8) b(1) by (auto simp: owned_ok_def)
  have dom: "?a \<in> dom (ars w)" using r by auto
  have ok: "arena_ok pool (page_size p) (pages p) (bufs w) ?a r" by (rule I(6) [OF r(1)])
  then have lists: "lists_ok (pages p) r" "arena_pool r = pool" by (simp_all add: arena_ok_def)
  have x: "x \<in> set (active_list r)" by (rule arena_buf [OF ok r(2)]) (use b in auto)
  define r2 where "r2 = (unlink_iobuf x r)\<lparr>active_cnt := active_cnt r - 1,
    passive_list := x # passive_list (unlink_iobuf x r), passive_cnt := passive_cnt r + 1\<rparr>"
  note m = lists_ok_releases [OF lists(1) x r2_def]
  define p' where "p' = put_lists (passive_cnt r = 0) (active_cnt r - 1 = 0) ?a p"
  note P = put_lists_ok [OF I(4) dom, where full = "passive_cnt r = 0" and idle = "active_cnt r - 1 = 0"]
  define w2 where "w2 = put_buf x (b\<lparr>buf_ref := 0\<rparr>) (put_pool pool p' (put_arena ?a r2 w))"
  have "iobuf_put_to x ?a w1 = Some w2"
    using r(1) lists(2) I(2)
    by (simp add: iobuf_put_to_def w1 w2_def p'_def put_lists_def r2_def unlink_iobuf_def Let_def put_buf_def
        put_pool_def put_arena_def)
  moreover have "iob_inv pool p' w2"
    unfolding w2_def
  proof (rule iob_inv_update [OF inv r(1) m(2,1) b(1) refl])
    show "pool_lists_ok p' (dom (ars w))" "same_sizes p p'" unfolding p'_def by (rule P(1), rule P(2))
    show "place_ok p' c q" if "ars w c = Some q" "c \<noteq> ?a" for c q
      using I(7) [OF that(1)] P(3-5) [OF that(2)] by (simp add: place_ok_def p'_def)
    have "passive_cnt r \<noteq> 0 \<Longrightarrow> passive_list r \<noteq> []" using lists(1) by (auto simp: lists_ok_def)
    moreover have "active_list r \<noteq> []" using x by auto
    moreover have "passive_list r2 \<noteq> []" using m(4) by simp
    moreover have "p' = p" if "passive_cnt r \<noteq> 0" "active_list r2 \<noteq> []"
      using that m(5) by (simp add: p'_def put_lists_def)
    ultimately show "place_ok p' ?a r2"
      using I(7) [OF r(1)] P(6,7) m(5) unfolding place_ok_def p'_def [symmetric] by metis
  qed (use b m(3) in auto)
  moreover have "changes_ref w w2 x (-1)"
    using b by (auto simp: changes_ref_def refs_def w2_def fun_eq_iff)
  ultimately show ?thesis using P(2) by (intro exI [of _ w2] exI [of _ p']) (simp add: p'_def w2_def)
qed

lemma iobuf_pool_prune_inv:
  assumes "iob_inv pool p w"
  shows "\<exists>w' p'. iobuf_pool_prune pool w = Some w' \<and> iob_inv pool p' w' \<and> same_sizes p p' \<and> keeps w w'
    \<and> brefs w' = brefs w"
proof -
  have "distinct (purge p)" using iob_invD(4) [OF assms] by (simp add: pool_lists_ok_def)
  from prune_arenas_inv [OF assms subset_refl this] show ?thesis
    using assms iob_invD(2) [OF assms] by (cases "arenas p = []") (auto simp: iobuf_pool_prune_def)
qed

text \<open>As long as a buffer stays held only its count changes.\<close>

lemma iob_inv_set_ref:
  assumes inv: "iob_inv pool p w" and b: "bufs w x = Some b" "0 < buf_ref b" and k: "0 < k"
  shows "iob_inv pool p (put_buf x (b\<lparr>buf_ref := k\<rparr>) w)"
proof -
  note I = iob_invD [OF inv]
  obtain r where r: "ars w (buf_arena b) = Some r" "x \<in> set (iobuf_array (arena_iobufs r) (pages p))"
    using I(8) b(1) by (auto simp: owned_ok_def)
  have ok: "arena_ok pool (page_size p) (pages p) (bufs w) (buf_arena b) r" by (rule I(6) [OF r(1)])
  have x: "x \<in> set (active_list r)" by (rule arena_buf [OF ok r(2)]) (use b in auto)
  have lists: "same_array r r" "lists_ok (pages p) r" using ok by (simp_all add: same_array_def arena_ok_def)
  have "iob_inv pool p (put_buf x (b\<lparr>buf_ref := k\<rparr>) (put_pool pool p (put_arena (buf_arena b) r w)))"
    by (rule iob_inv_update [OF inv r(1) lists b(1) refl]) (use x k I(4,7) r(1) in auto)
  moreover have "put_pool pool p (put_arena (buf_arena b) r w) = w"
    using I(2) r(1) by (simp add: put_pool_def put_arena_def fun_upd_idem)
  ultimately show ?thesis by simp
qed

text \<open>
  Dropping a reference of a held buffer: the count goes down by one, nothing aborts, and the buffers
  held elsewhere stay as they are.
\<close>

lemma iobuf_unref_inv:
  assumes inv: "iob_inv pool p w" and held: "0 < refs w x"
  shows "\<exists>w' p'. iobuf_unref x w = Some w' \<and> iob_inv pool p' w' \<and> same_sizes p p' \<and> changes_ref w w' x (-1)
    \<and> brefs w' = brefs w"
proof -
  note I = iob_invD [OF inv]
  obtain b where b: "bufs w x = Some b" "0 < buf_ref b" using held by (auto simp: refs_def split: option.splits)
  obtain r where r: "ars w (buf_arena b) = Some r" "x \<in> set (iobuf_array (arena_iobufs r) (pages p))"
    using I(8) b(1) by (auto simp: owned_ok_def)
  have ok: "arena_ok pool (page_size p) (pages p) (bufs w) (buf_arena b) r" by (rule I(6) [OF r(1)])
  have nz: "buf_arena b \<noteq> 0" using r(1) I(5) by (metis option.distinct(1))
  have xnz: "x \<noteq> 0" using r(2) ok by (auto simp: set_iobuf_array arena_ok_def)
  let ?w1 = "put_buf x (b\<lparr>buf_ref := buf_ref b - 1\<rparr>) w"
  show ?thesis
  proof (cases "buf_ref b = 1")
    case True
    obtain w2 p2 where w2: "iobuf_put_to x (buf_arena b) ?w1 = Some w2" "iob_inv pool p2 w2" "same_sizes p p2"
        "changes_ref w w2 x (-1)" "brefs w2 = brefs w"
      using iobuf_put_to_inv [OF inv b(1) True] True by auto
    obtain w3 p3 where w3: "iobuf_pool_prune pool w2 = Some w3" "iob_inv pool p3 w3" "same_sizes p2 p3" "keeps w2 w3"
        "brefs w3 = brefs w2"
      using iobuf_pool_prune_inv [OF w2(2)] by blast
    have "iobuf_unref x w = Some w3"
      using b(1) True xnz nz r(1) ok I(1) w2(1) w3(1)
      by (simp add: iobuf_unref_def iobuf_add_ref_def iobuf_put_def arena_ok_def)
    then show ?thesis using w2 w3 changes_ref_keeps [OF w2(4) w3(4)] same_sizes_trans [OF w2(3) w3(3)]
      by (intro exI [of _ w3] exI [of _ p3]) simp
  next
    case False
    have "iobuf_unref x w = Some ?w1"
      using b False xnz by (simp add: iobuf_unref_def iobuf_add_ref_def)
    moreover have "iob_inv pool p ?w1" using iob_inv_set_ref [OF inv b] b(2) False by simp
    ultimately show ?thesis using b
      by (intro exI [of _ ?w1] exI [of _ p]) (auto simp: changes_ref_def refs_def fun_eq_iff)
  qed
qed

section \<open>The interface functions\<close>

lemma buf_nonnull:
  assumes "iob_inv pool p w" and "bufs w x = Some b"
  shows "x \<noteq> 0"
proof -
  obtain r where r: "ars w (buf_arena b) = Some r" "x \<in> set (iobuf_array (arena_iobufs r) (pages p))"
    using iob_invD(8) [OF assms(1)] assms(2) by (auto simp: owned_ok_def)
  then show ?thesis using iob_invD(6) [OF assms(1) r(1)] by (auto simp: set_iobuf_array arena_ok_def)
qed

lemma iobuf_get_inv:
  assumes inv: "iob_inv pool p w" and f: "allocs_fresh p w al"
  shows "\<exists>w' x p'. iobuf_get al pool w = Some (w', x) \<and> iob_inv pool p' w' \<and> same_sizes p p'
    \<and> (x = 0 \<longrightarrow> w' = w \<and> \<not> alloc_succeeds al \<and> arenas p = [] \<and> purge p = []) \<and> (x \<noteq> 0 \<longrightarrow> refs w x = 0 \<and> changes_ref w w' x 1)"
proof -
  obtain w1 a p1 where s: "iobuf_select_arena al pool w = Some (w1, a)" "iob_inv pool p1 w1" "keeps w w1"
      "same_sizes p p1" "a = 0 \<longrightarrow> w1 = w \<and> p1 = p \<and> \<not> alloc_succeeds al \<and> arenas p = [] \<and> purge p = []"
      "a \<noteq> 0 \<longrightarrow> a \<in> set (arenas p1) \<and> ars w1 a \<noteq> None"
    using iobuf_select_arena_inv [OF assms] by blast
  show ?thesis
  proof (cases "a = 0")
    case True
    then show ?thesis using s by (intro exI [of _ w] exI [of _ 0] exI [of _ p]) (simp add: iobuf_get_def)
  next
    case False
    then obtain w2 w3 x p2 b where g: "iobuf_get_from a w1 = Some (w2, x)" "iobuf_add_ref 1 x w2 = Some w3"
        "iob_inv pool p2 w3" "same_sizes p1 p2" "refs w1 x = 0" "changes_ref w1 w3 x 1" "bufs w1 x = Some b"
      using iobuf_get_from_inv [OF s(2)] s(6) by blast
    have "x \<noteq> 0" by (rule buf_nonnull [OF s(2) g(7)])
    moreover have "refs w x = 0" using g(5) s(3) by (simp add: keeps_def)
    ultimately show ?thesis
      using s(1) False g(1-3) keeps_changes_ref [OF s(3) g(6)] same_sizes_trans [OF s(4) g(4)]
      by (intro exI [of _ w3] exI [of _ x] exI [of _ p2]) (simp add: iobuf_get_def)
  qed
qed

lemma iobuf_ref_inv:
  assumes inv: "iob_inv pool p w" and held: "0 < refs w x"
  shows "\<exists>w'. iobuf_ref x w = Some (w', x) \<and> iob_inv pool p w' \<and> changes_ref w w' x 1 \<and> brefs w' = brefs w"
proof -
  obtain b where b: "bufs w x = Some b" "0 < buf_ref b" using held by (auto simp: refs_def split: option.splits)
  have "iobuf_ref x w = Some (put_buf x (b\<lparr>buf_ref := buf_ref b + 1\<rparr>) w, x)"
    using b(1) buf_nonnull [OF inv b(1)] by (simp add: iobuf_ref_def iobuf_add_ref_def)
  moreover have "iob_inv pool p (put_buf x (b\<lparr>buf_ref := buf_ref b + 1\<rparr>) w)"
    using iob_inv_set_ref [OF inv b] b(2) by simp
  ultimately show ?thesis using b by (auto simp: changes_ref_def refs_def fun_eq_iff)
qed

definition empty_iobs :: iob_store where
  "empty_iobs = \<lparr>bufs = Map.empty, ars = Map.empty, pls = Map.empty, brefs = Map.empty, mapped = Map.empty\<rparr>"

text \<open>The pool before its first arena.\<close>

definition first_pool :: "nat \<Rightarrow> nat \<Rightarrow> iobuf_pool" where
  "first_pool asize psize = \<lparr>page_size = psize, arena_size = asize, arena_cnt = 0, arenas = [], filled = [], purge = []\<rparr>"

lemma iobuf_pool_new_inv:
  assumes "new \<noteq> 0" and "0 < psize" and "psize \<le> asize" and "asize < 2 ^ 31"
    and "allocs_fresh (first_pool asize psize) empty_iobs al"
  shows "\<exists>w p. iobuf_pool_new new al asize psize empty_iobs = Some (w, new) \<and> iob_inv new p w
    \<and> page_size p = psize \<and> arena_size p = asize \<and> refs w = (\<lambda>x. 0)"
proof -
  let ?p = "first_pool asize psize" and ?w = "put_pool new (first_pool asize psize) empty_iobs"
  have inv: "iob_inv new ?p ?w"
    using assms by (auto simp: iob_inv_def first_pool_def empty_iobs_def sizes_ok_def pool_lists_ok_def owned_ok_def regions_ok_def)
  have "allocs_fresh ?p ?w al" using assms(5) by (simp add: allocs_fresh_def)
  from iobuf_pool_add_arena_inv [OF inv this]
  obtain w' a p' where "iobuf_pool_add_arena al new ?w = Some (w', a)" "iob_inv new p' w'" "keeps ?w w'" "same_sizes ?p p'"
    by blast
  then show ?thesis using assms(1,3)
    by (intro exI [of _ w'] exI [of _ p'])
      (auto simp: iobuf_pool_new_def first_pool_def same_sizes_def keeps_def refs_def empty_iobs_def fun_eq_iff)
qed

section \<open>Runs of a pool\<close>

text \<open>
  A client gets buffers, takes further references of buffers it holds and drops references it has.
\<close>

inductive iob_reach :: "addr \<Rightarrow> iob_store \<Rightarrow> bool" for pool where
  iob_new: "\<lbrakk>pool \<noteq> 0; 0 < psize; psize \<le> asize; asize < 2 ^ 31; allocs_fresh (first_pool asize psize) empty_iobs al;
      iobuf_pool_new pool al asize psize empty_iobs = Some (w, pool)\<rbrakk> \<Longrightarrow> iob_reach pool w"
| iob_get: "\<lbrakk>iob_reach pool w; pls w pool = Some p; allocs_fresh p w al; iobuf_get al pool w = Some (w', x)\<rbrakk>
    \<Longrightarrow> iob_reach pool w'"
| iob_ref: "\<lbrakk>iob_reach pool w; 0 < refs w x; iobuf_ref x w = Some (w', y)\<rbrakk> \<Longrightarrow> iob_reach pool w'"
| iob_unref: "\<lbrakk>iob_reach pool w; 0 < refs w x; iobuf_unref x w = Some w'\<rbrakk> \<Longrightarrow> iob_reach pool w'"

lemma iob_reach_inv: "iob_reach pool w \<Longrightarrow> \<exists>p. iob_inv pool p w"
proof (induction rule: iob_reach.induct)
  case (iob_new psize asize al w)
  then show ?case using iobuf_pool_new_inv [of pool psize asize al] by auto
next
  case (iob_get w p al w' x)
  then obtain q where q: "iob_inv pool q w" by blast
  then have "q = p" using iob_invD(2) iob_get.hyps(2) by fastforce
  then show ?case using iobuf_get_inv [of pool p w al] q iob_get.hyps by auto
next
  case (iob_ref w x w' y)
  then show ?case using iobuf_ref_inv by fastforce
next
  case (iob_unref w x w')
  then obtain q where q: "iob_inv pool q w" by blast
  then show ?case using iobuf_unref_inv [OF q iob_unref.hyps(2)] iob_unref.hyps(3) by auto
qed

text \<open>The page of a handle.\<close>

definition page_of :: "iob_store \<Rightarrow> nat \<Rightarrow> addr \<Rightarrow> nat set" where
  "page_of w psize x = (case bufs w x of None \<Rightarrow> {} | Some b \<Rightarrow> {buf_ptr b ..< buf_ptr b + psize})"

lemma page_in_region:
  assumes "iob_inv pool p w" and "bufs w x = Some b"
  obtains r i where "ars w (buf_arena b) = Some r" "i < pages p" "x = arena_iobufs r + i * sizeof_iobuf"
    "buf_ptr b = mem_base r + i * page_size p" "mapped w (mem_base r) = Some (arena_size p)"
    "page_of w (page_size p) x \<subseteq> {mem_base r ..< mem_base r + arena_size p}"
proof -
  note I = iob_invD [OF assms(1)]
  obtain r where r: "ars w (buf_arena b) = Some r" "x \<in> set (iobuf_array (arena_iobufs r) (pages p))"
    using I(8) assms(2) by (auto simp: owned_ok_def)
  obtain i where i: "i < pages p" "x = arena_iobufs r + i * sizeof_iobuf" "buf_ptr b = mem_base r + i * page_size p"
    by (rule arena_buf [OF I(6) [OF r(1)] r(2)]) (use assms(2) in auto)
  have "Suc i * page_size p \<le> pages p * page_size p" using i(1) by (intro mult_le_mono1) simp
  then have "page_of w (page_size p) x \<subseteq> {mem_base r ..< mem_base r + arena_size p}"
    using pages_fit [OF I(3)] i(3) assms(2) by (auto simp: page_of_def)
  moreover have "mapped w (mem_base r) = Some (arena_size p)"
    using I(9) r(1) unfolding regions_ok_def by (metis not_None_eq)
  ultimately show ?thesis using that r(1) i by blast
qed

lemma pages_disjoint:
  assumes inv: "iob_inv pool p w" and "bufs w x = Some b" "bufs w y = Some c" and ne: "x \<noteq> y"
  shows "page_of w (page_size p) x \<inter> page_of w (page_size p) y = {}"
proof (rule page_in_region [OF inv assms(2)], rule page_in_region [OF inv assms(3)])
  fix r i r' j
  assume x: "ars w (buf_arena b) = Some r" "x = arena_iobufs r + i * sizeof_iobuf" "buf_ptr b = mem_base r + i * page_size p"
      "page_of w (page_size p) x \<subseteq> {mem_base r ..< mem_base r + arena_size p}"
    and y: "ars w (buf_arena c) = Some r'" "y = arena_iobufs r' + j * sizeof_iobuf" "buf_ptr c = mem_base r' + j * page_size p"
      "page_of w (page_size p) y \<subseteq> {mem_base r' ..< mem_base r' + arena_size p}"
  show ?thesis
  proof (cases "buf_arena b = buf_arena c")
    case False
    then have "{mem_base r ..< mem_base r + arena_size p} \<inter> {mem_base r' ..< mem_base r' + arena_size p} = {}"
      using iob_invD(9) [OF inv] x(1) y(1) unfolding regions_ok_def by blast
    then show ?thesis using x(4) y(4) by blast
  next
    case True
    then have "r' = r" using x(1) y(1) by simp
    then have "i \<noteq> j" using ne x(2) y(2) by auto
    then have "Suc i * page_size p \<le> j * page_size p \<or> Suc j * page_size p \<le> i * page_size p"
      using mult_le_mono1 [of "Suc i" j "page_size p"] mult_le_mono1 [of "Suc j" i "page_size p"] by linarith
    then show ?thesis using x(3) y(3) assms(2,3) \<open>r' = r\<close> by (auto simp: page_of_def)
  qed
qed

lemma all_held:
  assumes inv: "iob_inv pool p w" and "arenas p = []" and "purge p = []" and b: "bufs w y = Some b"
  shows "0 < refs w y"
proof -
  note I = iob_invD [OF inv]
  obtain r where r: "ars w (buf_arena b) = Some r" "y \<in> set (iobuf_array (arena_iobufs r) (pages p))"
    using I(8) b by (auto simp: owned_ok_def)
  have "buf_arena b \<in> set (filled p)" using r(1) I(4) assms(2,3) by (auto simp: pool_lists_ok_def)
  then have "y \<in> set (active_list r)"
    using I(6,7) [OF r(1)] r(2) by (auto simp: place_ok_def arena_ok_def lists_ok_def)
  then show ?thesis using b by (auto simp: refs_def intro: arena_buf [OF I(6) [OF r(1)] r(2)])
qed

text \<open>
  C24: the buffer pool is safe and makes progress.  In every run of a pool, \<open>iobuf_get\<close> returns and hands
  out a buffer nobody holds, with one reference, changing no other held buffer; it returns null only when
  every buffer is held and a new arena cannot be allocated.  Taking and dropping a reference of a held
  buffer never aborts or touches freed memory and changes only its count.  The pages of distinct held
  buffers do not overlap and lie in mapped regions.
\<close>

theorem iobuf_pool_safe:
  assumes "iob_reach pool w" and "pls w pool = Some p"
  shows "(\<forall>al. allocs_fresh p w al \<longrightarrow>
        (\<exists>w' x. iobuf_get al pool w = Some (w', x) \<and> (x \<noteq> 0 \<longrightarrow> refs w x = 0 \<and> changes_ref w w' x 1)
          \<and> (x = 0 \<longrightarrow> w' = w \<and> \<not> alloc_succeeds al \<and> (\<forall>y \<in> dom (bufs w). 0 < refs w y))))
    \<and> (\<forall>x. 0 < refs w x \<longrightarrow>
        (\<exists>w'. iobuf_ref x w = Some (w', x) \<and> changes_ref w w' x 1)
      \<and> (\<exists>w'. iobuf_unref x w = Some w' \<and> changes_ref w w' x (-1))
      \<and> (\<exists>m. mapped w m = Some (arena_size p) \<and> page_of w (page_size p) x \<subseteq> {m ..< m + arena_size p})
      \<and> (\<forall>y. 0 < refs w y \<longrightarrow> x \<noteq> y \<longrightarrow> page_of w (page_size p) x \<inter> page_of w (page_size p) y = {}))"
proof (intro conjI allI impI)
  obtain q where "iob_inv pool q w" using iob_reach_inv [OF assms(1)] by blast
  then have inv: "iob_inv pool p w" using iob_invD(2) assms(2) by fastforce
  fix al assume "allocs_fresh p w al"
  from iobuf_get_inv [OF inv this]
  show "\<exists>w' x. iobuf_get al pool w = Some (w', x) \<and> (x \<noteq> 0 \<longrightarrow> refs w x = 0 \<and> changes_ref w w' x 1)
        \<and> (x = 0 \<longrightarrow> w' = w \<and> \<not> alloc_succeeds al \<and> (\<forall>y \<in> dom (bufs w). 0 < refs w y))"
    using all_held [OF inv] by fast
next
  obtain q where "iob_inv pool q w" using iob_reach_inv [OF assms(1)] by blast
  then have inv: "iob_inv pool p w" using iob_invD(2) assms(2) by fastforce
  fix x assume x: "0 < refs w x"
  then obtain b where b: "bufs w x = Some b" by (auto simp: refs_def split: option.splits)
  show "\<exists>w'. iobuf_ref x w = Some (w', x) \<and> changes_ref w w' x 1" using iobuf_ref_inv [OF inv x] by blast
  show "\<exists>w'. iobuf_unref x w = Some w' \<and> changes_ref w w' x (-1)" using iobuf_unref_inv [OF inv x] by blast
  show "\<exists>m. mapped w m = Some (arena_size p) \<and> page_of w (page_size p) x \<subseteq> {m ..< m + arena_size p}"
    by (rule page_in_region [OF inv b]) blast
  fix y assume y: "0 < refs w y" "x \<noteq> y"
  then obtain c where "bufs w y = Some c" by (auto simp: refs_def split: option.splits)
  then show "page_of w (page_size p) x \<inter> page_of w (page_size p) y = {}" by (rule pages_disjoint [OF inv b _ y(2)])
qed

definition demo_allocs :: arena_allocs where
  "demo_allocs = \<lparr>al_arena = 100, al_mem = 65536, al_iobufs = 200\<rparr>"

definition no_allocs :: arena_allocs where
  "no_allocs = \<lparr>al_arena = 0, al_mem = MAP_FAILED, al_iobufs = 0\<rparr>"

definition demo_iobs :: iob_store where
  "demo_iobs = \<lparr>bufs = [200 \<mapsto> \<lparr>buf_arena = 100, buf_ref = 0, buf_ptr = 65536\<rparr>],
     ars = [100 \<mapsto> \<lparr>arena_pool = 1, mem_base = 65536, arena_iobufs = 200, active_cnt = 0, active_list = [],
                     passive_cnt = 1, passive_list = [200]\<rparr>],
     pls = [1 \<mapsto> \<lparr>page_size = 4096, arena_size = 4096, arena_cnt = 1, arenas = [100], filled = [], purge = []\<rparr>],
     brefs = Map.empty, mapped = [65536 \<mapsto> 4096]\<rparr>"

lemma demo_iobs_new: "iobuf_pool_new 1 demo_allocs 4096 4096 empty_iobs = Some (demo_iobs, 1)"
  by (simp add: iobuf_pool_new_def iobuf_pool_add_arena_def iobuf_arena_unprune_def iobuf_arena_alloc_def
      iobuf_arena_init_iobufs_def iobuf_cnt_def to_cint_def zero_arena_def demo_allocs_def empty_iobs_def
      demo_iobs_def MAP_FAILED_def Let_def put_arena_def put_pool_def)

lemma demo_iobs_reach: "iob_reach 1 demo_iobs"
  by (rule iob_new [OF _ _ _ _ _ demo_iobs_new])
    (simp_all add: allocs_fresh_def empty_iobs_def demo_allocs_def first_pool_def pages_def iobuf_array_def)

lemma demo_allocs_fresh: "pls demo_iobs 1 = Some p \<Longrightarrow> allocs_fresh p demo_iobs no_allocs"
  by (auto simp: allocs_fresh_def demo_iobs_def no_allocs_def MAP_FAILED_def)

theorem iobuf_pool_safe_witness:
  "\<exists>w' x. iobuf_get no_allocs 1 demo_iobs = Some (w', x) \<and> refs w' x = 1"
proof -
  obtain p where p: "pls demo_iobs 1 = Some p" by (simp add: demo_iobs_def)
  from iobuf_pool_safe [OF demo_iobs_reach p] demo_allocs_fresh [OF p]
  obtain w' x where w: "iobuf_get no_allocs 1 demo_iobs = Some (w', x)"
      "x \<noteq> 0 \<longrightarrow> refs demo_iobs x = 0 \<and> changes_ref demo_iobs w' x 1"
      "x = 0 \<longrightarrow> (\<forall>y \<in> dom (bufs demo_iobs). 0 < refs demo_iobs y)" by blast
  have "200 \<in> dom (bufs demo_iobs)" "refs demo_iobs 200 = 0" by (simp_all add: demo_iobs_def refs_def)
  then have "x \<noteq> 0" using w(3) by force
  then show ?thesis using w by (auto simp: changes_ref_def)
qed

section \<open>The pool as an interface\<close>

text \<open>
  To a client that holds one reference of each of its buffers, the buffer pool is an object pool in the
  sense of the interface the memory pool provides.
\<close>

type_synonym iob_handle = "addr \<times> iob_store"

definition iob_get_handle :: "arena_allocs \<Rightarrow> iob_handle \<Rightarrow> iob_handle \<times> addr" where
  "iob_get_handle al s =
     (case iobuf_get al (fst s) (snd s) of None \<Rightarrow> (s, 0) | Some (w', x) \<Rightarrow> ((fst s, w'), x))"

definition iob_put_handle :: "addr \<Rightarrow> iob_handle \<Rightarrow> iob_handle option" where
  "iob_put_handle x s = map_option (Pair (fst s)) (iobuf_unref x (snd s))"

definition iob_holds :: "iob_handle \<Rightarrow> addr set \<Rightarrow> bool" where
  "iob_holds s L \<longleftrightarrow> (\<exists>p. iob_inv (fst s) p (snd s)) \<and> refs (snd s) = (\<lambda>x. if x \<in> L then 1 else 0)"

definition iob_fresh :: "iob_handle \<Rightarrow> addr set \<Rightarrow> arena_allocs \<Rightarrow> bool" where
  "iob_fresh s L al \<longleftrightarrow> (case pls (snd s) (fst s) of None \<Rightarrow> True | Some p \<Rightarrow> allocs_fresh p (snd s) al)"

interpretation iobufs: object_pool iob_get_handle iob_put_handle iob_holds iob_fresh
proof
  fix s s' L al a
  assume h: "iob_holds s L" and f: "iob_fresh s L al" and g: "iob_get_handle al s = (s', a)"
  obtain p where inv: "iob_inv (fst s) p (snd s)" and L: "refs (snd s) = (\<lambda>x. if x \<in> L then 1 else 0)"
    using h by (auto simp: iob_holds_def)
  have "allocs_fresh p (snd s) al" using f iob_invD(2) [OF inv] by (simp add: iob_fresh_def)
  from iobuf_get_inv [OF inv this] obtain w' x p' where
    w0: "iobuf_get al (fst s) (snd s) = Some (w', x)" "iob_inv (fst s) p' w'" "x = 0 \<longrightarrow> w' = snd s"
      "x \<noteq> 0 \<longrightarrow> refs (snd s) x = 0 \<and> changes_ref (snd s) w' x 1" by blast
  then have "s' = (fst s, w')" "x = a" using g by (simp_all add: iob_get_handle_def)
  note w = w0 [unfolded this(2)] this(1)
  have "bufs (snd s) 0 = None" using buf_nonnull [OF inv, of 0] by (cases "bufs (snd s) 0") auto
  then have "0 \<notin> L" using fun_cong [OF L, of 0] by (simp add: refs_def split: if_splits)
  moreover have "a \<noteq> 0 \<Longrightarrow> a \<notin> L" using w(4) fun_cong [OF L, of a] by (simp split: if_splits)
  ultimately show "iob_holds s' (if a = 0 then L else insert a L) \<and> a \<notin> L"
    using w(2-5) L by (cases "a = 0") (force simp: iob_holds_def changes_ref_def)+
next
  fix s L a
  assume h: "iob_holds s L" and a: "a \<in> L"
  obtain p where inv: "iob_inv (fst s) p (snd s)" and L: "refs (snd s) = (\<lambda>x. if x \<in> L then 1 else 0)"
    using h by (auto simp: iob_holds_def)
  have "0 < refs (snd s) a" using L a by simp
  from iobuf_unref_inv [OF inv this] obtain w' p' where
    w: "iobuf_unref a (snd s) = Some w'" "iob_inv (fst s) p' w'" "changes_ref (snd s) w' a (-1)" by blast
  have "refs w' = (\<lambda>x. if x \<in> L - {a} then 1 else 0)"
    using w(3) L a by (simp add: changes_ref_def fun_eq_iff)
  then have "iob_holds (fst s, w') (L - {a})" using w(2) by (auto simp: iob_holds_def)
  moreover have "iob_put_handle a s = Some (fst s, w')" using w(1) by (simp add: iob_put_handle_def)
  ultimately show "\<exists>s'. iob_put_handle a s = Some s' \<and> iob_holds s' (L - {a})" by blast
qed

section \<open>Vectors of references\<close>

text \<open>
  Releasing the references of a vector, slot by slot.  \<open>k\<close> is what the slots from \<open>i\<close> on hold of each
  buffer.
\<close>

lemma iobref_clear_inv:
  assumes "iob_inv pool p w" and "brefs w v = Some q" and "length (iobrefs q) = i + n"
    and "\<And>x. x \<noteq> 0 \<Longrightarrow> int (count_list (drop i (iobrefs q)) x) \<le> refs w x"
  shows "\<exists>w' p' q'. iobref_clear n i v w = Some w' \<and> iob_inv pool p' w' \<and> same_sizes p p'
    \<and> (\<forall>x. x \<noteq> 0 \<longrightarrow> refs w' x = refs w x - int (count_list (drop i (iobrefs q)) x)) \<and> brefs w' = (brefs w)(v \<mapsto> q')"
  using assms
proof (induction n arbitrary: i w p q)
  case 0
  then show ?case by (intro exI [of _ w] exI [of _ p] exI [of _ q]) (simp add: fun_upd_idem)
next
  case (Suc n)
  let ?x = "iobrefs q ! i" and ?q = "q\<lparr>iobrefs := (iobrefs q)[i := 0]\<rparr>"
  let ?w1 = "put_bref v ?q w"
  have i: "i < length (iobrefs q)" using Suc.prems(3) by simp
  have split: "drop i (iobrefs q) = ?x # drop (Suc i) (iobrefs q)" by (rule Cons_nth_drop_Suc [OF i, symmetric])
  have inv1: "iob_inv pool p ?w1" using Suc.prems(1) by (simp add: iob_inv_def)
  have refs1: "refs ?w1 = refs w" by (simp add: refs_def fun_eq_iff)
  obtain w2 p2 where w2: "(if ?x \<noteq> 0 then iobuf_unref ?x ?w1 else Some ?w1) = Some w2" "iob_inv pool p2 w2" "same_sizes p p2"
      "\<And>y. y \<noteq> 0 \<Longrightarrow> refs w2 y = refs w y - (if y = ?x then 1 else 0)" "brefs w2 = (brefs w)(v \<mapsto> ?q)"
  proof (cases "?x = 0")
    case True then show ?thesis using that [of ?w1 p] inv1 refs1 by simp
  next
    case False
    then have "0 < refs ?w1 ?x" using Suc.prems(4) [of ?x] split refs1 by simp
    from iobuf_unref_inv [OF inv1 this] show ?thesis
      using that refs1 False by (fastforce simp: changes_ref_def)
  qed
  have v2: "brefs w2 v = Some ?q" "length (iobrefs ?q) = Suc i + n" using w2(5) Suc.prems(3) by simp_all
  have "int (count_list (drop (Suc i) (iobrefs ?q)) x) \<le> refs w2 x" if x: "x \<noteq> 0" for x
    using Suc.prems(4) [OF x] w2(4) [OF x] split by (cases "x = ?x") auto
  note IH = Suc.IH [OF w2(2) v2 this]
  have "drop (Suc i) (iobrefs ?q) = drop (Suc i) (iobrefs q)" by simp
  from IH [unfolded this] obtain w' p' q' where w': "iobref_clear n (Suc i) v w2 = Some w'" "iob_inv pool p' w'" "same_sizes p2 p'"
      "\<And>x. x \<noteq> 0 \<Longrightarrow> refs w' x = refs w2 x - int (count_list (drop (Suc i) (iobrefs q)) x)" "brefs w' = (brefs w2)(v \<mapsto> q')"
    by blast
  have "iobref_clear (Suc n) i v w = Some w'" using Suc.prems(2) w2(1) w'(1) by (simp add: Let_def)
  then show ?case using w' w2(4,5) split same_sizes_trans [OF w2(3) w'(3)]
    by (intro exI [of _ w'] exI [of _ p'] exI [of _ q']) auto
qed

text \<open>
  C25: dropping the last reference of a vector releases what it holds.  The call returns, the vector is
  freed, and every buffer loses exactly as many references as the vector has slots with it; buffers
  whose last reference this was go back to their arenas, where they can be handed out again.
\<close>

theorem iobref_unref_releases:
  assumes "iob_inv pool p w" and "v \<noteq> 0" and "brefs w v = Some q" and "iobref_refs q = 1" and "length (iobrefs q) = 8"
    and "\<forall>x. x \<noteq> 0 \<longrightarrow> int (count_list (iobrefs q) x) \<le> refs w x"
  shows "\<exists>w' p'. iobref_unref v w = Some w' \<and> iob_inv pool p' w' \<and> brefs w' = (brefs w)(v := None)
    \<and> (\<forall>x. x \<noteq> 0 \<longrightarrow> refs w' x = refs w x - int (count_list (iobrefs q) x))"
proof -
  let ?q = "q\<lparr>iobref_refs := 0\<rparr>"
  let ?w1 = "put_bref v ?q w"
  have inv1: "iob_inv pool p ?w1" using assms(1) by (simp add: iob_inv_def)
  have refs1: "refs ?w1 = refs w" by (simp add: refs_def fun_eq_iff)
  have "brefs ?w1 v = Some ?q" "length (iobrefs ?q) = 0 + 8" using assms(5) by simp_all
  from iobref_clear_inv [OF inv1 this] assms(6) refs1
  obtain w' p' q' where w': "iobref_clear 8 0 v ?w1 = Some w'" "iob_inv pool p' w'" "brefs w' = (brefs ?w1)(v \<mapsto> q')"
      "\<forall>x. x \<noteq> 0 \<longrightarrow> refs w' x = refs w x - int (count_list (iobrefs q) x)"
    by fastforce
  let ?w2 = "w'\<lparr>brefs := (brefs w')(v := None)\<rparr>"
  have "iobref_unref v w = Some ?w2"
    using assms(2-4) w'(1) by (simp add: iobref_unref_def iobref_destroy_def Let_def)
  moreover have "iob_inv pool p' ?w2" using w'(2) by (simp add: iob_inv_def)
  moreover have "refs ?w2 = refs w'" by (simp add: refs_def fun_eq_iff)
  ultimately show ?thesis using w'(3,4) by (intro exI [of _ ?w2] exI [of _ p']) simp
qed

lemma demo_held:
  "\<exists>w p x. iob_inv 1 p w \<and> x \<noteq> 0 \<and> refs w = (\<lambda>y. if y = x then 1 else 0)"
proof -
  obtain p where inv: "iob_inv 1 p demo_iobs" using iob_reach_inv [OF demo_iobs_reach] by blast
  note p = iob_invD(2) [OF inv]
  from iobuf_get_inv [OF inv demo_allocs_fresh [OF p]]
  obtain w x p' where "iob_inv 1 p' w"
    "x = 0 \<longrightarrow> w = demo_iobs \<and> \<not> alloc_succeeds no_allocs \<and> arenas p = [] \<and> purge p = []"
    "x \<noteq> 0 \<longrightarrow> refs demo_iobs x = 0 \<and> changes_ref demo_iobs w x 1"
    by (elim exE conjE)
  then have g: "iob_inv 1 p' w" "x = 0 \<longrightarrow> arenas p = []" "x \<noteq> 0 \<longrightarrow> changes_ref demo_iobs w x 1" by simp_all
  have "x \<noteq> 0" using g(2) p by (auto simp: demo_iobs_def)
  moreover have "refs demo_iobs = (\<lambda>y. 0)" by (simp add: refs_def demo_iobs_def fun_eq_iff)
  ultimately show ?thesis using g(1,3) by (intro exI [of _ w] exI [of _ p'] exI [of _ x]) (simp add: changes_ref_def fun_eq_iff)
qed

theorem iobref_unref_releases_witness:
  "\<exists>w w' x. refs w x = 1 \<and> iobref_unref 5 w = Some w' \<and> refs w' x = 0 \<and> brefs w' 5 = None"
proof -
  obtain w p x where w: "iob_inv 1 p w" "x \<noteq> 0" "refs w = (\<lambda>y. if y = x then 1 else 0)" using demo_held by blast
  let ?q = "\<lparr>iobref_refs = 1, iobrefs = x # replicate 7 0\<rparr>" and ?w = "put_bref 5 \<lparr>iobref_refs = 1, iobrefs = x # replicate 7 0\<rparr> w"
  have inv: "iob_inv 1 p ?w" using w(1) by (simp add: iob_inv_def)
  have refs: "refs ?w = (\<lambda>y. if y = x then 1 else 0)" using w(3) by (simp add: refs_def fun_eq_iff)
  have q: "brefs ?w 5 = Some ?q" by simp
  have cnt: "count_list (x # replicate 7 0) y = (if y = x then 1 else 0)" if "y \<noteq> 0" for y
    using that by (auto simp: numeral_eq_Suc)
  have "\<forall>y. y \<noteq> 0 \<longrightarrow> int (count_list (iobrefs ?q) y) \<le> refs ?w y" using cnt refs by simp
  from iobref_unref_releases [OF inv _ q _ _ this]
  obtain w' where w': "iobref_unref 5 ?w = Some w'" "brefs w' = (brefs ?w)(5 := None)"
      "\<forall>y. y \<noteq> 0 \<longrightarrow> refs w' y = refs ?w y - int (count_list (iobrefs ?q) y)" by fastforce
  have "refs w' x = 0" using w'(3) cnt [OF w(2)] refs w(2) by simp
  moreover have "refs ?w x = 1" using refs by simp
  ultimately show ?thesis using w'(1,2) by (intro exI [of _ ?w] exI [of _ w'] exI [of _ x]) simp
qed

text \<open>
  Adding a held buffer: the first free slot takes it and the buffer gains a reference; without a free
  slot nothing changes.
\<close>

lemma iobref_add_loop_spec:
  assumes "brefs w v = Some q" and "iobrefs q = us @ replicate k 0" and "0 \<notin> set us"
    and "i \<le> length us" and "i + n = length us + k"
  shows "iobref_add_loop n i v x w =
    (if k = 0 then Some (w, -ENOMEM)
     else map_option (\<lambda>(w', b). (put_bref v (q\<lparr>iobrefs := us @ b # replicate (k - 1) 0\<rparr>) w', 0)) (iobuf_ref x w))"
  using assms
proof (induction n arbitrary: i)
  case (Suc n)
  show ?case
  proof (cases "i = length us")
    case True
    then obtain m where k: "k = Suc m" using Suc.prems(5) by (cases k) auto
    have "iobrefs q ! i = 0" "(iobrefs q)[i := b] = us @ b # replicate m 0" for b
      using True k Suc.prems(2) by (simp_all add: nth_append list_update_append)
    then show ?thesis using Suc.prems(1) k by (auto simp: option.map_comp split: option.splits) (cases "iobuf_ref x w"; auto)+
  next
    case False
    then have "iobrefs q ! i \<in> set us" using Suc.prems(2,4) by (simp add: nth_append)
    then have "iobrefs q ! i \<noteq> 0" using Suc.prems(3) by metis
    then show ?thesis using Suc.IH [OF Suc.prems(1-3), of "Suc i"] Suc.prems(1,4,5) False by simp
  qed
qed simp

lemma put_bref_inv [simp]:
  "refs (put_bref v q w) = refs w" "iob_inv pool p (put_bref v q w) = iob_inv pool p w"
  by (simp_all add: refs_def fun_eq_iff iob_inv_def)

lemma iobref_add_spec:
  assumes inv: "iob_inv pool p w" and "v \<noteq> 0" and held: "0 < refs w x"
    and q: "brefs w v = Some q" "iobrefs q = us @ replicate k 0" "0 \<notin> set us" "length (iobrefs q) = 8"
  shows "k = 0 \<Longrightarrow> iobref_add v x w = Some (w, -ENOMEM)"
    and "k = Suc m \<Longrightarrow> \<exists>w'. iobref_add v x w = Some (w', 0) \<and> iob_inv pool p w' \<and> changes_ref w w' x 1
      \<and> brefs w' = (brefs w)(v \<mapsto> q\<lparr>iobrefs := (us @ [x]) @ replicate m 0\<rparr>)"
proof -
  obtain b where "bufs w x = Some b" using held by (auto simp: refs_def split: option.splits)
  then have x: "x \<noteq> 0" by (rule buf_nonnull [OF inv])
  have "iobref_add v x w = (if k = 0 then Some (w, -ENOMEM)
     else map_option (\<lambda>(w', b). (put_bref v (q\<lparr>iobrefs := us @ b # replicate (k - 1) 0\<rparr>) w', 0)) (iobuf_ref x w))"
    using iobref_add_loop_spec [OF q(1-3), of 0 8 x] q(2,4) x assms(2) by (simp add: iobref_add_def)
  moreover obtain w1 where "iobuf_ref x w = Some (w1, x)" "iob_inv pool p w1" "changes_ref w w1 x 1" "brefs w1 = brefs w"
    using iobuf_ref_inv [OF inv held] by blast
  ultimately show "k = 0 \<Longrightarrow> iobref_add v x w = Some (w, -ENOMEM)"
    and "k = Suc m \<Longrightarrow> \<exists>w'. iobref_add v x w = Some (w', 0) \<and> iob_inv pool p w' \<and> changes_ref w w' x 1
      \<and> brefs w' = (brefs w)(v \<mapsto> q\<lparr>iobrefs := (us @ [x]) @ replicate m 0\<rparr>)"
    by (auto simp: changes_ref_def)
qed

lemma iobref_merge_loop_spec:
  assumes "iob_inv pool p w" and "to \<noteq> from" and "to \<noteq> 0"
    and "brefs w from = Some qf" and "length (iobrefs qf) = i + n"
    and "brefs w to = Some qt" and "iobrefs qt = us @ replicate k 0" and "0 \<notin> set us" and "length (iobrefs qt) = 8"
    and "gs = takeWhile (\<lambda>x. x \<noteq> 0) (drop i (iobrefs qf))" and "\<And>x. x \<in> set gs \<Longrightarrow> 0 < refs w x"
  shows "\<exists>w'. iobref_merge_loop n i to from 0 w = Some (w', if length gs \<le> k then 0 else -ENOMEM) \<and> iob_inv pool p w'
    \<and> brefs w' = (brefs w)(to \<mapsto> qt\<lparr>iobrefs := us @ take k gs @ replicate (k - length gs) 0\<rparr>)
    \<and> refs w' = (\<lambda>x. refs w x + int (count_list (take k gs) x))"
  using assms
proof (induction n arbitrary: i w qt us k gs)
  case 0
  then show ?case by (intro exI [of _ w]) (auto simp: fun_upd_idem)
next
  case (Suc n)
  let ?x = "iobrefs qf ! i" and ?gs = "takeWhile (\<lambda>x. x \<noteq> 0) (drop (Suc i) (iobrefs qf))"
  have i: "i < length (iobrefs qf)" using Suc.prems(5) by simp
  have split: "drop i (iobrefs qf) = ?x # drop (Suc i) (iobrefs qf)" by (rule Cons_nth_drop_Suc [OF i, symmetric])
  show ?case
  proof (cases "?x = 0")
    case True
    then show ?thesis using Suc.prems(1,4,6,7,10) split by (intro exI [of _ w]) (auto simp: fun_upd_idem)
  next
    case False
    then have gs: "gs = ?x # ?gs" using Suc.prems(10) split by simp
    have held: "0 < refs w ?x" using Suc.prems(11) gs by simp
    note add = iobref_add_spec [OF Suc.prems(1,3) held Suc.prems(6-9)]
    show ?thesis
    proof (cases k)
      case 0
      then have "iobref_merge_loop (Suc n) i to from 0 w = Some (w, -ENOMEM)"
        using add(1) Suc.prems(2,4) False by simp
      then show ?thesis using 0 gs Suc.prems(1,6,7) by (intro exI [of _ w]) (auto simp: fun_upd_idem)
    next
      case (Suc m)
      obtain w1 where w1: "iobref_add to ?x w = Some (w1, 0)" "iob_inv pool p w1" "changes_ref w w1 ?x 1"
          "brefs w1 = (brefs w)(to \<mapsto> qt\<lparr>iobrefs := (us @ [?x]) @ replicate m 0\<rparr>)"
        using add(2) [OF Suc] by blast
      let ?qt = "qt\<lparr>iobrefs := (us @ [?x]) @ replicate m 0\<rparr>"
      have r1: "refs w1 = (refs w)(?x := refs w ?x + 1)" using w1(3) by (simp add: changes_ref_def)
      have "\<exists>w'. iobref_merge_loop n (Suc i) to from 0 w1 = Some (w', if length ?gs \<le> m then 0 else -ENOMEM)
          \<and> iob_inv pool p w' \<and> brefs w' = (brefs w1)(to \<mapsto> ?qt\<lparr>iobrefs := (us @ [?x]) @ take m ?gs @ replicate (m - length ?gs) 0\<rparr>)
          \<and> refs w' = (\<lambda>x. refs w1 x + int (count_list (take m ?gs) x))"
      proof (rule Suc.IH [OF w1(2) Suc.prems(2,3)])
        show "brefs w1 from = Some qf" using w1(4) Suc.prems(2,4) by simp
        show "0 < refs w1 x" if "x \<in> set ?gs" for x
          using Suc.prems(11) [of x] gs that r1 held by (cases "x = ?x") auto
      qed (use Suc.prems(5,7-9) w1(4) False Suc in auto)
      then obtain w' where w': "iobref_merge_loop n (Suc i) to from 0 w1 = Some (w', if length ?gs \<le> m then 0 else -ENOMEM)"
          "iob_inv pool p w'" "brefs w' = (brefs w1)(to \<mapsto> ?qt\<lparr>iobrefs := (us @ [?x]) @ take m ?gs @ replicate (m - length ?gs) 0\<rparr>)"
          "refs w' = (\<lambda>x. refs w1 x + int (count_list (take m ?gs) x))" by blast
      have "iobref_merge_loop (Suc n) i to from 0 w = Some (w', if length gs \<le> k then 0 else -ENOMEM)"
        using w1(1) w'(1) Suc.prems(2,4) False Suc gs by simp
      moreover have "brefs w' = (brefs w)(to \<mapsto> qt\<lparr>iobrefs := us @ take k gs @ replicate (k - length gs) 0\<rparr>)"
        using w'(3) w1(4) Suc gs by simp
      moreover have "refs w' = (\<lambda>x. refs w x + int (count_list (take k gs) x))"
        using w'(4) r1 Suc gs by (auto simp: fun_eq_iff)
      ultimately show ?thesis using w'(2) by blast
    qed
  qed
qed

text \<open>
  merging two vectors.  The buffers of \<open>from\<close> up to its first free slot are appended to those of
  \<open>to\<close> and gain one reference each; when \<open>to\<close> has too few free slots the ones that fit are added and the
  result is \<open>-ENOMEM\<close>.
\<close>

theorem iobref_merge_appends:
  assumes "iob_inv pool p w" and "to \<noteq> from" and "to \<noteq> 0" and "from \<noteq> 0"
    and "brefs w from = Some qf" and "length (iobrefs qf) = 8"
    and "brefs w to = Some qt" and "iobrefs qt = us @ replicate k 0" and "0 \<notin> set us" and "length (iobrefs qt) = 8"
    and "gs = takeWhile (\<lambda>x. x \<noteq> 0) (iobrefs qf)" and "\<forall>x \<in> set gs. 0 < refs w x"
  shows "\<exists>w'. iobref_merge to from w = Some (w', if length gs \<le> k then 0 else -ENOMEM) \<and> iob_inv pool p w'
    \<and> brefs w' = (brefs w)(to \<mapsto> qt\<lparr>iobrefs := us @ take k gs @ replicate (k - length gs) 0\<rparr>)
    \<and> refs w' = (\<lambda>x. refs w x + int (count_list (take k gs) x))"
  using iobref_merge_loop_spec [OF assms(1-3,5) _ assms(7-10), of 0 8 gs] assms(4,6,11,12)
  by (simp add: iobref_merge_def)

theorem iobref_merge_appends_witness:
  "\<exists>w w' x. refs w x = 1 \<and> iobref_merge 6 5 w = Some (w', 0) \<and> refs w' x = 2"
proof -
  obtain w p x where w: "iob_inv 1 p w" "x \<noteq> 0" "refs w = (\<lambda>y. if y = x then 1 else 0)" using demo_held by blast
  let ?qf = "\<lparr>iobref_refs = 1, iobrefs = x # replicate 7 0\<rparr>" and ?qt = "\<lparr>iobref_refs = 1, iobrefs = [] @ replicate 8 0\<rparr>"
  let ?w = "put_bref 6 ?qt (put_bref 5 ?qf w)"
  have gs: "[x] = takeWhile (\<lambda>x. x \<noteq> 0) (iobrefs ?qf)" using w(2) by (simp add: numeral_eq_Suc)
  have "iob_inv 1 p ?w" "\<forall>y \<in> set [x]. 0 < refs ?w y" using w by simp_all
  from iobref_merge_appends [OF this(1), of 6 5 ?qf ?qt "[]" 8, OF _ _ _ _ _ _ _ _ _ gs this(2)]
  obtain w' where "iobref_merge 6 5 ?w = Some (w', 0)" "refs w' = (\<lambda>y. refs ?w y + int (count_list [x] y))" by auto
  then show ?thesis using w(3) by (intro exI [of _ ?w] exI [of _ w'] exI [of _ x]) simp
qed

end
