(* ===== verification/Lz_Event.thy ===== *)
theory Lz_Event
  imports Lz_Prelude "HOL-Library.Monad_Syntax"
begin

text \<open>
  \<^verbatim>\<open>src/src/event.c\<close>, \<^verbatim>\<open>src/src/event.h\<close>: the registry of file descriptors and their handlers, with its two
  back ends \<^verbatim>\<open>poll\<close> and \<^verbatim>\<open>epoll\<close>.  The registry is an array of \<open>count\<close> cells of which the first
  \<open>used\<close> hold registrations; a cell that was allocated by \<^verbatim>\<open>realloc\<close> and never written is \<open>None\<close>.  The
  kernel's interest list is part of the state of the \<^verbatim>\<open>epoll\<close> back end: \<^verbatim>\<open>epoll_ctl\<close> fails as documented
  when a descriptor is added twice or is not there, and may fail for lack of resources (an argument).
  An access outside the array, to an unwritten cell or through a null pointer is the result \<open>None\<close>.
  Every function runs under the mutex of the pool and is one step.

  Both back ends implement one interface, the locale \<open>event_registry\<close>: a map from descriptors to the
  selected events, the handler and its data.
\<close>

section \<open>State\<close>

record ('h, 'd) event_reg =
  reg_fd :: int
  reg_events :: u32
  reg_data :: 'd
  reg_handler :: "'h option"

record ('h, 'd) event_pool =
  ep_count :: int
  ep_reg :: "('h, 'd) event_reg option list option"
  ep_used :: int
  ep_changed :: bool
  ep_evcache_size :: int
  ep_breaker :: "int \<times> int"
  ep_interest :: "int \<rightharpoonup> u32 \<times> int \<times> int"

text \<open>The bits of \<^verbatim>\<open>poll.h\<close>, which are those of \<^verbatim>\<open>epoll.h\<close> too.\<close>

abbreviation (input) POLLIN :: u32 where "POLLIN \<equiv> 1"
abbreviation (input) POLLPRI :: u32 where "POLLPRI \<equiv> 2"
abbreviation (input) POLLOUT :: u32 where "POLLOUT \<equiv> 4"
abbreviation (input) POLLERR :: u32 where "POLLERR \<equiv> 8"
abbreviation (input) POLLHUP :: u32 where "POLLHUP \<equiv> 16"
abbreviation (input) POLLNVAL :: u32 where "POLLNVAL \<equiv> 32"

section \<open>Access to the registry\<close>

text \<open>
  The handler of the pipe: it reads until less than a full buffer comes.  \<open>reads\<close> are the results of
  \<^verbatim>\<open>read\<close>; if they are used up the call has not returned.
\<close>

fun flush_loop :: "int list \<Rightarrow> int option" where
  "flush_loop [] = None"
| "flush_loop (r # reads) = (if r = 64 then flush_loop reads else Some r)"

definition flush_fd :: "int list \<Rightarrow> u32 \<Rightarrow> int option" where
  "flush_fd reads poll_in = (if poll_in = 0 then Some (-1) else flush_loop reads)"

definition reg_get :: "('h, 'd) event_pool \<Rightarrow> int \<Rightarrow> ('h, 'd) event_reg option" where
  "reg_get pool i =
     do {
       reg \<leftarrow> ep_reg pool;
       if i < 0 \<or> int (length reg) \<le> i then None else reg ! nat i
     }"

definition reg_put :: "int \<Rightarrow> ('h, 'd) event_reg \<Rightarrow> ('h, 'd) event_pool \<Rightarrow> ('h, 'd) event_pool option" where
  "reg_put i e pool =
     do {
       reg \<leftarrow> ep_reg pool;
       if i < 0 \<or> int (length reg) \<le> i then None
       else Some (pool\<lparr>ep_reg := Some (reg[nat i := Some e])\<rparr>)
     }"

fun event_scan :: "('h, 'd) event_pool \<Rightarrow> int \<Rightarrow> nat \<Rightarrow> int \<Rightarrow> int option" where
  "event_scan pool fd 0 i = Some (-1)"
| "event_scan pool fd (Suc n) i =
     do {
       e \<leftarrow> reg_get pool i;
       if reg_fd e = fd then Some i else event_scan pool fd n (i + 1)
     }"

definition event_getindex :: "('h, 'd) event_pool \<Rightarrow> int \<Rightarrow> int \<Rightarrow> int option" where
  "event_getindex pool fd idx =
     do {
       hit \<leftarrow> (if idx > -1 \<and> idx < ep_used pool
              then map_option (\<lambda>e. reg_fd e = fd) (reg_get pool idx) else Some False);
       if hit then Some idx else event_scan pool fd (nat (ep_used pool)) 0
     }"

text \<open>The two switch statements: 1 selects, 0 deselects, any other value leaves the bit alone.\<close>

definition select_bit :: "int \<Rightarrow> u32 \<Rightarrow> u32 \<Rightarrow> u32" where
  "select_bit v bits ev = (if v = 1 then ev OR bits else if v = 0 then ev AND NOT bits else ev)"

definition select_events :: "int \<Rightarrow> int \<Rightarrow> u32 \<Rightarrow> u32" where
  "select_events poll_in poll_out ev = select_bit poll_out POLLOUT (select_bit poll_in POLLIN ev)"

section \<open>The poll back end\<close>

text \<open>\<open>grown\<close> says whether \<^verbatim>\<open>realloc\<close> succeeds; its result is not tested here.\<close>

definition event_register_poll ::
  "bool \<Rightarrow> ('h, 'd) event_pool option \<Rightarrow> int \<Rightarrow> 'h option \<Rightarrow> 'd \<Rightarrow> int \<Rightarrow> int \<Rightarrow> (('h, 'd) event_pool option \<times> int) option" where
  "event_register_poll grown event_pool fd handler data poll_in poll_out =
     (case event_pool of
        None \<Rightarrow> Some (None, -1)
      | Some pool \<Rightarrow>
          do {
            let pool1 = (if ep_count pool = ep_used pool
                         then pool\<lparr>ep_count := ep_count pool + 256,
                                   ep_reg := (if grown then map_option (\<lambda>reg. reg @ replicate 256 None) (ep_reg pool) else None)\<rparr>
                         else pool);
            let idx = ep_used pool1;
            pool2 \<leftarrow> reg_put idx \<lparr>reg_fd = fd, reg_events = select_events poll_in poll_out POLLPRI,
                                  reg_data = data, reg_handler = handler\<rparr> (pool1\<lparr>ep_used := idx + 1\<rparr>);
            Some (Some (pool2\<lparr>ep_changed := True\<rparr>), idx)
          })"

definition event_unregister_poll ::
  "('h, 'd) event_pool option \<Rightarrow> int \<Rightarrow> int \<Rightarrow> (('h, 'd) event_pool option \<times> int) option" where
  "event_unregister_poll event_pool fd idx_hint =
     (case event_pool of
        None \<Rightarrow> Some (None, -1)
      | Some pool \<Rightarrow>
          do {
            idx \<leftarrow> event_getindex pool fd idx_hint;
            if idx = -1 then Some (Some pool, -1)
            else do {
              let pool1 = pool\<lparr>ep_used := ep_used pool - 1\<rparr>;
              e \<leftarrow> reg_get pool1 (ep_used pool1);
              pool2 \<leftarrow> reg_put idx e pool1;
              Some (Some (pool2\<lparr>ep_changed := True\<rparr>), idx)
            }
          })"

definition event_select_on_poll ::
  "('h, 'd) event_pool option \<Rightarrow> int \<Rightarrow> int \<Rightarrow> int \<Rightarrow> int \<Rightarrow> (('h, 'd) event_pool option \<times> int) option" where
  "event_select_on_poll event_pool fd idx_hint poll_in poll_out =
     (case event_pool of
        None \<Rightarrow> Some (None, -1)
      | Some pool \<Rightarrow>
          do {
            idx \<leftarrow> event_getindex pool fd idx_hint;
            if idx = -1 then Some (Some pool, -1)
            else do {
              e \<leftarrow> reg_get pool idx;
              pool1 \<leftarrow> reg_put idx (e\<lparr>reg_events := select_events poll_in poll_out (reg_events e)\<rparr>) pool;
              Some (Some (if poll_in + poll_out > -2 then pool1\<lparr>ep_changed := True\<rparr> else pool1), idx)
            }
          })"

text \<open>
  The results of the system calls of \<open>event_pool_new_poll\<close>: the two allocations, \<^verbatim>\<open>pipe\<close> with the
  descriptors it makes, and the two calls of \<^verbatim>\<open>fcntl\<close>.  The last component of the result are the
  descriptors that stay open.
\<close>

record pool_env =
  env_pool :: bool
  env_reg :: bool
  env_pipe :: "(int \<times> int) option"
  env_fcntl0 :: bool
  env_fcntl1 :: bool
  env_grown :: bool

definition zero_reg :: "'d \<Rightarrow> ('h, 'd) event_reg" where
  "zero_reg d = \<lparr>reg_fd = 0, reg_events = 0, reg_data = d, reg_handler = None\<rparr>"

definition new_pool :: "'d \<Rightarrow> int \<Rightarrow> ('h, 'd) event_pool" where
  "new_pool d count =
     \<lparr>ep_count = count, ep_reg = Some (replicate (nat count) (Some (zero_reg d))), ep_used = 0, ep_changed = False,
      ep_evcache_size = 0, ep_breaker = (0, 0), ep_interest = Map.empty\<rparr>"

definition event_pool_new_poll ::
  "pool_env \<Rightarrow> 'h \<Rightarrow> 'd \<Rightarrow> int \<Rightarrow> (('h, 'd) event_pool option \<times> int list) option" where
  "event_pool_new_poll env flush null_data count =
     (if \<not> env_pool env then Some (None, [])
      else if \<not> env_reg env then Some (None, [])
      else case env_pipe env of
        None \<Rightarrow> Some (None, [])
      | Some (r, s) \<Rightarrow>
          if \<not> env_fcntl0 env then Some (None, [])
          else if \<not> env_fcntl1 env then Some (None, [])
          else do {
            (pool, ret) \<leftarrow> event_register_poll (env_grown env)
              (Some ((new_pool null_data count)\<lparr>ep_breaker := (r, s)\<rparr>)) r (Some flush) null_data 1 0;
            if ret = -1 then Some (None, []) else Some (pool, [r, s])
          })"

text \<open>
  One round of \<open>event_dispatch_poll\<close>.  The registrations are copied to the array for \<^verbatim>\<open>poll\<close> when the
  registry has changed; note that \<open>changed\<close> is never reset.
\<close>

record pollfd =
  pf_fd :: int
  pf_events :: u32
  pf_revents :: u32

fun copy_regs :: "('h, 'd) event_pool \<Rightarrow> nat \<Rightarrow> int \<Rightarrow> pollfd list option" where
  "copy_regs pool 0 i = Some []"
| "copy_regs pool (Suc n) i =
     do {
       e \<leftarrow> reg_get pool i;
       ufds \<leftarrow> copy_regs pool n (i + 1);
       Some (\<lparr>pf_fd = reg_fd e, pf_events = reg_events e, pf_revents = 0\<rparr> # ufds)
     }"

text \<open>
  The cache is the list of its cells; \<open>None\<close> for it is a null pointer.  \<open>got\<close> is the result of \<^verbatim>\<open>CALLOC\<close>.
\<close>

definition event_dispatch_poll_resize ::
  "bool \<Rightarrow> ('h, 'd) event_pool \<Rightarrow> pollfd list option \<Rightarrow> int \<Rightarrow> (('h, 'd) event_pool \<times> pollfd list option \<times> int) option" where
  "event_dispatch_poll_resize got pool ufds sz =
     (if \<not> ep_changed pool then Some (pool, ufds, sz)
      else do {
        let (pool1, ufds1) =
          (if ep_evcache_size pool < ep_used pool
           then (pool\<lparr>ep_evcache_size := ep_used pool\<rparr>,
                 if got then Some (replicate (nat (ep_used pool)) \<lparr>pf_fd = 0, pf_events = 0, pf_revents = 0\<rparr>) else None)
           else (pool, ufds));
        regs \<leftarrow> copy_regs pool1 (nat (ep_used pool1)) 0;
        cells \<leftarrow> (if regs = [] then Some (case ufds1 of None \<Rightarrow> [] | Some us \<Rightarrow> us) else ufds1);
        if length cells < length regs then None
        else Some (pool1, (if regs = [] then ufds1 else Some (regs @ drop (length regs) cells)), int (length regs))
      })"

text \<open>A call of a handler: the handler, the descriptor, the index, the data and the three flags.\<close>

record ('h, 'd) handler_call =
  hc_handler :: 'h
  hc_fd :: int
  hc_idx :: int
  hc_data :: 'd
  hc_in :: u32
  hc_out :: u32
  hc_err :: u32

definition event_dispatch_poll_handler ::
  "('h, 'd) event_pool \<Rightarrow> pollfd list \<Rightarrow> int \<Rightarrow> ('h, 'd) handler_call option option" where
  "event_dispatch_poll_handler pool ufds i =
     do {
       let u = ufds ! nat i;
       idx \<leftarrow> event_getindex pool (pf_fd u) i;
       if idx = -1 then Some None
       else do {
         e \<leftarrow> reg_get pool idx;
         Some (map_option (\<lambda>h. \<lparr>hc_handler = h, hc_fd = pf_fd u, hc_idx = idx, hc_data = reg_data e,
                     hc_in = pf_revents u AND (POLLIN OR POLLPRI), hc_out = pf_revents u AND POLLOUT,
                     hc_err = pf_revents u AND (POLLERR OR POLLHUP OR POLLNVAL)\<rparr>) (reg_handler e))
       }
     }"

text \<open>
  The loop over the results.  A handler may call the functions of this file: \<open>run\<close> gives the pool after
  a call.
\<close>

fun poll_results ::
  "(('h, 'd) handler_call \<Rightarrow> ('h, 'd) event_pool \<Rightarrow> ('h, 'd) event_pool) \<Rightarrow> ('h, 'd) event_pool \<Rightarrow> pollfd list \<Rightarrow> nat \<Rightarrow> nat
   \<Rightarrow> (('h, 'd) event_pool \<times> ('h, 'd) handler_call list) option" where
  "poll_results run pool ufds 0 i = Some (pool, [])"
| "poll_results run pool ufds (Suc n) i =
     (if length ufds \<le> i then None
      else if pf_revents (ufds ! i) = 0 then poll_results run pool ufds n (Suc i)
      else do {
        call \<leftarrow> event_dispatch_poll_handler pool ufds (int i);
        (case call of
           None \<Rightarrow> poll_results run pool ufds n (Suc i)
         | Some c \<Rightarrow> map_option (\<lambda>(p, cs). (p, c # cs)) (poll_results run (run c pool) ufds n (Suc i)))
      })"

text \<open>
  What \<^verbatim>\<open>poll\<close> returns: the value, whether the error was \<^verbatim>\<open>EINTR\<close>, and the events it reports, which it
  writes into the cells.
\<close>

record poll_result =
  pr_ret :: int
  pr_eintr :: bool
  pr_revents :: "u32 list"

fun write_revents :: "u32 list \<Rightarrow> pollfd list \<Rightarrow> pollfd list" where
  "write_revents (ev # evs) (u # us) = u\<lparr>pf_revents := ev\<rparr> # write_revents evs us"
| "write_revents evs us = us"

definition event_dispatch_poll_round ::
  "(('h, 'd) handler_call \<Rightarrow> ('h, 'd) event_pool \<Rightarrow> ('h, 'd) event_pool) \<Rightarrow> bool \<Rightarrow> poll_result
   \<Rightarrow> ('h, 'd) event_pool \<Rightarrow> pollfd list option \<Rightarrow> int
   \<Rightarrow> (('h, 'd) event_pool \<times> pollfd list option \<times> int \<times> ('h, 'd) handler_call list) option" where
  "event_dispatch_poll_round run got res pool ufds0 sz0 =
     do {
       (pool1, ufds1, sz) \<leftarrow> event_dispatch_poll_resize got pool ufds0 sz0;
       if pr_ret res = 0 \<or> pr_ret res = -1 \<and> pr_eintr res then Some (pool1, ufds1, sz, [])
       else do {
         cells \<leftarrow> (if sz \<le> 0 then Some [] else ufds1);
         let cells' = (if pr_ret res = -1 then cells else write_revents (take (nat sz) (pr_revents res)) cells);
         (pool2, calls) \<leftarrow> poll_results run pool1 cells' (nat sz) 0;
         Some (pool2, (if sz \<le> 0 then ufds1 else Some cells'), sz, calls)
       }
     }"

section \<open>The epoll back end\<close>

datatype epoll_op = EPOLL_CTL_ADD | EPOLL_CTL_MOD | EPOLL_CTL_DEL

text \<open>
  The interest list maps a descriptor to the events and the user data, a descriptor and an index.  \<open>None\<close>
  is the result -1.
\<close>

definition epoll_ctl ::
  "bool \<Rightarrow> epoll_op \<Rightarrow> int \<Rightarrow> u32 \<times> int \<times> int \<Rightarrow> (int \<rightharpoonup> u32 \<times> int \<times> int) \<Rightarrow> (int \<rightharpoonup> u32 \<times> int \<times> int) option" where
  "epoll_ctl ok cmd fd ev interest =
     (if \<not> ok then None
      else case cmd of
        EPOLL_CTL_ADD \<Rightarrow> if interest fd = None then Some (interest(fd \<mapsto> ev)) else None
      | EPOLL_CTL_MOD \<Rightarrow> if interest fd = None then None else Some (interest(fd \<mapsto> ev))
      | EPOLL_CTL_DEL \<Rightarrow> if interest fd = None then None else Some (interest(fd := None)))"

definition event_pool_new_epoll ::
  "bool \<Rightarrow> bool \<Rightarrow> bool \<Rightarrow> 'd \<Rightarrow> int \<Rightarrow> ('h, 'd) event_pool option" where
  "event_pool_new_epoll got_pool got_reg created null_data count =
     (if \<not> got_pool then None
      else if \<not> got_reg then None
      else if \<not> created then None
      else Some (new_pool null_data count))"

definition event_register_epoll ::
  "bool \<Rightarrow> bool \<Rightarrow> ('h, 'd) event_pool option \<Rightarrow> int \<Rightarrow> 'h option \<Rightarrow> 'd \<Rightarrow> int \<Rightarrow> int
   \<Rightarrow> (('h, 'd) event_pool option \<times> int) option" where
  "event_register_epoll grown ok event_pool fd handler data poll_in poll_out =
     (case event_pool of
        None \<Rightarrow> Some (None, -1)
      | Some pool \<Rightarrow>
          let full = (ep_count pool = ep_used pool);
              pool1 = (if full
                       then pool\<lparr>ep_count := ep_count pool * 2,
                                 ep_reg := (if grown then map_option (\<lambda>reg. reg @ replicate (nat (ep_count pool)) None) (ep_reg pool)
                                            else None)\<rparr>
                       else pool)
          in if full \<and> \<not> grown then Some (Some pool1, -1)
             else do {
               let idx = ep_used pool1;
               let ev = select_events poll_in poll_out POLLPRI;
               pool2 \<leftarrow> reg_put idx \<lparr>reg_fd = fd, reg_events = ev, reg_data = data, reg_handler = handler\<rparr>
                         (pool1\<lparr>ep_used := idx + 1\<rparr>);
               let pool3 = pool2\<lparr>ep_changed := True\<rparr>;
               (case epoll_ctl ok EPOLL_CTL_ADD fd (ev, fd, idx) (ep_interest pool3) of
                  None \<Rightarrow> Some (Some pool3, -1)
                | Some ks \<Rightarrow> Some (Some (pool3\<lparr>ep_interest := ks\<rparr>), 0))
             })"

text \<open>\<open>ok1\<close> and \<open>ok2\<close> are for the two calls of \<^verbatim>\<open>epoll_ctl\<close>.\<close>

definition event_unregister_epoll ::
  "bool \<Rightarrow> bool \<Rightarrow> ('h, 'd) event_pool option \<Rightarrow> int \<Rightarrow> int \<Rightarrow> (('h, 'd) event_pool option \<times> int) option" where
  "event_unregister_epoll ok1 ok2 event_pool fd idx_hint =
     (case event_pool of
        None \<Rightarrow> Some (None, -1)
      | Some pool \<Rightarrow>
          do {
            idx \<leftarrow> event_getindex pool fd idx_hint;
            if idx = -1 then Some (Some pool, -1)
            else do {
              let del = epoll_ctl ok1 EPOLL_CTL_DEL fd (0, 0, 0) (ep_interest pool);
              e \<leftarrow> reg_get pool idx;
              pool1 \<leftarrow> reg_put idx (e\<lparr>reg_fd := -1\<rparr>) pool;
              (case del of
                 None \<Rightarrow> Some (Some pool1, -1)
               | Some ks \<Rightarrow>
                   let pool2 = pool1\<lparr>ep_interest := ks\<rparr>; lastidx = ep_used pool2 - 1
                   in if lastidx = idx then Some (Some (pool2\<lparr>ep_used := ep_used pool2 - 1\<rparr>), 0)
                      else do {
                        l \<leftarrow> reg_get pool2 lastidx;
                        (case epoll_ctl ok2 EPOLL_CTL_MOD (reg_fd l) (reg_events l, reg_fd l, idx) ks of
                           None \<Rightarrow> Some (Some pool2, -1)
                         | Some ks' \<Rightarrow>
                             map_option (\<lambda>p. (Some (p\<lparr>ep_used := ep_used p - 1\<rparr>), 0))
                               (reg_put idx l (pool2\<lparr>ep_interest := ks'\<rparr>)))
                      })
            }
          })"

definition event_select_on_epoll ::
  "bool \<Rightarrow> ('h, 'd) event_pool option \<Rightarrow> int \<Rightarrow> int \<Rightarrow> int \<Rightarrow> int \<Rightarrow> (('h, 'd) event_pool option \<times> int) option" where
  "event_select_on_epoll ok event_pool fd idx_hint poll_in poll_out =
     (case event_pool of
        None \<Rightarrow> Some (None, -1)
      | Some pool \<Rightarrow>
          do {
            idx \<leftarrow> event_getindex pool fd idx_hint;
            if idx = -1 then Some (Some pool, -1)
            else do {
              e \<leftarrow> reg_get pool idx;
              let ev = select_events poll_in poll_out (reg_events e);
              pool1 \<leftarrow> reg_put idx (e\<lparr>reg_events := ev\<rparr>) pool;
              (case epoll_ctl ok EPOLL_CTL_MOD fd (ev, fd, idx) (ep_interest pool1) of
                 None \<Rightarrow> Some (Some pool1, -1)
               | Some ks \<Rightarrow> Some (Some (pool1\<lparr>ep_interest := ks\<rparr>), 0))
            }
          })"

text \<open>An event that \<^verbatim>\<open>epoll_wait\<close> reports: the bits and the user data.\<close>

definition event_dispatch_epoll_handler ::
  "('h, 'd) event_pool \<Rightarrow> u32 \<times> int \<times> int \<Rightarrow> ('h, 'd) handler_call option option" where
  "event_dispatch_epoll_handler pool ev =
     (case ev of (bits, fd, hint) \<Rightarrow>
        do {
          idx \<leftarrow> event_getindex pool fd hint;
          if idx = -1 then Some None
          else do {
            e \<leftarrow> reg_get pool idx;
            Some (map_option (\<lambda>h. \<lparr>hc_handler = h, hc_fd = fd, hc_idx = hint, hc_data = reg_data e,
                        hc_in = bits AND (POLLIN OR POLLPRI), hc_out = bits AND POLLOUT,
                        hc_err = bits AND (POLLERR OR POLLHUP)\<rparr>) (reg_handler e))
          }
        })"

fun epoll_results ::
  "(('h, 'd) handler_call \<Rightarrow> ('h, 'd) event_pool \<Rightarrow> ('h, 'd) event_pool) \<Rightarrow> ('h, 'd) event_pool \<Rightarrow> (u32 \<times> int \<times> int) list
   \<Rightarrow> (('h, 'd) event_pool \<times> ('h, 'd) handler_call list) option" where
  "epoll_results run pool [] = Some (pool, [])"
| "epoll_results run pool (ev # evs) =
     (if fst ev = 0 then epoll_results run pool evs
      else do {
        call \<leftarrow> event_dispatch_epoll_handler pool ev;
        (case call of
           None \<Rightarrow> epoll_results run pool evs
         | Some c \<Rightarrow> map_option (\<lambda>(p, cs). (p, c # cs)) (epoll_results run (run c pool) evs))
      })"

text \<open>
  One round of \<open>event_dispatch_epoll\<close> with the events that \<^verbatim>\<open>epoll_wait\<close> reports, none when it is
  interrupted or fails; the kernel fills at most the cache.  With an empty registry the thread waits, and
  the round has no effect.
\<close>

definition event_dispatch_epoll_round ::
  "(('h, 'd) handler_call \<Rightarrow> ('h, 'd) event_pool \<Rightarrow> ('h, 'd) event_pool) \<Rightarrow> (u32 \<times> int \<times> int) list
   \<Rightarrow> ('h, 'd) event_pool \<Rightarrow> (('h, 'd) event_pool \<times> ('h, 'd) handler_call list) option" where
  "event_dispatch_epoll_round run evs pool =
     (if ep_used pool = 0 then Some (pool, [])
      else
        let pool1 = (if ep_evcache_size pool < ep_used pool then pool\<lparr>ep_evcache_size := ep_used pool + 256\<rparr> else pool)
        in epoll_results run pool1 (take (nat (ep_evcache_size pool1)) evs))"

section \<open>The interface functions\<close>

text \<open>The functions of \<open>event.h\<close> go to the \<^verbatim>\<open>epoll\<close> back end, the only one \<open>event_pool_new\<close> installs.\<close>

definition event_pool_new :: "bool \<Rightarrow> bool \<Rightarrow> bool \<Rightarrow> 'd \<Rightarrow> int \<Rightarrow> ('h, 'd) event_pool option" where
  "event_pool_new = event_pool_new_epoll"

definition event_register ::
  "bool \<Rightarrow> bool \<Rightarrow> ('h, 'd) event_pool option \<Rightarrow> int \<Rightarrow> 'h option \<Rightarrow> 'd \<Rightarrow> int \<Rightarrow> int
   \<Rightarrow> (('h, 'd) event_pool option \<times> int) option" where
  "event_register grown ok event_pool fd handler data poll_in poll_out =
     (if event_pool = None then Some (None, -1)
      else event_register_epoll grown ok event_pool fd handler data poll_in poll_out)"

definition event_unregister ::
  "bool \<Rightarrow> bool \<Rightarrow> ('h, 'd) event_pool option \<Rightarrow> int \<Rightarrow> int \<Rightarrow> (('h, 'd) event_pool option \<times> int) option" where
  "event_unregister ok1 ok2 event_pool fd idx =
     (if event_pool = None then Some (None, -1) else event_unregister_epoll ok1 ok2 event_pool fd idx)"

definition event_select_on ::
  "bool \<Rightarrow> ('h, 'd) event_pool option \<Rightarrow> int \<Rightarrow> int \<Rightarrow> int \<Rightarrow> int \<Rightarrow> (('h, 'd) event_pool option \<times> int) option" where
  "event_select_on ok event_pool fd idx_hint poll_in poll_out =
     (if event_pool = None then Some (None, -1)
      else event_select_on_epoll ok event_pool fd idx_hint poll_in poll_out)"

section \<open>The registrations of a pool\<close>

text \<open>The pool holds the registrations \<open>es\<close>, one for each descriptor, in the first cells of its array.\<close>

definition pool_is :: "('h, 'd) event_pool \<Rightarrow> ('h, 'd) event_reg list \<Rightarrow> bool" where
  "pool_is pool es \<longleftrightarrow>
     (\<exists>rest. ep_reg pool = Some (map Some es @ rest) \<and> ep_used pool = int (length es)
        \<and> ep_count pool = int (length es + length rest) \<and> 0 < ep_count pool \<and> distinct (map reg_fd es))"

definition reg_view :: "('h, 'd) event_reg list \<Rightarrow> int \<rightharpoonup> u32 \<times> 'h option \<times> 'd" where
  "reg_view es = map_of (map (\<lambda>e. (reg_fd e, (reg_events e, reg_handler e, reg_data e))) es)"

lemma reg_view_iff:
  "distinct (map reg_fd es) \<Longrightarrow>
     reg_view es fd = Some (ev, h, d) \<longleftrightarrow> (\<exists>e \<in> set es. reg_fd e = fd \<and> reg_events e = ev \<and> reg_handler e = h \<and> reg_data e = d)"
  by (auto simp: reg_view_def comp_def)

lemma reg_view_None: "reg_view es fd = None \<longleftrightarrow> fd \<notin> reg_fd ` set es"
  by (simp add: reg_view_def map_of_eq_None_iff image_image)

lemma pool_is_get:
  assumes "pool_is pool es" and "i < length es"
  shows "reg_get pool (int i) = Some (es ! i)"
  using assms by (auto simp: pool_is_def reg_get_def nth_append)

lemma pool_is_put:
  assumes "pool_is pool es" and "i < length es" and "distinct (map reg_fd (es[i := e]))"
  shows "\<exists>pool'. reg_put (int i) e pool = Some pool' \<and> pool_is pool' (es[i := e]) \<and> ep_interest pool' = ep_interest pool
    \<and> ep_used pool' = ep_used pool \<and> ep_changed pool' = ep_changed pool \<and> ep_evcache_size pool' = ep_evcache_size pool"
proof -
  obtain rest where r: "ep_reg pool = Some (map Some es @ rest)" "ep_used pool = int (length es)"
      "ep_count pool = int (length es + length rest)" "0 < ep_count pool"
    using assms(1) by (auto simp: pool_is_def)
  have "(map Some es @ rest)[i := Some e] = map Some (es[i := e]) @ rest"
    using assms(2) by (simp add: list_update_append map_update)
  then show ?thesis using r assms(2,3) by (simp add: reg_put_def pool_is_def)
qed

lemma event_scan_spec:
  assumes "pool_is pool es"
  shows "i + n = length es \<Longrightarrow>
    event_scan pool fd n (int i) = Some (case find (\<lambda>j. reg_fd (es ! j) = fd) [i..<length es] of None \<Rightarrow> -1 | Some j \<Rightarrow> int j)"
proof (induction n arbitrary: i)
  case (Suc n)
  have "i < length es" using Suc.prems by simp
  then have "[i..<length es] = i # [Suc i..<length es]" by (rule upt_conv_Cons)
  then show ?case using Suc.IH [of "Suc i"] Suc.prems pool_is_get [OF assms \<open>i < length es\<close>] by (simp add: add.commute)
qed simp

text \<open>The index of a descriptor does not depend on the hint.\<close>

lemma event_getindex_spec:
  assumes p: "pool_is pool es"
  shows "fd \<notin> reg_fd ` set es \<Longrightarrow> event_getindex pool fd hint = Some (-1)"
    and "\<lbrakk>i < length es; reg_fd (es ! i) = fd\<rbrakk> \<Longrightarrow> event_getindex pool fd hint = Some (int i)"
proof -
  have d: "distinct (map reg_fd es)" and used: "ep_used pool = int (length es)" using p by (auto simp: pool_is_def)
  have inj: "j = i" if "j < length es" "i < length es" "reg_fd (es ! j) = reg_fd (es ! i)" for i j
    using d that by (auto simp: distinct_conv_nth)
  have hint: "(if hint > -1 \<and> hint < ep_used pool then map_option (\<lambda>e. reg_fd e = fd) (reg_get pool hint) else Some False)
      = Some (hint > -1 \<and> hint < ep_used pool \<and> reg_fd (es ! nat hint) = fd)"
    using pool_is_get [OF p, of "nat hint"] used by auto
  note scan = event_scan_spec [OF p, of 0 "length es" fd]
  show "event_getindex pool fd hint = Some (-1)" if "fd \<notin> reg_fd ` set es"
  proof -
    have "reg_fd (es ! j) \<noteq> fd" if "j < length es" for j using that \<open>fd \<notin> reg_fd ` set es\<close> by auto
    moreover from this have "find (\<lambda>j. reg_fd (es ! j) = fd) [0..<length es] = None" by (auto simp: find_None_iff)
    ultimately show ?thesis using scan hint used by (auto simp: event_getindex_def)
  qed
  show "event_getindex pool fd hint = Some (int i)" if i: "i < length es" "reg_fd (es ! i) = fd"
  proof -
    have "find (\<lambda>j. reg_fd (es ! j) = fd) [0..<length es] = Some i \<longleftrightarrow> i \<in> set [0..<length es] \<and> reg_fd (es ! i) = fd"
      by (rule find_unique, rule inj) auto
    then have "find (\<lambda>j. reg_fd (es ! j) = fd) [0..<length es] = Some i" using i by simp
    then have s: "event_scan pool fd (nat (ep_used pool)) 0 = Some (int i)" using scan used by simp
    show ?thesis
    proof (cases "hint > -1 \<and> hint < ep_used pool \<and> reg_fd (es ! nat hint) = fd")
      case True
      then have "nat hint = i" using used i by (intro inj) auto
      then have "hint = int i" using True by linarith
      then show ?thesis unfolding event_getindex_def hint using True by simp
    next
      case False
      then have "(hint > -1 \<and> hint < ep_used pool \<and> reg_fd (es ! nat hint) = fd) = False" by blast
      then show ?thesis unfolding event_getindex_def hint using s by auto
    qed
  qed
qed

text \<open>Removing a registration by moving the last one to its place.\<close>

lemma butlast_move:
  assumes "i < length es" and "distinct (map f es)" and es': "es' = butlast (es[i := last es])"
  shows "set es' = set es - {es ! i}" and "length es' = length es - 1" and "distinct (map f es')"
    and "Suc i = length es \<Longrightarrow> es' = butlast es" and "Suc i < length es \<Longrightarrow> es' ! i = last es"
    and "\<lbrakk>j < length es'; j \<noteq> i\<rbrakk> \<Longrightarrow> es' ! j = es ! j"
proof -
  obtain xs e ys where e: "es = xs @ e # ys" "length xs = i"
    using id_take_nth_drop [OF assms(1)] assms(1) by (metis length_take min.absorb4)
  have d: "distinct es" using assms(2) by (simp add: distinct_map)
  show "set es' = set es - {es ! i}" "distinct (map f es')"
    using e d assms(2) by (cases ys rule: rev_cases; auto simp: es' butlast_append list_update_append)+
  show "length es' = length es - 1" by (simp add: es')
  show "Suc i = length es \<Longrightarrow> es' = butlast es" by (auto simp: es' butlast_list_update)
  show "Suc i < length es \<Longrightarrow> es' ! i = last es" by (simp add: es' nth_butlast)
  show "\<lbrakk>j < length es'; j \<noteq> i\<rbrakk> \<Longrightarrow> es' ! j = es ! j" by (simp add: es' nth_butlast)
qed

text \<open>The array grows when it is full, and the new registration goes to its first free cell.\<close>

lemma pool_is_append:
  assumes "pool_is pool es" and "reg_fd e \<notin> reg_fd ` set es" and "0 < k"
    and pool1: "pool1 = (if ep_count pool = ep_used pool
      then pool\<lparr>ep_count := ep_count pool + int k, ep_reg := map_option (\<lambda>reg. reg @ replicate k None) (ep_reg pool)\<rparr> else pool)"
  shows "\<exists>pool2. reg_put (ep_used pool1) e (pool1\<lparr>ep_used := ep_used pool1 + 1\<rparr>) = Some pool2
    \<and> pool_is pool2 (es @ [e]) \<and> ep_interest pool2 = ep_interest pool"
proof -
  obtain rest where r: "ep_reg pool = Some (map Some es @ rest)" "ep_used pool = int (length es)"
      "ep_count pool = int (length es + length rest)" "0 < ep_count pool" "distinct (map reg_fd es)"
    using assms(1) by (auto simp: pool_is_def)
  define rest1 where "rest1 = (if rest = [] then replicate k None else rest)"
  have ne: "rest1 \<noteq> []" using \<open>0 < k\<close> by (simp add: rest1_def)
  then obtain c rest2 where c: "rest1 = c # rest2" by (cases rest1) auto
  have p1: "ep_reg pool1 = Some (map Some es @ rest1)" "ep_used pool1 = int (length es)"
      "ep_count pool1 = int (length es + length rest1)" "ep_interest pool1 = ep_interest pool"
    using r by (auto simp: pool1 rest1_def)
  have "(map Some es @ rest1)[length es := Some e] = map Some (es @ [e]) @ rest2" by (simp add: list_update_append c)
  then show ?thesis using p1 r(5) assms(2) c by (simp add: reg_put_def pool_is_def)
qed

lemma reg_view_append:
  "reg_fd e \<notin> reg_fd ` set es \<Longrightarrow> reg_view (es @ [e]) = (reg_view es)(reg_fd e \<mapsto> (reg_events e, reg_handler e, reg_data e))"
proof -
  assume "reg_fd e \<notin> reg_fd ` set es"
  then have "reg_view es (reg_fd e) = None" by (simp add: reg_view_None)
  then show ?thesis by (auto simp: reg_view_def map_add_def split: option.splits)
qed

lemma reg_view_nth:
  "\<lbrakk>distinct (map reg_fd es); i < length es\<rbrakk> \<Longrightarrow>
     reg_view es (reg_fd (es ! i)) = Some (reg_events (es ! i), reg_handler (es ! i), reg_data (es ! i))"
  by (auto simp: reg_view_iff)

lemma reg_view_remove:
  assumes d: "distinct (map reg_fd es)" and i: "i < length es" and es': "es' = butlast (es[i := last es])"
  shows "reg_view es' = (reg_view es)(reg_fd (es ! i) := None)"
proof
  fix fd
  note m = butlast_move [OF i d es']
  have only: "e = es ! i" if "e \<in> set es" "reg_fd e = reg_fd (es ! i)" for e
    using d i that by (simp add: distinct_map inj_on_def)
  show "reg_view es' fd = ((reg_view es)(reg_fd (es ! i) := None)) fd"
  proof (cases "fd = reg_fd (es ! i)")
    case True
    then show ?thesis using only by (auto simp: reg_view_None m(1))
  next
    case False
    have "reg_view es' fd = Some x \<longleftrightarrow> reg_view es fd = Some x" for x
      using False by (cases x) (auto simp: reg_view_iff [OF d] reg_view_iff [OF m(3)] m(1))
    then show ?thesis using False by (metis fun_upd_other not_Some_eq)
  qed
qed

lemma reg_view_update:
  assumes d: "distinct (map reg_fd es)" and i: "i < length es"
  shows "reg_view (es[i := (es ! i)\<lparr>reg_events := ev\<rparr>])
    = (reg_view es)(reg_fd (es ! i) \<mapsto> (ev, reg_handler (es ! i), reg_data (es ! i)))"
proof
  fix fd
  let ?es = "es[i := (es ! i)\<lparr>reg_events := ev\<rparr>]"
  have fds: "map reg_fd ?es = map reg_fd es" using i by (simp add: map_update list_update_same_conv)
  then have d': "distinct (map reg_fd ?es)" using d by simp
  show "reg_view ?es fd = ((reg_view es)(reg_fd (es ! i) \<mapsto> (ev, reg_handler (es ! i), reg_data (es ! i)))) fd"
  proof (cases "fd \<in> set (map reg_fd es)")
    case True
    then obtain j where j: "j < length es" "fd = reg_fd (es ! j)" by (auto simp: in_set_conv_nth)
    then have "reg_fd (?es ! j) = fd" using i by (simp add: nth_list_update)
    then show ?thesis using reg_view_nth [OF d j(1)] reg_view_nth [OF d', of j] j i d
      by (cases "i = j") (auto simp: nth_list_update distinct_conv_nth)
  next
    case False
    then have "fd \<notin> set (map reg_fd ?es)" using fds by simp
    then have "fd \<notin> reg_fd ` set ?es" by simp
    then have "reg_view ?es fd = None" by (simp only: reg_view_None not_False_eq_True)
    moreover have "fd \<notin> reg_fd ` set es" using False by simp
    then have "reg_view es fd = None" by (simp only: reg_view_None not_False_eq_True)
    moreover have "fd \<noteq> reg_fd (es ! i)" using False i by auto
    ultimately show ?thesis by simp
  qed
qed

section \<open>The interface of a registry\<close>

text \<open>
  What the callers of \<open>event.h\<close> rely on: a map from descriptors to the selected events, the handler and
  its data.  A descriptor is registered once; indices are hints only.
\<close>

datatype ('h, 'd) event_cmd =
    Register int "'h option" 'd int int
  | Unregister int int
  | Select_On int int int int

type_synonym ('h, 'd) event_map = "int \<rightharpoonup> u32 \<times> 'h option \<times> 'd"

fun cmd_ok :: "('h, 'd) event_map \<Rightarrow> ('h, 'd) event_cmd \<Rightarrow> bool" where
  "cmd_ok m (Register fd h d i u) \<longleftrightarrow> m fd = None"
| "cmd_ok m c \<longleftrightarrow> True"

fun cmd_effect :: "('h, 'd) event_cmd \<Rightarrow> ('h, 'd) event_map \<Rightarrow> ('h, 'd) event_map" where
  "cmd_effect (Register fd h d i u) m = m(fd \<mapsto> (select_events i u POLLPRI, h, d))"
| "cmd_effect (Unregister fd hint) m = m(fd := None)"
| "cmd_effect (Select_On fd hint i u) m =
     (case m fd of None \<Rightarrow> m | Some (ev, h, d) \<Rightarrow> m(fd \<mapsto> (select_events i u ev, h, d)))"

fun cmd_found :: "('h, 'd) event_map \<Rightarrow> ('h, 'd) event_cmd \<Rightarrow> bool" where
  "cmd_found m (Register fd h d i u) \<longleftrightarrow> True"
| "cmd_found m (Unregister fd hint) \<longleftrightarrow> m fd \<noteq> None"
| "cmd_found m (Select_On fd hint i u) \<longleftrightarrow> m fd \<noteq> None"

fun cmds_ok :: "('h, 'd) event_cmd list \<Rightarrow> ('h, 'd) event_map \<Rightarrow> bool" where
  "cmds_ok [] m \<longleftrightarrow> True"
| "cmds_ok (c # cs) m \<longleftrightarrow> cmd_ok m c \<and> cmds_ok cs (cmd_effect c m)"

text \<open>The results of the commands: whether each one succeeds.\<close>

fun cmd_results :: "('h, 'd) event_cmd list \<Rightarrow> ('h, 'd) event_map \<Rightarrow> bool list" where
  "cmd_results [] m = []"
| "cmd_results (c # cs) m = cmd_found m c # cmd_results cs (cmd_effect c m)"

fun run_cmds :: "(('h, 'd) event_cmd \<Rightarrow> 'p \<Rightarrow> ('p \<times> int) option) \<Rightarrow> ('h, 'd) event_cmd list \<Rightarrow> 'p \<Rightarrow> ('p \<times> bool list) option" where
  "run_cmds exec [] p = Some (p, [])"
| "run_cmds exec (c # cs) p =
     do {
       (p1, ret) \<leftarrow> exec c p;
       (p2, rets) \<leftarrow> run_cmds exec cs p1;
       Some (p2, (ret \<noteq> -1) # rets)
     }"

locale event_registry =
  fixes valid :: "'p \<Rightarrow> bool" and view :: "'p \<Rightarrow> ('h, 'd) event_map"
    and exec :: "('h, 'd) event_cmd \<Rightarrow> 'p \<Rightarrow> ('p \<times> int) option"
    and target :: "'p \<Rightarrow> int \<Rightarrow> int \<Rightarrow> ('h option \<times> 'd) option option"
  assumes exec_law: "\<lbrakk>valid p; cmd_ok (view p) c\<rbrakk> \<Longrightarrow>
      \<exists>p' ret. exec c p = Some (p', ret) \<and> valid p' \<and> view p' = cmd_effect c (view p) \<and> (ret = -1 \<longleftrightarrow> \<not> cmd_found (view p) c)"
    and target_law: "valid p \<Longrightarrow> target p fd hint = Some (map_option snd (view p fd))"
begin

lemma run_law:
  "\<lbrakk>valid p; cmds_ok cs (view p)\<rbrakk> \<Longrightarrow>
     \<exists>p'. run_cmds exec cs p = Some (p', cmd_results cs (view p)) \<and> valid p' \<and> view p' = fold cmd_effect cs (view p)"
proof (induction cs arbitrary: p)
  case (Cons c cs)
  obtain p1 ret where p1: "exec c p = Some (p1, ret)" "valid p1" "view p1 = cmd_effect c (view p)"
      "ret = -1 \<longleftrightarrow> \<not> cmd_found (view p) c"
    using exec_law [of p c] Cons.prems by auto
  then show ?case using Cons.IH [of p1] Cons.prems by auto
qed simp

text \<open>After any commands an event for a descriptor goes to its registered handler, whatever the hint is.\<close>

lemma run_target:
  assumes "valid p" and "cmds_ok cs (view p)"
  shows "\<exists>p' rs. run_cmds exec cs p = Some (p', rs)
    \<and> (\<forall>fd hint. target p' fd hint = Some (map_option snd (fold cmd_effect cs (view p) fd)))"
  using run_law [OF assms] target_law by fastforce

end

text \<open>Two implementations give the same results.\<close>

locale event_registries = a: event_registry valid view exec target + b: event_registry valid' view' exec' target'
  for valid :: "'p \<Rightarrow> bool" and view :: "'p \<Rightarrow> ('h, 'd) event_map" and exec target
    and valid' :: "'q \<Rightarrow> bool" and view' :: "'q \<Rightarrow> ('h, 'd) event_map" and exec' target'
begin

lemma run_agree:
  assumes "valid p" "valid' q" "view p = view' q" "cmds_ok cs (view p)"
  shows "\<exists>p' q' rs. run_cmds exec cs p = Some (p', rs) \<and> run_cmds exec' cs q = Some (q', rs)
    \<and> view p' = view' q' \<and> (\<forall>fd hint hint'. target p' fd hint = target' q' fd hint')"
  using a.run_law [of p cs] b.run_law [of q cs] a.target_law b.target_law assms by fastforce

end

section \<open>Both back ends implement the interface\<close>

definition pool_regs :: "('h, 'd) event_pool \<Rightarrow> ('h, 'd) event_reg list" where
  "pool_regs pool = map the (take (nat (ep_used pool)) (the (ep_reg pool)))"

definition pool_valid :: "('h, 'd) event_pool \<Rightarrow> bool" where
  "pool_valid pool \<longleftrightarrow> pool_is pool (pool_regs pool)"

definition pool_view :: "('h, 'd) event_pool \<Rightarrow> ('h, 'd) event_map" where
  "pool_view pool = reg_view (pool_regs pool)"

text \<open>The kernel watches what the registry holds, and the index it reports is the right one.\<close>

definition kernel_ok :: "('h, 'd) event_pool \<Rightarrow> bool" where
  "kernel_ok pool \<longleftrightarrow>
     (\<forall>i < length (pool_regs pool).
        ep_interest pool (reg_fd (pool_regs pool ! i))
        = Some (reg_events (pool_regs pool ! i), reg_fd (pool_regs pool ! i), int i))
     \<and> (\<forall>fd. fd \<notin> reg_fd ` set (pool_regs pool) \<longrightarrow> ep_interest pool fd = None)"

lemma pool_is_regs: "pool_is pool es \<Longrightarrow> pool_regs pool = es"
  by (auto simp: pool_is_def pool_regs_def intro: nth_equalityI)

lemma pool_isI: "pool_is pool es \<Longrightarrow> pool_valid pool \<and> pool_view pool = reg_view es"
  by (simp add: pool_valid_def pool_view_def pool_is_regs)

lemma pool_validE:
  assumes "pool_valid pool"
  obtains es where "pool_is pool es" "pool_regs pool = es" "pool_view pool = reg_view es" "distinct (map reg_fd es)"
  using assms by (auto simp: pool_valid_def pool_view_def pool_is_def)

lemma pool_is_same:
  "pool_is pool es \<Longrightarrow> pool_is (pool\<lparr>ep_changed := b\<rparr>) es"
  "pool_is pool es \<Longrightarrow> pool_is (pool\<lparr>ep_interest := ks\<rparr>) es"
  "pool_is pool es \<Longrightarrow> pool_is (pool\<lparr>ep_evcache_size := n\<rparr>) es"
  by (simp_all add: pool_is_def)

lemma pool_is_new: "0 < count \<Longrightarrow> pool_is (new_pool d count) []"
  by (simp add: pool_is_def new_pool_def)

text \<open>The commands with enough memory.\<close>

fun exec_poll :: "('h, 'd) event_cmd \<Rightarrow> ('h, 'd) event_pool \<Rightarrow> (('h, 'd) event_pool \<times> int) option" where
  "exec_poll (Register fd h d i u) pool = map_option (map_prod the id) (event_register_poll True (Some pool) fd h d i u)"
| "exec_poll (Unregister fd hint) pool = map_option (map_prod the id) (event_unregister_poll (Some pool) fd hint)"
| "exec_poll (Select_On fd hint i u) pool = map_option (map_prod the id) (event_select_on_poll (Some pool) fd hint i u)"

fun exec_epoll :: "('h, 'd) event_cmd \<Rightarrow> ('h, 'd) event_pool \<Rightarrow> (('h, 'd) event_pool \<times> int) option" where
  "exec_epoll (Register fd h d i u) pool = map_option (map_prod the id) (event_register True True (Some pool) fd h d i u)"
| "exec_epoll (Unregister fd hint) pool = map_option (map_prod the id) (event_unregister True True (Some pool) fd hint)"
| "exec_epoll (Select_On fd hint i u) pool = map_option (map_prod the id) (event_select_on True (Some pool) fd hint i u)"

text \<open>The handler and the data that the dispatchers look up.\<close>

definition pool_target :: "('h, 'd) event_pool \<Rightarrow> int \<Rightarrow> int \<Rightarrow> ('h option \<times> 'd) option option" where
  "pool_target pool fd hint =
     do {
       idx \<leftarrow> event_getindex pool fd hint;
       if idx = -1 then Some None
       else map_option (\<lambda>e. Some (reg_handler e, reg_data e)) (reg_get pool idx)
     }"

lemma pool_target_spec:
  assumes "pool_valid pool"
  shows "pool_target pool fd hint = Some (map_option snd (pool_view pool fd))"
proof -
  obtain es where es: "pool_is pool es" "pool_view pool = reg_view es" "distinct (map reg_fd es)"
    using assms by (rule pool_validE)
  show ?thesis
  proof (cases "fd \<in> set (map reg_fd es)")
    case True
    then obtain i where i: "i < length es" "reg_fd (es ! i) = fd" by (auto simp: in_set_conv_nth)
    then show ?thesis
      using event_getindex_spec(2) [OF es(1) i, of hint] pool_is_get [OF es(1) i(1)] reg_view_nth [OF es(3) i(1)]
      by (simp add: pool_target_def es(2))
  next
    case False
    then show ?thesis using event_getindex_spec(1) [OF es(1), of fd hint] reg_view_None [of es fd]
      by (simp add: pool_target_def es(2))
  qed
qed

text \<open>Each operation of the poll back end.\<close>

lemma register_poll_spec:
  assumes "pool_is pool es" and "fd \<notin> reg_fd ` set es"
  shows "\<exists>pool'. event_register_poll True (Some pool) fd h d i u = Some (Some pool', int (length es))
    \<and> pool_is pool' (es @ [\<lparr>reg_fd = fd, reg_events = select_events i u POLLPRI, reg_data = d, reg_handler = h\<rparr>])"
proof -
  let ?e = "\<lparr>reg_fd = fd, reg_events = select_events i u POLLPRI, reg_data = d, reg_handler = h\<rparr>"
  define pool1 where "pool1 = (if ep_count pool = ep_used pool
      then pool\<lparr>ep_count := ep_count pool + int 256, ep_reg := map_option (\<lambda>reg. reg @ replicate 256 None) (ep_reg pool)\<rparr> else pool)"
  obtain pool2 where "reg_put (ep_used pool1) ?e (pool1\<lparr>ep_used := ep_used pool1 + 1\<rparr>) = Some pool2" "pool_is pool2 (es @ [?e])"
    using pool_is_append [OF assms(1) _ _ pool1_def, of ?e] assms(2) by auto
  moreover have "ep_used pool1 = int (length es)" using assms(1) by (auto simp: pool1_def pool_is_def)
  ultimately show ?thesis
    by (cases "ep_count pool = ep_used pool") (simp_all add: event_register_poll_def pool1_def pool_is_same(1))
qed

lemma pool_is_move:
  assumes p: "pool_is pool es" and i: "i < length es"
  shows "\<exists>pool'. reg_put (int i) (last es) pool = Some pool'
    \<and> pool_is (pool'\<lparr>ep_used := int (length es) - 1\<rparr>) (butlast (es[i := last es])) \<and> ep_used pool' = int (length es)"
proof -
  obtain rest where r: "ep_reg pool = Some (map Some es @ rest)" "ep_used pool = int (length es)"
      "ep_count pool = int (length es + length rest)" "0 < ep_count pool" "distinct (map reg_fd es)"
    using p by (auto simp: pool_is_def)
  let ?es = "es[i := last es]"
  have ne: "?es \<noteq> []" using i by auto
  have "(map Some es @ rest)[i := Some (last es)] = map Some ?es @ rest" using i by (simp add: list_update_append map_update)
  also have "\<dots> = map Some (butlast ?es) @ Some (last ?es) # rest"
    by (subst append_butlast_last_id [OF ne, symmetric]) (simp del: append_butlast_last_id)
  finally show ?thesis using r i butlast_move(3) [OF i r(5) refl]
    by (simp add: reg_put_def pool_is_def)
qed

lemma reg_upd_simps [simp]:
  "reg_get (pool\<lparr>ep_used := n\<rparr>) i = reg_get pool i"
  "reg_get (pool\<lparr>ep_interest := ks\<rparr>) i = reg_get pool i"
  "reg_put i e (pool\<lparr>ep_used := n\<rparr>) = map_option (\<lambda>p. p\<lparr>ep_used := n\<rparr>) (reg_put i e pool)"
  "reg_put i e (pool\<lparr>ep_interest := ks\<rparr>) = map_option (\<lambda>p. p\<lparr>ep_interest := ks\<rparr>) (reg_put i e pool)"
  by (auto simp: reg_get_def reg_put_def split: bind_splits)

lemma reg_put_SomeD:
  assumes "reg_put i e pool = Some pool1"
  shows "reg_put i e' pool1 = reg_put i e' pool" and "j \<noteq> i \<Longrightarrow> reg_get pool1 j = reg_get pool j"
    and "ep_used pool1 = ep_used pool" and "ep_interest pool1 = ep_interest pool"
    and "ep_count pool1 = ep_count pool" and "ep_changed pool1 = ep_changed pool"
  using assms by (auto simp: reg_get_def reg_put_def nth_list_update nat_eq_iff split: bind_splits if_splits)

lemma unregister_poll_spec:
  assumes p: "pool_is pool es" and i: "i < length es"
  shows "\<exists>pool'. event_unregister_poll (Some pool) (reg_fd (es ! i)) hint = Some (Some pool', int i)
    \<and> pool_is pool' (butlast (es[i := last es]))"
proof -
  have used: "ep_used pool = int (length es)" using p by (auto simp: pool_is_def)
  have get: "reg_get pool (int (length es) - 1) = Some (last es)"
    using pool_is_get [OF p, of "length es - 1"] i by (cases "es = []") (auto simp: last_conv_nth)
  obtain pool2 where "reg_put (int i) (last es) pool = Some pool2"
      "pool_is (pool2\<lparr>ep_used := int (length es) - 1\<rparr>) (butlast (es[i := last es]))"
    using pool_is_move [OF p i] by auto
  then show ?thesis using event_getindex_spec(2) [OF p i refl] get used
    by (simp add: event_unregister_poll_def pool_is_same(1))
qed

lemma distinct_reg_events:
  "\<lbrakk>distinct (map reg_fd es); i < length es\<rbrakk> \<Longrightarrow> distinct (map reg_fd (es[i := (es ! i)\<lparr>reg_events := ev\<rparr>]))"
  using list_update_id [of "map reg_fd es" i] by (simp add: map_update)

lemma select_on_poll_spec:
  assumes p: "pool_is pool es" and i: "i < length es"
  shows "\<exists>pool'. event_select_on_poll (Some pool) (reg_fd (es ! i)) hint pin pout = Some (Some pool', int i)
    \<and> pool_is pool' (es[i := (es ! i)\<lparr>reg_events := select_events pin pout (reg_events (es ! i))\<rparr>])"
proof -
  have "distinct (map reg_fd es)" using p by (auto simp: pool_is_def)
  from distinct_reg_events [OF this i] obtain pool' where
      "reg_put (int i) ((es ! i)\<lparr>reg_events := select_events pin pout (reg_events (es ! i))\<rparr>) pool = Some pool'"
      "pool_is pool' (es[i := (es ! i)\<lparr>reg_events := select_events pin pout (reg_events (es ! i))\<rparr>])"
    using pool_is_put [OF p i] by blast
  then show ?thesis using event_getindex_spec(2) [OF p i refl] pool_is_get [OF p i]
    by (simp add: event_select_on_poll_def pool_is_same(1))
qed

lemma fd_cases:
  assumes "pool_is pool es" obtains
    (absent) "fd \<notin> reg_fd ` set es" "event_getindex pool fd hint = Some (-1)" "reg_view es fd = None"
  | (at) i where "i < length es" "fd = reg_fd (es ! i)"
      "reg_view es fd = Some (reg_events (es ! i), reg_handler (es ! i), reg_data (es ! i))"
proof (cases "fd \<in> reg_fd ` set es")
  case True
  then obtain i where i: "i < length es" "fd = reg_fd (es ! i)" by (auto simp: in_set_conv_nth)
  then show ?thesis using at reg_view_nth [of es i] assms by (auto simp: pool_is_def)
next
  case False
  then show ?thesis using absent event_getindex_spec(1) [OF assms False] by (simp add: reg_view_None)
qed

lemma exec_poll_law:
  assumes v: "pool_valid pool" and ok: "cmd_ok (pool_view pool) c"
  shows "\<exists>pool' ret. exec_poll c pool = Some (pool', ret) \<and> pool_valid pool'
    \<and> pool_view pool' = cmd_effect c (pool_view pool) \<and> (ret = -1 \<longleftrightarrow> \<not> cmd_found (pool_view pool) c)"
proof -
  obtain es where p: "pool_is pool es" and view: "pool_view pool = reg_view es" and d: "distinct (map reg_fd es)"
    using v by (rule pool_validE)
  show ?thesis
  proof (cases c)
    case (Register fd h d i u)
    then have "fd \<notin> reg_fd ` set es" using ok by (simp add: view reg_view_None)
    from register_poll_spec [OF p this, of h d i u] reg_view_append [of _ es] this show ?thesis
      by (fastforce simp: Register view dest: pool_isI)
  next
    case (Unregister fd hint)
    show ?thesis using p
    proof (cases rule: fd_cases [where fd = fd and hint = hint])
      case absent
      then show ?thesis using v view by (simp add: Unregister event_unregister_poll_def fun_upd_idem)
    next
      case (at i)
      then show ?thesis using unregister_poll_spec [OF p at(1), of hint] reg_view_remove [OF d at(1) refl]
        by (fastforce simp: Unregister view dest: pool_isI)
    qed
  next
    case (Select_On fd hint pin pout)
    show ?thesis using p
    proof (cases rule: fd_cases [where fd = fd and hint = hint])
      case absent
      then show ?thesis using v view by (simp add: Select_On event_select_on_poll_def)
    next
      case (at i)
      then show ?thesis using select_on_poll_spec [OF p at(1), of hint pin pout] reg_view_update [OF d at(1)]
        by (fastforce simp: Select_On view dest: pool_isI)
    qed
  qed
qed

interpretation poll: event_registry pool_valid pool_view exec_poll pool_target
  by unfold_locales (erule (1) exec_poll_law, erule pool_target_spec)

text \<open>The interest list of the kernel, as a function of the registrations.\<close>

definition watched :: "(int \<rightharpoonup> u32 \<times> int \<times> int) \<Rightarrow> ('h, 'd) event_reg list \<Rightarrow> bool" where
  "watched ks es \<longleftrightarrow>
     (\<forall>i < length es. ks (reg_fd (es ! i)) = Some (reg_events (es ! i), reg_fd (es ! i), int i))
     \<and> (\<forall>fd. fd \<notin> reg_fd ` set es \<longrightarrow> ks fd = None)"

lemma kernel_ok_iff: "pool_is pool es \<Longrightarrow> kernel_ok pool \<longleftrightarrow> watched (ep_interest pool) es"
  by (simp add: kernel_ok_def watched_def pool_is_regs)

lemma watched_append:
  assumes "watched ks es" and "reg_fd e \<notin> reg_fd ` set es"
  shows "watched (ks(reg_fd e \<mapsto> (reg_events e, reg_fd e, int (length es)))) (es @ [e])"
  using assms by (force simp: watched_def nth_append less_Suc_eq)

lemma watched_update:
  assumes "watched ks es" and "distinct (map reg_fd es)" and i: "i < length es" and "reg_fd e = reg_fd (es ! i)"
  shows "watched (ks(reg_fd e \<mapsto> (reg_events e, reg_fd e, int i))) (es[i := e])"
proof -
  have ne: "j < length es \<Longrightarrow> j \<noteq> i \<Longrightarrow> reg_fd (es ! j) \<noteq> reg_fd e" for j
    using assms(2-4) by (auto simp: distinct_conv_nth)
  have "map reg_fd (es[i := e]) = map reg_fd es"
    using list_update_id [of "map reg_fd es" i] i assms(4) by (simp add: map_update)
  then have "reg_fd ` set (es[i := e]) = reg_fd ` set es" by (metis set_map)
  moreover have "reg_fd e \<in> reg_fd ` set es" using i assms(4) by auto
  ultimately show ?thesis using assms(1) ne i by (auto simp: watched_def nth_list_update)
qed

lemma watched_remove:
  assumes w: "watched ks es" and d: "distinct (map reg_fd es)" and i: "i < length es"
    and es': "es' = butlast (es[i := last es])"
    and ks': "ks' = (if Suc i = length es then ks(reg_fd (es ! i) := None)
      else (ks(reg_fd (es ! i) := None))(reg_fd (last es) \<mapsto> (reg_events (last es), reg_fd (last es), int i)))"
  shows "watched ks' es'"
proof -
  note m = butlast_move [OF i d es']
  have inj: "reg_fd (es ! j) = reg_fd (es ! k) \<longleftrightarrow> j = k" if "j < length es" "k < length es" for j k
    using d that by (auto simp: distinct_conv_nth)
  have last: "last es = es ! (length es - 1)" using i by (intro last_conv_nth) auto
  have "ks' (reg_fd (es' ! j)) = Some (reg_events (es' ! j), reg_fd (es' ! j), int j)" if j: "j < length es'" for j
  proof (cases "j = i")
    case True
    then have "Suc i < length es" using j m(2) by simp
    then show ?thesis using True m(5) by (simp add: ks')
  next
    case False
    have "j < length es" "j \<noteq> length es - 1" using j m(2) by simp_all
    then show ?thesis using w m(6) [OF j False] False i by (simp add: ks' last inj watched_def)
  qed
  moreover have "ks' fd = None" if "fd \<notin> reg_fd ` set es'" for fd
  proof -
    have "fd = reg_fd (es ! i) \<or> fd \<notin> reg_fd ` set es" using that by (auto simp: m(1))
    moreover have "fd \<noteq> reg_fd (last es)" if "Suc i \<noteq> length es"
    proof -
      have "Suc i < length es" using that i by simp
      then have "last es \<in> set es'" using m(2,5) by (metis Suc_lessE diff_Suc_1 nth_mem)
      then show ?thesis using \<open>fd \<notin> reg_fd ` set es'\<close> by auto
    qed
    ultimately show ?thesis using w by (auto simp: ks' watched_def)
  qed
  ultimately show ?thesis by (simp add: watched_def)
qed

lemma register_epoll_spec:
  assumes p: "pool_is pool es" and w: "watched (ep_interest pool) es" and fd: "fd \<notin> reg_fd ` set es"
  shows "\<exists>pool'. event_register True True (Some pool) fd h d i u = Some (Some pool', 0)
    \<and> pool_is pool' (es @ [\<lparr>reg_fd = fd, reg_events = select_events i u POLLPRI, reg_data = d, reg_handler = h\<rparr>])
    \<and> watched (ep_interest pool') (es @ [\<lparr>reg_fd = fd, reg_events = select_events i u POLLPRI, reg_data = d, reg_handler = h\<rparr>])"
proof -
  let ?e = "\<lparr>reg_fd = fd, reg_events = select_events i u POLLPRI, reg_data = d, reg_handler = h\<rparr>"
  have count: "0 < ep_count pool" using p by (auto simp: pool_is_def)
  define pool1 where "pool1 = (if ep_count pool = ep_used pool
      then pool\<lparr>ep_count := ep_count pool + int (nat (ep_count pool)),
                ep_reg := map_option (\<lambda>reg. reg @ replicate (nat (ep_count pool)) None) (ep_reg pool)\<rparr> else pool)"
  obtain pool2 where pool2: "reg_put (ep_used pool1) ?e (pool1\<lparr>ep_used := ep_used pool1 + 1\<rparr>) = Some pool2"
      "pool_is pool2 (es @ [?e])" "ep_interest pool2 = ep_interest pool"
    using pool_is_append [OF p _ _ pool1_def, of ?e] fd count by auto
  have used: "ep_used pool1 = int (length es)" using p by (auto simp: pool1_def pool_is_def)
  have "ep_interest pool fd = None" using w fd by (simp add: watched_def)
  then have "epoll_ctl True EPOLL_CTL_ADD fd (select_events i u POLLPRI, fd, ep_used pool1) (ep_interest pool2)
      = Some ((ep_interest pool)(fd \<mapsto> (select_events i u POLLPRI, fd, int (length es))))"
    using pool2(3) used by (simp add: epoll_ctl_def)
  moreover have "watched ((ep_interest pool)(fd \<mapsto> (select_events i u POLLPRI, fd, int (length es)))) (es @ [?e])"
    using watched_append [OF w, of ?e] fd by simp
  moreover have "ep_count pool * 2 = ep_count pool + int (nat (ep_count pool))" using count by simp
  ultimately show ?thesis using pool2(1,2) count
    by (cases "ep_count pool = ep_used pool")
      (simp_all add: event_register_def event_register_epoll_def pool1_def pool_is_same(1,2) Let_def mult.commute del: reg_upd_simps(3))
qed

lemma pool_is_drop:
  assumes p: "pool_is pool es" and i: "Suc i = length es" and put: "reg_put (int i) e pool = Some pool1"
  shows "pool_is (pool1\<lparr>ep_used := int i\<rparr>) (butlast es)"
proof -
  obtain rest where r: "ep_reg pool = Some (map Some es @ rest)" "ep_used pool = int (length es)"
      "ep_count pool = int (length es + length rest)" "0 < ep_count pool" "distinct (map reg_fd es)"
    using p by (auto simp: pool_is_def)
  obtain xs x where x: "es = xs @ [x]" using i by (cases es rule: rev_cases) auto
  have "(map Some es @ rest)[i := Some e] = map Some xs @ Some e # rest" using i by (simp add: x list_update_append)
  then show ?thesis using put r i by (auto simp: reg_put_def pool_is_def x)
qed

lemma unregister_epoll_spec:
  assumes p: "pool_is pool es" and w: "watched (ep_interest pool) es" and i: "i < length es"
    and es': "es' = butlast (es[i := last es])"
  shows "\<exists>pool'. event_unregister True True (Some pool) (reg_fd (es ! i)) hint = Some (Some pool', 0)
    \<and> pool_is pool' es' \<and> watched (ep_interest pool') es'"
proof -
  have used: "ep_used pool = int (length es)" and d: "distinct (map reg_fd es)" using p by (auto simp: pool_is_def)
  let ?e = "(es ! i)\<lparr>reg_fd := -1\<rparr>" and ?ks = "(ep_interest pool)(reg_fd (es ! i) := None)"
  have del: "epoll_ctl True EPOLL_CTL_DEL (reg_fd (es ! i)) (0, 0, 0) (ep_interest pool) = Some ?ks"
    using w i by (simp add: epoll_ctl_def watched_def)
  obtain reg where "ep_reg pool = Some reg" "i < length reg" using p i by (auto simp: pool_is_def)
  then obtain pool1 where pool1: "reg_put (int i) ?e pool = Some pool1" by (simp add: reg_put_def)
  note w' = watched_remove [OF w d i es' refl] and idx = event_getindex_spec(2) [OF p i refl, of hint]
  note defs = event_unregister_def event_unregister_epoll_def
  show ?thesis
  proof (cases "Suc i = length es")
    case True
    have "es' = butlast es" using True by (auto simp: es' butlast_list_update)
    then show ?thesis using True pool_is_drop [OF p True pool1] reg_put_SomeD(3,4) [OF pool1] w' used pool1 del idx pool_is_get [OF p i]
      by (simp add: defs pool_is_def flip: of_nat_Suc)
  next
    case False
    have get: "reg_get pool (int (length es) - 1) = Some (last es)"
      using pool_is_get [OF p, of "length es - 1"] i by (cases "es = []") (auto simp: last_conv_nth)
    have last: "int (length es) - 1 \<noteq> int i" using False by linarith
    have "last es = es ! (length es - 1)" "length es - 1 < length es" using i by (cases "es = []"; simp add: last_conv_nth)+
    then have "reg_fd (last es) \<noteq> reg_fd (es ! i)" "ep_interest pool (reg_fd (last es)) \<noteq> None"
      using d i False w by (auto simp: distinct_conv_nth watched_def)
    then have mod: "epoll_ctl True EPOLL_CTL_MOD (reg_fd (last es)) (reg_events (last es), reg_fd (last es), int i) ?ks
        = Some (?ks(reg_fd (last es) \<mapsto> (reg_events (last es), reg_fd (last es), int i)))"
      by (auto simp: epoll_ctl_def)
    obtain pool2 where "reg_put (int i) (last es) pool = Some pool2" "ep_used pool2 = int (length es)"
        "pool_is (pool2\<lparr>ep_used := int (length es) - 1\<rparr>) es'"
      using pool_is_move [OF p i] by (auto simp: es')
    moreover note reg_put_SomeD [OF pool1]
    ultimately show ?thesis using w' used pool1 del idx pool_is_get [OF p i] mod get last False
      by (simp add: defs pool_is_def)
  qed
qed

lemma select_on_epoll_spec:
  assumes p: "pool_is pool es" and w: "watched (ep_interest pool) es" and i: "i < length es"
    and es': "es' = es[i := (es ! i)\<lparr>reg_events := select_events pin pout (reg_events (es ! i))\<rparr>]"
  shows "\<exists>pool'. event_select_on True (Some pool) (reg_fd (es ! i)) hint pin pout = Some (Some pool', 0)
    \<and> pool_is pool' es' \<and> watched (ep_interest pool') es'"
proof -
  let ?e = "(es ! i)\<lparr>reg_events := select_events pin pout (reg_events (es ! i))\<rparr>"
  have d: "distinct (map reg_fd es)" using p by (auto simp: pool_is_def)
  obtain pool' where pool': "reg_put (int i) ?e pool = Some pool'" "pool_is pool' es'" "ep_interest pool' = ep_interest pool"
    using pool_is_put [OF p i distinct_reg_events [OF d i]] es' by blast
  moreover have "ep_interest pool (reg_fd (es ! i)) \<noteq> None" using w i by (simp add: watched_def)
  ultimately show ?thesis
    using event_getindex_spec(2) [OF p i refl] pool_is_get [OF p i] watched_update [OF w d i, of ?e]
    by (simp add: event_select_on_def event_select_on_epoll_def epoll_ctl_def pool_is_same(2) es')
qed

definition epoll_valid :: "('h, 'd) event_pool \<Rightarrow> bool" where
  "epoll_valid pool \<longleftrightarrow> pool_valid pool \<and> kernel_ok pool"

lemma epoll_validI: "\<lbrakk>pool_is pool es; watched (ep_interest pool) es\<rbrakk> \<Longrightarrow> epoll_valid pool \<and> pool_view pool = reg_view es"
  by (simp add: epoll_valid_def kernel_ok_iff pool_isI)

lemma exec_epoll_law:
  assumes v: "epoll_valid pool" and ok: "cmd_ok (pool_view pool) c"
  shows "\<exists>pool' ret. exec_epoll c pool = Some (pool', ret) \<and> epoll_valid pool'
    \<and> pool_view pool' = cmd_effect c (pool_view pool) \<and> (ret = -1 \<longleftrightarrow> \<not> cmd_found (pool_view pool) c)"
proof -
  obtain es where p: "pool_is pool es" and view: "pool_view pool = reg_view es" and d: "distinct (map reg_fd es)"
    using v by (auto simp: epoll_valid_def elim: pool_validE)
  have w: "watched (ep_interest pool) es" using v kernel_ok_iff [OF p] by (simp add: epoll_valid_def)
  show ?thesis
  proof (cases c)
    case (Register fd h d i u)
    then have "fd \<notin> reg_fd ` set es" using ok by (simp add: view reg_view_None)
    from register_epoll_spec [OF p w this, of h d i u] reg_view_append [of _ es] this show ?thesis
      by (fastforce simp: Register view dest: epoll_validI)
  next
    case (Unregister fd hint)
    show ?thesis using p
    proof (cases rule: fd_cases [where fd = fd and hint = hint])
      case absent
      then show ?thesis using v view
        by (simp add: Unregister event_unregister_def event_unregister_epoll_def fun_upd_idem)
    next
      case (at i)
      then show ?thesis using unregister_epoll_spec [OF p w at(1) refl, of hint] reg_view_remove [OF d at(1) refl]
        by (fastforce simp: Unregister view dest: epoll_validI)
    qed
  next
    case (Select_On fd hint pin pout)
    show ?thesis using p
    proof (cases rule: fd_cases [where fd = fd and hint = hint])
      case absent
      then show ?thesis using v view by (simp add: Select_On event_select_on_def event_select_on_epoll_def)
    next
      case (at i)
      then show ?thesis using select_on_epoll_spec [OF p w at(1) refl, of hint pin pout] reg_view_update [OF d at(1)]
        by (fastforce simp: Select_On view dest: epoll_validI)
    qed
  qed
qed

interpretation epoll: event_registry epoll_valid pool_view exec_epoll pool_target
  by unfold_locales (erule (1) exec_epoll_law, simp add: epoll_valid_def pool_target_spec)

interpretation epoll_poll: event_registries epoll_valid pool_view exec_epoll pool_target pool_valid pool_view exec_poll pool_target
  by unfold_locales

section \<open>What the callers get\<close>

lemma epoll_valid_new:
  assumes "0 < count" and pool: "pool = new_pool d count"
  shows "epoll_valid pool \<and> pool_view pool = Map.empty"
proof -
  have "watched (ep_interest pool) []" by (simp add: pool new_pool_def watched_def)
  moreover have "pool_is pool []" using pool_is_new [OF assms(1)] by (simp add: pool)
  ultimately show ?thesis using epoll_validI [of pool "[]"] by (simp add: reg_view_def)
qed

lemma dispatch_epoll_handler_target:
  "event_dispatch_epoll_handler pool (bits, fd, hint) =
     map_option (\<lambda>t. case t of
         Some (Some h, d) \<Rightarrow> Some \<lparr>hc_handler = h, hc_fd = fd, hc_idx = hint, hc_data = d, hc_in = bits AND (POLLIN OR POLLPRI),
           hc_out = bits AND POLLOUT, hc_err = bits AND (POLLERR OR POLLHUP)\<rparr>
       | _ \<Rightarrow> None) (pool_target pool fd hint)"
  unfolding event_dispatch_epoll_handler_def pool_target_def
  by (auto split: option.splits bind_splits if_splits)

text \<open>
  C26: A registry made by \<open>event_pool_new\<close> refines a map from descriptors to the selected events, the
  handler and its data: any sequence of calls of \<open>event_register\<close>, \<open>event_unregister\<close> and
  \<open>event_select_on\<close> with any index hints, in which no descriptor is registered twice, returns, reports success
  exactly when the descriptor is there, and leaves the registry with the map after the same commands;
  the kernel watches the same descriptors for the same events with the right indices, and a reported
  event is passed to the handler registered for its descriptor even if the index it carries is stale.
\<close>

theorem event_epoll_refines:
  assumes "event_pool_new True True True null count = Some pool" and "0 < count" and "cmds_ok cs Map.empty"
  shows "\<exists>pool'. run_cmds exec_epoll cs pool = Some (pool', cmd_results cs Map.empty)
    \<and> pool_view pool' = fold cmd_effect cs Map.empty \<and> kernel_ok pool'
    \<and> (\<forall>bits fd hint. event_dispatch_epoll_handler pool' (bits, fd, hint) =
         Some (case fold cmd_effect cs Map.empty fd of
             Some (ev, Some h, d) \<Rightarrow> Some \<lparr>hc_handler = h, hc_fd = fd, hc_idx = hint, hc_data = d,
               hc_in = bits AND 3, hc_out = bits AND 4, hc_err = bits AND 24\<rparr>
           | _ \<Rightarrow> None))"
proof -
  have pool: "epoll_valid pool" "pool_view pool = Map.empty"
    using assms(1,2) epoll_valid_new [of count pool null] by (auto simp: event_pool_new_def event_pool_new_epoll_def)
  obtain pool' where p': "run_cmds exec_epoll cs pool = Some (pool', cmd_results cs Map.empty)" "epoll_valid pool'"
      "pool_view pool' = fold cmd_effect cs Map.empty"
    using epoll.run_law [OF pool(1), of cs] pool(2) assms(3) by auto
  have "event_dispatch_epoll_handler pool' (bits, fd, hint) =
         Some (case fold cmd_effect cs Map.empty fd of
             Some (ev, Some h, d) \<Rightarrow> Some \<lparr>hc_handler = h, hc_fd = fd, hc_idx = hint, hc_data = d,
               hc_in = bits AND 3, hc_out = bits AND 4, hc_err = bits AND 24\<rparr>
           | _ \<Rightarrow> None)" for bits fd hint
    using epoll.target_law [OF p'(2), of fd hint]
    by (simp add: dispatch_epoll_handler_target p'(3) split: option.splits)
  then show ?thesis using p' by (auto simp: epoll_valid_def)
qed

theorem event_epoll_refines_witness:
  "\<exists>pool pool'. event_pool_new True True True () 1 = Some pool
    \<and> run_cmds exec_epoll [Register 5 (Some True) () 1 0, Register 6 (Some False) () 1 1, Unregister 5 7] pool
        = Some (pool', [True, True, True])
    \<and> pool_view pool' = [6 \<mapsto> (7, Some False, ())]"
proof -
  let ?cs = "[Register 5 (Some True) () 1 0, Register 6 (Some False) () 1 1, Unregister 5 7]"
  have "event_pool_new True True True () 1 = Some (new_pool () 1)"
    by (simp add: event_pool_new_def event_pool_new_epoll_def)
  moreover note event_epoll_refines [OF this _, of ?cs]
  moreover have "fold cmd_effect ?cs Map.empty = [6 \<mapsto> (7, Some False, ())]"
    by (auto simp: select_events_def select_bit_def)
  ultimately show ?thesis by auto
qed

lemma new_poll_view:
  assumes "event_pool_new_poll env flush null count = Some (Some pool, fds)" and "env_grown env" and "0 < count"
    and "env_pipe env = Some (r, s)"
  shows "pool_valid pool" and "pool_view pool = cmd_effect (Register r (Some flush) null 1 0) Map.empty"
proof -
  let ?e = "\<lparr>reg_fd = r, reg_events = select_events 1 0 POLLPRI, reg_data = null, reg_handler = Some flush\<rparr>"
  let ?pool = "(new_pool null count)\<lparr>ep_breaker := (r, s)\<rparr>"
  have "pool_is ?pool []" using assms(3) by (simp add: pool_is_def new_pool_def)
  from register_poll_spec [OF this, of r "Some flush" null 1 0] obtain pool1 where
      "event_register_poll True (Some ?pool) r (Some flush) null 1 0 = Some (Some pool1, 0)" "pool_is pool1 [?e]"
    by auto
  moreover from this have "pool1 = pool" using assms by (simp add: event_pool_new_poll_def split: if_splits)
  ultimately have "pool_is pool [?e]" by simp
  then show "pool_valid pool" "pool_view pool = cmd_effect (Register r (Some flush) null 1 0) Map.empty"
    by (simp_all add: pool_isI reg_view_def)
qed

text \<open>
  C27: The two back ends are interchangeable for commands that register no descriptor twice: the same commands
  have the same success or failure and leave registries with the same content, in which an event
  for a descriptor goes to the same handler.  The poll registry starts with its own pipe, which the
  epoll registry is given as an additional first command.  The counts are above 0, and \<^verbatim>\<open>realloc\<close> and \<^verbatim>\<open>epoll_ctl\<close> succeed.  With a double registration
  the back ends differ: the first accepts it, the second fails (\<open>event_register_epoll_stale\<close>).
\<close>

theorem event_backends_agree:
  assumes "event_pool_new_epoll True True True null count = Some p"
    and "event_pool_new_poll env flush null count' = Some (Some q, fds)"
    and "env_grown env" and "0 < count" and "0 < count'" and "env_pipe env = Some (r, s)"
    and "cmds_ok (Register r (Some flush) null 1 0 # cs) Map.empty"
  shows "\<exists>p' q' rs. run_cmds exec_epoll (Register r (Some flush) null 1 0 # cs) p = Some (p', True # rs)
    \<and> run_cmds exec_poll cs q = Some (q', rs) \<and> pool_view p' = pool_view q'
    \<and> (\<forall>fd hint hint'. pool_target p' fd hint = pool_target q' fd hint')"
proof -
  let ?c = "Register r (Some flush) null 1 0"
  have p: "epoll_valid p" "pool_view p = Map.empty"
    using assms(1,4) epoll_valid_new [of count p null] by (auto simp: event_pool_new_epoll_def)
  have q: "pool_valid q" "pool_view q = cmd_effect ?c Map.empty" using new_poll_view [OF assms(2,3,5,6)] by simp_all
  obtain p1 ret where p1: "exec_epoll ?c p = Some (p1, ret)" "epoll_valid p1" "pool_view p1 = cmd_effect ?c Map.empty" "ret \<noteq> -1"
    using epoll.exec_law [OF p(1), of ?c] p(2) by auto
  then have "pool_view p1 = pool_view q" "cmds_ok cs (pool_view p1)" using q(2) assms(7) by simp_all
  from epoll_poll.run_agree [OF p1(2) q(1) this] show ?thesis using p1 by auto
qed

theorem event_backends_agree_witness:
  "\<exists>p q p' q' rs. event_pool_new_epoll True True True () 1 = Some p
    \<and> event_pool_new_poll \<lparr>env_pool = True, env_reg = True, env_pipe = Some (3, 4), env_fcntl0 = True, env_fcntl1 = True, env_grown = True\<rparr>
        True () 1 = Some (Some q, [3, 4])
    \<and> run_cmds exec_epoll [Register 3 (Some True) () 1 0, Register 5 (Some False) () 0 1, Select_On 9 0 1 1, Unregister 3 1] p
        = Some (p', True # rs)
    \<and> run_cmds exec_poll [Register 5 (Some False) () 0 1, Select_On 9 0 1 1, Unregister 3 1] q = Some (q', rs)
    \<and> pool_view p' = pool_view q'"
proof -
  let ?env = "\<lparr>env_pool = True, env_reg = True, env_pipe = Some (3, 4), env_fcntl0 = True, env_fcntl1 = True, env_grown = True\<rparr>"
  obtain q where q: "event_pool_new_poll ?env True () 1 = Some (Some q, [3, 4])"
    by (simp add: event_pool_new_poll_def event_register_poll_def new_pool_def reg_put_def)
  have p: "event_pool_new_epoll True True True () 1 = Some (new_pool () 1)" by (simp add: event_pool_new_epoll_def)
  show ?thesis
    using event_backends_agree [OF p q, of 3 4 "[Register 5 (Some False) () 0 1, Select_On 9 0 1 1, Unregister 3 1]"] p q
    by auto
qed

section \<open>A round of the poll dispatcher\<close>

definition reg_pollfd :: "('h, 'd) event_reg \<Rightarrow> pollfd" where
  "reg_pollfd e = \<lparr>pf_fd = reg_fd e, pf_events = reg_events e, pf_revents = 0\<rparr>"

lemma copy_regs_spec:
  assumes "pool_is pool es"
  shows "i + n = length es \<Longrightarrow> copy_regs pool n (int i) = Some (map reg_pollfd (drop i es))"
proof (induction n arbitrary: i)
  case (Suc n)
  have "i < length es" using Suc.prems by simp
  then have "drop i es = es ! i # drop (Suc i) es" by (simp add: Cons_nth_drop_Suc)
  then show ?case using Suc.IH [of "Suc i"] Suc.prems pool_is_get [OF assms \<open>i < length es\<close>]
    by (simp add: add.commute reg_pollfd_def)
qed simp

text \<open>The calls for the registrations from index \<open>i\<close> on and the events reported for them.\<close>

fun poll_calls :: "nat \<Rightarrow> ('h, 'd) event_reg list \<Rightarrow> u32 list \<Rightarrow> ('h, 'd) handler_call list" where
  "poll_calls i (e # es) (ev # evs) =
     (case reg_handler e of
        Some h \<Rightarrow> if ev = 0 then [] else
          [\<lparr>hc_handler = h, hc_fd = reg_fd e, hc_idx = int i, hc_data = reg_data e,
            hc_in = ev AND 3, hc_out = ev AND 4, hc_err = ev AND 56\<rparr>]
      | None \<Rightarrow> []) @ poll_calls (Suc i) es evs"
| "poll_calls i es evs = []"

lemma write_revents_length [simp]: "length (write_revents evs us) = length us"
  by (induction evs us rule: write_revents.induct) auto

lemma write_revents_nth:
  "\<lbrakk>i < length us; i < length evs\<rbrakk> \<Longrightarrow> write_revents evs us ! i = (us ! i)\<lparr>pf_revents := evs ! i\<rparr>"
  by (induction evs us arbitrary: i rule: write_revents.induct) (auto simp: nth_Cons split: nat.splits)

lemma poll_results_spec:
  assumes p: "pool_is pool es" and len: "length evs = length es" "length es \<le> length ufds"
    and ufds: "\<And>i. i < length es \<Longrightarrow> pf_fd (ufds ! i) = reg_fd (es ! i) \<and> pf_revents (ufds ! i) = evs ! i"
  shows "i + n = length es \<Longrightarrow> poll_results (\<lambda>c q. q) pool ufds n i = Some (pool, poll_calls i (drop i es) (drop i evs))"
proof (induction n arbitrary: i)
  case (Suc n)
  have i: "i < length es" using Suc.prems by simp
  then have "drop i es = es ! i # drop (Suc i) es" "drop i evs = evs ! i # drop (Suc i) evs" "\<not> length ufds \<le> i"
    using len by (simp_all add: Cons_nth_drop_Suc)
  then show ?case
    using Suc.IH [of "Suc i"] Suc.prems ufds [OF i] event_getindex_spec(2) [OF p i refl, of "int i"] pool_is_get [OF p i]
    by (simp add: event_dispatch_poll_handler_def split: option.splits)
qed simp

text \<open>
  C28: A round of \<open>event_dispatch_poll\<close> on a registry that has changed passes every registered descriptor
  with its selected events to \<^verbatim>\<open>poll\<close>, enlarging the array for it when needed, and calls the handlers of exactly the
  registrations for which it reports events, once each, in the order of the registry and with the
  index of the registration, if the handlers do not change the registry.
\<close>

theorem event_dispatch_poll_round_calls:
  assumes p: "pool_valid pool" and "ep_changed pool" and "pool_regs pool \<noteq> []"
    and cells: "int (length cells) = ep_evcache_size pool"
    and res: "pr_ret res > 0" "length (pr_revents res) = length (pool_regs pool)"
  shows "\<exists>pool' ufds. event_dispatch_poll_round (\<lambda>c q. q) True res pool (Some cells) sz
      = Some (pool', Some ufds, int (length (pool_regs pool)), poll_calls 0 (pool_regs pool) (pr_revents res))
    \<and> pool_regs pool' = pool_regs pool
    \<and> map (\<lambda>u. (pf_fd u, pf_events u)) (take (length (pool_regs pool)) ufds) = map (\<lambda>e. (reg_fd e, reg_events e)) (pool_regs pool)"
proof -
  let ?es = "pool_regs pool" and ?n = "length (pool_regs pool)"
  have p0: "pool_is pool ?es" using p by (simp add: pool_valid_def)
  then have used: "ep_used pool = int ?n" by (auto simp: pool_is_def)
  define pool1 where "pool1 = (if ep_evcache_size pool < ep_used pool then pool\<lparr>ep_evcache_size := ep_used pool\<rparr> else pool)"
  define cells1 where "cells1 = (if ep_evcache_size pool < ep_used pool
    then replicate (nat (ep_used pool)) \<lparr>pf_fd = 0, pf_events = 0, pf_revents = 0\<rparr> else cells)"
  have is1: "pool_is pool1 ?es" using p0 by (simp add: pool1_def pool_is_same)
  have used1: "ep_used pool1 = int ?n" using used by (simp add: pool1_def)
  have len: "?n \<le> length cells1" using cells used by (auto simp: cells1_def)
  let ?us = "map reg_pollfd ?es @ drop ?n cells1"
  have "event_dispatch_poll_resize True pool (Some cells) sz = Some (pool1, Some ?us, int ?n)"
    using assms(2,3) copy_regs_spec [OF is1, of 0 ?n] len used1
    by (auto simp: event_dispatch_poll_resize_def pool1_def cells1_def split: if_splits)
  moreover have "poll_results (\<lambda>c q. q) pool1 (write_revents (pr_revents res) ?us) ?n 0
      = Some (pool1, poll_calls 0 (drop 0 ?es) (drop 0 (pr_revents res)))"
    using res(2) by (intro poll_results_spec [OF is1]) (auto simp: write_revents_nth nth_append reg_pollfd_def)
  moreover have "map (\<lambda>u. (pf_fd u, pf_events u)) (take ?n (write_revents (pr_revents res) ?us))
      = map (\<lambda>e. (reg_fd e, reg_events e)) ?es"
    using res(2) len by (intro nth_equalityI) (auto simp: write_revents_nth nth_append reg_pollfd_def)
  ultimately show ?thesis using res assms(3) pool_is_regs [OF is1]
    by (auto simp: event_dispatch_poll_round_def)
qed

theorem event_dispatch_poll_round_calls_witness:
  "\<exists>pool' ufds. event_dispatch_poll_round (\<lambda>c q. q) True \<lparr>pr_ret = 1, pr_eintr = False, pr_revents = [0, 1]\<rparr>
      \<lparr>ep_count = 2, ep_reg = Some [Some \<lparr>reg_fd = 5, reg_events = 3, reg_data = (), reg_handler = Some True\<rparr>,
                                   Some \<lparr>reg_fd = 6, reg_events = 3, reg_data = (), reg_handler = Some False\<rparr>],
       ep_used = 2, ep_changed = True, ep_evcache_size = 0, ep_breaker = (0, 0), ep_interest = Map.empty\<rparr> (Some []) 0
    = Some (pool', Some ufds, 2,
        [\<lparr>hc_handler = False, hc_fd = 6, hc_idx = 1, hc_data = (), hc_in = 1, hc_out = 0, hc_err = 0\<rparr>])"
proof -
  let ?pool = "\<lparr>ep_count = 2, ep_reg = Some [Some \<lparr>reg_fd = 5, reg_events = 3, reg_data = (), reg_handler = Some True\<rparr>,
                                   Some \<lparr>reg_fd = 6, reg_events = 3, reg_data = (), reg_handler = Some False\<rparr>],
       ep_used = 2, ep_changed = True, ep_evcache_size = 0, ep_breaker = (0, 0), ep_interest = Map.empty\<rparr>"
  have regs: "pool_regs ?pool = [\<lparr>reg_fd = 5, reg_events = 3, reg_data = (), reg_handler = Some True\<rparr>,
                                \<lparr>reg_fd = 6, reg_events = 3, reg_data = (), reg_handler = Some False\<rparr>]"
    by (simp add: pool_regs_def)
  moreover have "pool_valid ?pool" by (simp add: pool_valid_def pool_is_def regs)
  ultimately show ?thesis
    using event_dispatch_poll_round_calls [of ?pool "[]" "\<lparr>pr_ret = 1, pr_eintr = False, pr_revents = [0, 1]\<rparr>" 0] by auto
qed

section \<open>Failures\<close>

text \<open>A registry of size 0 never grows, and the first registration is outside the array.\<close>

lemma event_register_epoll_zero:
  "event_pool_new True True True null 0 = Some pool \<Longrightarrow> event_register True ok (Some pool) fd h d i u = None"
  by (auto simp: event_pool_new_def event_pool_new_epoll_def event_register_def event_register_epoll_def new_pool_def reg_put_def)

text \<open>A failed reallocation loses the array, with its registrations still counted: the next look-up fails.\<close>

lemma event_register_epoll_lost:
  assumes "pool_is pool es" and "ep_count pool = ep_used pool"
  shows "\<exists>pool'. event_register False ok (Some pool) fd h d i u = Some (Some pool', -1)
    \<and> ep_used pool' = ep_used pool \<and> event_unregister ok1 ok2 (Some pool') fd' hint = None"
proof -
  have "0 < ep_used pool" using assms by (auto simp: pool_is_def)
  moreover obtain k where "nat (ep_used pool) = Suc k" using \<open>0 < ep_used pool\<close> by (cases "nat (ep_used pool)") auto
  ultimately show ?thesis using assms(2)
    by (auto simp: event_register_def event_register_epoll_def event_unregister_def event_unregister_epoll_def
        event_getindex_def reg_get_def)
qed

text \<open>
  A registration the kernel refuses, for instance of a descriptor that is registered already, reports
  failure but stays in the registry.
\<close>

lemma event_register_epoll_stale:
  assumes "pool_is pool es" and "ep_used pool < ep_count pool" and "\<not> ok \<or> ep_interest pool fd \<noteq> None"
  shows "\<exists>pool'. event_register True ok (Some pool) fd h d i u = Some (Some pool', -1)
    \<and> pool_regs pool' = es @ [\<lparr>reg_fd = fd, reg_events = select_events i u POLLPRI, reg_data = d, reg_handler = h\<rparr>]
    \<and> ep_interest pool' = ep_interest pool"
proof -
  let ?e = "\<lparr>reg_fd = fd, reg_events = select_events i u POLLPRI, reg_data = d, reg_handler = h\<rparr>"
  obtain rest where r: "ep_reg pool = Some (map Some es @ rest)" "ep_used pool = int (length es)"
      "ep_count pool = int (length es + length rest)"
    using assms(1) by (auto simp: pool_is_def)
  then obtain c rest' where c: "rest = c # rest'" using assms(2) by (cases rest) auto
  have "(map Some es @ rest)[length es := Some ?e] = map Some (es @ [?e]) @ rest'" by (simp add: list_update_append c)
  moreover have "nat (int (length es) + 1) = length (map Some (es @ [?e]))" by simp
  moreover have "epoll_ctl ok EPOLL_CTL_ADD fd ev (ep_interest pool) = None" for ev
    using assms(3) by (auto simp: epoll_ctl_def)
  ultimately show ?thesis using r c assms(2)
    by (simp add: event_register_def event_register_epoll_def reg_put_def pool_regs_def comp_def)
qed

text \<open>Selecting events keeps a registry well formed also when the kernel refuses.\<close>

lemma event_select_on_valid:
  assumes "pool_valid pool"
  shows "\<exists>pool' ret. event_select_on ok (Some pool) fd hint pin pout = Some (Some pool', ret) \<and> pool_valid pool'"
proof -
  obtain es where p: "pool_is pool es" and d: "distinct (map reg_fd es)" using assms by (rule pool_validE)
  show ?thesis using p
  proof (cases rule: fd_cases [where fd = fd and hint = hint])
    case absent
    then show ?thesis using assms by (simp add: event_select_on_def event_select_on_epoll_def)
  next
    case (at i)
    let ?e = "(es ! i)\<lparr>reg_events := select_events pin pout (reg_events (es ! i))\<rparr>"
    obtain pool' where "reg_put (int i) ?e pool = Some pool'" "pool_is pool' (es[i := ?e])"
      using pool_is_put [OF p at(1) distinct_reg_events [OF d at(1)]] by blast
    moreover from this have "pool_valid pool'" "pool_valid (pool'\<lparr>ep_interest := ks\<rparr>)" for ks
      using pool_isI pool_is_same(2) by blast+
    ultimately show ?thesis using event_getindex_spec(2) [OF p at(1)] pool_is_get [OF p at(1)] at(2)
      by (auto simp: event_select_on_def event_select_on_epoll_def Let_def split: option.splits)
  qed
qed

end
