(* ===== verification/Lz_Sock_Io.thy ===== *)
theory Lz_Sock_Io
  imports Lz_Prelude "HOL-Library.Monad_Syntax"
begin

text \<open>
  \<^verbatim>\<open>src/src/socket.c\<close>, the vectored input and output: \<^verbatim>\<open>__socket_rwv\<close>, \<^verbatim>\<open>__socket_readv\<close> and \<^verbatim>\<open>__socket_writev\<close>.  Memory
  is a map from the addresses of allocated bytes to their contents; a scatter element is a base address
  and a length.  The kernel side of the connection is the bytes that have arrived and are not yet read and the bytes
  that it has accepted for sending.  What the kernel does in each system call is a step of a schedule:
  how many bytes it moves at most, or which error it reports.  A loop that has used up its schedule
  has not returned (\<open>None\<close>); a read or write outside the array of elements or outside allocated memory is
  undefined (\<open>None\<close>).  The lemmas show that whatever the schedule does, exactly the bytes moved are consumed from the
  elements, in order, and the rest is left pending.
\<close>

section \<open>Memory and scatter lists\<close>

type_synonym byte_mem = "addr \<rightharpoonup> u8"

record siov =
  sv_base :: addr
  sv_len :: nat

fun mem_load :: "byte_mem \<Rightarrow> addr \<Rightarrow> nat \<Rightarrow> u8 list option" where
  "mem_load m a 0 = Some []"
| "mem_load m a (Suc n) =
     do {
       b \<leftarrow> m a;
       bs \<leftarrow> mem_load m (a + 1) n;
       Some (b # bs)
     }"

fun mem_store :: "addr \<Rightarrow> u8 list \<Rightarrow> byte_mem \<Rightarrow> byte_mem option" where
  "mem_store a [] m = Some m"
| "mem_store a (b # bs) m = (if m a = None then None else mem_store (a + 1) bs (m(a \<mapsto> b)))"

fun sv_total :: "siov list \<Rightarrow> nat" where
  "sv_total [] = 0"
| "sv_total (v # vs) = sv_len v + sv_total vs"

fun sv_load :: "byte_mem \<Rightarrow> siov list \<Rightarrow> u8 list option" where
  "sv_load m [] = Some []"
| "sv_load m (v # vs) =
     do {
       bs \<leftarrow> mem_load m (sv_base v) (sv_len v);
       cs \<leftarrow> sv_load m vs;
       Some (bs @ cs)
     }"

fun sv_store :: "siov list \<Rightarrow> u8 list \<Rightarrow> byte_mem \<Rightarrow> byte_mem option" where
  "sv_store [] bs m = Some m"
| "sv_store (v # vs) bs m =
     do {
       m1 \<leftarrow> mem_store (sv_base v) (take (sv_len v) bs) m;
       sv_store vs (drop (sv_len v) bs) m1
     }"

section \<open>The system calls\<close>

record sock_io =
  io_mem :: byte_mem
  io_rx :: "u8 list"
  io_tx :: "u8 list"

datatype io_step = Io_Move nat | Io_Zero | Io_Again | Io_Intr | Io_Fail

datatype io_ret = Io_Ret nat | Errno_Again | Errno_Intr | Errno_Other

text \<open>The first element that is not empty has a null base: \<^verbatim>\<open>EFAULT\<close>.\<close>

fun null_first :: "siov list \<Rightarrow> bool" where
  "null_first [] \<longleftrightarrow> False"
| "null_first (v # vs) \<longleftrightarrow> (if sv_len v = 0 then null_first vs else sv_base v = 0)"

definition sys_readv :: "io_step \<Rightarrow> siov list \<Rightarrow> int \<Rightarrow> sock_io \<Rightarrow> (io_ret \<times> sock_io) option" where
  "sys_readv s vs n io =
     (if n < 0 then Some (Errno_Other, io)
      else if length vs < nat n then None
      else if null_first (take (nat n) vs) then Some (Errno_Other, io)
      else case s of
        Io_Move k \<Rightarrow>
          let k1 = min k (min (sv_total (take (nat n) vs)) (length (io_rx io)))
          in if k1 = 0 then Some (Errno_Again, io)
             else do {
               m \<leftarrow> sv_store (take (nat n) vs) (take k1 (io_rx io)) (io_mem io);
               Some (Io_Ret k1, io\<lparr>io_mem := m, io_rx := drop k1 (io_rx io)\<rparr>)
             }
      | Io_Zero \<Rightarrow> Some (Io_Ret 0, io)
      | Io_Again \<Rightarrow> Some (Errno_Again, io)
      | Io_Intr \<Rightarrow> Some (Errno_Intr, io)
      | Io_Fail \<Rightarrow> Some (Errno_Other, io))"

definition sys_writev :: "io_step \<Rightarrow> siov list \<Rightarrow> int \<Rightarrow> sock_io \<Rightarrow> (io_ret \<times> sock_io) option" where
  "sys_writev s vs n io =
     (if n < 0 then Some (Errno_Other, io)
      else if length vs < nat n then None
      else if null_first (take (nat n) vs) then Some (Errno_Other, io)
      else case s of
        Io_Move k \<Rightarrow>
          do {
            bs \<leftarrow> sv_load (io_mem io) (take (nat n) vs);
            let k1 = min k (length bs);
            Some (Io_Ret k1, io\<lparr>io_tx := io_tx io @ take k1 bs\<rparr>)
          }
      | Io_Zero \<Rightarrow> Some (Io_Ret 0, io)
      | Io_Again \<Rightarrow> Some (Errno_Again, io)
      | Io_Intr \<Rightarrow> Some (Errno_Intr, io)
      | Io_Fail \<Rightarrow> Some (Errno_Other, io))"

section \<open>The loop\<close>

text \<open>\<^verbatim>\<open>opvector\<close> is the rest of the array, \<^verbatim>\<open>opcount\<close> the count; \<open>rest\<close> stands for \<^verbatim>\<open>ret - moved\<close>.\<close>

fun skip_empty :: "siov list \<Rightarrow> int \<Rightarrow> (siov list \<times> int) option" where
  "skip_empty [] n = (if n = 0 then Some ([], n) else None)"
| "skip_empty (v # vs) n = (if n = 0 \<or> sv_len v \<noteq> 0 then Some (v # vs, n) else skip_empty vs (n - 1))"

lemma skip_empty_length: "skip_empty vs n = Some (vs', n') \<Longrightarrow> length vs' \<le> length vs"
  by (induction vs n rule: skip_empty.induct) (auto split: if_splits)

function advance :: "nat \<Rightarrow> siov list \<Rightarrow> int \<Rightarrow> (siov list \<times> int) option" where
  "advance rest vs n =
     (if rest = 0 then Some (vs, n)
      else case vs of
        [] \<Rightarrow> None
      | v # vs1 \<Rightarrow>
          if sv_len v \<le> rest
          then (case skip_empty vs1 (n - 1) of
                  None \<Rightarrow> None
                | Some (vs2, n2) \<Rightarrow> advance (rest - sv_len v) vs2 n2)
          else skip_empty (v\<lparr>sv_base := sv_base v + rest, sv_len := sv_len v - rest\<rparr> # vs1) n)"
  by pat_completeness auto
termination
  by (relation "measure (\<lambda>(rest, vs, n). length vs)") (auto dest: skip_empty_length)

declare advance.simps [simp del]

text \<open>The result: the pending elements, the pending count, which is also the return value, and the rest of the schedule.\<close>

fun socket_rwv ::
  "bool \<Rightarrow> io_step list \<Rightarrow> siov list \<Rightarrow> int \<Rightarrow> sock_io \<Rightarrow> (siov list \<times> int \<times> io_step list \<times> sock_io) option" where
  "socket_rwv write [] vs n io = (if n = 0 then Some (vs, n, [], io) else None)"
| "socket_rwv write (s # ss) vs n io =
     (if n = 0 then Some (vs, n, s # ss, io)
      else do {
        (ret, io1) \<leftarrow> (if write then sys_writev s vs n io else sys_readv s vs n io);
        (case ret of
           Errno_Again \<Rightarrow> Some (vs, n, ss, io1)
         | Errno_Intr \<Rightarrow> socket_rwv write ss vs n io1
         | Errno_Other \<Rightarrow> Some (vs, -1, ss, io1)
         | Io_Ret k \<Rightarrow>
             if k = 0 then Some (vs, (if write then n else -1), ss, io1)
             else do {
               (vs1, n1) \<leftarrow> advance k vs n;
               socket_rwv write ss vs1 n1 io1
             })
      })"

definition socket_readv ::
  "io_step list \<Rightarrow> siov list \<Rightarrow> int \<Rightarrow> sock_io \<Rightarrow> (siov list \<times> int \<times> io_step list \<times> sock_io) option" where
  "socket_readv = socket_rwv False"

definition socket_writev ::
  "io_step list \<Rightarrow> siov list \<Rightarrow> int \<Rightarrow> sock_io \<Rightarrow> (siov list \<times> int \<times> io_step list \<times> sock_io) option" where
  "socket_writev = socket_rwv True"

section \<open>The addresses of a scatter list\<close>

fun sv_addrs :: "siov list \<Rightarrow> addr list" where
  "sv_addrs [] = []"
| "sv_addrs (v # vs) = [sv_base v ..< sv_base v + sv_len v] @ sv_addrs vs"

lemma sv_total_addrs: "sv_total vs = length (sv_addrs vs)"
  by (induction vs) auto

lemma upt_Suc_Cons: "[a ..< a + Suc n] = a # [Suc a ..< Suc a + n]"
  by (simp add: upt_conv_Cons)

text \<open>The bytes \<open>bs\<close> are in memory at the addresses \<open>as\<close>.\<close>

definition holds :: "byte_mem \<Rightarrow> addr list \<Rightarrow> u8 list \<Rightarrow> bool" where
  "holds m as bs \<longleftrightarrow> list_all2 (\<lambda>a b. m a = Some b) as bs"

lemma holds_length: "holds m as bs \<Longrightarrow> length bs = length as"
  by (simp add: holds_def list_all2_lengthD)

lemma holds_append: "holds m (as @ as') bs \<longleftrightarrow> (\<exists>cs ds. bs = cs @ ds \<and> holds m as cs \<and> holds m as' ds)"
  unfolding holds_def list_all2_append1 by (metis list_all2_lengthD)

lemma holds_appendI: "\<lbrakk>holds m as bs; holds m as' bs'\<rbrakk> \<Longrightarrow> holds m (as @ as') (bs @ bs')"
  by (simp add: holds_def list_all2_appendI)

lemma holds_drop: "holds m as bs \<Longrightarrow> holds m (drop k as) (drop k bs)"
  by (simp add: holds_def)

lemma holds_cong: "(\<And>a. a \<in> set as \<Longrightarrow> m' a = m a) \<Longrightarrow> holds m' as bs = holds m as bs"
  by (auto simp: holds_def list_all2_conv_all_nth)

lemma mem_load_iff: "mem_load m a n = Some bs \<longleftrightarrow> holds m [a ..< a + n] bs"
proof (induction n arbitrary: a bs)
  case (Suc n)
  have "mem_load m a (Suc n) = Some bs \<longleftrightarrow> (\<exists>b cs. bs = b # cs \<and> m a = Some b \<and> mem_load m (Suc a) n = Some cs)"
    by (auto split: bind_splits)
  then show ?case unfolding upt_Suc_Cons Suc.IH by (auto simp: holds_def list_all2_Cons1)
qed (auto simp: holds_def)

lemma sv_load_iff: "sv_load m vs = Some bs \<longleftrightarrow> holds m (sv_addrs vs) bs"
proof (induction vs arbitrary: bs)
  case (Cons v vs)
  have "sv_load m (v # vs) = Some bs \<longleftrightarrow>
      (\<exists>cs ds. mem_load m (sv_base v) (sv_len v) = Some cs \<and> sv_load m vs = Some ds \<and> bs = cs @ ds)"
    by (auto split: bind_splits)
  then show ?case unfolding mem_load_iff Cons.IH by (auto simp: holds_append)
qed (auto simp: holds_def)

lemma mem_store_upds:
  "\<forall>x. a \<le> x \<and> x < a + length bs \<longrightarrow> m x \<noteq> None \<Longrightarrow> mem_store a bs m = Some (m([a ..< a + length bs] [\<mapsto>] bs))"
proof (induction bs arbitrary: a m)
  case (Cons b bs)
  have "m a \<noteq> None" using Cons.prems by simp
  moreover have "\<forall>x. Suc a \<le> x \<and> x < Suc a + length bs \<longrightarrow> (m(a \<mapsto> b)) x \<noteq> None" using Cons.prems by simp
  ultimately show ?case using Cons.IH [of "Suc a" "m(a \<mapsto> b)"] upt_Suc_Cons [of a "length bs"]
    by (simp del: upt_Suc fun_upd_apply)
qed simp

lemma map_upds_append:
  "length as = length bs \<Longrightarrow> m(as @ as' [\<mapsto>] bs @ bs') = (m(as [\<mapsto>] bs))(as' [\<mapsto>] bs')"
  by (induction as bs arbitrary: m rule: list_induct2) simp_all

lemma map_upds_mapped: "m a \<noteq> None \<Longrightarrow> (m(as [\<mapsto>] bs)) a \<noteq> None"
  by (metis domIff dom_map_upds UnI2)

lemma sv_store_upds:
  "\<lbrakk>\<forall>a \<in> set (sv_addrs vs). m a \<noteq> None; length bs \<le> sv_total vs\<rbrakk>
     \<Longrightarrow> sv_store vs bs m = Some (m(take (length bs) (sv_addrs vs) [\<mapsto>] bs))"
proof (induction vs arbitrary: bs m)
  case (Cons v vs)
  let ?A = "[sv_base v ..< sv_base v + sv_len v]" and ?bs = "take (sv_len v) bs"
  let ?m = "m([sv_base v ..< sv_base v + length ?bs] [\<mapsto>] ?bs)"
  have "\<forall>x. sv_base v \<le> x \<and> x < sv_base v + length ?bs \<longrightarrow> m x \<noteq> None" using Cons.prems(1) by fastforce
  from mem_store_upds [OF this] have st: "mem_store (sv_base v) ?bs m = Some ?m" .
  have pre: "take (length bs) ?A = [sv_base v ..< sv_base v + length ?bs]"
    by (simp add: min_def)
  have "sv_store vs (drop (sv_len v) bs) ?m = Some (?m(take (length (drop (sv_len v) bs)) (sv_addrs vs) [\<mapsto>] drop (sv_len v) bs))"
    using Cons.prems map_upds_mapped [of m] by (intro Cons.IH) auto
  then show ?case
    using st map_upds_append [of "[sv_base v ..< sv_base v + length ?bs]" ?bs m "take (length (drop (sv_len v) bs)) (sv_addrs vs)"
        "drop (sv_len v) bs"] pre
    by simp
qed auto

lemma holds_upds:
  "\<lbrakk>length as = length bs; distinct as\<rbrakk> \<Longrightarrow> holds (m(as [\<mapsto>] bs)) as bs"
proof (induction as bs arbitrary: m rule: list_induct2)
  case (Cons a as b bs)
  have "holds ((m(a \<mapsto> b))(as [\<mapsto>] bs)) as bs" using Cons.prems by (intro Cons.IH) simp
  moreover have "((m(a \<mapsto> b))(as [\<mapsto>] bs)) a = Some b" using Cons.prems by simp
  ultimately show ?case unfolding map_upds_Cons holds_def by (simp only: list_all2_Cons simp_thms)
qed (simp add: holds_def)

section \<open>Progress of the loop\<close>

text \<open>The pending elements do not start with an empty one.\<close>

lemma skip_empty_spec:
  "skip_empty vs (int (length vs)) = Some (vs', n') \<Longrightarrow>
     n' = int (length vs') \<and> sv_addrs vs' = sv_addrs vs \<and> (vs' = [] \<longleftrightarrow> sv_addrs vs = [])"
  by (induction vs "int (length vs)" rule: skip_empty.induct) (auto split: if_splits)

lemma skip_empty_total: "\<exists>vs' n'. skip_empty vs (int (length vs)) = Some (vs', n')"
  by (induction vs) auto

lemma advance_spec:
  "\<lbrakk>0 < rest; rest \<le> sv_total vs; n = int (length vs)\<rbrakk> \<Longrightarrow>
     \<exists>vs'. advance rest vs n = Some (vs', int (length vs')) \<and> sv_addrs vs' = drop rest (sv_addrs vs)
       \<and> (vs' = [] \<longleftrightarrow> rest = sv_total vs)"
proof (induction rest vs n rule: advance.induct)
  case (1 rest vs n)
  then obtain v vs1 where vs: "vs = v # vs1" by (cases vs) auto
  show ?case
  proof (cases "sv_len v \<le> rest")
    case True
    obtain vs2 n2 where s: "skip_empty vs1 (int (length vs1)) = Some (vs2, n2)" using skip_empty_total by blast
    note s2 = skip_empty_spec [OF s]
    have t: "sv_total vs2 = sv_total vs1" using s2 by (simp add: sv_total_addrs)
    have adv: "advance rest vs n = advance (rest - sv_len v) vs2 n2"
      using 1 vs True s by (subst advance.simps) simp
    show ?thesis
    proof (cases "rest = sv_len v")
      case True
      then show ?thesis using adv s2 vs by (simp add: advance.simps sv_total_addrs)
    next
      case False
      then have "\<exists>vs'. advance (rest - sv_len v) vs2 n2 = Some (vs', int (length vs'))
          \<and> sv_addrs vs' = drop (rest - sv_len v) (sv_addrs vs2) \<and> (vs' = [] \<longleftrightarrow> rest - sv_len v = sv_total vs2)"
        using 1(2-4) vs s s2 t True by (intro 1(1) [OF _ vs True]) auto
      moreover have "rest - sv_len v = sv_total vs1 \<longleftrightarrow> rest = sv_len v + sv_total vs1" using True by linarith
      ultimately show ?thesis using adv vs s2 t True by auto
    qed
  next
    case False
    let ?v = "v\<lparr>sv_base := sv_base v + rest, sv_len := sv_len v - rest\<rparr>"
    have "advance rest vs n = Some (?v # vs1, n)" using 1 vs False by (subst advance.simps) simp
    moreover have "drop rest [sv_base v ..< sv_base v + sv_len v] = [sv_base v + rest ..< sv_base v + sv_len v]" by simp
    ultimately show ?thesis using 1 vs False by (simp add: sv_total_addrs)
  qed
qed

lemma null_first_addrs: "0 \<notin> set (sv_addrs vs) \<Longrightarrow> \<not> null_first vs"
  by (induction vs) auto

text \<open>
  Writing: a prefix of the bytes is sent, the elements left describe the rest, and the return value is 0
  exactly when everything was sent.
\<close>

lemma socket_writev_spec:
  "\<lbrakk>socket_rwv True ss vs n io = Some (vs', n', ss', io'); holds (io_mem io) (sv_addrs vs) bs; 0 \<notin> set (sv_addrs vs);
    n = int (length vs); vs = [] \<longleftrightarrow> bs = []\<rbrakk> \<Longrightarrow>
   \<exists>k \<le> length bs. io' = io\<lparr>io_tx := io_tx io @ take k bs\<rparr> \<and> sv_addrs vs' = drop k (sv_addrs vs)
     \<and> (n' = int (length vs') \<or> n' = -1) \<and> (vs' = [] \<longleftrightarrow> k = length bs) \<and> (n' = 0 \<longleftrightarrow> k = length bs)"
proof (induction ss arbitrary: vs n io bs)
  case Nil
  then show ?case by (auto split: if_splits intro!: exI [of _ 0])
next
  case (Cons s ss)
  note len = holds_length [OF Cons.prems(2)]
  have nz: "\<not> n < 0" "\<not> length vs < nat n" "take (nat n) vs = vs" "\<not> null_first vs"
    using Cons.prems(3,4) by (simp_all add: null_first_addrs)
  show ?case
  proof (cases "n = 0")
    case True
    then show ?thesis using Cons.prems by (auto intro!: exI [of _ 0])
  next
    case False
    then have ne: "vs \<noteq> []" "bs \<noteq> []" using Cons.prems(4,5) by auto
    show ?thesis
    proof (cases s)
      case (Io_Move k)
      define k1 where "k1 = min k (length bs)"
      let ?io = "io\<lparr>io_tx := io_tx io @ take k1 bs\<rparr>"
      have w: "sys_writev s vs n io = Some (Io_Ret k1, ?io)"
        using Cons.prems(2) nz by (simp add: sys_writev_def Io_Move k1_def sv_load_iff [symmetric] Let_def)
      show ?thesis
      proof (cases "k1 = 0")
        case True
        then show ?thesis using Cons.prems w False ne by (auto intro!: exI [of _ 0])
      next
        case False': False
        have k1: "0 < k1" "k1 \<le> sv_total vs" "k1 \<le> length bs" using False' len by (auto simp: k1_def sv_total_addrs)
        from advance_spec [OF k1(1,2) Cons.prems(4)] obtain vs1 where vs1: "advance k1 vs n = Some (vs1, int (length vs1))"
            "sv_addrs vs1 = drop k1 (sv_addrs vs)" "vs1 = [] \<longleftrightarrow> k1 = sv_total vs" by blast
        have "0 \<notin> set (sv_addrs vs1)" using Cons.prems(3) vs1(2) by (auto dest: in_set_dropD)
        moreover have "vs1 = [] \<longleftrightarrow> drop k1 bs = []" using vs1(3) k1(3) len by (auto simp: sv_total_addrs)
        ultimately obtain k2 where "k2 \<le> length (drop k1 bs)" "io' = ?io\<lparr>io_tx := io_tx ?io @ take k2 (drop k1 bs)\<rparr>"
            "sv_addrs vs' = drop k2 (sv_addrs vs1)" "n' = int (length vs') \<or> n' = -1" "vs' = [] \<longleftrightarrow> k2 = length (drop k1 bs)"
            "n' = 0 \<longleftrightarrow> k2 = length (drop k1 bs)"
          using Cons.IH [of vs1 "int (length vs1)" ?io "drop k1 bs"] Cons.prems(1) w False False' vs1
            holds_drop [OF Cons.prems(2), of k1] by auto
        then show ?thesis using k1(3) vs1(2) by (intro exI [of _ "k1 + k2"]) (auto simp: take_add add.commute)
      qed
    next
      case Io_Intr
      then show ?thesis using Cons False nz by (auto simp: sys_writev_def)
    qed (use Cons.prems False ne nz in \<open>auto simp: sys_writev_def intro!: exI [of _ 0]\<close>)
  qed
qed

text \<open>
  Reading: a prefix of the arrived bytes is consumed and stored at the first addresses of the elements,
  and the return value is 0 exactly when the elements are full.
\<close>

lemma socket_readv_spec:
  "\<lbrakk>socket_rwv False ss vs n io = Some (vs', n', ss', io'); \<forall>a \<in> set (sv_addrs vs). io_mem io a \<noteq> None;
    0 \<notin> set (sv_addrs vs); n = int (length vs); vs = [] \<longleftrightarrow> sv_addrs vs = []\<rbrakk> \<Longrightarrow>
   \<exists>c. length c \<le> sv_total vs \<and> io_rx io = c @ io_rx io' \<and> io_tx io' = io_tx io
     \<and> io_mem io' = (io_mem io)(take (length c) (sv_addrs vs) [\<mapsto>] c) \<and> sv_addrs vs' = drop (length c) (sv_addrs vs)
     \<and> (n' = int (length vs') \<or> n' = -1) \<and> (vs' = [] \<longleftrightarrow> length c = sv_total vs) \<and> (n' = 0 \<longleftrightarrow> length c = sv_total vs)"
proof (induction ss arbitrary: vs n io)
  case Nil
  then show ?case by (auto split: if_splits intro!: exI [of _ "[]"])
next
  case (Cons s ss)
  have nz: "\<not> n < 0" "\<not> length vs < nat n" "take (nat n) vs = vs" "\<not> null_first vs"
    using Cons.prems(3,4) by (simp_all add: null_first_addrs)
  show ?case
  proof (cases "n = 0")
    case True
    then show ?thesis using Cons.prems by (auto intro!: exI [of _ "[]"])
  next
    case False
    then have ne: "vs \<noteq> []" "sv_total vs \<noteq> 0" using Cons.prems(4,5) by (auto simp: sv_total_addrs)
    show ?thesis
    proof (cases s)
      case (Io_Move k)
      define c where "c = take (min k (sv_total vs)) (io_rx io)"
      have k: "min k (min (sv_total vs) (length (io_rx io))) = length c" "take (length c) (io_rx io) = c"
          "length c \<le> sv_total vs"
        by (auto simp: c_def min_def)
      let ?io = "io\<lparr>io_mem := (io_mem io)(take (length c) (sv_addrs vs) [\<mapsto>] c), io_rx := drop (length c) (io_rx io)\<rparr>"
      show ?thesis
      proof (cases "c = []")
        case True
        then show ?thesis using Cons.prems nz k False ne
          by (auto simp: sys_readv_def Io_Move intro!: exI [of _ "[]"])
      next
        case c: False
        have r: "sys_readv s vs n io = Some (Io_Ret (length c), ?io)"
          using nz c k sv_store_upds [OF Cons.prems(2) k(3)] by (simp add: sys_readv_def Io_Move Let_def)
        from advance_spec [OF _ k(3) Cons.prems(4)] c obtain vs1 where vs1: "advance (length c) vs n = Some (vs1, int (length vs1))"
            "sv_addrs vs1 = drop (length c) (sv_addrs vs)" "vs1 = [] \<longleftrightarrow> length c = sv_total vs" by auto
        have tot: "sv_total vs1 = sv_total vs - length c" using vs1(2) by (simp add: sv_total_addrs)
        have sub: "set (sv_addrs vs1) \<subseteq> set (sv_addrs vs)" using vs1(2) by (simp add: set_drop_subset)
        have "io_mem ?io a \<noteq> None" if "a \<in> set (sv_addrs vs1)" for a
          using map_upds_mapped [of "io_mem io" a] Cons.prems(2) sub that by auto
        moreover have "0 \<notin> set (sv_addrs vs1)" using Cons.prems(3) sub by blast
        moreover have "vs1 = [] \<longleftrightarrow> sv_addrs vs1 = []" using vs1(2,3) k(3) by (auto simp: sv_total_addrs)
        ultimately obtain d where "length d \<le> sv_total vs1" "io_rx ?io = d @ io_rx io'" "io_tx io' = io_tx ?io"
            "io_mem io' = (io_mem ?io)(take (length d) (sv_addrs vs1) [\<mapsto>] d)" "sv_addrs vs' = drop (length d) (sv_addrs vs1)"
            "n' = int (length vs') \<or> n' = -1" "vs' = [] \<longleftrightarrow> length d = sv_total vs1" "n' = 0 \<longleftrightarrow> length d = sv_total vs1"
          using Cons.IH [of vs1 "int (length vs1)" ?io] Cons.prems(1) r c False vs1 by auto
        moreover have "(io_mem io)(take (length c + length d) (sv_addrs vs) [\<mapsto>] c @ d)
            = ((io_mem io)(take (length c) (sv_addrs vs) [\<mapsto>] c))(take (length d) (drop (length c) (sv_addrs vs)) [\<mapsto>] d)"
          using k(3) by (simp add: take_add map_upds_append sv_total_addrs)
        moreover have "io_rx io = c @ drop (length c) (io_rx io)" using k(2) by (metis append_take_drop_id)
        ultimately show ?thesis using k(3) tot vs1(2) by (intro exI [of _ "c @ d"]) (auto simp: add.commute)
      qed
    next
      case Io_Intr
      then show ?thesis using Cons False nz by (auto simp: sys_readv_def)
    qed (use Cons.prems False ne nz in \<open>auto simp: sys_readv_def intro!: exI [of _ "[]"]\<close>)
  qed
qed

text \<open>The loop never adds elements.\<close>

lemma advance_length: "advance rest vs n = Some (vs', n') \<Longrightarrow> length vs' \<le> length vs"
proof (induction rest vs n arbitrary: vs' n' rule: advance.induct)
  case (1 rest vs n)
  show ?case
  proof (cases "rest = 0 \<or> vs = []")
    case True
    then show ?thesis using 1(2) by (subst (asm) advance.simps) (auto split: if_splits)
  next
    case False
    then obtain v vs1 where vs: "vs = v # vs1" "rest \<noteq> 0" by (cases vs) auto
    show ?thesis
    proof (cases "sv_len v \<le> rest")
      case True
      then obtain vs2 n2 where s: "skip_empty vs1 (n - 1) = Some (vs2, n2)"
        using 1(2) vs by (subst (asm) advance.simps) (auto split: option.splits)
      have "advance (rest - sv_len v) vs2 n2 = Some (vs', n')" using 1(2) vs True s by (subst (asm) advance.simps) simp
      from 1(1) [OF vs(2,1) True s refl this] show ?thesis using skip_empty_length [OF s] vs by simp
    next
      case False
      then show ?thesis using 1(2) vs by (subst (asm) advance.simps) (auto dest: skip_empty_length)
    qed
  qed
qed

lemma socket_rwv_length: "socket_rwv w ss vs n io = Some (vs', n', ss', io') \<Longrightarrow> length vs' \<le> length vs"
proof (induction ss arbitrary: vs n io)
  case (Cons s ss)
  show ?case
  proof (cases "n = 0")
    case False
    then obtain ret io1 where r: "(if w then sys_writev s vs n io else sys_readv s vs n io) = Some (ret, io1)"
      using Cons.prems by (auto split: bind_splits)
    show ?thesis
    proof (cases ret)
      case (Io_Ret k)
      show ?thesis
      proof (cases "k = 0")
        case True
        then show ?thesis using Cons.prems r Io_Ret False by simp
      next
        case k: False
        then obtain vs1 n1 where "advance k vs n = Some (vs1, n1)" "socket_rwv w ss vs1 n1 io1 = Some (vs', n', ss', io')"
          using Cons.prems r Io_Ret False by (auto split: bind_splits)
        then show ?thesis using Cons.IH advance_length le_trans by blast
      qed
    qed (use Cons r False in auto)
  qed (use Cons.prems in simp)
qed (auto split: if_splits)

end
