(* ===== verification/Lz_Hashfn.thy ===== *)
theory Lz_Hashfn
  imports Lz_Prelude
begin

text \<open>
  \<^verbatim>\<open>src/src/hashfn.c\<close>: the three string hashes.  A block of memory is the list of its bytes; the
  16 and 32 bit loads are those of a little-endian machine, \<^verbatim>\<open>char\<close> is signed.  A byte past the end of
  the block counts as 0 and the theorems show that the hashes of the dictionary and of
  Davies-Meyer never depend on one.
\<close>

section \<open>Loads\<close>

definition byte_at :: "u8 list \<Rightarrow> nat \<Rightarrow> u8" where
  "byte_at m i = (if i < length m then m ! i else 0)"

definition get16bits :: "u8 list \<Rightarrow> nat \<Rightarrow> u32" where
  "get16bits m i = ucast (byte_at m i) OR shl (ucast (byte_at m (i + 1))) 8"

definition load32 :: "u8 list \<Rightarrow> nat \<Rightarrow> u32" where
  "load32 m i = ucast (byte_at m i) OR shl (ucast (byte_at m (i + 1))) 8
     OR shl (ucast (byte_at m (i + 2))) 16 OR shl (ucast (byte_at m (i + 3))) 24"

section \<open>ReallySimpleHash\<close>

fun ReallySimpleHash_loop :: "u8 list \<Rightarrow> nat \<Rightarrow> u32 \<Rightarrow> u32" where
  "ReallySimpleHash_loop path 0 hash = hash"
| "ReallySimpleHash_loop path (Suc len) hash =
     ReallySimpleHash_loop path len (hash XOR sx8 (byte_at path (Suc len)))"

definition ReallySimpleHash :: "u8 list \<Rightarrow> int \<Rightarrow> u32" where
  "ReallySimpleHash path len = ReallySimpleHash_loop path (nat len) 0"

section \<open>SuperFastHash\<close>

text \<open>The main loop, \<open>n\<close> rounds from offset \<open>i\<close>.\<close>

fun SuperFastHash_loop :: "u8 list \<Rightarrow> nat \<Rightarrow> nat \<Rightarrow> u32 \<Rightarrow> u32" where
  "SuperFastHash_loop data i 0 hash = hash"
| "SuperFastHash_loop data i (Suc n) hash =
     (let hash1 = hash + get16bits data i;
          tmp = shl (get16bits data (i + 2)) 11 XOR hash1;
          hash2 = shl hash1 16 XOR tmp
      in SuperFastHash_loop data (i + 4) n (hash2 + shr hash2 11))"

definition SuperFastHash_tail :: "u8 list \<Rightarrow> nat \<Rightarrow> nat \<Rightarrow> u32 \<Rightarrow> u32" where
  "SuperFastHash_tail data i rem hash =
     (if rem = 3 then
        let h1 = hash + get16bits data i;
            h2 = h1 XOR shl h1 16;
            h3 = h2 XOR shl (sx8 (byte_at data (i + 2))) 18
        in h3 + shr h3 11
      else if rem = 2 then
        let h1 = hash + get16bits data i;
            h2 = h1 XOR shl h1 11
        in h2 + shr h2 17
      else if rem = 1 then
        let h1 = hash + sx8 (byte_at data i);
            h2 = h1 XOR shl h1 10
        in h2 + shr h2 1
      else hash)"

definition SuperFastHash_final :: "u32 \<Rightarrow> u32" where
  "SuperFastHash_final hash =
     (let h1 = hash XOR shl hash 3;
          h2 = h1 + shr h1 5;
          h3 = h2 XOR shl h2 4;
          h4 = h3 + shr h3 17;
          h5 = h4 XOR shl h4 25
      in h5 + shr h5 6)"

definition SuperFastHash :: "u8 list option \<Rightarrow> int \<Rightarrow> u32" where
  "SuperFastHash data len =
     (case data of
        None \<Rightarrow> 1
      | Some m \<Rightarrow>
          if len \<le> 1 then 1
          else
            let rem = nat len mod 4; n = nat len div 4
            in SuperFastHash_final
                 (SuperFastHash_tail m (4 * n) rem (SuperFastHash_loop m 0 n (word_of_int len))))"

section \<open>Davies-Meyer\<close>

definition DM_DELTA :: u32 where
  "DM_DELTA = 0x9E3779B9"

text \<open>The loop body runs before the test, so at least once: \<open>n\<close> more rounds after the first.\<close>

fun dm_round_loop :: "nat \<Rightarrow> u32 list \<Rightarrow> u32 \<Rightarrow> u32 \<Rightarrow> u32 \<Rightarrow> u32 \<times> u32" where
  "dm_round_loop n a sm b0 b1 =
     (let sm' = sm + DM_DELTA;
          b0' = b0 + ((shl b1 4 + a ! 0) XOR (b1 + sm') XOR (shr b1 5 + a ! 1));
          b1' = b1 + ((shl b0' 4 + a ! 2) XOR (b0' + sm') XOR (shr b0' 5 + a ! 3))
      in case n of 0 \<Rightarrow> (b0', b1') | Suc m \<Rightarrow> dm_round_loop m a sm' b0' b1')"

definition dm_round :: "nat \<Rightarrow> u32 list \<Rightarrow> u32 \<Rightarrow> u32 \<Rightarrow> u32 \<times> u32" where
  "dm_round rounds array h0 h1 =
     (let (b0, b1) = dm_round_loop (rounds - 1) array 0 h0 h1 in (h0 + b0, h1 + b1))"

definition dm_pad :: "int \<Rightarrow> u32" where
  "dm_pad len =
     (let pad = word_of_int len OR shl (word_of_int len) 8 in pad OR shl pad 16)"

fun dm_quads :: "u8 list \<Rightarrow> nat \<Rightarrow> nat \<Rightarrow> u32 \<times> u32 \<Rightarrow> u32 \<times> u32" where
  "dm_quads msg i 0 h = h"
| "dm_quads msg i (Suc n) (h0, h1) =
     dm_quads msg (i + 16) n
       (dm_round 6 [load32 msg i, load32 msg (i + 4), load32 msg (i + 8), load32 msg (i + 12)] h0 h1)"

text \<open>The bytes that do not fill a word are shifted into the first word of padding.\<close>

fun dm_tail_bytes :: "u8 list \<Rightarrow> nat \<Rightarrow> nat \<Rightarrow> u32 \<Rightarrow> u32" where
  "dm_tail_bytes msg len 0 w = w"
| "dm_tail_bytes msg len (Suc k) w =
     dm_tail_bytes msg len k (shl w 8 OR sx8 (byte_at msg (len - Suc k)))"

fun dm_tail :: "u8 list \<Rightarrow> nat \<Rightarrow> u32 \<Rightarrow> nat \<Rightarrow> nat \<Rightarrow> nat \<Rightarrow> nat \<Rightarrow> u32 list" where
  "dm_tail msg len pad 0 i full_words full_bytes = []"
| "dm_tail msg len pad (Suc j) i full_words full_bytes =
     (if full_words \<noteq> 0 then
        load32 msg i # dm_tail msg len pad j (i + 4) (full_words - 1) (full_bytes - 4)
      else dm_tail_bytes msg len full_bytes pad # dm_tail msg len pad j i 0 0)"

definition dm_hashfn :: "u8 list \<Rightarrow> int \<Rightarrow> u32" where
  "dm_hashfn msg len =
     (let n = nat len; quads = n div 16;
          (h0, h1) = dm_quads msg 0 quads (0x9464a485, 0x542e1a94);
          array = dm_tail msg n (dm_pad len) 4 (16 * quads) (n div 4 - 4 * quads) (n - 16 * quads);
          (h0', h1') = dm_round 10 array h0 h1
      in h0' XOR h1')"

section \<open>The hashes read nothing outside the block\<close>

lemma byte_at_take: "i < n \<Longrightarrow> byte_at (take n m) i = byte_at m i"
  by (simp add: byte_at_def)

lemma get16bits_take: "i + 1 < n \<Longrightarrow> get16bits (take n m) i = get16bits m i"
  by (simp add: get16bits_def byte_at_take)

lemma load32_take: "i + 3 < n \<Longrightarrow> load32 (take n m) i = load32 m i"
  by (simp add: load32_def byte_at_take)

lemma SuperFastHash_loop_take:
  "i + 4 * k \<le> n \<Longrightarrow> SuperFastHash_loop (take n m) i k h = SuperFastHash_loop m i k h"
  by (induction m i k h rule: SuperFastHash_loop.induct) (simp_all add: get16bits_take Let_def)

lemma SuperFastHash_tail_take:
  "i + r \<le> n \<Longrightarrow> SuperFastHash_tail (take n m) i r h = SuperFastHash_tail m i r h"
  by (simp add: SuperFastHash_tail_def get16bits_take byte_at_take)

lemma dm_quads_take: "i + 16 * k \<le> n \<Longrightarrow> dm_quads (take n m) i k h = dm_quads m i k h"
  by (induction m i k h rule: dm_quads.induct) (simp_all add: load32_take)

lemma dm_tail_bytes_take:
  "k \<le> n \<Longrightarrow> dm_tail_bytes (take n m) n k w = dm_tail_bytes m n k w"
  by (induction k arbitrary: w) (simp_all add: byte_at_take)

lemma dm_tail_take:
  "\<lbrakk>i + fb \<le> n; 4 * fw \<le> fb\<rbrakk> \<Longrightarrow> dm_tail (take n m) n pad j i fw fb = dm_tail m n pad j i fw fb"
  by (induction m n pad j i fw fb rule: dm_tail.induct) (simp_all add: load32_take dm_tail_bytes_take)

section \<open>Properties\<close>

text \<open>
  \<open>SuperFastHash\<close> and \<open>dm_hashfn\<close> stay inside the buffer: the hash of \<open>len\<close> bytes is a function of
  the first \<open>len\<close> bytes of the memory it is given.
\<close>

theorem hash_in_bounds:
  "SuperFastHash (Some m) (int n) = SuperFastHash (Some (take n m)) (int n)
     \<and> dm_hashfn m (int n) = dm_hashfn (take n m) (int n)"
proof
  have "4 * (n div 4) + n mod 4 \<le> n" by simp
  then show "SuperFastHash (Some m) (int n) = SuperFastHash (Some (take n m)) (int n)"
    by (simp add: SuperFastHash_def Let_def SuperFastHash_loop_take SuperFastHash_tail_take)
  have "16 * (n div 16) \<le> n" "4 * (n div 4 - 4 * (n div 16)) \<le> n - 16 * (n div 16)"
    by auto
  then show "dm_hashfn m (int n) = dm_hashfn (take n m) (int n)"
    by (simp add: dm_hashfn_def Let_def dm_quads_take dm_tail_take)
qed

text \<open>
  \<open>ReallySimpleHash\<close> does not: the first byte of the path never counts, and the byte at offset
  \<open>len\<close>, one past the path, does.
\<close>

theorem ReallySimpleHash_shifted:
  "ReallySimpleHash (b # path) (int n) = ReallySimpleHash (c # path) (int n)
     \<and> ReallySimpleHash [0x61, 0x62, 0] 2 \<noteq> ReallySimpleHash [0x61, 0x62, 0x63] 2"
proof
  have "ReallySimpleHash_loop (b # path) n h = ReallySimpleHash_loop (c # path) n h" for h
    by (induction n arbitrary: h) (simp_all add: byte_at_def)
  then show "ReallySimpleHash (b # path) (int n) = ReallySimpleHash (c # path) (int n)"
    by (simp add: ReallySimpleHash_def)
  show "ReallySimpleHash [0x61, 0x62, 0] 2 \<noteq> ReallySimpleHash [0x61, 0x62, 0x63] 2"
    by code_simp
qed

end
