(* ===== verification/Lz_Numeric.thy ===== *)
theory Lz_Numeric
  imports Lz_Prelude
begin

text \<open>
  The number formats of the C library that \<^verbatim>\<open>src/src/dict.c\<close> and \<^verbatim>\<open>src/src/common-utils.c\<close> use: the decimal and
  hexadecimal conversions of \<^verbatim>\<open>asprintf\<close> and \<^verbatim>\<open>sprintf\<close>, and \<^verbatim>\<open>strtol\<close>, \<^verbatim>\<open>strtoul\<close> and their 64-bit
  variants, which are the same functions where \<^verbatim>\<open>long\<close> has 64 bits.  A C string is the list of its bytes
  without the terminating NUL.  The lemmas are the round trips of printing and parsing.
\<close>

type_synonym cstring = "u8 list"

section \<open>Printing\<close>

definition digit_char :: "nat \<Rightarrow> u8" where
  "digit_char d = (if d < 10 then of_nat (48 + d) else of_nat (87 + d))"

fun print_base :: "nat \<Rightarrow> nat \<Rightarrow> cstring" where
  "print_base b n =
     (if b < 2 \<or> n < b then [digit_char n] else print_base b (n div b) @ [digit_char (n mod b)])"

declare print_base.simps [simp del]

text \<open>\<^verbatim>\<open>PRIu64\<close>, \<^verbatim>\<open>PRId64\<close> and their narrower variants, given the value printed.\<close>

definition print_nat :: "nat \<Rightarrow> cstring" where
  "print_nat n = print_base 10 n"

definition print_int :: "int \<Rightarrow> cstring" where
  "print_int i = (if i < 0 then 45 # print_nat (nat (- i)) else print_nat (nat i))"

text \<open>\<^verbatim>\<open>%08PRIx64\<close>.\<close>

definition print_hex8 :: "nat \<Rightarrow> cstring" where
  "print_hex8 n = (let s = print_base 16 n in replicate (8 - length s) 48 @ s)"

section \<open>Parsing\<close>

text \<open>\<^verbatim>\<open>isspace\<close> in the C locale.\<close>

definition is_space :: "u8 \<Rightarrow> bool" where
  "is_space c \<longleftrightarrow> c = 32 \<or> (9 \<le> c \<and> c \<le> 13)"

definition digit_value :: "u8 \<Rightarrow> nat option" where
  "digit_value c =
     (if 48 \<le> c \<and> c \<le> 57 then Some (unat c - 48)
      else if 97 \<le> c \<and> c \<le> 122 then Some (unat c - 87)
      else if 65 \<le> c \<and> c \<le> 90 then Some (unat c - 55)
      else None)"

definition digit_in :: "nat \<Rightarrow> u8 \<Rightarrow> bool" where
  "digit_in b c \<longleftrightarrow> (case digit_value c of None \<Rightarrow> False | Some d \<Rightarrow> d < b)"

text \<open>The longest prefix of digits: its value and what follows it.\<close>

fun parse_digits :: "nat \<Rightarrow> cstring \<Rightarrow> nat \<Rightarrow> nat \<times> cstring" where
  "parse_digits b [] acc = (acc, [])"
| "parse_digits b (c # cs) acc =
     (if digit_in b c then parse_digits b cs (acc * b + the (digit_value c)) else (acc, c # cs))"

text \<open>
  The subject sequence of \<^verbatim>\<open>strto*\<close>: white space, a sign, a prefix and the digits.  Base 0 is decided by
  the prefix.  The result is the sign, the magnitude and the rest (the value of \<^verbatim>\<open>endptr\<close>), \<open>None\<close>
  when there are no digits.
\<close>

definition skip_sign :: "cstring \<Rightarrow> bool \<times> cstring" where
  "skip_sign s = (case s of
       [] \<Rightarrow> (False, [])
     | c # cs \<Rightarrow> if c = 45 then (True, cs) else if c = 43 then (False, cs) else (False, c # cs))"

definition skip_base :: "nat \<Rightarrow> cstring \<Rightarrow> nat \<times> cstring" where
  "skip_base base s =
     (if (base = 0 \<or> base = 16) \<and> take 1 s = [48] \<and> take 1 (drop 1 s) \<in> {[120], [88]}
          \<and> drop 2 s \<noteq> [] \<and> digit_in 16 (hd (drop 2 s)) then (16, drop 2 s)
      else if base = 0 then (if take 1 s = [48] then 8 else 10, s)
      else (base, s))"

definition parse_number :: "nat \<Rightarrow> cstring \<Rightarrow> (bool \<times> nat \<times> cstring) option" where
  "parse_number base str =
     (let (neg, s) = skip_sign (dropWhile is_space str);
          (b, ds) = skip_base base s
      in if ds = [] \<or> \<not> digit_in b (hd ds) then None
         else (case parse_digits b ds 0 of (v, rest) \<Rightarrow> Some (neg, v, rest)))"

text \<open>
  \<^verbatim>\<open>strtol\<close> and \<^verbatim>\<open>strtoul\<close>: the value, the value of \<^verbatim>\<open>errno\<close> after the call when it was 0 before, and the
  rest of the string.  A negative subject of \<^verbatim>\<open>strtoul\<close> is negated modulo the width.
\<close>

definition strtol :: "nat \<Rightarrow> cstring \<Rightarrow> int \<times> int \<times> cstring" where
  "strtol base str =
     (case parse_number base str of
        None \<Rightarrow> (0, 0, str)
      | Some (neg, v, rest) \<Rightarrow>
          if neg then (if 2 ^ 63 < v then (- (2 ^ 63), ERANGE, rest) else (- int v, 0, rest))
          else if 2 ^ 63 \<le> v then (2 ^ 63 - 1, ERANGE, rest) else (int v, 0, rest))"

definition strtoul :: "nat \<Rightarrow> cstring \<Rightarrow> int \<times> int \<times> cstring" where
  "strtoul base str =
     (case parse_number base str of
        None \<Rightarrow> (0, 0, str)
      | Some (neg, v, rest) \<Rightarrow>
          if 2 ^ 64 \<le> v then (2 ^ 64 - 1, ERANGE, rest)
          else (if neg then (- int v) mod 2 ^ 64 else int v, 0, rest))"

section \<open>Round trips\<close>

lemma digit_char_value:
  assumes "d < 16"
  shows "digit_value (digit_char d) = Some d"
proof -
  have "d \<in> {..<16}" using assms by simp
  then have "d \<in> set [0..<16]" by simp
  moreover have "list_all (\<lambda>d. digit_value (digit_char d) = Some d) [0..<16]" by code_simp
  ultimately show ?thesis by (auto simp: list_all_iff)
qed

lemma digit_char_in: "\<lbrakk>d < b; b \<le> 16\<rbrakk> \<Longrightarrow> digit_in b (digit_char d)"
  by (simp add: digit_in_def digit_char_value)

lemma parse_digits_append:
  "\<forall>c \<in> set xs. digit_in b c \<Longrightarrow> parse_digits b (xs @ ys) acc = parse_digits b ys (fst (parse_digits b xs acc))"
  by (induction xs arbitrary: acc) auto

lemma print_base_digits:
  assumes "2 \<le> b" and "b \<le> 16"
  shows "\<forall>c \<in> set (print_base b n). digit_in b c"
  using assms
proof (induction b n rule: print_base.induct)
  case (1 b n)
  then show ?case by (subst print_base.simps) (auto intro: digit_char_in)
qed

lemma parse_print_base:
  assumes "2 \<le> b" and "b \<le> 16"
  shows "fst (parse_digits b (print_base b n) 0) = n"
  using assms
proof (induction b n rule: print_base.induct)
  case (1 b n)
  show ?case
  proof (cases "n < b")
    case True
    with 1 show ?thesis by (subst print_base.simps) (simp add: digit_char_in digit_char_value)
  next
    case False
    with 1 have "fst (parse_digits b (print_base b (n div b)) 0) = n div b" by simp
    with 1 False show ?thesis
      by (subst print_base.simps)
        (simp add: parse_digits_append print_base_digits digit_char_in digit_char_value
          order_less_le_trans [OF mod_less_divisor])
  qed
qed

lemma print_base_nonempty [simp]: "print_base b n \<noteq> []"
  by (subst print_base.simps) simp

text \<open>The first digit is not a zero, except in the number 0.\<close>

lemma print_base_hd:
  assumes "2 \<le> b" and "0 < n"
  shows "\<exists>d. 0 < d \<and> d < b \<and> hd (print_base b n) = digit_char d"
  using assms
proof (induction b n rule: print_base.induct)
  case (1 b n)
  show ?case
  proof (cases "n < b")
    case True with 1 show ?thesis by (subst print_base.simps) auto
  next
    case False
    then have "0 < n div b" using 1 by (simp add: div_greater_zero_iff)
    with 1 False obtain d where "0 < d" "d < b" "hd (print_base b (n div b)) = digit_char d" by auto
    with False 1 show ?thesis by (subst print_base.simps) auto
  qed
qed

lemma digit_char_decimal:
  assumes "d < 10"
  shows "\<not> is_space (digit_char d)" and "digit_char d \<noteq> 45" and "digit_char d \<noteq> 43"
    and "0 < d \<Longrightarrow> digit_char d \<noteq> 48" and "digit_char d \<noteq> 0"
proof -
  have "d \<in> set [0..<10]" using assms by simp
  moreover have "list_all (\<lambda>d. \<not> is_space (digit_char d) \<and> digit_char d \<noteq> 45 \<and> digit_char d \<noteq> 43
      \<and> (0 < d \<longrightarrow> digit_char d \<noteq> 48) \<and> digit_char d \<noteq> 0) [0..<10]" by code_simp
  ultimately have "\<not> is_space (digit_char d) \<and> digit_char d \<noteq> 45 \<and> digit_char d \<noteq> 43
      \<and> (0 < d \<longrightarrow> digit_char d \<noteq> 48) \<and> digit_char d \<noteq> 0" by (auto simp: list_all_iff)
  then show "\<not> is_space (digit_char d)" and "digit_char d \<noteq> 45" and "digit_char d \<noteq> 43"
    and "0 < d \<Longrightarrow> digit_char d \<noteq> 48" and "digit_char d \<noteq> 0" by blast+
qed

lemma print_nat_hd: "\<exists>d < 10. hd (print_nat n) = digit_char d \<and> (0 < n \<longrightarrow> 0 < d)"
proof (cases "n = 0")
  case True then show ?thesis unfolding print_nat_def by (subst print_base.simps) (auto intro: exI [of _ 0])
next
  case False
  then show ?thesis using print_base_hd [of 10 n] by (auto simp: print_nat_def)
qed

lemma parse_digits_rest: "\<forall>c \<in> set xs. digit_in b c \<Longrightarrow> snd (parse_digits b xs acc) = []"
  by (induction xs arbitrary: acc) auto

lemma parse_print_nat:
  shows "skip_base 0 (print_nat n) = (if n = 0 then 8 else 10, print_nat n)"
    and "parse_digits (if n = 0 then 8 else 10) (print_nat n) 0 = (n, [])"
    and "digit_in (if n = 0 then 8 else 10) (hd (print_nat n))"
proof -
  obtain d where d: "d < 10" "hd (print_nat n) = digit_char d" "0 < n \<longrightarrow> 0 < d"
    using print_nat_hd by blast
  have ne: "print_nat n \<noteq> []" by (simp add: print_nat_def)
  have z: "print_nat 0 = [48]" by code_simp
  show "skip_base 0 (print_nat n) = (if n = 0 then 8 else 10, print_nat n)"
  proof (cases "n = 0")
    case True then show ?thesis by (simp add: z skip_base_def)
  next
    case False
    then have "take 1 (print_nat n) \<noteq> [48]" using d ne digit_char_decimal(4) [OF d(1)]
      by (cases "print_nat n") auto
    then show ?thesis using False by (simp add: skip_base_def)
  qed
  show "parse_digits (if n = 0 then 8 else 10) (print_nat n) 0 = (n, [])"
  proof (cases "n = 0")
    case True then show ?thesis by (simp add: z) code_simp
  next
    case False
    then show ?thesis using parse_print_base [of 10 n] parse_digits_rest [OF print_base_digits, of 10 n 0]
      by (simp add: print_nat_def prod_eq_iff)
  qed
  show "digit_in (if n = 0 then 8 else 10) (hd (print_nat n))"
  proof (cases "n = 0")
    case True then show ?thesis by (simp add: z) code_simp
  next
    case False with d show ?thesis by (simp add: digit_char_in)
  qed
qed

lemma print_nat_start:
  "dropWhile is_space (print_nat n) = print_nat n" "skip_sign (print_nat n) = (False, print_nat n)"
proof -
  obtain d where d: "d < 10" "hd (print_nat n) = digit_char d" using print_nat_hd by blast
  obtain c cs where c: "print_nat n = c # cs" by (metis list.exhaust print_base_nonempty print_nat_def)
  show "dropWhile is_space (print_nat n) = print_nat n" "skip_sign (print_nat n) = (False, print_nat n)"
    using d digit_char_decimal [OF d(1)] c by (auto simp: skip_sign_def)
qed

lemma parse_number_print_nat: "parse_number 0 (print_nat n) = Some (False, n, [])"
  using parse_print_nat [of n] print_base_nonempty [of 10 n, folded print_nat_def]
  by (simp add: parse_number_def print_nat_start)

lemma parse_number_print_neg: "parse_number 0 (45 # print_nat n) = Some (True, n, [])"
proof -
  have "\<not> is_space 45" by code_simp
  then show ?thesis
    using parse_print_nat [of n] print_base_nonempty [of 10 n, folded print_nat_def]
    by (simp add: parse_number_def skip_sign_def)
qed

lemma strtol_print_int:
  "- (2 ^ 63) \<le> i \<Longrightarrow> i < 2 ^ 63 \<Longrightarrow> strtol 0 (print_int i) = (i, 0, [])"
  by (auto simp: strtol_def print_int_def parse_number_print_nat parse_number_print_neg
      nat_le_iff nat_less_iff zless_nat_eq_int_zless)

lemma strtoul_print_nat: "n < 2 ^ 64 \<Longrightarrow> strtoul 0 (print_nat n) = (int n, 0, [])"
  by (simp add: strtoul_def parse_number_print_nat)

lemma strtoul_print_int:
  "- (2 ^ 63) \<le> i \<Longrightarrow> i < 2 ^ 63 \<Longrightarrow> strtoul 0 (print_int i) = (i mod 2 ^ 64, 0, [])"
  by (auto simp: strtoul_def print_int_def parse_number_print_nat parse_number_print_neg nat_le_iff)

text \<open>Printed numbers are C strings.\<close>

lemma digit_in_nonzero: "digit_in b c \<Longrightarrow> c \<noteq> 0"
  by (auto simp: digit_in_def digit_value_def)

lemma print_base_no_nul: "2 \<le> b \<Longrightarrow> b \<le> 16 \<Longrightarrow> 0 \<notin> set (print_base b n)"
  using print_base_digits digit_in_nonzero by blast

lemma print_no_nul: "0 \<notin> set (print_nat n)" "0 \<notin> set (print_int i)"
  by (auto simp: print_nat_def print_int_def dest: print_base_no_nul [THEN notE, rotated 2])

end
