(* ===== verification/Lz_Dict.thy ===== *)
theory Lz_Dict
  imports Lz_Hashfn Lz_Numeric "HOL-Library.Monad_Syntax"
begin

text \<open>
  \<^verbatim>\<open>src/src/dict.c\<close>, \<^verbatim>\<open>src/src/dict.h\<close>: the reference-counted dictionary.  The store maps addresses to the
  \<open>data_t\<close> and \<open>data_pair_t\<close> objects, so that a value shared by several dictionaries is one object
  with one reference count; \<open>freed\<close> records the buffers handed to \<^verbatim>\<open>FREE\<close>.  A bucket, the chain from
  \<open>members[i]\<close> through \<open>hash_next\<close>, and the list from \<open>members_list\<close> through \<open>next\<close> are the sequences of the
  addresses of their pairs (\<open>prev\<close> is given by the sequence).  A C string is the list of its bytes, a null
  pointer is \<open>None\<close> or the address 0, and the outcome of an allocation is an argument.  The result
  \<open>None\<close> of an operation is undefined behaviour: a dangling or null pointer, an index outside an
  array, a division by zero, or \<^verbatim>\<open>abort\<close>.  The locks are not modelled.

  This theory holds the life cycle of data and dictionaries, lookup, insertion, deletion,
  iteration and copying, the invariant (chains, list and count agree, every pair is in the
  bucket of its key, every value is live with enough references) and the theorems that the
  operations keep it and refine a map from keys to values.
\<close>

section \<open>Data\<close>

text \<open>A non-null pointer to bytes: its address and the bytes found there.\<close>

record cptr =
  ptr_addr :: addr
  ptr_bytes :: "u8 list"

record iovec =
  iov_base :: "cptr option"
  iov_len :: nat

record data =
  data_is_static :: bool
  data_is_const :: bool
  data_len :: int
  data_vec :: "(addr \<times> iovec list) option"
  data_data :: "cptr option"
  data_refcount :: int

record data_pair =
  pair_key :: "cstring option"
  pair_value :: addr

record dict =
  dict_is_static :: bool
  dict_hash_size :: int
  dict_count :: int
  dict_refcount :: int
  dict_members :: "addr list list"
  dict_members_list :: "addr list"
  dict_extra_free :: bool

record store =
  datas :: "addr \<rightharpoonup> data"
  pairs :: "addr \<rightharpoonup> data_pair"
  freed :: "addr list"

definition put_data :: "addr \<Rightarrow> data \<Rightarrow> store \<Rightarrow> store" where
  "put_data a d w = w\<lparr>datas := (datas w)(a \<mapsto> d)\<rparr>"

definition put_pair :: "addr \<Rightarrow> data_pair \<Rightarrow> store \<Rightarrow> store" where
  "put_pair a p w = w\<lparr>pairs := (pairs w)(a \<mapsto> p)\<rparr>"

definition drop_pair :: "addr \<Rightarrow> store \<Rightarrow> store" where
  "drop_pair a w = w\<lparr>pairs := (pairs w)(a := None)\<rparr>"

section \<open>Creation\<close>

definition get_new_data_pair :: "addr \<Rightarrow> store \<Rightarrow> (store \<times> addr) option" where
  "get_new_data_pair a w =
     (if a = 0 then None else Some (put_pair a \<lparr>pair_key = None, pair_value = 0\<rparr> w, a))"

definition zero_data :: data where
  "zero_data = \<lparr>data_is_static = False, data_is_const = False, data_len = 0, data_vec = None,
     data_data = None, data_refcount = 0\<rparr>"

definition get_new_data :: "addr \<Rightarrow> store \<Rightarrow> store \<times> addr" where
  "get_new_data a w = (if a = 0 then (w, 0) else (put_data a zero_data w, a))"

text \<open>The two allocations succeed or fail.\<close>

definition get_new_dict_full :: "bool \<Rightarrow> bool \<Rightarrow> int \<Rightarrow> dict option" where
  "get_new_dict_full dict_ok members_ok size_hint =
     (if \<not> dict_ok \<or> \<not> members_ok then None
      else Some \<lparr>dict_is_static = False, dict_hash_size = size_hint, dict_count = 0,
                 dict_refcount = 0, dict_members = replicate (nat size_hint) [],
                 dict_members_list = [], dict_extra_free = False\<rparr>)"

definition get_new_dict :: "bool \<Rightarrow> bool \<Rightarrow> dict option" where
  "get_new_dict dict_ok members_ok = get_new_dict_full dict_ok members_ok 1"

definition dict_ref :: "dict option \<Rightarrow> dict option" where
  "dict_ref this = map_option (\<lambda>d. d\<lparr>dict_refcount := dict_refcount d + 1\<rparr>) this"

definition dict_new :: "bool \<Rightarrow> bool \<Rightarrow> dict option" where
  "dict_new dict_ok members_ok =
     (case get_new_dict_full dict_ok members_ok 1 of None \<Rightarrow> None | Some d \<Rightarrow> dict_ref (Some d))"

section \<open>Life cycle of a value\<close>

definition data_ref :: "addr \<Rightarrow> store \<Rightarrow> (store \<times> addr) option" where
  "data_ref a w =
     (if a = 0 then Some (w, 0)
      else do {
        d \<leftarrow> datas w a;
        Some (put_data a (d\<lparr>data_refcount := data_refcount d + 1\<rparr>) w, a)
      })"

text \<open>The buffers that \<open>data_destroy\<close> frees.\<close>

definition data_buffers :: "data \<Rightarrow> addr list" where
  "data_buffers d =
     (if data_is_static d then []
      else (case data_data d of None \<Rightarrow> [] | Some p \<Rightarrow> [ptr_addr p])
        @ (case data_vec d of None \<Rightarrow> [] | Some (v, _) \<Rightarrow> [v]))"

definition data_destroy :: "addr \<Rightarrow> store \<Rightarrow> store option" where
  "data_destroy a w =
     (if a = 0 then Some w
      else do {
        d \<leftarrow> datas w a;
        Some (w\<lparr>datas := (datas w)(a := if data_is_const d
                  then Some (d\<lparr>data_len := signed_take_bit 31 0xbabababa\<rparr>) else None),
                freed := freed w @ data_buffers d\<rparr>)
      })"

definition data_unref :: "addr \<Rightarrow> store \<Rightarrow> store option" where
  "data_unref a w =
     (if a = 0 then Some w
      else do {
        d \<leftarrow> datas w a;
        let ref = data_refcount d - 1;
        let w' = put_data a (d\<lparr>data_refcount := ref\<rparr>) w;
        if ref = 0 then data_destroy a w' else Some w'
      })"

definition is_data_equal :: "addr \<Rightarrow> addr \<Rightarrow> store \<Rightarrow> int option" where
  "is_data_equal one two w =
     (if one = 0 \<or> two = 0 then Some 1
      else do {
        d1 \<leftarrow> datas w one;
        d2 \<leftarrow> datas w two;
        (case (data_data d1, data_data d2) of
           (Some p, Some q) \<Rightarrow>
             Some (if one = two then 1
                   else if data_len d1 \<noteq> data_len d2 then 0
                   else if ptr_addr p = ptr_addr q then 1
                   else if memcmp (ptr_bytes p) (ptr_bytes q) (nat (data_len d1)) = 0 then 1
                   else 0)
         | _ \<Rightarrow> Some 1)
      })"

text \<open>
  \<open>memdup\<close> of \<open>common-utils.h\<close>: \<open>m\<close> is what \<^verbatim>\<open>MALLOC\<close> returns.  Copying more bytes than there are, or a
  negative number, is undefined.
\<close>

definition memdup :: "addr \<Rightarrow> cptr \<Rightarrow> int \<Rightarrow> cptr option option" where
  "memdup m p n =
     (if m = 0 then Some None
      else if n < 0 \<or> int (length (ptr_bytes p)) < n then None
      else Some (Some \<lparr>ptr_addr = m, ptr_bytes = take (nat n) (ptr_bytes p)\<rparr>))"

record copy_allocs =
  copy_data :: addr
  copy_bytes :: addr
  copy_vec :: addr

definition data_copy :: "copy_allocs \<Rightarrow> addr \<Rightarrow> store \<Rightarrow> (store \<times> addr) option" where
  "data_copy al old w =
     (if old = 0 then Some (w, 0)
      else if copy_data al = 0 then Some (w, 0)
      else do {
        d \<leftarrow> datas w old;
        bytes \<leftarrow> (case data_data d of
                     None \<Rightarrow> Some None
                   | Some p \<Rightarrow> memdup (copy_bytes al) p (data_len d));
        v \<leftarrow> (case data_vec d of
                 None \<Rightarrow> Some None
               | Some (_, iov) \<Rightarrow>
                   if copy_vec al = 0 then Some None
                   else if data_len d < 0 \<or> int (length iov) < data_len d then None
                   else Some (Some (copy_vec al, take (nat (data_len d)) iov)));
        let w' = put_data (copy_data al)
                   (zero_data\<lparr>data_len := data_len d, data_data := bytes, data_vec := v\<rparr>) w;
        Some (w', if data_data d = None \<and> data_vec d = None then 0 else copy_data al)
      })"

section \<open>Lookup\<close>

definition key_hash :: "cstring \<Rightarrow> u32" where
  "key_hash key = SuperFastHash (Some key) (int (length key))"

text \<open>\<^verbatim>\<open>uint32_t % int32_t\<close>: the divisor is converted to unsigned.\<close>

definition lookup_index :: "dict \<Rightarrow> cstring \<Rightarrow> nat option" where
  "lookup_index this key =
     (let hs = word_of_int (dict_hash_size this) :: u32; i = unat (key_hash key mod hs)
      in if hs = 0 \<or> length (dict_members this) \<le> i then None else Some i)"

fun chain_lookup :: "store \<Rightarrow> cstring \<Rightarrow> addr list \<Rightarrow> addr option" where
  "chain_lookup w key [] = Some 0"
| "chain_lookup w key (a # as) =
     (case pairs w a of
        None \<Rightarrow> None
      | Some p \<Rightarrow> if pair_key p = Some key then Some a else chain_lookup w key as)"

definition dict_lookup :: "store \<Rightarrow> dict option \<Rightarrow> cstring option \<Rightarrow> addr option" where
  "dict_lookup w this key =
     (case (this, key) of
        (Some d, Some k) \<Rightarrow> do {
          i \<leftarrow> lookup_index d k;
          chain_lookup w k (dict_members d ! i)
        }
      | _ \<Rightarrow> Some 0)"

definition dict_get :: "store \<Rightarrow> dict option \<Rightarrow> cstring option \<Rightarrow> addr option" where
  "dict_get w this key =
     (if this = None \<or> key = None then Some 0
      else do {
        pair \<leftarrow> dict_lookup w this key;
        if pair \<noteq> 0 then map_option pair_value (pairs w pair) else Some 0
      })"

section \<open>Insertion\<close>

text \<open>The remainder of C, and the index as \<open>_dict_set\<close> computes it, from a signed \<^verbatim>\<open>tmp\<close>.\<close>

definition c_rem :: "int \<Rightarrow> int \<Rightarrow> int" where
  "c_rem a b = sgn a * (\<bar>a\<bar> mod \<bar>b\<bar>)"

definition set_hashval :: "dict \<Rightarrow> cstring \<Rightarrow> int" where
  "set_hashval this key = c_rem (sint (key_hash key)) (dict_hash_size this)"

record set_allocs =
  set_asprintf :: bool
  set_pair :: addr
  set_key :: bool

text \<open>\<^verbatim>\<open>asprintf\<close> of \<^verbatim>\<open>ref:%p\<close>.\<close>

definition ref_key :: "addr \<Rightarrow> cstring" where
  "ref_key value = [114, 101, 102, 58, 48, 120] @ print_base 16 value"

definition dict_set_key :: "set_allocs \<Rightarrow> store \<Rightarrow> dict \<Rightarrow> cstring \<Rightarrow> addr \<Rightarrow> (store \<times> dict \<times> int) option" where
  "dict_set_key al w this key value =
     do {
       let hashval = set_hashval this key;
       pair \<leftarrow> dict_lookup w (Some this) (Some key);
       if pair \<noteq> 0 then do {
         p \<leftarrow> pairs w pair;
         (w1, v) \<leftarrow> data_ref value w;
         w2 \<leftarrow> data_unref (pair_value p) (put_pair pair (p\<lparr>pair_value := v\<rparr>) w1);
         Some (w2, this, 0)
       }
       else if set_pair al = 0 then Some (w, this, -1)
       else if \<not> set_key al then
         Some (put_pair (set_pair al) \<lparr>pair_key = None, pair_value = 0\<rparr> w, this, -1)
       else do {
         (w1, v) \<leftarrow> data_ref value w;
         if hashval < 0 \<or> int (length (dict_members this)) \<le> hashval then None
         else
           let i = nat hashval; new = set_pair al
           in Some (put_pair new \<lparr>pair_key = Some key, pair_value = v\<rparr> w1,
                this\<lparr>dict_members := (dict_members this)[i := new # dict_members this ! i],
                     dict_members_list := new # dict_members_list this,
                     dict_count := dict_count this + 1\<rparr>, 0)
       }
     }"

definition dict_set_raw ::
  "set_allocs \<Rightarrow> store \<Rightarrow> dict \<Rightarrow> cstring option \<Rightarrow> addr \<Rightarrow> (store \<times> dict \<times> int) option" where
  "dict_set_raw al w this key value =
     (case key of
        Some k \<Rightarrow> dict_set_key al w this k value
      | None \<Rightarrow> if set_asprintf al then dict_set_key al w this (ref_key value) value
               else Some (w, this, -1))"

definition dict_set ::
  "set_allocs \<Rightarrow> store \<Rightarrow> dict option \<Rightarrow> cstring option \<Rightarrow> addr \<Rightarrow> (store \<times> dict option \<times> int) option" where
  "dict_set al w this key value =
     (case this of
        None \<Rightarrow> Some (w, None, -1)
      | Some d \<Rightarrow>
          if value = 0 then Some (w, this, -1)
          else map_option (\<lambda>(w', d', ret). (w', Some d', ret)) (dict_set_raw al w d key value))"

section \<open>Deletion\<close>

text \<open>\<open>dict_del\<close> compares keys without the test for a null key.\<close>

fun chain_strcmp :: "store \<Rightarrow> cstring \<Rightarrow> addr list \<Rightarrow> addr option" where
  "chain_strcmp w key [] = Some 0"
| "chain_strcmp w key (a # as) =
     (case pairs w a of
        None \<Rightarrow> None
      | Some p \<Rightarrow>
          (case pair_key p of
             None \<Rightarrow> None
           | Some k \<Rightarrow> if k = key then Some a else chain_strcmp w key as))"

definition dict_del :: "store \<Rightarrow> dict option \<Rightarrow> cstring option \<Rightarrow> (store \<times> dict option) option" where
  "dict_del w this key =
     (case (this, key) of
        (Some d, Some k) \<Rightarrow> do {
          i \<leftarrow> lookup_index d k;
          pair \<leftarrow> chain_strcmp w k (dict_members d ! i);
          if pair = 0 then Some (w, this)
          else do {
            p \<leftarrow> pairs w pair;
            w' \<leftarrow> data_unref (pair_value p) w;
            Some (drop_pair pair w',
                  Some (d\<lparr>dict_members := (dict_members d)[i := remove1 pair (dict_members d ! i)],
                          dict_members_list := remove1 pair (dict_members_list d),
                          dict_count := dict_count d - 1\<rparr>))
          }
        }
      | _ \<Rightarrow> Some (w, this))"

section \<open>Destruction\<close>

fun destroy_pairs :: "addr list \<Rightarrow> store \<Rightarrow> store option" where
  "destroy_pairs [] w = Some w"
| "destroy_pairs (a # as) w =
     (case pairs w a of
        None \<Rightarrow> None
      | Some p \<Rightarrow>
          (case data_unref (pair_value p) w of
             None \<Rightarrow> None
           | Some w' \<Rightarrow> destroy_pairs as (drop_pair a w')))"

text \<open>A dictionary that is not static is freed: the second component is then \<open>None\<close>.\<close>

definition dict_destroy :: "store \<Rightarrow> dict option \<Rightarrow> (store \<times> dict option) option" where
  "dict_destroy w this =
     (case this of
        None \<Rightarrow> Some (w, None)
      | Some d \<Rightarrow>
          map_option (\<lambda>w'. (w', if dict_is_static d then this else None))
            (destroy_pairs (dict_members_list d) w))"

definition dict_unref :: "store \<Rightarrow> dict option \<Rightarrow> (store \<times> dict option) option" where
  "dict_unref w this =
     (case this of
        None \<Rightarrow> Some (w, None)
      | Some d \<Rightarrow>
          let ref = dict_refcount d - 1; d' = d\<lparr>dict_refcount := ref\<rparr>
          in if ref = 0 then dict_destroy w (Some d') else Some (w, Some d'))"

section \<open>Iteration and copying\<close>

text \<open>
  The callback gets the key, the value and the state, which holds the store and what the
  callback's own argument points to.
\<close>

fun foreach_pairs ::
  "(cstring option \<Rightarrow> addr \<Rightarrow> store \<times> 'x \<Rightarrow> (store \<times> 'x) option) \<Rightarrow> addr list
   \<Rightarrow> store \<times> 'x \<Rightarrow> (store \<times> 'x) option" where
  "foreach_pairs fn [] s = Some s"
| "foreach_pairs fn (a # as) s =
     (case pairs (fst s) a of
        None \<Rightarrow> None
      | Some p \<Rightarrow>
          (case fn (pair_key p) (pair_value p) s of
             None \<Rightarrow> None
           | Some s' \<Rightarrow> foreach_pairs fn as s'))"

definition dict_foreach ::
  "(cstring option \<Rightarrow> addr \<Rightarrow> store \<times> 'x \<Rightarrow> (store \<times> 'x) option) \<Rightarrow> dict option
   \<Rightarrow> store \<times> 'x option \<Rightarrow> (store \<times> 'x option) option" where
  "dict_foreach fn dict s =
     (case s of
        (w, None) \<Rightarrow> Some s
      | (w, Some x) \<Rightarrow>
          (case dict of
             None \<Rightarrow> None
           | Some d \<Rightarrow>
               map_option (\<lambda>(w', x'). (w', Some x')) (foreach_pairs fn (dict_members_list d) (w, x))))"

text \<open>The allocations of the \<open>n\<close>-th call of \<open>dict_set\<close> are \<open>als n\<close>.\<close>

definition copy_callback ::
  "(nat \<Rightarrow> set_allocs) \<Rightarrow> cstring option \<Rightarrow> addr \<Rightarrow> store \<times> (dict \<times> nat) \<Rightarrow> (store \<times> (dict \<times> nat)) option" where
  "copy_callback als key value s =
     (case s of (w, (new, n)) \<Rightarrow>
        (case dict_set (als n) w (Some new) key value of
           Some (w', Some new', _) \<Rightarrow> Some (w', (new', Suc n))
         | _ \<Rightarrow> None))"

definition copy_pairs ::
  "(nat \<Rightarrow> set_allocs) \<Rightarrow> store \<Rightarrow> dict \<Rightarrow> dict option \<Rightarrow> (store \<times> dict option) option" where
  "copy_pairs als w dict new =
     map_option (\<lambda>(w', r). (w', map_option fst r))
       (dict_foreach (copy_callback als) (Some dict) (w, map_option (\<lambda>d. (d, 0)) new))"

definition dict_copy ::
  "bool \<Rightarrow> bool \<Rightarrow> (nat \<Rightarrow> set_allocs) \<Rightarrow> store \<Rightarrow> dict option \<Rightarrow> dict option
   \<Rightarrow> (store \<times> dict option) option" where
  "dict_copy dict_ok members_ok als w dict new =
     (case dict of
        None \<Rightarrow> Some (w, None)
      | Some d \<Rightarrow>
          copy_pairs als w d
            (case new of None \<Rightarrow> get_new_dict_full dict_ok members_ok (dict_hash_size d) | Some n \<Rightarrow> Some n))"

definition dict_copy_with_ref ::
  "bool \<Rightarrow> bool \<Rightarrow> (nat \<Rightarrow> set_allocs) \<Rightarrow> store \<Rightarrow> dict option \<Rightarrow> dict option
   \<Rightarrow> (store \<times> dict option) option" where
  "dict_copy_with_ref dict_ok members_ok als w dict new =
     (case dict of
        None \<Rightarrow> Some (w, new)
      | Some d \<Rightarrow>
          (case new of
             Some n \<Rightarrow> copy_pairs als w d (Some n)
           | None \<Rightarrow>
               (case dict_new dict_ok members_ok of
                  None \<Rightarrow> Some (w, None)
                | Some n \<Rightarrow> copy_pairs als w d (Some n))))"

section \<open>Reference counts\<close>

text \<open>
  The references to a value are those of the pairs of the store and those that code outside the
  dictionaries holds, counted by \<open>ext\<close>.  The invariant of the store: the reference count of every live
  value is exactly the number of references, and nothing refers to a value that is not live.
\<close>

definition pair_refs :: "store \<Rightarrow> addr \<Rightarrow> addr set" where
  "pair_refs w v = {a. \<exists>p. pairs w a = Some p \<and> pair_value p = v}"

definition refs :: "(addr \<Rightarrow> nat) \<Rightarrow> store \<Rightarrow> addr \<Rightarrow> nat" where
  "refs ext w v = ext v + card (pair_refs w v)"

definition counted :: "(addr \<Rightarrow> nat) \<Rightarrow> store \<Rightarrow> addr \<Rightarrow> bool" where
  "counted ext w v \<longleftrightarrow> (case datas w v of
       None \<Rightarrow> v = 0 \<or> refs ext w v = 0
     | Some d \<Rightarrow> v \<noteq> 0 \<and> data_refcount d = int (refs ext w v))"

definition store_inv :: "(addr \<Rightarrow> nat) \<Rightarrow> store \<Rightarrow> bool" where
  "store_inv ext w \<longleftrightarrow> finite (dom (pairs w)) \<and> pairs w 0 = None \<and> (\<forall>v. counted ext w v)"

lemma store_simps [simp]:
  "pairs (put_data a d w) = pairs w" "datas (put_data a d w) = (datas w)(a \<mapsto> d)"
  "freed (put_data a d w) = freed w"
  "pairs (put_pair a p w) = (pairs w)(a \<mapsto> p)" "datas (put_pair a p w) = datas w"
  "freed (put_pair a p w) = freed w"
  "pairs (drop_pair a w) = (pairs w)(a := None)" "datas (drop_pair a w) = datas w"
  "freed (drop_pair a w) = freed w"
  by (simp_all add: put_data_def put_pair_def drop_pair_def)

lemma pair_refs_simps [simp]:
  "pair_refs (put_data a d w) v = pair_refs w v"
  "pair_refs (w\<lparr>datas := ds, freed := fr\<rparr>) v = pair_refs w v"
  by (simp_all add: pair_refs_def)

lemma finite_pair_refs: "store_inv ext w \<Longrightarrow> finite (pair_refs w v)"
  by (rule finite_subset [of _ "dom (pairs w)"]) (auto simp: pair_refs_def store_inv_def)

lemma pair_refs_put:
  "pair_refs (put_pair a p w) v = (if pair_value p = v then insert a (pair_refs w v) else pair_refs w v - {a})"
  by (auto simp: pair_refs_def)

lemma pair_refs_drop: "pair_refs (drop_pair a w) v = pair_refs w v - {a}"
  by (auto simp: pair_refs_def)

lemma store_inv_counted: "store_inv ext w \<Longrightarrow> counted ext w v"
  by (simp add: store_inv_def)

lemma store_inv_live:
  "\<lbrakk>store_inv ext w; v \<noteq> 0; 0 < refs ext w v\<rbrakk> \<Longrightarrow>
     \<exists>d. datas w v = Some d \<and> data_refcount d = int (refs ext w v)"
  using store_inv_counted [of ext w v] by (cases "datas w v") (simp_all add: counted_def)

text \<open>The invariant is kept when every count changes like the references.\<close>

lemma store_invI:
  assumes "store_inv ext w" and "finite (dom (pairs w'))" and "pairs w' 0 = None"
    and "\<And>v. v \<noteq> u \<Longrightarrow> v \<noteq> 0 \<Longrightarrow> datas w' v = datas w v \<and> refs ext' w' v = refs ext w v"
    and "datas w' 0 = None" and "u \<noteq> 0 \<Longrightarrow> counted ext' w' u"
  shows "store_inv ext' w'"
proof -
  have "counted ext' w' v" for v
  proof (cases "v = u \<or> v = 0")
    case True
    have "counted ext' w' 0" using assms(5) by (simp add: counted_def)
    with True assms(6) show ?thesis by (cases "v = 0") auto
  next
    case False
    then show ?thesis using assms(4) [of v] store_inv_counted [OF assms(1), of v]
      by (auto simp: counted_def split: option.split)
  qed
  with assms(2,3) show ?thesis by (simp add: store_inv_def)
qed

lemma store_inv_null: "store_inv ext w \<Longrightarrow> datas w 0 = None \<and> pairs w 0 = None \<and> finite (dom (pairs w))"
  using store_inv_counted [of ext w 0] by (auto simp: counted_def store_inv_def split: option.splits)

lemma refs_pair: "\<lbrakk>store_inv ext w; pairs w a = Some p\<rbrakk> \<Longrightarrow> 0 < refs ext w (pair_value p)"
  using finite_pair_refs [of ext w "pair_value p"] by (auto simp: refs_def pair_refs_def card_gt_0_iff)

text \<open>Taking and dropping a reference held outside.\<close>

lemma data_ref_inv:
  assumes "store_inv ext w" and "v \<noteq> 0" and "datas w v = Some d"
  shows "\<exists>w'. data_ref v w = Some (w', v) \<and> store_inv (ext(v := ext v + 1)) w' \<and> pairs w' = pairs w
    \<and> datas w' = (datas w)(v \<mapsto> d\<lparr>data_refcount := data_refcount d + 1\<rparr>) \<and> freed w' = freed w"
proof -
  have "store_inv (ext(v := ext v + 1)) (put_data v (d\<lparr>data_refcount := data_refcount d + 1\<rparr>) w)"
    using store_inv_null [OF assms(1)] store_inv_counted [OF assms(1), of v] assms(2,3)
    by (intro store_invI [OF assms(1), of _ v]) (auto simp: refs_def counted_def)
  with assms(2,3) show ?thesis by (simp add: data_ref_def)
qed

lemma data_unref_inv:
  assumes "store_inv ext w" and "v \<noteq> 0" and "0 < ext v"
  shows "\<exists>w'. data_unref v w = Some w' \<and> store_inv (ext(v := ext v - 1)) w' \<and> pairs w' = pairs w
    \<and> (\<forall>u. u \<noteq> v \<longrightarrow> datas w' u = datas w u)
    \<and> (\<forall>d. datas w v = Some d \<longrightarrow> 1 < data_refcount d \<longrightarrow>
          datas w' v = Some (d\<lparr>data_refcount := data_refcount d - 1\<rparr>) \<and> freed w' = freed w)"
proof -
  obtain d where d: "datas w v = Some d" "data_refcount d = int (refs ext w v)"
    using store_inv_live [OF assms(1,2)] assms(3) by (auto simp: refs_def)
  define w' where "w' = (if refs ext w v = 1
      then w\<lparr>datas := (datas w)(v := if data_is_const d
                then Some (d\<lparr>data_refcount := 0, data_len := signed_take_bit 31 0xbabababa\<rparr>) else None),
             freed := freed w @ data_buffers d\<rparr>
      else put_data v (d\<lparr>data_refcount := data_refcount d - 1\<rparr>) w)"
  have "data_unref v w = Some w'"
    using assms(2) d by (auto simp: data_unref_def data_destroy_def w'_def Let_def put_data_def data_buffers_def)
  moreover have "store_inv (ext(v := ext v - 1)) w'"
    using store_inv_null [OF assms(1)] assms(2,3) d
    by (intro store_invI [OF assms(1), of _ v]) (auto simp: refs_def counted_def w'_def)
  moreover have "pairs w' = pairs w \<and> (\<forall>u. u \<noteq> v \<longrightarrow> datas w' u = datas w u)"
    by (simp add: w'_def)
  moreover have "\<forall>e. datas w v = Some e \<longrightarrow> 1 < data_refcount e \<longrightarrow>
          datas w' v = Some (e\<lparr>data_refcount := data_refcount e - 1\<rparr>) \<and> freed w' = freed w"
    using d by (auto simp: w'_def)
  ultimately show ?thesis by blast
qed

text \<open>Moving a reference between the outside and a pair.\<close>

lemma store_inv_new_pair:
  assumes "store_inv ext w" and "a \<noteq> 0" and "pairs w a = None"
    and "pair_value p \<noteq> 0 \<Longrightarrow> 0 < ext (pair_value p)"
  shows "store_inv (ext(pair_value p := ext (pair_value p) - 1)) (put_pair a p w)"
proof -
  have "a \<notin> pair_refs w v" for v using assms(3) by (simp add: pair_refs_def)
  then have "card (pair_refs (put_pair a p w) v) = card (pair_refs w v) + (if pair_value p = v then 1 else 0)" for v
    using finite_pair_refs [OF assms(1)] by (auto simp: pair_refs_put)
  then have "v \<noteq> 0 \<Longrightarrow> refs (ext(pair_value p := ext (pair_value p) - 1)) (put_pair a p w) v = refs ext w v" for v
    using assms(4) by (auto simp: refs_def)
  then show ?thesis using assms(2) store_inv_null [OF assms(1)]
    by (intro store_invI [OF assms(1), of _ 0]) auto
qed

lemma store_inv_drop_pair:
  assumes "store_inv ext w" and "pairs w a = Some p"
  shows "store_inv (ext(pair_value p := ext (pair_value p) + 1)) (drop_pair a w)"
proof -
  have "a \<in> pair_refs w (pair_value p)" and "v \<noteq> pair_value p \<Longrightarrow> a \<notin> pair_refs w v" for v
    using assms(2) by (auto simp: pair_refs_def)
  then have "card (pair_refs w v) = card (pair_refs (drop_pair a w) v) + (if pair_value p = v then 1 else 0)" for v
    using finite_pair_refs [OF assms(1)] card_Suc_Diff1 [of "pair_refs w v" a]
    by (cases "pair_value p = v") (auto simp: pair_refs_drop simp del: card_Diff_insert)
  then have "refs (ext(pair_value p := ext (pair_value p) + 1)) (drop_pair a w) v = refs ext w v" for v
    by (auto simp: refs_def)
  then show ?thesis using store_inv_null [OF assms(1)]
    by (intro store_invI [OF assms(1), of _ 0]) auto
qed

lemma put_pair_drop: "put_pair a q (drop_pair a w) = put_pair a q w"
  by (simp add: put_pair_def drop_pair_def)

lemma data_unref_drop:
  "data_unref v (drop_pair a w) = map_option (drop_pair a) (data_unref v w)"
  by (auto simp: data_unref_def data_destroy_def drop_pair_def put_data_def Let_def split: bind_splits)

section \<open>The invariant of a dictionary\<close>

definition key_of :: "store \<Rightarrow> addr \<Rightarrow> cstring option" where
  "key_of w a = (case pairs w a of None \<Rightarrow> None | Some p \<Rightarrow> pair_key p)"

definition value_of :: "store \<Rightarrow> addr \<Rightarrow> addr" where
  "value_of w a = (case pairs w a of None \<Rightarrow> 0 | Some p \<Rightarrow> pair_value p)"

definition dict_ok :: "store \<Rightarrow> dict \<Rightarrow> bool" where
  "dict_ok w d \<longleftrightarrow> 0 < dict_hash_size d \<and> dict_hash_size d < 2 ^ 31
     \<and> length (dict_members d) = nat (dict_hash_size d)
     \<and> dict_count d = int (length (dict_members_list d))
     \<and> distinct (dict_members_list d)
     \<and> (\<forall>a \<in> set (dict_members_list d). key_of w a \<noteq> None \<and> value_of w a \<noteq> 0
          \<and> (\<exists>i < length (dict_members d). a \<in> set (dict_members d ! i)))
     \<and> (\<forall>i < length (dict_members d). distinct (dict_members d ! i)
          \<and> (\<forall>a \<in> set (dict_members d ! i). a \<in> set (dict_members_list d)
               \<and> lookup_index d (the (key_of w a)) = Some i))
     \<and> inj_on (key_of w) (set (dict_members_list d))"

text \<open>The pairs of a dictionary in list order, and the map it stands for.\<close>

definition dict_alist :: "store \<Rightarrow> dict \<Rightarrow> (cstring \<times> addr) list" where
  "dict_alist w d = map (\<lambda>a. (the (key_of w a), value_of w a)) (dict_members_list d)"

definition dict_map :: "store \<Rightarrow> dict \<Rightarrow> cstring \<rightharpoonup> addr" where
  "dict_map w d = map_of (dict_alist w d)"

lemma lookup_index_total:
  assumes "dict_ok w d"
  obtains i where "lookup_index d k = Some i" and "i < length (dict_members d)"
proof -
  let ?n = "word_of_int (dict_hash_size d) :: u32"
  have "uint ?n = dict_hash_size d" using assms by (simp add: dict_ok_def uint_word_of_int)
  then have n: "unat ?n = length (dict_members d)" "unat ?n \<noteq> 0"
    using assms by (simp_all add: dict_ok_def unat_eq_nat_uint)
  then have "unat (key_hash k mod ?n) < length (dict_members d)" by (simp add: unat_mod_distrib)
  moreover have "?n \<noteq> 0" using n(2) by (metis unsigned_0)
  ultimately show thesis using that by (simp add: lookup_index_def Let_def)
qed

lemma lookup_index_cong:
  "\<lbrakk>dict_hash_size d' = dict_hash_size d; length (dict_members d') = length (dict_members d)\<rbrakk>
   \<Longrightarrow> lookup_index d' = lookup_index d"
  by (auto simp: lookup_index_def Let_def fun_eq_iff)

lemma dict_ok_member:
  assumes "dict_ok w d" and "a \<in> set (dict_members_list d)"
  obtains k p where "pairs w a = Some p" and "pair_key p = Some k" and "pair_value p \<noteq> 0"
    and "key_of w a = Some k" and "value_of w a = pair_value p"
proof -
  have "key_of w a \<noteq> None" "value_of w a \<noteq> 0" using assms by (auto simp: dict_ok_def)
  then show thesis using that
    by (cases "pairs w a") (auto simp: key_of_def value_of_def)
qed

lemma dict_ok_chain:
  assumes "dict_ok w d" and "i < length (dict_members d)" and "a \<in> set (dict_members d ! i)"
  shows "a \<in> set (dict_members_list d)" and "lookup_index d (the (key_of w a)) = Some i"
  using assms unfolding dict_ok_def by blast+

text \<open>A pair is in the bucket of its key.\<close>

lemma dict_ok_bucket:
  assumes "dict_ok w d" and "lookup_index d k = Some i" and "a \<in> set (dict_members_list d)"
    and "key_of w a = Some k"
  shows "a \<in> set (dict_members d ! i)"
proof -
  obtain j where j: "j < length (dict_members d)" "a \<in> set (dict_members d ! j)"
    using assms(1,3) unfolding dict_ok_def by blast
  then have "lookup_index d k = Some j" using dict_ok_chain(2) [OF assms(1) j] assms(4) by simp
  with j assms(2) show ?thesis by simp
qed

lemma key_unique:
  "\<lbrakk>dict_ok w d; a \<in> set (dict_members_list d); b \<in> set (dict_members_list d); key_of w a = key_of w b\<rbrakk>
   \<Longrightarrow> a = b"
  by (auto simp: dict_ok_def inj_on_def)

lemma dict_alist_distinct:
  assumes "dict_ok w d"
  shows "distinct (map fst (dict_alist w d))"
proof -
  have "inj_on (the \<circ> key_of w) (set (dict_members_list d))"
  proof (rule inj_onI)
    fix a b assume ab: "a \<in> set (dict_members_list d)" "b \<in> set (dict_members_list d)"
      "(the \<circ> key_of w) a = (the \<circ> key_of w) b"
    obtain k where k: "key_of w a = Some k" using dict_ok_member [OF assms ab(1)] by blast
    obtain l where l: "key_of w b = Some l" using dict_ok_member [OF assms ab(2)] by blast
    show "a = b" using ab k l by (intro key_unique [OF assms]) auto
  qed
  then show ?thesis using assms by (simp add: dict_alist_def distinct_map dict_ok_def o_def)
qed

lemma dict_map_Some:
  assumes "dict_ok w d"
  shows "dict_map w d k = Some v \<longleftrightarrow>
    (\<exists>a \<in> set (dict_members_list d). key_of w a = Some k \<and> value_of w a = v)"
proof -
  have k: "the (key_of w a) = k \<longleftrightarrow> key_of w a = Some k" if "a \<in> set (dict_members_list d)" for a
    using dict_ok_member [OF assms that] by (metis option.sel)
  have "dict_map w d k = Some v \<longleftrightarrow> (k, v) \<in> set (dict_alist w d)"
    unfolding dict_map_def by (rule map_of_eq_Some_iff [OF dict_alist_distinct [OF assms]])
  also have "\<dots> \<longleftrightarrow> (\<exists>a \<in> set (dict_members_list d). key_of w a = Some k \<and> value_of w a = v)"
    using k by (auto simp: dict_alist_def)
  finally show ?thesis .
qed

lemma chain_lookup_find:
  "\<forall>a \<in> set as. key_of w a \<noteq> None \<Longrightarrow>
     chain_lookup w k as = Some (case find (\<lambda>a. key_of w a = Some k) as of None \<Rightarrow> 0 | Some a \<Rightarrow> a)
     \<and> chain_strcmp w k as = chain_lookup w k as"
  by (induction as) (auto simp: key_of_def split: option.splits)

text \<open>Lookup finds the pair of the key, whichever it is.\<close>

lemma dict_lookup_cases:
  assumes "dict_ok w d" and "pairs w 0 = None"
  obtains (found) i a where "lookup_index d k = Some i" "i < length (dict_members d)"
      "dict_lookup w (Some d) (Some k) = Some a" "chain_strcmp w k (dict_members d ! i) = Some a"
      "a \<noteq> 0" "a \<in> set (dict_members_list d)" "a \<in> set (dict_members d ! i)" "key_of w a = Some k"
      "dict_map w d k = Some (value_of w a)"
    | (absent) i where "lookup_index d k = Some i" "i < length (dict_members d)"
      "dict_lookup w (Some d) (Some k) = Some 0" "chain_strcmp w k (dict_members d ! i) = Some 0"
      "dict_map w d k = None" "\<forall>a \<in> set (dict_members_list d). key_of w a \<noteq> Some k"
proof -
  obtain i where i: "lookup_index d k = Some i" "i < length (dict_members d)"
    by (rule lookup_index_total [OF assms(1)])
  have sub: "set (dict_members d ! i) \<subseteq> set (dict_members_list d)" using assms(1) i by (auto simp: dict_ok_def)
  have keys: "\<forall>a \<in> set (dict_members_list d). key_of w a \<noteq> None" using assms(1) by (auto simp: dict_ok_def)
  with sub have ch: "chain_lookup w k (dict_members d ! i) =
        Some (case find (\<lambda>a. key_of w a = Some k) (dict_members d ! i) of None \<Rightarrow> 0 | Some a \<Rightarrow> a)"
      "chain_strcmp w k (dict_members d ! i) = chain_lookup w k (dict_members d ! i)"
    using chain_lookup_find [of "dict_members d ! i" w k] by blast+
  have dl: "dict_lookup w (Some d) (Some k) = chain_lookup w k (dict_members d ! i)"
    using i by (simp add: dict_lookup_def)
  show thesis
  proof (cases "find (\<lambda>a. key_of w a = Some k) (dict_members d ! i)")
    case None
    then have no: "\<forall>a \<in> set (dict_members_list d). key_of w a \<noteq> Some k"
      using dict_ok_bucket [OF assms(1) i(1)] by (auto simp: find_None_iff)
    then have "dict_map w d k = None"
      using dict_map_Some [OF assms(1), of k] by (metis not_None_eq)
    with None no i ch dl show thesis by (intro absent) auto
  next
    case (Some a)
    then have a: "a \<in> set (dict_members d ! i)" "key_of w a = Some k"
      by (auto simp: find_Some_iff)
    with sub have "a \<in> set (dict_members_list d)" by blast
    moreover have "a \<noteq> 0" using a(2) assms(2) by (cases "a = 0") (auto simp: key_of_def)
    moreover have "dict_map w d k = Some (value_of w a)"
      using dict_map_Some [OF assms(1)] a(2) calculation(1) by blast
    ultimately show thesis using Some a i ch dl by (intro found [of i a]) auto
  qed
qed

section \<open>The operations keep the invariant\<close>

lemma dict_ok_cong:
  assumes "dict_ok w d"
    and "\<And>a. a \<in> set (dict_members_list d) \<Longrightarrow> key_of w' a = key_of w a \<and> value_of w' a \<noteq> 0"
  shows "dict_ok w' d"
proof -
  have "inj_on (key_of w') (set (dict_members_list d))"
    using assms by (auto simp: dict_ok_def inj_on_def)
  moreover have "lookup_index d (the (key_of w' a)) = Some i"
    if "i < length (dict_members d)" "a \<in> set (dict_members d ! i)" for i a
    using dict_ok_chain [OF assms(1) that] assms(2) by simp
  ultimately show ?thesis using assms unfolding dict_ok_def by auto
qed

lemma dict_map_cong:
  "(\<And>a. a \<in> set (dict_members_list d) \<Longrightarrow> key_of w' a = key_of w a \<and> value_of w' a = value_of w a)
   \<Longrightarrow> dict_map w' d = dict_map w d"
  unfolding dict_map_def dict_alist_def by (rule arg_cong [of _ _ map_of], rule map_cong) simp_all

lemma key_of_put: "key_of (put_pair a p w) b = (if b = a then pair_key p else key_of w b)"
  by (simp add: key_of_def)

lemma value_of_put: "value_of (put_pair a p w) b = (if b = a then pair_value p else value_of w b)"
  by (simp add: value_of_def)

lemma key_value_cong:
  "pairs w' = pairs w \<Longrightarrow> key_of w' = key_of w \<and> value_of w' = value_of w"
  by (simp add: key_of_def value_of_def fun_eq_iff)

text \<open>A new pair at the head of its bucket and of the list.\<close>

lemma dict_ok_insert:
  assumes ok: "dict_ok w d" and new: "pairs w new = None" and i: "lookup_index d k = Some i" "i < length (dict_members d)"
    and absent: "\<forall>a \<in> set (dict_members_list d). key_of w a \<noteq> Some k" and v: "v \<noteq> 0"
    and w': "w' = put_pair new \<lparr>pair_key = Some k, pair_value = v\<rparr> w"
    and d': "d' = d\<lparr>dict_members := (dict_members d)[i := new # dict_members d ! i],
          dict_members_list := new # dict_members_list d, dict_count := dict_count d + 1\<rparr>"
  shows "dict_ok w' d'" and "dict_map w' d' = (dict_map w d)(k \<mapsto> v)"
proof -
  have fresh: "new \<notin> set (dict_members_list d)"
  proof
    assume "new \<in> set (dict_members_list d)"
    then obtain p where "pairs w new = Some p" by (rule dict_ok_member [OF ok])
    with new show False by simp
  qed
  then have freshc: "new \<notin> set (dict_members d ! j)" if "j < length (dict_members d)" for j
    using dict_ok_chain(1) [OF ok that] by blast
  have old: "key_of w' a = key_of w a" "value_of w' a = value_of w a" if "a \<noteq> new" for a
    using that by (simp_all add: w' key_of_put value_of_put)
  have nw: "key_of w' new = Some k" "value_of w' new = v" by (simp_all add: w' key_of_put value_of_put)
  have mem: "dict_members d' ! j = (if j = i then new # dict_members d ! i else dict_members d ! j)"
    if "j < length (dict_members d)" for j
    using that i by (simp add: d' nth_list_update)
  have li: "lookup_index d' = lookup_index d" by (rule lookup_index_cong) (simp_all add: d')
  have list: "dict_members_list d' = new # dict_members_list d" by (simp add: d')
  have len: "length (dict_members d') = length (dict_members d)" by (simp add: d')
  have bucket: "\<exists>j < length (dict_members d'). a \<in> set (dict_members d' ! j)"
    if al: "a \<in> set (dict_members_list d')" for a
  proof (cases "a = new")
    case True then show ?thesis using i mem [of i] len by auto
  next
    case False
    then obtain j where "j < length (dict_members d)" "a \<in> set (dict_members d ! j)"
      using al ok unfolding dict_ok_def list by auto
    then show ?thesis using mem [of j] len by (intro exI [of _ j]) auto
  qed
  have chain: "distinct (dict_members d' ! j) \<and> (\<forall>a \<in> set (dict_members d' ! j).
      a \<in> set (dict_members_list d') \<and> lookup_index d' (the (key_of w' a)) = Some j)"
    if "j < length (dict_members d')" for j
  proof -
    have "distinct (dict_members d ! j)" using ok that len unfolding dict_ok_def by auto
    moreover have "\<forall>a \<in> set (dict_members d ! j). a \<noteq> new \<and> a \<in> set (dict_members_list d)
        \<and> lookup_index d (the (key_of w a)) = Some j"
      using dict_ok_chain [OF ok, of j] freshc that len by auto
    ultimately show ?thesis using mem [of j] that len i li list nw old by auto
  qed
  have inj: "inj_on (key_of w') (set (dict_members_list d'))"
  proof -
    have same: "key_of w' a = key_of w a" if "a \<in> set (dict_members_list d)" for a
      using that fresh by (intro old(1)) auto
    have "inj_on (key_of w) (set (dict_members_list d))" using ok by (simp add: dict_ok_def)
    then have "inj_on (key_of w') (set (dict_members_list d))"
      using inj_on_cong [of "set (dict_members_list d)" "key_of w'" "key_of w"] same by blast
    moreover have "key_of w' new \<notin> key_of w' ` set (dict_members_list d)"
      using same nw(1) absent by (auto simp: image_iff)
    ultimately show ?thesis by (simp add: list fresh)
  qed
  have keys: "key_of w' a \<noteq> None \<and> value_of w' a \<noteq> 0" if "a \<in> set (dict_members_list d')" for a
    using that nw old v ok unfolding list by (cases "a = new") (auto simp: dict_ok_def)
  show "dict_ok w' d'"
    unfolding dict_ok_def using bucket chain inj keys ok fresh by (auto simp: d' dict_ok_def)
  have "dict_map w' d = dict_map w d"
    using old fresh by (intro dict_map_cong) metis
  then show "dict_map w' d' = (dict_map w d)(k \<mapsto> v)"
    using nw by (simp add: dict_map_def dict_alist_def list)
qed

text \<open>A new value for an old key.\<close>

lemma dict_ok_update:
  assumes ok: "dict_ok w d" and a: "a \<in> set (dict_members_list d)" "key_of w a = Some k" "pairs w a = Some p"
    and v: "v \<noteq> 0" and w': "w' = put_pair a (p\<lparr>pair_value := v\<rparr>) w"
  shows "dict_ok w' d" and "dict_map w' d = (dict_map w d)(k \<mapsto> v)"
proof -
  have key: "key_of w' b = key_of w b" for b using a by (simp add: w' key_of_put) (simp add: key_of_def)
  have val: "value_of w' b = (if b = a then v else value_of w b)" for b by (simp add: w' value_of_put)
  show ok': "dict_ok w' d"
    using ok by (rule dict_ok_cong) (use ok key val v in \<open>auto simp: dict_ok_def\<close>)
  show "dict_map w' d = (dict_map w d)(k \<mapsto> v)"
  proof
    fix l
    have "dict_map w' d l = Some u \<longleftrightarrow> ((dict_map w d)(k \<mapsto> v)) l = Some u" for u
    proof (cases "l = k")
      case True
      have "dict_map w' d k = Some v"
        unfolding dict_map_Some [OF ok'] using a key val by (intro bexI [of _ a]) auto
      with True show ?thesis by simp
    next
      case False
      then have "b \<noteq> a" if "key_of w b = Some l" for b using that a(2) by auto
      then show ?thesis using False unfolding dict_map_Some [OF ok']
        by (simp add: dict_map_Some [OF ok] key val) metis
    qed
    then show "dict_map w' d l = ((dict_map w d)(k \<mapsto> v)) l" by (metis not_None_eq)
  qed
qed

text \<open>A pair taken out of its bucket and of the list.\<close>

lemma dict_ok_delete:
  assumes ok: "dict_ok w d" and a: "a \<in> set (dict_members_list d)" "key_of w a = Some k"
    and i: "lookup_index d k = Some i" "i < length (dict_members d)"
    and w': "pairs w' = (pairs w)(a := None)"
    and d': "d' = d\<lparr>dict_members := (dict_members d)[i := remove1 a (dict_members d ! i)],
          dict_members_list := remove1 a (dict_members_list d), dict_count := dict_count d - 1\<rparr>"
  shows "dict_ok w' d'" and "dict_map w' d' = (dict_map w d)(k := None)"
proof -
  have same: "key_of w' b = key_of w b" "value_of w' b = value_of w b" if "b \<noteq> a" for b
    using that by (simp_all add: w' key_of_def value_of_def)
  have dist: "distinct (dict_members_list d)" "\<And>j. j < length (dict_members d) \<Longrightarrow> distinct (dict_members d ! j)"
    using ok by (auto simp: dict_ok_def)
  have mem: "dict_members d' ! j = (if j = i then remove1 a (dict_members d ! i) else dict_members d ! j)"
    if "j < length (dict_members d)" for j
    using that i by (simp add: d' nth_list_update)
  have li: "lookup_index d' = lookup_index d" by (rule lookup_index_cong) (simp_all add: d')
  have list: "dict_members_list d' = remove1 a (dict_members_list d)" by (simp add: d')
  have len: "length (dict_members d') = length (dict_members d)" by (simp add: d')
  have lset: "set (dict_members_list d') = set (dict_members_list d) - {a}" using dist(1) by (simp add: list)
  have mset: "set (dict_members d' ! j) = set (dict_members d ! j) - {a}" if j: "j < length (dict_members d)" for j
  proof (cases "j = i")
    case True then show ?thesis using mem [OF j] dist(2) [OF j] by simp
  next
    case False
    then have "a \<notin> set (dict_members d ! j)"
      using dict_ok_chain(2) [OF ok j, of a] a(2) i(1) by auto
    then show ?thesis using mem [OF j] False by simp
  qed
  have keys: "key_of w' b \<noteq> None \<and> value_of w' b \<noteq> 0
      \<and> (\<exists>j < length (dict_members d'). b \<in> set (dict_members d' ! j))"
    if b: "b \<in> set (dict_members_list d')" for b
  proof -
    have b': "b \<in> set (dict_members_list d)" "b \<noteq> a" using b lset by auto
    obtain j where "j < length (dict_members d)" "b \<in> set (dict_members d ! j)"
      using ok b'(1) unfolding dict_ok_def by blast
    with b' mset len have "\<exists>j < length (dict_members d'). b \<in> set (dict_members d' ! j)" by auto
    moreover have "key_of w b \<noteq> None \<and> value_of w b \<noteq> 0" using ok b'(1) by (auto simp: dict_ok_def)
    ultimately show ?thesis using same [OF b'(2)] by simp
  qed
  have chain: "distinct (dict_members d' ! j) \<and> (\<forall>b \<in> set (dict_members d' ! j).
      b \<in> set (dict_members_list d') \<and> lookup_index d' (the (key_of w' b)) = Some j)"
    if "j < length (dict_members d')" for j
  proof -
    have j: "j < length (dict_members d)" using that len by simp
    have "distinct (dict_members d' ! j)" using mem [OF j] dist(2) [OF j] by auto
    moreover have "b \<in> set (dict_members_list d') \<and> lookup_index d' (the (key_of w' b)) = Some j"
      if "b \<in> set (dict_members d' ! j)" for b
      using that mset [OF j] dict_ok_chain [OF ok j, of b] same [of b] lset li by simp
    ultimately show ?thesis by blast
  qed
  have "inj_on (key_of w) (set (dict_members_list d'))"
    using ok lset by (auto simp: dict_ok_def intro: inj_on_subset)
  moreover have "key_of w' b = key_of w b" if "b \<in> set (dict_members_list d')" for b
    using that lset by (intro same(1)) auto
  ultimately have inj: "inj_on (key_of w') (set (dict_members_list d'))"
    using inj_on_cong [of "set (dict_members_list d')" "key_of w'" "key_of w"] by blast
  obtain n where "length (dict_members_list d) = Suc n" using a(1) by (cases "dict_members_list d") auto
  then have cnt: "dict_count d' = int (length (dict_members_list d'))"
    using ok a(1) by (simp add: d' dict_ok_def length_remove1)
  show ok': "dict_ok w' d'"
    unfolding dict_ok_def using keys chain inj cnt ok dist(1) by (simp add: d' dict_ok_def)
  show "dict_map w' d' = (dict_map w d)(k := None)"
  proof
    fix l
    have "dict_map w' d' l = Some u \<longleftrightarrow> ((dict_map w d)(k := None)) l = Some u" for u
    proof (cases "l = k")
      case True
      have "key_of w' b \<noteq> Some k" if "b \<in> set (dict_members_list d')" for b
        using that lset same(1) [of b] key_unique [OF ok _ a(1), of b] a(2) by auto
      then show ?thesis using True by (simp add: dict_map_Some [OF ok'])
    next
      case False
      have "b \<noteq> a" if "key_of w b = Some l" for b using that False a(2) by auto
      then show ?thesis using False lset same
        by (simp add: dict_map_Some [OF ok'] dict_map_Some [OF ok]) (metis DiffE Diff_iff singletonD)
    qed
    then show "dict_map w' d' l = ((dict_map w d)(k := None)) l" by (metis not_None_eq)
  qed
qed

lemma dict_lookup_absent:
  assumes "dict_ok w d" and "pairs w 0 = None" and "dict_map w d k = None"
  shows "\<exists>i. lookup_index d k = Some i \<and> i < length (dict_members d)
    \<and> dict_lookup w (Some d) (Some k) = Some 0 \<and> chain_strcmp w k (dict_members d ! i) = Some 0
    \<and> (\<forall>a \<in> set (dict_members_list d). key_of w a \<noteq> Some k)"
  by (rule dict_lookup_cases [OF assms(1,2), of k]) (use assms(3) in auto)

lemma dict_lookup_found:
  assumes "dict_ok w d" and "pairs w 0 = None" and "dict_map w d k = Some v"
  shows "\<exists>i a p. lookup_index d k = Some i \<and> i < length (dict_members d)
    \<and> dict_lookup w (Some d) (Some k) = Some a \<and> chain_strcmp w k (dict_members d ! i) = Some a
    \<and> a \<noteq> 0 \<and> a \<in> set (dict_members_list d) \<and> key_of w a = Some k
    \<and> pairs w a = Some p \<and> pair_value p = v \<and> v \<noteq> 0"
proof (rule dict_lookup_cases [OF assms(1,2), of k])
  fix i a
  assume a: "lookup_index d k = Some i" "i < length (dict_members d)"
      "dict_lookup w (Some d) (Some k) = Some a" "chain_strcmp w k (dict_members d ! i) = Some a"
      "a \<noteq> 0" "a \<in> set (dict_members_list d)" "key_of w a = Some k"
      "dict_map w d k = Some (value_of w a)"
  obtain p where "pairs w a = Some p" "pair_value p \<noteq> 0" "value_of w a = pair_value p"
    by (rule dict_ok_member [OF assms(1) a(6)])
  with a assms(3) show ?thesis by auto
qed (use assms(3) in auto)

text \<open>
  \<open>_dict_set\<close> and \<open>_dict_lookup\<close> compute the index in different ways; they agree when the hash is
  not negative as an \<^verbatim>\<open>int\<close>, and always when there is one bucket.
\<close>

definition index_agrees :: "dict \<Rightarrow> cstring \<Rightarrow> bool" where
  "index_agrees d k \<longleftrightarrow> lookup_index d k = Some (nat (set_hashval d k)) \<and> 0 \<le> set_hashval d k"

lemma index_agrees_one:
  assumes "dict_ok w d" and "dict_hash_size d = 1"
  shows "index_agrees d k"
proof -
  obtain i where i: "lookup_index d k = Some i" "i < length (dict_members d)"
    by (rule lookup_index_total [OF assms(1)])
  moreover have "length (dict_members d) = 1" using assms by (simp add: dict_ok_def)
  ultimately have "i = 0" by simp
  with i assms(2) show ?thesis by (simp add: index_agrees_def set_hashval_def c_rem_def)
qed

definition set_allocs_ok :: "set_allocs \<Rightarrow> store \<Rightarrow> bool" where
  "set_allocs_ok al w \<longleftrightarrow> set_key al \<and> set_pair al \<noteq> 0 \<and> pairs w (set_pair al) = None"

definition other_pairs_same :: "addr set \<Rightarrow> store \<Rightarrow> store \<Rightarrow> bool" where
  "other_pairs_same A w w' \<longleftrightarrow> (\<forall>b. b \<notin> A \<longrightarrow> pairs w' b = pairs w b)"

lemma dict_set_new:
  assumes inv: "store_inv ext w" and ok: "dict_ok w d" and v: "v \<noteq> 0" "datas w v = Some dv"
    and ix: "index_agrees d k" and al: "set_allocs_ok al w" and none: "dict_map w d k = None"
  shows "\<exists>w' d'. dict_set al w (Some d) (Some k) v = Some (w', Some d', 0) \<and> store_inv ext w'
    \<and> dict_ok w' d' \<and> dict_map w' d' = (dict_map w d)(k \<mapsto> v)
    \<and> pairs w' = (pairs w)(set_pair al \<mapsto> \<lparr>pair_key = Some k, pair_value = v\<rparr>)
    \<and> datas w' = (datas w)(v \<mapsto> dv\<lparr>data_refcount := data_refcount dv + 1\<rparr>) \<and> freed w' = freed w
    \<and> dict_hash_size d' = dict_hash_size d \<and> dict_members_list d' = set_pair al # dict_members_list d
    \<and> dict_alist w' d' = (k, v) # dict_alist w d"
proof -
  have null: "pairs w 0 = None" using store_inv_null [OF inv] by simp
  let ?new = "set_pair al"
  have al': "set_key al" "?new \<noteq> 0" "pairs w ?new = None" using al by (auto simp: set_allocs_ok_def)
  obtain i where i: "lookup_index d k = Some i" "i < length (dict_members d)"
      "dict_lookup w (Some d) (Some k) = Some 0" "\<forall>a \<in> set (dict_members_list d). key_of w a \<noteq> Some k"
    using dict_lookup_absent [OF ok null none] by blast
  have h: "set_hashval d k = int i" using ix i(1) by (auto simp: index_agrees_def)
  obtain w1 where w1: "data_ref v w = Some (w1, v)" "store_inv (ext(v := ext v + 1)) w1" "pairs w1 = pairs w"
      "datas w1 = (datas w)(v \<mapsto> dv\<lparr>data_refcount := data_refcount dv + 1\<rparr>)" "freed w1 = freed w"
    using data_ref_inv [OF inv v] by blast
  define w' where "w' = put_pair ?new \<lparr>pair_key = Some k, pair_value = v\<rparr> w1"
  define d' where "d' = d\<lparr>dict_members := (dict_members d)[i := ?new # dict_members d ! i],
          dict_members_list := ?new # dict_members_list d, dict_count := dict_count d + 1\<rparr>"
  note kv = key_value_cong [OF w1(3)]
  have ok1: "dict_ok w1 d" using ok by (rule dict_ok_cong) (use ok kv in \<open>auto simp: dict_ok_def\<close>)
  have map1: "dict_map w1 d = dict_map w d" by (rule dict_map_cong) (simp add: kv)
  have ab: "\<forall>a \<in> set (dict_members_list d). key_of w1 a \<noteq> Some k" using i(4) kv by simp
  note ins = dict_ok_insert [OF ok1 _ i(1,2) ab v(1) w'_def d'_def]
  have "dict_ok w' d'" "dict_map w' d' = (dict_map w d)(k \<mapsto> v)" using ins al'(3) w1(3) map1 by simp_all
  moreover have "store_inv ext w'"
    using store_inv_new_pair [OF w1(2) al'(2), of "\<lparr>pair_key = Some k, pair_value = v\<rparr>"] al'(3) w1(3)
    by (simp add: w'_def)
  moreover have "dict_set al w (Some d) (Some k) v = Some (w', Some d', 0)"
    using v(1) i al' w1(1) h by (simp add: dict_set_def dict_set_raw_def dict_set_key_def w'_def d'_def Let_def)
  moreover have "dict_alist w' d' = (k, v) # dict_alist w d"
  proof -
    have "a \<noteq> ?new" if "a \<in> set (dict_members_list d)" for a
      using that al'(3) by (metis dict_ok_member [OF ok] option.distinct(1))
    then show ?thesis using kv
      by (auto simp: dict_alist_def d'_def w'_def key_of_put value_of_put)
  qed
  ultimately show ?thesis using w1 by (auto simp: w'_def d'_def)
qed

lemma dict_set_old:
  assumes inv: "store_inv ext w" and ok: "dict_ok w d" and v: "v \<noteq> 0" "datas w v = Some dv"
    and some: "dict_map w d k \<noteq> None"
  shows "\<exists>w'. dict_set al w (Some d) (Some k) v = Some (w', Some d, 0) \<and> store_inv ext w'
    \<and> dict_ok w' d \<and> dict_map w' d = (dict_map w d)(k \<mapsto> v)
    \<and> other_pairs_same (set (dict_members_list d)) w w'"
proof -
  have null: "pairs w 0 = None" using store_inv_null [OF inv] by simp
  obtain a where a: "dict_lookup w (Some d) (Some k) = Some a" "a \<noteq> 0"
      "a \<in> set (dict_members_list d)" "key_of w a = Some k"
    using dict_lookup_found [OF ok null] some by blast
  obtain p where p: "pairs w a = Some p" "pair_value p \<noteq> 0" by (rule dict_ok_member [OF ok a(3)])
  obtain w1 where w1: "data_ref v w = Some (w1, v)" "store_inv (ext(v := ext v + 1)) w1" "pairs w1 = pairs w"
    using data_ref_inv [OF inv v] by blast
  note kv = key_value_cong [OF w1(3)]
  have ok1: "dict_ok w1 d" using ok by (rule dict_ok_cong) (use ok kv in \<open>auto simp: dict_ok_def\<close>)
  have map1: "dict_map w1 d = dict_map w d" by (rule dict_map_cong) (simp add: kv)
  define w2 where "w2 = put_pair a (p\<lparr>pair_value := v\<rparr>) w1"
  have upd: "dict_ok w2 d" "dict_map w2 d = (dict_map w d)(k \<mapsto> v)"
    using dict_ok_update [OF ok1 a(3) _ _ v(1) w2_def] a(4) p(1) w1(3) kv map1 by auto
  let ?o = "pair_value p"
  let ?e = "(ext(v := ext v + 1))(?o := (ext(v := ext v + 1)) ?o + 1)"
  have "store_inv ?e (drop_pair a w1)"
    using store_inv_drop_pair [OF w1(2)] p(1) w1(3) by simp
  then have "store_inv (?e(v := ?e v - 1)) (put_pair a (p\<lparr>pair_value := v\<rparr>) (drop_pair a w1))"
    using store_inv_new_pair [of ?e "drop_pair a w1" a "p\<lparr>pair_value := v\<rparr>"] a(2) by simp
  moreover have "?e(v := ?e v - 1) = ext(?o := ext ?o + 1)" by (auto simp: fun_eq_iff)
  ultimately have s2: "store_inv (ext(?o := ext ?o + 1)) w2" by (simp only: put_pair_drop w2_def)
  obtain w' where w': "data_unref ?o w2 = Some w'" "store_inv ext w'" "pairs w' = pairs w2"
    using data_unref_inv [OF s2 p(2)] by auto
  note kv' = key_value_cong [OF w'(3)]
  have "dict_ok w' d" using upd(1) by (rule dict_ok_cong) (use upd(1) kv' in \<open>auto simp: dict_ok_def\<close>)
  moreover have "dict_map w' d = (dict_map w d)(k \<mapsto> v)"
    using upd(2) dict_map_cong [of d w' w2] kv' by simp
  moreover have "dict_set al w (Some d) (Some k) v = Some (w', Some d, 0)"
    using v(1) a p(1) w1(1) w'(1) by (simp add: dict_set_def dict_set_raw_def dict_set_key_def w2_def)
  moreover have "other_pairs_same (set (dict_members_list d)) w w'"
    using w'(3) w1(3) a(3) by (auto simp: other_pairs_same_def w2_def)
  ultimately show ?thesis using w'(2) by blast
qed

text \<open>Both cases together.\<close>

lemma dict_set_spec:
  assumes "store_inv ext w" and "dict_ok w d" and "v \<noteq> 0" and "datas w v \<noteq> None"
    and "index_agrees d k" and "set_allocs_ok al w"
  shows "\<exists>w' d'. dict_set al w (Some d) (Some k) v = Some (w', Some d', 0) \<and> store_inv ext w'
    \<and> dict_ok w' d' \<and> dict_map w' d' = (dict_map w d)(k \<mapsto> v)
    \<and> other_pairs_same (insert (set_pair al) (set (dict_members_list d))) w w'
    \<and> dict_hash_size d' = dict_hash_size d
    \<and> set (dict_members_list d') \<subseteq> insert (set_pair al) (set (dict_members_list d))"
proof (cases "dict_map w d k")
  case None
  obtain dv where "datas w v = Some dv" using assms(4) by blast
  from dict_set_new [OF assms(1-3) this assms(5,6) None] show ?thesis
    by (auto simp: other_pairs_same_def)
next
  case (Some u)
  obtain dv where "datas w v = Some dv" using assms(4) by blast
  from dict_set_old [OF assms(1-3) this, of k al] Some show ?thesis
    by (fastforce simp: other_pairs_same_def)
qed

lemma dict_get_spec:
  assumes "store_inv ext w" and "dict_ok w d"
  shows "dict_get w (Some d) (Some k) = Some (case dict_map w d k of None \<Rightarrow> 0 | Some v \<Rightarrow> v)"
proof -
  have null: "pairs w 0 = None" using store_inv_null [OF assms(1)] by simp
  show ?thesis
    using dict_lookup_absent [OF assms(2) null, of k] dict_lookup_found [OF assms(2) null, of k]
    by (cases "dict_map w d k") (auto simp: dict_get_def)
qed

text \<open>The store \<open>w'\<close> is \<open>w\<close> after one reference of the value \<open>v\<close> was given up, the last one with its buffers.\<close>

definition reference_dropped :: "addr \<Rightarrow> store \<Rightarrow> store \<Rightarrow> bool" where
  "reference_dropped v w w' \<longleftrightarrow>
     (\<exists>e. datas w v = Some e
       \<and> (if data_refcount e = 1
          then datas w' = (datas w)(v := if data_is_const e
                  then Some (e\<lparr>data_refcount := 0, data_len := signed_take_bit 31 0xbabababa\<rparr>) else None)
               \<and> freed w' = freed w @ data_buffers e
          else datas w' = (datas w)(v \<mapsto> e\<lparr>data_refcount := data_refcount e - 1\<rparr>) \<and> freed w' = freed w))"

lemma reference_dropped_pair: "reference_dropped v w (drop_pair a w') = reference_dropped v w w'"
proof -
  have "datas (drop_pair a w') = datas w'" "freed (drop_pair a w') = freed w'" by (simp_all add: drop_pair_def)
  then show ?thesis by (simp only: reference_dropped_def)
qed

lemma data_unref_dropped:
  assumes "v \<noteq> 0" and "data_unref v w = Some w'"
  shows "reference_dropped v w w'"
proof -
  obtain e where e: "datas w v = Some e" using assms by (auto simp: data_unref_def split: bind_splits)
  show ?thesis unfolding reference_dropped_def
    by (rule exI [of _ e], cases "data_refcount e = 1")
      (use assms e in \<open>auto simp: data_unref_def data_destroy_def put_data_def data_buffers_def\<close>)
qed

text \<open>What \<open>dict_del\<close> does to the store: nothing for an unbound key, else it frees the pair and drops a reference of its value.\<close>

definition pair_deleted :: "dict \<Rightarrow> cstring \<Rightarrow> store \<Rightarrow> store \<Rightarrow> bool" where
  "pair_deleted d k w w' \<longleftrightarrow>
     (case dict_map w d k of
        None \<Rightarrow> w' = w
      | Some v \<Rightarrow> reference_dropped v w w'
          \<and> (\<exists>a \<in> set (dict_members_list d). key_of w a = Some k \<and> pairs w' = (pairs w)(a := None)))"

lemma dict_del_spec:
  assumes inv: "store_inv ext w" and ok: "dict_ok w d"
  shows "\<exists>w' d'. dict_del w (Some d) (Some k) = Some (w', Some d') \<and> store_inv ext w' \<and> dict_ok w' d'
    \<and> dict_map w' d' = (dict_map w d)(k := None) \<and> other_pairs_same (set (dict_members_list d)) w w' \<and> pair_deleted d k w w'"
proof (cases "dict_map w d k")
  case None
  have null: "pairs w 0 = None" using store_inv_null [OF inv] by simp
  from dict_lookup_absent [OF ok null None] None inv ok show ?thesis
    by (auto simp: dict_del_def other_pairs_same_def pair_deleted_def fun_upd_idem)
next
  case (Some v)
  have null: "pairs w 0 = None" using store_inv_null [OF inv] by simp
  obtain i a p where a: "lookup_index d k = Some i" "i < length (dict_members d)"
      "chain_strcmp w k (dict_members d ! i) = Some a" "a \<noteq> 0" "a \<in> set (dict_members_list d)"
      "key_of w a = Some k" "pairs w a = Some p" "pair_value p = v" "v \<noteq> 0"
    using dict_lookup_found [OF ok null Some] by blast
  have "store_inv (ext(v := ext v + 1)) (drop_pair a w)" using store_inv_drop_pair [OF inv a(7)] a(8) by simp
  from data_unref_inv [OF this a(9)] obtain w2 where
    w2: "data_unref v (drop_pair a w) = Some w2" "store_inv ext w2" "pairs w2 = (pairs w)(a := None)" by auto
  then obtain w1 where w1: "data_unref v w = Some w1" "w2 = drop_pair a w1" by (auto simp: data_unref_drop)
  define d' where "d' = d\<lparr>dict_members := (dict_members d)[i := remove1 a (dict_members d ! i)],
          dict_members_list := remove1 a (dict_members_list d), dict_count := dict_count d - 1\<rparr>"
  note del = dict_ok_delete [OF ok a(5,6,1,2) w2(3) d'_def]
  have "dict_del w (Some d) (Some k) = Some (w2, Some d')"
    using a w1 by (simp add: dict_del_def d'_def)
  moreover have "other_pairs_same (set (dict_members_list d)) w w2"
    using w2(3) a(5) by (auto simp: other_pairs_same_def)
  moreover have "reference_dropped v w w2"
    using data_unref_dropped [OF a(9) w1(1)] by (simp only: w1(2) reference_dropped_pair)
  then have "pair_deleted d k w w2" using Some a(5,6) w2(3) by (auto simp: pair_deleted_def)
  ultimately show ?thesis using del w2(2) by blast
qed

text \<open>A value without references is gone, or it is one that is never freed.\<close>

definition released :: "store \<Rightarrow> addr \<Rightarrow> bool" where
  "released w v \<longleftrightarrow> (case datas w v of None \<Rightarrow> True | Some e \<Rightarrow> data_is_const e)"

lemma data_unref_released:
  assumes "store_inv ext w" and "v \<noteq> 0" and "0 < ext v" and "data_unref v w = Some w'"
    and "refs (ext(v := ext v - 1)) w' v = 0"
  shows "released w' v"
proof -
  obtain d where d: "datas w v = Some d" "data_refcount d = int (refs ext w v)"
    using store_inv_live [OF assms(1,2)] assms(3) by (auto simp: refs_def)
  have "pairs w' = pairs w" using data_unref_inv [OF assms(1-3)] assms(4) by auto
  then have "pair_refs w' v = pair_refs w v" by (simp add: pair_refs_def)
  then have "refs ext w v = 1" using assms(3,5) by (simp add: refs_def)
  then show ?thesis using assms(2,4) d
    by (auto simp: data_unref_def data_destroy_def Let_def released_def)
qed

lemma destroy_pairs_spec:
  assumes "store_inv ext w" and "distinct as"
    and "\<forall>a \<in> set as. \<exists>p. pairs w a = Some p \<and> pair_value p \<noteq> 0"
  shows "\<exists>w'. destroy_pairs as w = Some w' \<and> store_inv ext w' \<and> pairs w' = (pairs w) |` (- set as)
    \<and> (\<forall>v. v \<in> value_of w ` set as \<or> released w v \<longrightarrow> refs ext w' v = 0 \<longrightarrow> released w' v)"
  using assms
proof (induction as arbitrary: w)
  case (Cons a as)
  obtain p where p: "pairs w a = Some p" "pair_value p \<noteq> 0" using Cons.prems(3) by auto
  let ?v = "pair_value p"
  let ?e = "ext(?v := ext ?v + 1)"
  have s: "store_inv ?e (drop_pair a w)" by (rule store_inv_drop_pair [OF Cons.prems(1) p(1)])
  from data_unref_inv [OF s p(2)] obtain w2 where
    w2: "data_unref ?v (drop_pair a w) = Some w2" "store_inv ext w2" "pairs w2 = (pairs w)(a := None)"
      "\<And>u. u \<noteq> ?v \<Longrightarrow> datas w2 u = datas w u" by auto
  then obtain w1 where w1: "data_unref ?v w = Some w1" "w2 = drop_pair a w1" by (auto simp: data_unref_drop)
  have pre: "\<forall>b \<in> set as. \<exists>q. pairs w2 b = Some q \<and> pair_value q \<noteq> 0"
    using Cons.prems(2,3) w2(3) by auto
  obtain w' where w': "destroy_pairs as w2 = Some w'" "store_inv ext w'" "pairs w' = (pairs w2) |` (- set as)"
      "\<And>v. v \<in> value_of w2 ` set as \<or> released w2 v \<Longrightarrow> refs ext w' v = 0 \<Longrightarrow> released w' v"
    using Cons.IH [OF w2(2) _ pre] Cons.prems(2) by auto
  have "destroy_pairs (a # as) w = Some w'" using p(1) w1 w'(1) by simp
  moreover have "pairs w' = (pairs w) |` (- set (a # as))"
    using w'(3) w2(3) by (auto simp: fun_eq_iff restrict_map_def)
  moreover have "released w' v" if v: "v \<in> value_of w ` set (a # as) \<or> released w v" "refs ext w' v = 0" for v
  proof (cases "v \<in> value_of w2 ` set as")
    case True then show ?thesis using w'(4) v(2) by blast
  next
    case False
    have vals: "value_of w2 b = value_of w b" if "b \<in> set as" for b
      using that w2(3) Cons.prems(2) by (auto simp: value_of_def)
    have "released w2 v"
    proof (cases "v = ?v")
      case True
      have "pair_refs w2 v = {}"
      proof (rule ccontr)
        assume "pair_refs w2 v \<noteq> {}"
        then obtain b where b: "b \<in> pair_refs w2 v" by blast
        have "b \<notin> set as" using b False by (auto simp: pair_refs_def value_of_def image_iff) 
        then have "b \<in> pair_refs w' v" using b w'(3) by (auto simp: pair_refs_def)
        then show False using v(2) finite_pair_refs [OF w'(2), of v] by (auto simp: refs_def)
      qed
      moreover have "ext v = 0" using v(2) by (simp add: refs_def)
      ultimately have "refs (?e(?v := ?e ?v - 1)) w2 ?v = 0" using True by (simp add: refs_def)
      then show ?thesis using data_unref_released [OF s p(2) _ w2(1)] True by simp
    next
      case ne: False
      then have "v \<notin> value_of w ` set (a # as)" using False vals p(1) by (auto simp: value_of_def)
      then have "released w v" using v(1) by blast
      then show ?thesis using w2(4) [OF ne] by (simp add: released_def)
    qed
    then show ?thesis using w'(4) v(2) by blast
  qed
  ultimately show ?case using w'(2) by blast
qed (simp add: restrict_map_def)

text \<open>Copying: the callback for every pair in list order.\<close>

definition copy_allocs_ok :: "(nat \<Rightarrow> set_allocs) \<Rightarrow> nat \<Rightarrow> store \<Rightarrow> bool" where
  "copy_allocs_ok als j w \<longleftrightarrow> (\<forall>i \<ge> j. set_allocs_ok (als i) w) \<and> inj_on (\<lambda>i. set_pair (als i)) {j..}"

definition new_pairs :: "(nat \<Rightarrow> set_allocs) \<Rightarrow> nat \<Rightarrow> addr set" where
  "new_pairs als j = (\<lambda>i. set_pair (als i)) ` {j..}"

lemma index_agrees_cong:
  "\<lbrakk>dict_ok w d; dict_ok w' d'; dict_hash_size d' = dict_hash_size d\<rbrakk> \<Longrightarrow> index_agrees d' = index_agrees d"
  using lookup_index_cong [of d' d] by (simp add: index_agrees_def set_hashval_def dict_ok_def fun_eq_iff)

lemma other_pairs_key_value:
  "\<lbrakk>other_pairs_same A w w'; a \<notin> A\<rbrakk> \<Longrightarrow> key_of w' a = key_of w a \<and> value_of w' a = value_of w a"
  by (simp add: other_pairs_same_def key_of_def value_of_def)

lemma refs_pos_member:
  "\<lbrakk>store_inv ext w; value_of w a \<noteq> 0\<rbrakk> \<Longrightarrow> datas w (value_of w a) \<noteq> None"
  using refs_pair [of ext w a] store_inv_live [of ext w "value_of w a"]
  by (auto simp: value_of_def split: option.splits)

lemma copy_loop:
  assumes "store_inv ext w" and "dict_ok w n" and "\<forall>k. index_agrees n k"
    and "\<forall>a \<in> set as. key_of w a \<noteq> None \<and> value_of w a \<noteq> 0"
    and "set as \<inter> set (dict_members_list n) = {}" and "copy_allocs_ok als j w"
  shows "\<exists>w' n'. foreach_pairs (copy_callback als) as (w, (n, j)) = Some (w', (n', j + length as))
    \<and> store_inv ext w' \<and> dict_ok w' n'
    \<and> dict_map w' n' = dict_map w n ++ map_of (rev (map (\<lambda>a. (the (key_of w a), value_of w a)) as))
    \<and> other_pairs_same (new_pairs als j \<union> set (dict_members_list n)) w w'"
  using assms
proof (induction as arbitrary: w n j)
  case Nil then show ?case by (simp add: other_pairs_same_def)
next
  case (Cons a as)
  obtain p k where p: "pairs w a = Some p" "pair_key p = Some k" "pair_value p \<noteq> 0"
      "key_of w a = Some k" "value_of w a = pair_value p"
    using Cons.prems(4) by (auto simp: key_of_def value_of_def split: option.splits)
  have al: "set_allocs_ok (als j) w" using Cons.prems(6) by (simp add: copy_allocs_ok_def)
  have live: "datas w (pair_value p) \<noteq> None" using refs_pos_member [OF Cons.prems(1), of a] p by simp
  obtain w1 n1 where s1: "dict_set (als j) w (Some n) (Some k) (pair_value p) = Some (w1, Some n1, 0)"
      "store_inv ext w1" "dict_ok w1 n1" "dict_map w1 n1 = (dict_map w n)(k \<mapsto> pair_value p)"
      "other_pairs_same (insert (set_pair (als j)) (set (dict_members_list n))) w w1"
      "dict_hash_size n1 = dict_hash_size n"
      "set (dict_members_list n1) \<subseteq> insert (set_pair (als j)) (set (dict_members_list n))"
    using dict_set_spec [OF Cons.prems(1,2) p(3) live _ al, of k] Cons.prems(3) by blast
  have other: "b \<notin> insert (set_pair (als j)) (set (dict_members_list n))" if "b \<in> set (a # as)" for b
    using that Cons.prems(4,5) al by (auto simp: set_allocs_ok_def key_of_def split: option.splits)
  have kv: "key_of w1 b = key_of w b" "value_of w1 b = value_of w b" if "b \<in> set (a # as)" for b
    using other_pairs_key_value [OF s1(5) other [OF that]] by auto
  have "copy_allocs_ok als (Suc j) w1"
    unfolding copy_allocs_ok_def set_allocs_ok_def
  proof (intro conjI allI impI)
    fix i assume i: "Suc j \<le> i"
    have ok_i: "set_allocs_ok (als i) w" using Cons.prems(6) i by (simp add: copy_allocs_ok_def)
    then show "set_key (als i)" "set_pair (als i) \<noteq> 0" by (auto simp: set_allocs_ok_def)
    have "set_pair (als i) \<noteq> set_pair (als j)"
      using Cons.prems(6) i inj_onD [of "\<lambda>i. set_pair (als i)" "{j..}" i j]
      by (auto simp: copy_allocs_ok_def)
    moreover have "set_pair (als i) \<notin> set (dict_members_list n)"
      using ok_i dict_ok_member [OF Cons.prems(2)] by (metis option.distinct(1) set_allocs_ok_def)
    ultimately show "pairs w1 (set_pair (als i)) = None"
      using s1(5) ok_i by (simp add: other_pairs_same_def set_allocs_ok_def)
  next
    show "inj_on (\<lambda>i. set_pair (als i)) {Suc j..}"
      using Cons.prems(6) by (auto simp: copy_allocs_ok_def intro: inj_on_subset)
  qed
  moreover have "\<forall>k. index_agrees n1 k"
    using Cons.prems(3) index_agrees_cong [OF Cons.prems(2) s1(3,6)] by simp
  moreover have "\<forall>b \<in> set as. key_of w1 b \<noteq> None \<and> value_of w1 b \<noteq> 0"
    using Cons.prems(4) kv by simp
  moreover have "set as \<inter> set (dict_members_list n1) = {}" using s1(7) other by auto
  ultimately obtain w' n' where r: "foreach_pairs (copy_callback als) as (w1, (n1, Suc j)) = Some (w', (n', Suc j + length as))"
      "store_inv ext w'" "dict_ok w' n'"
      "dict_map w' n' = dict_map w1 n1 ++ map_of (rev (map (\<lambda>a. (the (key_of w1 a), value_of w1 a)) as))"
      "other_pairs_same (new_pairs als (Suc j) \<union> set (dict_members_list n1)) w1 w'"
    using Cons.IH [OF s1(2,3)] by blast
  have eq: "map (\<lambda>a. (the (key_of w1 a), value_of w1 a)) as = map (\<lambda>a. (the (key_of w a), value_of w a)) as"
    using kv by simp
  have "dict_map w' n' = dict_map w n ++ map_of (rev (map (\<lambda>a. (the (key_of w a), value_of w a)) (a # as)))"
    unfolding r(4) s1(4) eq using p by simp
  moreover have "foreach_pairs (copy_callback als) (a # as) (w, (n, j)) = Some (w', (n', j + length (a # as)))"
    using p s1(1) r(1) by (simp add: copy_callback_def)
  moreover have "other_pairs_same (new_pairs als j \<union> set (dict_members_list n)) w w'"
    using s1(5,7) r(5) unfolding other_pairs_same_def new_pairs_def
    by (auto simp: image_iff) (metis Suc_leD atLeast_iff insertE order_refl subsetD)
  ultimately show ?case using r(2,3) by blast
qed

section \<open>The dictionary as an interface\<close>

text \<open>
  What the code on top of the dictionary relies on.  \<open>usable\<close> is the condition under which an
  insertion succeeds; \<open>None\<close> is undefined behaviour.
\<close>

locale map_store =
  fixes valid :: "'s \<Rightarrow> bool"
    and view :: "'s \<Rightarrow> 'k \<rightharpoonup> 'v"
    and lookup :: "'s \<Rightarrow> 'k \<Rightarrow> 'v option option"
    and insert :: "'a \<Rightarrow> 's \<Rightarrow> 'k \<Rightarrow> 'v \<Rightarrow> 's option"
    and delete :: "'s \<Rightarrow> 'k \<Rightarrow> 's option"
    and usable :: "'a \<Rightarrow> 's \<Rightarrow> 'v \<Rightarrow> bool"
  assumes lookup_view: "valid s \<Longrightarrow> lookup s k = Some (view s k)"
    and insert_view: "\<lbrakk>valid s; usable a s v\<rbrakk> \<Longrightarrow>
        \<exists>s'. insert a s k v = Some s' \<and> valid s' \<and> view s' = (view s)(k \<mapsto> v)"
    and delete_view: "valid s \<Longrightarrow> \<exists>s'. delete s k = Some s' \<and> valid s' \<and> view s' = (view s)(k := None)"
begin

lemma lookup_after_insert:
  assumes "valid s" and "usable a s v"
  shows "\<exists>s'. insert a s k v = Some s' \<and> lookup s' k = Some (Some v)
    \<and> (\<forall>l. l \<noteq> k \<longrightarrow> lookup s' l = lookup s l)"
proof -
  obtain s' where s': "insert a s k v = Some s'" "valid s'" "view s' = (view s)(k \<mapsto> v)"
    using insert_view [OF assms] by blast
  then show ?thesis using lookup_view [OF assms(1)] lookup_view [OF s'(2)] by auto
qed

lemma lookup_after_delete:
  assumes "valid s"
  shows "\<exists>s'. delete s k = Some s' \<and> lookup s' k = Some None \<and> (\<forall>l. l \<noteq> k \<longrightarrow> lookup s' l = lookup s l)"
proof -
  obtain s' where s': "delete s k = Some s'" "valid s'" "view s' = (view s)(k := None)"
    using delete_view [OF assms] by blast
  then show ?thesis using lookup_view [OF assms(1)] lookup_view [OF s'(2)] by auto
qed

lemma delete_after_insert:
  assumes "valid s" and "usable a s v"
  shows "\<exists>s' s''. insert a s k v = Some s' \<and> delete s' k = Some s'' \<and> valid s''
    \<and> view s'' = (view s)(k := None)"
proof -
  obtain s' where s': "insert a s k v = Some s'" "valid s'" "view s' = (view s)(k \<mapsto> v)"
    using insert_view [OF assms] by blast
  obtain s'' where "delete s' k = Some s''" "valid s''" "view s'' = (view s')(k := None)"
    using delete_view [OF s'(2)] by blast
  then show ?thesis using s' by auto
qed

end

definition ds_valid :: "(addr \<Rightarrow> nat) \<Rightarrow> store \<times> dict \<Rightarrow> bool" where
  "ds_valid ext s \<longleftrightarrow> store_inv ext (fst s) \<and> dict_ok (fst s) (snd s) \<and> dict_hash_size (snd s) = 1"

definition ds_view :: "store \<times> dict \<Rightarrow> cstring \<rightharpoonup> addr" where
  "ds_view s = dict_map (fst s) (snd s)"

definition ds_lookup :: "store \<times> dict \<Rightarrow> cstring \<Rightarrow> addr option option" where
  "ds_lookup s k = map_option (\<lambda>v. if v = 0 then None else Some v) (dict_get (fst s) (Some (snd s)) (Some k))"

definition ds_insert :: "set_allocs \<Rightarrow> store \<times> dict \<Rightarrow> cstring \<Rightarrow> addr \<Rightarrow> (store \<times> dict) option" where
  "ds_insert al s k v =
     (case dict_set al (fst s) (Some (snd s)) (Some k) v of
        Some (w, Some d, ret) \<Rightarrow> if ret = 0 then Some (w, d) else None
      | _ \<Rightarrow> None)"

definition ds_delete :: "store \<times> dict \<Rightarrow> cstring \<Rightarrow> (store \<times> dict) option" where
  "ds_delete s k =
     (case dict_del (fst s) (Some (snd s)) (Some k) of Some (w, Some d) \<Rightarrow> Some (w, d) | _ \<Rightarrow> None)"

definition ds_usable :: "set_allocs \<Rightarrow> store \<times> dict \<Rightarrow> addr \<Rightarrow> bool" where
  "ds_usable al s v \<longleftrightarrow> v \<noteq> 0 \<and> datas (fst s) v \<noteq> None \<and> set_allocs_ok al (fst s)"

lemma dict_del_hash_size:
  "dict_del w (Some d) (Some k) = Some (w', Some d') \<Longrightarrow> dict_hash_size d' = dict_hash_size d"
  by (auto simp: dict_del_def split: bind_splits if_splits)

lemma dict_map_nonnull: "dict_ok w d \<Longrightarrow> dict_map w d k = Some v \<Longrightarrow> v \<noteq> 0"
  by (auto simp: dict_map_Some) (auto simp: dict_ok_def)

interpretation dict_store: map_store "ds_valid ext" ds_view ds_lookup ds_insert ds_delete ds_usable
proof
  fix s k assume v: "ds_valid ext s"
  then show "ds_lookup s k = Some (ds_view s k)"
    using dict_get_spec [of ext "fst s" "snd s" k] dict_map_nonnull [of "fst s" "snd s" k]
    by (auto simp: ds_valid_def ds_lookup_def ds_view_def split: option.splits)
next
  fix s a k v assume "ds_valid ext s" and "ds_usable a s v"
  then show "\<exists>s'. ds_insert a s k v = Some s' \<and> ds_valid ext s' \<and> ds_view s' = (ds_view s)(k \<mapsto> v)"
    using dict_set_spec [of ext "fst s" "snd s" v k a] index_agrees_one [of "fst s" "snd s" k]
    by (auto simp: ds_valid_def ds_usable_def ds_insert_def ds_view_def)
next
  fix s k assume v: "ds_valid ext s"
  obtain w d where s: "s = (w, d)" by (cases s)
  from v s obtain w' d' where "dict_del w (Some d) (Some k) = Some (w', Some d')" "store_inv ext w'" "dict_ok w' d'"
      "dict_map w' d' = (dict_map w d)(k := None)"
    using dict_del_spec [of ext w d k] by (auto simp: ds_valid_def)
  then show "\<exists>s'. ds_delete s k = Some s' \<and> ds_valid ext s' \<and> ds_view s' = (ds_view s)(k := None)"
    using v s dict_del_hash_size [of w d k w' d'] by (simp add: ds_valid_def ds_delete_def ds_view_def)
qed

section \<open>Properties\<close>

text \<open>A store with two values at 5 and 6 and no pairs, and an empty dictionary, for the witnesses.\<close>

definition demo_store :: store where
  "demo_store = \<lparr>datas = [5 \<mapsto> zero_data, 6 \<mapsto> zero_data], pairs = Map.empty, freed = []\<rparr>"

definition demo_dict :: dict where
  "demo_dict = \<lparr>dict_is_static = False, dict_hash_size = 1, dict_count = 0, dict_refcount = 0,
     dict_members = [[]], dict_members_list = [], dict_extra_free = False\<rparr>"

definition demo_set :: set_allocs where
  "demo_set = \<lparr>set_asprintf = True, set_pair = 100, set_key = True\<rparr>"

lemma demo_store_inv: "store_inv (\<lambda>_. 0) demo_store"
  by (simp add: store_inv_def counted_def demo_store_def refs_def pair_refs_def zero_data_def)

lemma empty_dict_ok: "get_new_dict_full True True n = Some d \<Longrightarrow> 0 < n \<Longrightarrow> n < 2 ^ 31 \<Longrightarrow>
    dict_ok w d \<and> dict_map w d = Map.empty"
  by (auto simp: get_new_dict_full_def dict_ok_def dict_map_def dict_alist_def)

lemma demo_dict_new: "get_new_dict_full True True 1 = Some demo_dict"
  by (simp add: get_new_dict_full_def demo_dict_def)

lemma demo_dict_ok: "dict_ok w demo_dict" "dict_map w demo_dict = Map.empty" "index_agrees demo_dict k"
  using empty_dict_ok [OF demo_dict_new] index_agrees_one [of w demo_dict k]
  by (auto simp: demo_dict_def)

lemma demo_set_ok: "set_allocs_ok demo_set demo_store"
  by (simp add: set_allocs_ok_def demo_set_def demo_store_def)

lemma demo_filled:
  "\<exists>w d. store_inv (\<lambda>_. 0) w \<and> dict_ok w d \<and> dict_hash_size d = 1 \<and> dict_map w d = [[97] \<mapsto> 5]"
  using dict_set_spec [OF demo_store_inv demo_dict_ok(1) _ _ demo_dict_ok(3) demo_set_ok, of 5 "[97]"]
  by (auto simp: demo_store_def demo_dict_ok(2)) (auto simp: demo_dict_def)

text \<open>
  What \<open>dict_set\<close> does for a new key when its signed remainder is not the bucket that the lookup searches: below 0 it leaves the
  array of buckets, and otherwise it puts the pair where no lookup finds it.
\<close>

lemma set_hashval_less: "dict_ok w d \<Longrightarrow> set_hashval d k < int (length (dict_members d))"
proof -
  assume "dict_ok w d"
  then have n: "int (length (dict_members d)) = dict_hash_size d" "0 < dict_hash_size d" by (auto simp: dict_ok_def)
  have "\<bar>sint (key_hash k)\<bar> mod \<bar>dict_hash_size d\<bar> < dict_hash_size d" "0 \<le> \<bar>sint (key_hash k)\<bar> mod \<bar>dict_hash_size d\<bar>"
    using n(2) by simp_all
  then show ?thesis unfolding n(1) set_hashval_def c_rem_def by (auto simp: sgn_if)
qed

lemma dict_set_misplaced:
  assumes inv: "store_inv ext w" and ok: "dict_ok w d" and v: "v \<noteq> 0" "datas w v \<noteq> None"
    and al: "set_allocs_ok al w" and none: "dict_map w d k = None"
  shows "set_hashval d k < 0 \<Longrightarrow> dict_set al w (Some d) (Some k) v = None"
    and "\<lbrakk>0 \<le> set_hashval d k; \<not> index_agrees d k\<rbrakk> \<Longrightarrow>
      \<exists>w' d'. dict_set al w (Some d) (Some k) v = Some (w', Some d', 0) \<and> dict_get w' (Some d') (Some k) = Some 0"
proof -
  obtain dv where dv: "datas w v = Some dv" using v(2) by blast
  have null: "pairs w 0 = None" using store_inv_null [OF inv] by simp
  obtain i where i: "lookup_index d k = Some i" "i < length (dict_members d)"
      "dict_lookup w (Some d) (Some k) = Some 0"
    using dict_lookup_absent [OF ok null none] by blast
  let ?h = "set_hashval d k" and ?new = "set_pair al" and ?w = "put_data v (dv\<lparr>data_refcount := data_refcount dv + 1\<rparr>) w"
  have al': "set_key al" "?new \<noteq> 0" "pairs w ?new = None" using al by (simp_all add: set_allocs_ok_def)
  note set = dict_set_def dict_set_raw_def dict_set_key_def data_ref_def Let_def
  show "?h < 0 \<Longrightarrow> dict_set al w (Some d) (Some k) v = None" using v(1) i(3) dv al' by (simp add: set)
  assume h: "0 \<le> ?h" "\<not> index_agrees d k"
  let ?d = "d\<lparr>dict_members := (dict_members d)[nat ?h := ?new # dict_members d ! nat ?h],
      dict_members_list := ?new # dict_members_list d, dict_count := dict_count d + 1\<rparr>"
  let ?w2 = "put_pair ?new \<lparr>pair_key = Some k, pair_value = v\<rparr> ?w"
  have res: "dict_set al w (Some d) (Some k) v = Some (?w2, Some ?d, 0)"
    using v(1) i(3) dv al' h(1) set_hashval_less [OF ok, of k] by (simp add: set)
  have ne: "nat ?h \<noteq> i" using h i(1) by (auto simp: index_agrees_def)
  have chain: "chain_lookup ?w2 k as = chain_lookup w k as" if "?new \<notin> set as" for as
    using that by (induction as) (auto split: option.split)
  have "pairs w a \<noteq> None" if "a \<in> set (dict_members d ! i)" for a
    using dict_ok_member [OF ok dict_ok_chain(1) [OF ok i(2) that]] by blast
  then have "?new \<notin> set (dict_members d ! i)" using al'(3) by blast
  moreover have "lookup_index ?d k = Some i" using i(1) lookup_index_cong [of ?d d] by simp
  ultimately have "dict_lookup ?w2 (Some ?d) (Some k) = Some 0" using i chain ne by (simp add: dict_lookup_def)
  then have "dict_get ?w2 (Some ?d) (Some k) = Some 0" by (simp add: dict_get_def)
  with res show "\<exists>w' d'. dict_set al w (Some d) (Some k) v = Some (w', Some d', 0) \<and> dict_get w' (Some d') (Some k) = Some 0"
    by blast
qed

text \<open>
  C6: insertion.  In a store whose reference counts are exact, \<open>dict_set\<close> on a well-formed dictionary
  binds the key to the value, keeps the dictionary well-formed (buckets, list and count agree) and the reference counts exact, and
  touches no pair of another dictionary, whenever the key was bound before or insertion and lookup compute the same bucket for
  it.  They do so for every key of a dictionary with one bucket, which is what \<open>dict_new\<close> and \<open>get_new_dict\<close> make.  With
  more buckets they can differ, as insertion takes the remainder of a signed number: for a new key the call is then undefined,
  if the remainder is negative, or returns 0 although the key is not found afterwards.
\<close>

theorem dict_set_correct:
  assumes "store_inv ext w" and "dict_ok w d" and "v \<noteq> 0" and "datas w v \<noteq> None" and "set_allocs_ok al w"
  shows "(dict_map w d k \<noteq> None \<or> index_agrees d k \<longrightarrow>
      (\<exists>w' d'. dict_set al w (Some d) (Some k) v = Some (w', Some d', 0) \<and> store_inv ext w'
        \<and> dict_ok w' d' \<and> dict_map w' d' = (dict_map w d)(k \<mapsto> v)
        \<and> other_pairs_same (insert (set_pair al) (set (dict_members_list d))) w w'))
    \<and> (dict_hash_size d = 1 \<longrightarrow> index_agrees d k)
    \<and> (dict_map w d k = None \<and> set_hashval d k < 0 \<longrightarrow> dict_set al w (Some d) (Some k) v = None)
    \<and> (dict_map w d k = None \<and> 0 \<le> set_hashval d k \<and> \<not> index_agrees d k \<longrightarrow>
      (\<exists>w' d'. dict_set al w (Some d) (Some k) v = Some (w', Some d', 0) \<and> dict_get w' (Some d') (Some k) = Some 0))"
proof (intro conjI impI; (elim conjE)?)
  assume "dict_map w d k \<noteq> None \<or> index_agrees d k"
  then show "\<exists>w' d'. dict_set al w (Some d) (Some k) v = Some (w', Some d', 0) \<and> store_inv ext w'
      \<and> dict_ok w' d' \<and> dict_map w' d' = (dict_map w d)(k \<mapsto> v)
      \<and> other_pairs_same (insert (set_pair al) (set (dict_members_list d))) w w'"
  proof
    assume "dict_map w d k \<noteq> None"
    moreover obtain dv where "datas w v = Some dv" using assms(4) by blast
    ultimately show ?thesis using dict_set_old [OF assms(1-3), of dv k al] by (fastforce simp: other_pairs_same_def)
  qed (use dict_set_spec [OF assms(1-4) _ assms(5)] in blast)
qed (use index_agrees_one [OF assms(2)] dict_set_misplaced [OF assms] in blast)+

theorem dict_set_correct_witness:
  "\<exists>w' d'. dict_set demo_set demo_store (Some demo_dict) (Some [97]) 5 = Some (w', Some d', 0)
     \<and> store_inv (\<lambda>_. 0) w' \<and> dict_map w' d' = [[97] \<mapsto> 5]"
  using dict_set_correct [OF demo_store_inv demo_dict_ok(1) _ _ demo_set_ok, of 5 "[97]"] demo_dict_ok(3)
  by (auto simp: demo_store_def demo_dict_ok(2))

text \<open>
  on a dictionary with one bucket, as \<open>dict_new\<close> and \<open>get_new_dict\<close> make them, a lookup after
  an insertion gives the value for that key and what it gave before for every other key.
\<close>

theorem dict_get_after_set:
  assumes "store_inv ext w" and "dict_ok w d" and "dict_hash_size d = 1" and "v \<noteq> 0"
    and "datas w v \<noteq> None" and "set_allocs_ok al w"
  shows "\<exists>w' d'. dict_set al w (Some d) (Some k) v = Some (w', Some d', 0)
    \<and> dict_get w' (Some d') (Some k) = Some v
    \<and> (\<forall>l. l \<noteq> k \<longrightarrow> dict_get w' (Some d') (Some l) = dict_get w (Some d) (Some l))"
proof -
  have nn: "x = y" if "map_option (\<lambda>v :: addr. if v = 0 then None else Some v) x
      = map_option (\<lambda>v. if v = 0 then None else Some v) y" for x y
    using that by (cases x; cases y) (auto split: if_splits)
  have "ds_valid ext (w, d)" "ds_usable al (w, d) v" using assms by (auto simp: ds_valid_def ds_usable_def)
  from dict_store.lookup_after_insert [OF this, of k] obtain s' where
    "ds_insert al (w, d) k v = Some s'" "ds_lookup s' k = Some (Some v)"
    "\<forall>l. l \<noteq> k \<longrightarrow> ds_lookup s' l = ds_lookup (w, d) l" by blast
  then show ?thesis
    by (cases s') (auto simp: ds_insert_def ds_lookup_def dest!: nn split: option.splits if_splits prod.splits)
qed

theorem dict_get_after_set_witness:
  "\<exists>w' d'. dict_set demo_set demo_store (Some demo_dict) (Some [97]) 5 = Some (w', Some d', 0)
     \<and> dict_get w' (Some d') (Some [97]) = Some 5"
  using dict_get_after_set [OF demo_store_inv demo_dict_ok(1) _ _ _ demo_set_ok, of 5 "[97]"]
  by (auto simp: demo_store_def demo_dict_def)

text \<open>
  C13: deletion.  \<open>dict_del\<close> unbinds the key and no other, keeps the dictionary well-formed and the
  reference counts exact, and touches no pair of another dictionary.  For a bound key it frees exactly the pair of the key
  and gives up one reference of its value, which is freed with its buffers when it was the last; for an unbound
  key it changes nothing.
\<close>

theorem dict_del_correct:
  assumes "store_inv ext w" and "dict_ok w d"
  shows "\<exists>w' d'. dict_del w (Some d) (Some k) = Some (w', Some d') \<and> store_inv ext w' \<and> dict_ok w' d'
    \<and> dict_map w' d' = (dict_map w d)(k := None) \<and> other_pairs_same (set (dict_members_list d)) w w'
    \<and> pair_deleted d k w w'"
  using assms by (rule dict_del_spec)

theorem dict_del_correct_witness:
  "\<exists>w d w' d'. dict_map w d = [[97] \<mapsto> 5] \<and> dict_del w (Some d) (Some [97]) = Some (w', Some d')
     \<and> dict_map w' d' = Map.empty"
proof -
  obtain w d where wd: "store_inv (\<lambda>_. 0) w" "dict_ok w d" "dict_map w d = [[97] \<mapsto> 5]"
    using demo_filled by blast
  from dict_del_correct [OF wd(1,2), of "[97]"] wd(3) show ?thesis by fastforce
qed

text \<open>
  C18: destruction.  Dropping the last reference to a dictionary never touches a dangling pointer,
  removes exactly the pairs of that dictionary, keeps the reference counts exact, and every
  value of the dictionary to which no reference is left is freed (unless it is constant).
\<close>

theorem dict_unref_releases:
  assumes inv: "store_inv ext w" and ok: "dict_ok w d" and last: "dict_refcount d = 1"
    and dyn: "\<not> dict_is_static d"
  shows "\<exists>w'. dict_unref w (Some d) = Some (w', None) \<and> store_inv ext w'
    \<and> pairs w' = (pairs w) |` (- set (dict_members_list d))
    \<and> (\<forall>v. v \<in> ran (dict_map w d) \<longrightarrow> refs ext w' v = 0 \<longrightarrow> released w' v)"
proof -
  have mem: "\<exists>p. pairs w a = Some p \<and> pair_value p \<noteq> 0" if "a \<in> set (dict_members_list d)" for a
    by (rule dict_ok_member [OF ok that]) blast
  have "distinct (dict_members_list d)" using ok by (simp add: dict_ok_def)
  then obtain w' where w': "destroy_pairs (dict_members_list d) w = Some w'" "store_inv ext w'"
      "pairs w' = (pairs w) |` (- set (dict_members_list d))"
      "\<forall>v. v \<in> value_of w ` set (dict_members_list d) \<or> released w v \<longrightarrow> refs ext w' v = 0 \<longrightarrow> released w' v"
    using destroy_pairs_spec [OF inv] mem by blast
  have "ran (dict_map w d) \<subseteq> value_of w ` set (dict_members_list d)"
    by (auto simp: ran_def dict_map_Some [OF ok])
  then show ?thesis using w' last dyn by (auto simp: dict_unref_def dict_destroy_def)
qed

theorem dict_unref_releases_witness:
  "\<exists>w'. dict_unref demo_store (Some (demo_dict\<lparr>dict_refcount := 1\<rparr>)) = Some (w', None)
     \<and> store_inv (\<lambda>_. 0) w'"
proof -
  have "dict_ok demo_store (demo_dict\<lparr>dict_refcount := 1\<rparr>)" by (simp add: demo_dict_def dict_ok_def)
  from dict_unref_releases [OF demo_store_inv this] show ?thesis by (auto simp: demo_dict_def)
qed

lemma dict_map_rev_alist: "dict_ok w d \<Longrightarrow> map_of (rev (dict_alist w d)) = dict_map w d"
  by (simp add: map_of_rev_distinct dict_alist_distinct dict_map_def)

lemma copy_pairs_spec:
  assumes inv: "store_inv ext w" and ok: "dict_ok w d" "dict_ok w n" and ix: "\<forall>k. index_agrees n k"
    and dis: "set (dict_members_list d) \<inter> set (dict_members_list n) = {}" and al: "copy_allocs_ok als 0 w"
  shows "\<exists>w' n'. copy_pairs als w d (Some n) = Some (w', Some n') \<and> store_inv ext w' \<and> dict_ok w' n' \<and> dict_ok w' d
    \<and> dict_map w' n' = dict_map w n ++ dict_map w d \<and> dict_map w' d = dict_map w d"
proof -
  have keys: "\<forall>a \<in> set (dict_members_list d). key_of w a \<noteq> None \<and> value_of w a \<noteq> 0"
    using ok(1) by (simp add: dict_ok_def)
  obtain w' n' where r: "foreach_pairs (copy_callback als) (dict_members_list d) (w, (n, 0)) =
        Some (w', (n', length (dict_members_list d)))" "store_inv ext w'" "dict_ok w' n'"
      "dict_map w' n' = dict_map w n ++ map_of (rev (dict_alist w d))"
      "other_pairs_same (new_pairs als 0 \<union> set (dict_members_list n)) w w'"
    using copy_loop [OF inv ok(2) ix keys dis al] by (auto simp: dict_alist_def)
  have "a \<notin> new_pairs als 0 \<union> set (dict_members_list n)" if m: "a \<in> set (dict_members_list d)" for a
  proof -
    obtain p where "pairs w a = Some p" by (rule dict_ok_member [OF ok(1) m])
    then have "a \<notin> new_pairs als 0" using al by (auto simp: new_pairs_def copy_allocs_ok_def set_allocs_ok_def)
    with m dis show ?thesis by auto
  qed
  then have kv: "key_of w' a = key_of w a \<and> value_of w' a = value_of w a" if "a \<in> set (dict_members_list d)" for a
    using other_pairs_key_value [OF r(5)] that by blast
  then have "dict_ok w' d" using keys by (intro dict_ok_cong [OF ok(1)]) auto
  moreover have "dict_map w' d = dict_map w d" using kv by (rule dict_map_cong)
  moreover have "copy_pairs als w d (Some n) = Some (w', Some n')"
    using r(1) by (simp add: copy_pairs_def dict_foreach_def)
  ultimately show ?thesis using r(2-4) dict_map_rev_alist [OF ok(1)] by auto
qed

text \<open>
  copying.  \<open>dict_copy\<close> without a target makes a dictionary that stands for the same map; with
  a target (a dictionary with one bucket and other pairs) the bindings of the source win over
  those of the target.  The source keeps its map, the values are shared, and their reference
  counts stay exact.
\<close>

theorem dict_copy_map:
  assumes "store_inv ext w" and "dict_ok w d" and "dict_hash_size d = 1" and "copy_allocs_ok als 0 w"
  shows "(\<exists>w' n'. dict_copy True True als w (Some d) None = Some (w', Some n') \<and> store_inv ext w'
      \<and> dict_ok w' n' \<and> dict_map w' n' = dict_map w d \<and> dict_map w' d = dict_map w d)
    \<and> (\<forall>n. dict_ok w n \<and> dict_hash_size n = 1 \<and> set (dict_members_list d) \<inter> set (dict_members_list n) = {}
      \<longrightarrow> (\<exists>w' n'. dict_copy True True als w (Some d) (Some n) = Some (w', Some n') \<and> store_inv ext w'
        \<and> dict_ok w' n' \<and> dict_map w' n' = dict_map w n ++ dict_map w d \<and> dict_map w' d = dict_map w d))"
proof (intro conjI allI impI)
  have copy: "dict_copy True True als w (Some d) None = copy_pairs als w d (Some demo_dict)"
    using assms(3) demo_dict_new by (simp add: dict_copy_def)
  have "set (dict_members_list d) \<inter> set (dict_members_list demo_dict) = {}" by (simp add: demo_dict_def)
  from copy_pairs_spec [OF assms(1,2) demo_dict_ok(1) _ this assms(4)] demo_dict_ok(2,3)
  show "\<exists>w' n'. dict_copy True True als w (Some d) None = Some (w', Some n') \<and> store_inv ext w'
      \<and> dict_ok w' n' \<and> dict_map w' n' = dict_map w d \<and> dict_map w' d = dict_map w d"
    unfolding copy by auto
next
  fix n assume n: "dict_ok w n \<and> dict_hash_size n = 1 \<and> set (dict_members_list d) \<inter> set (dict_members_list n) = {}"
  then have "\<forall>k. index_agrees n k" using index_agrees_one by blast
  from copy_pairs_spec [OF assms(1,2) _ this _ assms(4)] n
  show "\<exists>w' n'. dict_copy True True als w (Some d) (Some n) = Some (w', Some n') \<and> store_inv ext w'
        \<and> dict_ok w' n' \<and> dict_map w' n' = dict_map w n ++ dict_map w d \<and> dict_map w' d = dict_map w d"
    by (auto simp: dict_copy_def)
qed

theorem dict_copy_map_witness:
  "\<exists>w' n'. dict_copy True True (\<lambda>i. \<lparr>set_asprintf = True, set_pair = 100 + i, set_key = True\<rparr>)
       demo_store (Some demo_dict) None = Some (w', Some n') \<and> dict_map w' n' = Map.empty"
proof -
  have "copy_allocs_ok (\<lambda>i. \<lparr>set_asprintf = True, set_pair = 100 + i, set_key = True\<rparr>) 0 demo_store"
    by (simp add: copy_allocs_ok_def set_allocs_ok_def demo_store_def)
  from dict_copy_map [OF demo_store_inv demo_dict_ok(1) _ this] show ?thesis
    by (auto simp: demo_dict_ok(2)) (auto simp: demo_dict_def)
qed

text \<open>
  the condition on the index is needed.  \<open>_dict_set\<close> takes the remainder of the hash as a
  signed number: on a well-formed empty dictionary with two buckets, setting the key
  \<^verbatim>\<open>abcdefg\<close> uses the index -1, while a lookup of the same key uses the index 1.
\<close>

theorem dict_set_negative_index:
  "set_hashval (demo_dict\<lparr>dict_hash_size := 2, dict_members := [[], []]\<rparr>) [97, 98, 99, 100, 101, 102, 103] = -1
   \<and> lookup_index (demo_dict\<lparr>dict_hash_size := 2, dict_members := [[], []]\<rparr>) [97, 98, 99, 100, 101, 102, 103] = Some 1
   \<and> dict_set demo_set demo_store (Some (demo_dict\<lparr>dict_hash_size := 2, dict_members := [[], []]\<rparr>))
       (Some [97, 98, 99, 100, 101, 102, 103]) 5 = None"
proof -
  have h: "key_hash [97, 98, 99, 100, 101, 102, 103] = 4033987565" by code_simp
  have s: "sint (4033987565 :: u32) = -260979731" by code_simp
  have u: "unat ((4033987565 :: u32) mod 2) = 1" by code_simp
  show ?thesis using h s u
    by (simp add: set_hashval_def c_rem_def lookup_index_def dict_set_def dict_set_raw_def dict_set_key_def
        dict_lookup_def demo_set_def demo_store_def demo_dict_def data_ref_def)
qed

end
