(* ===== verification/Lz_Dict_Typed.thy ===== *)
theory Lz_Dict_Typed
  imports Lz_Dict
begin

text \<open>
  \<^verbatim>\<open>src/src/dict.c\<close>, the typed layer: values made from integers, strings, pointers and binary blocks, the
  conversions back, and the \<open>dict_get_*\<close>, \<open>dict_set_*\<close> functions built from them.  Integers are words
  of the C type's width.  Every \<open>data_from_*\<close> function of an integer prints it with \<^verbatim>\<open>asprintf\<close>; every
  conversion back copies \<open>len\<close> bytes, terminates them and calls one of the \<^verbatim>\<open>strto*\<close> functions: the
  shared steps are \<open>data_asprintf\<close>, \<open>data_text\<close> and \<open>data_to_number\<close>, and the shared bodies of the
  accessors are \<open>dict_get_conv\<close> and \<open>dict_set_conv\<close>.  A \<^verbatim>\<open>double\<close> is an argument type with its two library
  conversions as parameters.  The theorems are the round trips through the dictionary.
\<close>

section \<open>Values from C data\<close>

text \<open>The addresses of the new \<open>data_t\<close> and of the buffer \<^verbatim>\<open>asprintf\<close> allocates; 0 is a failure.\<close>

record new_allocs =
  new_data :: addr
  new_buf :: addr

definition data_asprintf :: "new_allocs \<Rightarrow> cstring \<Rightarrow> store \<Rightarrow> store \<times> addr" where
  "data_asprintf al s w =
     (let (w1, a) = get_new_data (new_data al) w
      in if a = 0 then (w1, 0)
         else if new_buf al = 0 then (w1, 0)
         else (put_data a (zero_data\<lparr>data_data := Some \<lparr>ptr_addr = new_buf al, ptr_bytes = s @ [0]\<rparr>,
                                      data_len := int (length s) + 1\<rparr>) w1, a))"

definition int_to_data :: "new_allocs \<Rightarrow> u64 \<Rightarrow> store \<Rightarrow> store \<times> addr" where
  "int_to_data al value w = data_asprintf al (print_int (sint value)) w"

definition data_from_int64 :: "new_allocs \<Rightarrow> u64 \<Rightarrow> store \<Rightarrow> store \<times> addr" where
  "data_from_int64 al value w = data_asprintf al (print_int (sint value)) w"

definition data_from_int32 :: "new_allocs \<Rightarrow> u32 \<Rightarrow> store \<Rightarrow> store \<times> addr" where
  "data_from_int32 al value w = data_asprintf al (print_int (sint value)) w"

definition data_from_int16 :: "new_allocs \<Rightarrow> u16 \<Rightarrow> store \<Rightarrow> store \<times> addr" where
  "data_from_int16 al value w = data_asprintf al (print_int (sint value)) w"

definition data_from_int8 :: "new_allocs \<Rightarrow> u8 \<Rightarrow> store \<Rightarrow> store \<times> addr" where
  "data_from_int8 al value w = data_asprintf al (print_int (sint value)) w"

definition data_from_uint64 :: "new_allocs \<Rightarrow> u64 \<Rightarrow> store \<Rightarrow> store \<times> addr" where
  "data_from_uint64 al value w = data_asprintf al (print_nat (unat value)) w"

definition data_from_uint32 :: "new_allocs \<Rightarrow> u32 \<Rightarrow> store \<Rightarrow> store \<times> addr" where
  "data_from_uint32 al value w = data_asprintf al (print_nat (unat value)) w"

definition data_from_uint16 :: "new_allocs \<Rightarrow> u16 \<Rightarrow> store \<Rightarrow> store \<times> addr" where
  "data_from_uint16 al value w = data_asprintf al (print_nat (unat value)) w"

text \<open>\<open>fmt\<close> is the conversion \<^verbatim>\<open>%f\<close>.\<close>

definition data_from_double :: "('d \<Rightarrow> cstring) \<Rightarrow> new_allocs \<Rightarrow> 'd \<Rightarrow> store \<Rightarrow> store \<times> addr" where
  "data_from_double fmt al value w = data_asprintf al (fmt value) w"

definition data_from_ptr :: "new_allocs \<Rightarrow> cptr option \<Rightarrow> store \<Rightarrow> store \<times> addr" where
  "data_from_ptr al value w =
     (if value = None then (w, 0)
      else
        let (w1, a) = get_new_data (new_data al) w
        in if a = 0 then (w1, 0) else (put_data a (zero_data\<lparr>data_data := value\<rparr>) w1, a))"

definition data_from_static_ptr :: "new_allocs \<Rightarrow> cptr option \<Rightarrow> store \<Rightarrow> store \<times> addr" where
  "data_from_static_ptr al value w =
     (let (w1, a) = get_new_data (new_data al) w
      in if a = 0 then (w1, 0)
         else (put_data a (zero_data\<lparr>data_is_static := True, data_data := value\<rparr>) w1, a))"

text \<open>\<^verbatim>\<open>strlen\<close>; a block without a NUL is undefined.\<close>

definition c_strlen :: "u8 list \<Rightarrow> nat option" where
  "c_strlen bs = (if 0 \<in> set bs then Some (length (takeWhile (\<lambda>c. c \<noteq> 0) bs)) else None)"

definition str_to_data :: "new_allocs \<Rightarrow> cptr option \<Rightarrow> store \<Rightarrow> (store \<times> addr) option" where
  "str_to_data al value w =
     (case value of
        None \<Rightarrow> Some (w, 0)
      | Some p \<Rightarrow>
          let (w1, a) = get_new_data (new_data al) w
          in if a = 0 then Some (w1, 0)
             else map_option (\<lambda>n. (put_data a (zero_data\<lparr>data_len := int n + 1, data_data := value,
                                                data_is_static := True\<rparr>) w1, a))
                    (c_strlen (ptr_bytes p)))"

text \<open>The next three functions use the result of \<open>get_new_data\<close> without a test.\<close>

definition data_from_dynstr :: "new_allocs \<Rightarrow> cptr option \<Rightarrow> store \<Rightarrow> (store \<times> addr) option" where
  "data_from_dynstr al value w =
     (case value of
        None \<Rightarrow> Some (w, 0)
      | Some p \<Rightarrow>
          let (w1, a) = get_new_data (new_data al) w
          in if a = 0 then None
             else map_option (\<lambda>n. (put_data a (zero_data\<lparr>data_len := int n + 1, data_data := value\<rparr>) w1, a))
                    (c_strlen (ptr_bytes p)))"

definition data_from_dynptr :: "new_allocs \<Rightarrow> cptr option \<Rightarrow> int \<Rightarrow> store \<Rightarrow> (store \<times> addr) option" where
  "data_from_dynptr al value n w =
     (let (w1, a) = get_new_data (new_data al) w
      in if a = 0 then None
         else Some (put_data a (zero_data\<lparr>data_len := n, data_data := value\<rparr>) w1, a))"

definition bin_to_data :: "new_allocs \<Rightarrow> cptr option \<Rightarrow> int \<Rightarrow> store \<Rightarrow> (store \<times> addr) option" where
  "bin_to_data al value n w =
     (if value = None then Some (w, 0)
      else
        let (w1, a) = get_new_data (new_data al) w
        in if a = 0 then None
           else Some (put_data a (zero_data\<lparr>data_is_static := True, data_len := n, data_data := value\<rparr>) w1, a))"

section \<open>C data from values\<close>

text \<open>The terminated copy of \<open>len\<close> bytes, as a C string.\<close>

definition data_text :: "data \<Rightarrow> cstring option" where
  "data_text d =
     (let bs = (case data_data d of None \<Rightarrow> [] | Some p \<Rightarrow> ptr_bytes p)
      in if data_len d < 0 \<or> int (length bs) < data_len d then None
         else Some (takeWhile (\<lambda>c. c \<noteq> 0) (take (nat (data_len d)) bs)))"

definition data_strto :: "(nat \<Rightarrow> cstring \<Rightarrow> int \<times> int \<times> cstring) \<Rightarrow> addr \<Rightarrow> store \<Rightarrow> int option" where
  "data_strto strto a w =
     (if a = 0 then Some (-1)
      else do {
        d \<leftarrow> datas w a;
        s \<leftarrow> data_text d;
        Some (fst (strto 0 s))
      })"

definition data_to_int64 :: "addr \<Rightarrow> store \<Rightarrow> u64 option" where
  "data_to_int64 a w = map_option word_of_int (data_strto strtoul a w)"

definition data_to_int32 :: "addr \<Rightarrow> store \<Rightarrow> u32 option" where
  "data_to_int32 a w = map_option word_of_int (data_strto strtoul a w)"

definition data_to_int16 :: "addr \<Rightarrow> store \<Rightarrow> u16 option" where
  "data_to_int16 a w = map_option word_of_int (data_strto strtol a w)"

definition data_to_int8 :: "addr \<Rightarrow> store \<Rightarrow> u8 option" where
  "data_to_int8 a w = map_option word_of_int (data_strto strtol a w)"

definition data_to_uint64 :: "addr \<Rightarrow> store \<Rightarrow> u64 option" where
  "data_to_uint64 a w = map_option word_of_int (data_strto strtol a w)"

definition data_to_uint32 :: "addr \<Rightarrow> store \<Rightarrow> u32 option" where
  "data_to_uint32 a w = map_option word_of_int (data_strto strtol a w)"

definition data_to_uint16 :: "addr \<Rightarrow> store \<Rightarrow> u16 option" where
  "data_to_uint16 a w = map_option word_of_int (data_strto strtol a w)"

definition data_to_ptr :: "addr \<Rightarrow> store \<Rightarrow> cptr option option" where
  "data_to_ptr a w = (if a = 0 then Some None else map_option data_data (datas w a))"

definition data_to_str :: "addr \<Rightarrow> store \<Rightarrow> cptr option option" where
  "data_to_str a w = data_to_ptr a w"

definition data_to_bin :: "addr \<Rightarrow> store \<Rightarrow> cptr option option" where
  "data_to_bin a w = data_to_ptr a w"

text \<open>
  The converters with an error code: the code and the value written, if any.  \<open>val\<close> says that the
  pointer to the result is not null.
\<close>

definition data_to_number ::
  "(nat \<Rightarrow> cstring \<Rightarrow> int \<times> int \<times> cstring) \<Rightarrow> bool \<Rightarrow> addr \<Rightarrow> store \<Rightarrow> (int \<times> int option) option" where
  "data_to_number strto val a w =
     (if a = 0 \<or> \<not> val then Some (- EINVAL, None)
      else do {
        d \<leftarrow> datas w a;
        s \<leftarrow> data_text d;
        (case strto 0 s of (v, errno, _) \<Rightarrow> Some (if errno \<noteq> 0 then - errno else 0, Some v))
      })"

definition typed_result :: "(int \<times> int option) option \<Rightarrow> (int \<times> 'a::len word option) option" where
  "typed_result r = map_option (\<lambda>(ret, v). (ret, map_option word_of_int v)) r"

definition data_to_int8_ret :: "bool \<Rightarrow> addr \<Rightarrow> store \<Rightarrow> (int \<times> u8 option) option" where
  "data_to_int8_ret val a w = typed_result (data_to_number strtol val a w)"

definition data_to_int16_ret :: "bool \<Rightarrow> addr \<Rightarrow> store \<Rightarrow> (int \<times> u16 option) option" where
  "data_to_int16_ret val a w = typed_result (data_to_number strtol val a w)"

definition data_to_int32_ret :: "bool \<Rightarrow> addr \<Rightarrow> store \<Rightarrow> (int \<times> u32 option) option" where
  "data_to_int32_ret val a w = typed_result (data_to_number strtol val a w)"

definition data_to_int64_ret :: "bool \<Rightarrow> addr \<Rightarrow> store \<Rightarrow> (int \<times> u64 option) option" where
  "data_to_int64_ret val a w = typed_result (data_to_number strtol val a w)"

definition data_to_uint16_ret :: "bool \<Rightarrow> addr \<Rightarrow> store \<Rightarrow> (int \<times> u16 option) option" where
  "data_to_uint16_ret val a w = typed_result (data_to_number strtoul val a w)"

definition data_to_uint32_ret :: "bool \<Rightarrow> addr \<Rightarrow> store \<Rightarrow> (int \<times> u32 option) option" where
  "data_to_uint32_ret val a w = typed_result (data_to_number strtoul val a w)"

definition data_to_uint64_ret :: "bool \<Rightarrow> addr \<Rightarrow> store \<Rightarrow> (int \<times> u64 option) option" where
  "data_to_uint64_ret val a w = typed_result (data_to_number strtoul val a w)"

text \<open>\<open>strtod\<close> is the library's conversion, with the value of \<^verbatim>\<open>errno\<close> it leaves.\<close>

definition data_to_double_ret ::
  "(cstring \<Rightarrow> 'd \<times> int) \<Rightarrow> bool \<Rightarrow> addr \<Rightarrow> store \<Rightarrow> (int \<times> 'd option) option" where
  "data_to_double_ret strtod val a w =
     (if a = 0 \<or> \<not> val then Some (- EINVAL, None)
      else do {
        d \<leftarrow> datas w a;
        s \<leftarrow> data_text d;
        (case strtod s of (v, errno) \<Rightarrow> Some (if errno \<noteq> 0 then - errno else 0, Some v))
      })"

definition data_to_ptr_ret :: "bool \<Rightarrow> addr \<Rightarrow> store \<Rightarrow> (int \<times> cptr option option) option" where
  "data_to_ptr_ret val a w =
     (if a = 0 then Some (- EINVAL, None) else map_option (\<lambda>d. (0, Some (data_data d))) (datas w a))"

section \<open>Accessors\<close>

definition dict_get_with_ref ::
  "store \<Rightarrow> dict option \<Rightarrow> cstring option \<Rightarrow> (store \<times> int \<times> addr) option" where
  "dict_get_with_ref w this key =
     (if this = None \<or> key = None then Some (w, - EINVAL, 0)
      else do {
        pair \<leftarrow> dict_lookup w this key;
        if pair \<noteq> 0 then do {
          p \<leftarrow> pairs w pair;
          (w1, v) \<leftarrow> data_ref (pair_value p) w;
          Some (w1, 0, v)
        }
        else Some (w, - ENOENT, 0)
      })"

definition dict_get_conv ::
  "(bool \<Rightarrow> addr \<Rightarrow> store \<Rightarrow> (int \<times> 'x option) option)
   \<Rightarrow> store \<Rightarrow> dict option \<Rightarrow> cstring option \<Rightarrow> bool \<Rightarrow> (store \<times> int \<times> 'x option) option" where
  "dict_get_conv conv w this key val =
     (if this = None \<or> key = None \<or> \<not> val then Some (w, - EINVAL, None)
      else do {
        (w1, ret, data) \<leftarrow> dict_get_with_ref w this key;
        if ret \<noteq> 0 then map_option (\<lambda>w2. (w2, ret, None)) (data_unref data w1)
        else do {
          (ret', v) \<leftarrow> conv val data w1;
          map_option (\<lambda>w2. (w2, ret', v)) (data_unref data w1)
        }
      })"

definition dict_set_conv ::
  "set_allocs \<Rightarrow> (store \<times> addr) option \<Rightarrow> dict option \<Rightarrow> cstring option \<Rightarrow> (store \<times> dict option \<times> int) option" where
  "dict_set_conv sal new this key =
     do {
       (w1, a) \<leftarrow> new;
       if a = 0 then Some (w1, this, - EINVAL) else dict_set sal w1 this key a
     }"

definition dict_get_int8 ::
  "store \<Rightarrow> dict option \<Rightarrow> cstring option \<Rightarrow> bool \<Rightarrow> (store \<times> int \<times> u8 option) option" where
  "dict_get_int8 w this key val = dict_get_conv data_to_int8_ret w this key val"

definition dict_set_int8 ::
  "new_allocs \<Rightarrow> set_allocs \<Rightarrow> store \<Rightarrow> dict option \<Rightarrow> cstring option \<Rightarrow> u8 \<Rightarrow> (store \<times> dict option \<times> int) option" where
  "dict_set_int8 al sal w this key val = dict_set_conv sal (Some (data_from_int8 al val w)) this key"

definition dict_get_int16 ::
  "store \<Rightarrow> dict option \<Rightarrow> cstring option \<Rightarrow> bool \<Rightarrow> (store \<times> int \<times> u16 option) option" where
  "dict_get_int16 w this key val = dict_get_conv data_to_int16_ret w this key val"

definition dict_set_int16 ::
  "new_allocs \<Rightarrow> set_allocs \<Rightarrow> store \<Rightarrow> dict option \<Rightarrow> cstring option \<Rightarrow> u16 \<Rightarrow> (store \<times> dict option \<times> int) option" where
  "dict_set_int16 al sal w this key val = dict_set_conv sal (Some (data_from_int16 al val w)) this key"

definition dict_get_int32 ::
  "store \<Rightarrow> dict option \<Rightarrow> cstring option \<Rightarrow> bool \<Rightarrow> (store \<times> int \<times> u32 option) option" where
  "dict_get_int32 w this key val = dict_get_conv data_to_int32_ret w this key val"

definition dict_set_int32 ::
  "new_allocs \<Rightarrow> set_allocs \<Rightarrow> store \<Rightarrow> dict option \<Rightarrow> cstring option \<Rightarrow> u32 \<Rightarrow> (store \<times> dict option \<times> int) option" where
  "dict_set_int32 al sal w this key val = dict_set_conv sal (Some (data_from_int32 al val w)) this key"

definition dict_get_int64 ::
  "store \<Rightarrow> dict option \<Rightarrow> cstring option \<Rightarrow> bool \<Rightarrow> (store \<times> int \<times> u64 option) option" where
  "dict_get_int64 w this key val = dict_get_conv data_to_int64_ret w this key val"

definition dict_set_int64 ::
  "new_allocs \<Rightarrow> set_allocs \<Rightarrow> store \<Rightarrow> dict option \<Rightarrow> cstring option \<Rightarrow> u64 \<Rightarrow> (store \<times> dict option \<times> int) option" where
  "dict_set_int64 al sal w this key val = dict_set_conv sal (Some (data_from_int64 al val w)) this key"

definition dict_get_uint16 ::
  "store \<Rightarrow> dict option \<Rightarrow> cstring option \<Rightarrow> bool \<Rightarrow> (store \<times> int \<times> u16 option) option" where
  "dict_get_uint16 w this key val = dict_get_conv data_to_uint16_ret w this key val"

definition dict_set_uint16 ::
  "new_allocs \<Rightarrow> set_allocs \<Rightarrow> store \<Rightarrow> dict option \<Rightarrow> cstring option \<Rightarrow> u16 \<Rightarrow> (store \<times> dict option \<times> int) option" where
  "dict_set_uint16 al sal w this key val = dict_set_conv sal (Some (data_from_uint16 al val w)) this key"

definition dict_get_uint32 ::
  "store \<Rightarrow> dict option \<Rightarrow> cstring option \<Rightarrow> bool \<Rightarrow> (store \<times> int \<times> u32 option) option" where
  "dict_get_uint32 w this key val = dict_get_conv data_to_uint32_ret w this key val"

definition dict_set_uint32 ::
  "new_allocs \<Rightarrow> set_allocs \<Rightarrow> store \<Rightarrow> dict option \<Rightarrow> cstring option \<Rightarrow> u32 \<Rightarrow> (store \<times> dict option \<times> int) option" where
  "dict_set_uint32 al sal w this key val = dict_set_conv sal (Some (data_from_uint32 al val w)) this key"

definition dict_get_uint64 ::
  "store \<Rightarrow> dict option \<Rightarrow> cstring option \<Rightarrow> bool \<Rightarrow> (store \<times> int \<times> u64 option) option" where
  "dict_get_uint64 w this key val = dict_get_conv data_to_uint64_ret w this key val"

definition dict_set_uint64 ::
  "new_allocs \<Rightarrow> set_allocs \<Rightarrow> store \<Rightarrow> dict option \<Rightarrow> cstring option \<Rightarrow> u64 \<Rightarrow> (store \<times> dict option \<times> int) option" where
  "dict_set_uint64 al sal w this key val = dict_set_conv sal (Some (data_from_uint64 al val w)) this key"

definition dict_get_double ::
  "(cstring \<Rightarrow> 'd \<times> int) \<Rightarrow> store \<Rightarrow> dict option \<Rightarrow> cstring option \<Rightarrow> bool \<Rightarrow> (store \<times> int \<times> 'd option) option" where
  "dict_get_double strtod w this key val = dict_get_conv (data_to_double_ret strtod) w this key val"

definition dict_set_double ::
  "('d \<Rightarrow> cstring) \<Rightarrow> new_allocs \<Rightarrow> set_allocs \<Rightarrow> store \<Rightarrow> dict option \<Rightarrow> cstring option \<Rightarrow> 'd \<Rightarrow> (store \<times> dict option \<times> int) option" where
  "dict_set_double fmt al sal w this key val = dict_set_conv sal (Some (data_from_double fmt al val w)) this key"

definition dict_set_static_ptr ::
  "new_allocs \<Rightarrow> set_allocs \<Rightarrow> store \<Rightarrow> dict option \<Rightarrow> cstring option \<Rightarrow> cptr option \<Rightarrow> (store \<times> dict option \<times> int) option" where
  "dict_set_static_ptr al sal w this key ptr = dict_set_conv sal (Some (data_from_static_ptr al ptr w)) this key"

text \<open>The length is a \<^verbatim>\<open>size_t\<close> passed as an \<^verbatim>\<open>int32_t\<close>.\<close>

definition to_int32 :: "nat \<Rightarrow> int" where
  "to_int32 n = signed_take_bit 31 (int n)"

definition dict_set_dynptr ::
  "new_allocs \<Rightarrow> set_allocs \<Rightarrow> store \<Rightarrow> dict option \<Rightarrow> cstring option \<Rightarrow> cptr option \<Rightarrow> nat \<Rightarrow> (store \<times> dict option \<times> int) option" where
  "dict_set_dynptr al sal w this key ptr n = dict_set_conv sal (data_from_dynptr al ptr (to_int32 n) w) this key"

definition dict_get_ptr ::
  "store \<Rightarrow> dict option \<Rightarrow> cstring option \<Rightarrow> bool \<Rightarrow> (store \<times> int \<times> cptr option option) option" where
  "dict_get_ptr w this key val = dict_get_conv data_to_ptr_ret w this key val"

definition dict_set_ptr ::
  "new_allocs \<Rightarrow> set_allocs \<Rightarrow> store \<Rightarrow> dict option \<Rightarrow> cstring option \<Rightarrow> cptr option \<Rightarrow> (store \<times> dict option \<times> int) option" where
  "dict_set_ptr al sal w this key ptr = dict_set_conv sal (Some (data_from_ptr al ptr w)) this key"

text \<open>
  \<open>dict_get_str\<close> and \<open>dict_get_bin\<close>: a value without data leaves the result alone and returns the
  code of the successful lookup.
\<close>

definition dict_get_str :: "store \<Rightarrow> dict option \<Rightarrow> cstring option \<Rightarrow> bool \<Rightarrow> (store \<times> int \<times> cptr option) option" where
  "dict_get_str w this key str =
     (if this = None \<or> key = None \<or> \<not> str then Some (w, - EINVAL, None)
      else do {
        (w1, ret, data) \<leftarrow> dict_get_with_ref w this key;
        out \<leftarrow> (if ret < 0 \<or> data = 0 then Some None else map_option data_data (datas w1 data));
        map_option (\<lambda>w2. (w2, ret, out)) (data_unref data w1)
      })"

definition dict_get_bin :: "store \<Rightarrow> dict option \<Rightarrow> cstring option \<Rightarrow> bool \<Rightarrow> (store \<times> int \<times> cptr option) option" where
  "dict_get_bin w this key bin = dict_get_str w this key bin"

definition dict_set_str ::
  "new_allocs \<Rightarrow> set_allocs \<Rightarrow> store \<Rightarrow> dict option \<Rightarrow> cstring option \<Rightarrow> cptr option \<Rightarrow> (store \<times> dict option \<times> int) option" where
  "dict_set_str al sal w this key str = dict_set_conv sal (str_to_data al str w) this key"

definition dict_set_dynstr ::
  "new_allocs \<Rightarrow> set_allocs \<Rightarrow> store \<Rightarrow> dict option \<Rightarrow> cstring option \<Rightarrow> cptr option \<Rightarrow> (store \<times> dict option \<times> int) option" where
  "dict_set_dynstr al sal w this key str = dict_set_conv sal (data_from_dynstr al str w) this key"

definition dict_set_bin ::
  "new_allocs \<Rightarrow> set_allocs \<Rightarrow> store \<Rightarrow> dict option \<Rightarrow> cstring option \<Rightarrow> cptr option \<Rightarrow> nat \<Rightarrow> (store \<times> dict option \<times> int) option" where
  "dict_set_bin al sal w this key ptr n =
     (if ptr = None then Some (w, this, - EINVAL)
      else do {
        (w1, a) \<leftarrow> bin_to_data al ptr (to_int32 n) w;
        if a = 0 then Some (w1, this, - EINVAL)
        else do {
          d \<leftarrow> datas w1 a;
          dict_set sal (put_data a (d\<lparr>data_data := ptr, data_len := to_int32 n, data_is_static := False\<rparr>) w1) this key a
        }
      })"

definition dict_set_static_bin ::
  "new_allocs \<Rightarrow> set_allocs \<Rightarrow> store \<Rightarrow> dict option \<Rightarrow> cstring option \<Rightarrow> cptr option \<Rightarrow> nat \<Rightarrow> (store \<times> dict option \<times> int) option" where
  "dict_set_static_bin al sal w this key ptr n =
     (if ptr = None then Some (w, this, - EINVAL)
      else do {
        (w1, a) \<leftarrow> bin_to_data al ptr (to_int32 n) w;
        if a = 0 then Some (w1, this, - EINVAL)
        else do {
          d \<leftarrow> datas w1 a;
          dict_set sal (put_data a (d\<lparr>data_data := ptr, data_len := to_int32 n, data_is_static := True\<rparr>) w1) this key a
        }
      })"

section \<open>A new value\<close>

definition new_allocs_ok :: "new_allocs \<Rightarrow> store \<Rightarrow> bool" where
  "new_allocs_ok al w \<longleftrightarrow> new_data al \<noteq> 0 \<and> new_buf al \<noteq> 0 \<and> datas w (new_data al) = None"

text \<open>A value with no references yet.\<close>

lemma store_inv_new_data:
  assumes "store_inv ext w" and "a \<noteq> 0" and "datas w a = None" and "data_refcount d = 0"
  shows "store_inv ext (put_data a d w)" and "pair_refs w a = {}"
proof -
  have r: "refs ext w a = 0" using store_inv_counted [OF assms(1), of a] assms(2,3) by (simp add: counted_def)
  then show "pair_refs w a = {}" using finite_pair_refs [OF assms(1), of a] by (simp add: refs_def)
  show "store_inv ext (put_data a d w)"
    using store_inv_null [OF assms(1)] assms(2,4) r
    by (intro store_invI [OF assms(1), of _ a]) (auto simp: refs_def counted_def)
qed

lemma data_unref_other:
  "\<lbrakk>data_unref v w = Some w'; u \<noteq> v\<rbrakk> \<Longrightarrow> datas w' u = datas w u"
  by (auto simp: data_unref_def data_destroy_def Let_def split: if_splits bind_splits)

lemma data_unref_pairs: "data_unref v w = Some w' \<Longrightarrow> pairs w' = pairs w"
  by (auto simp: data_unref_def data_destroy_def Let_def split: if_splits bind_splits)

text \<open>Setting a value that no pair refers to leaves its contents and gives it one reference.\<close>

lemma dict_set_fresh_value:
  assumes "dict_set al w (Some d) (Some k) v = Some (w', Some d', 0)" and "v \<noteq> 0"
    and "datas w v = Some dv" and "pair_refs w v = {}"
  shows "datas w' v = Some (dv\<lparr>data_refcount := data_refcount dv + 1\<rparr>)"
proof -
  obtain a where look: "dict_lookup w (Some d) (Some k) = Some a"
    using assms(1,2)
    by (cases "dict_lookup w (Some d) (Some k)")
      (auto simp: dict_set_def dict_set_raw_def dict_set_key_def Let_def)
  have ref: "data_ref v w = Some (put_data v (dv\<lparr>data_refcount := data_refcount dv + 1\<rparr>) w, v)"
    using assms(2,3) by (simp add: data_ref_def)
  show ?thesis
  proof (cases "a = 0")
    case True
    then show ?thesis using assms(1,2) look ref
      by (auto simp: dict_set_def dict_set_raw_def dict_set_key_def Let_def split: if_splits)
  next
    case False
    then obtain p where p: "pairs w a = Some p"
      "data_unref (pair_value p) (put_pair a (p\<lparr>pair_value := v\<rparr>)
         (put_data v (dv\<lparr>data_refcount := data_refcount dv + 1\<rparr>) w)) = Some w'"
      using assms(1,2) look ref
      by (auto simp: dict_set_def dict_set_raw_def dict_set_key_def Let_def split: bind_splits)
    have "pair_value p \<noteq> v" using p(1) assms(4) by (auto simp: pair_refs_def)
    then show ?thesis using data_unref_other [OF p(2), of v] by simp
  qed
qed

text \<open>Taking a reference for the time of a conversion leaves the store as it was.\<close>

lemma data_ref_unref:
  assumes "v \<noteq> 0" and "datas w v = Some d" and "0 < data_refcount d" and "data_ref v w = Some (w1, u)"
  shows "u = v" and "datas w1 v = Some (d\<lparr>data_refcount := data_refcount d + 1\<rparr>)"
    and "data_unref v w1 = Some w"
  using assms
  by (auto simp: data_ref_def data_unref_def put_data_def Let_def map_upd_triv intro!: store.equality)

lemma dict_get_conv_spec:
  assumes inv: "store_inv ext w" and ok: "dict_ok w d" and v: "dict_map w d k = Some v"
    and conv: "\<And>(w1 :: store) e. datas w v = Some e \<Longrightarrow> datas w1 v = Some (e\<lparr>data_refcount := data_refcount e + 1\<rparr>) \<Longrightarrow>
        conv True v w1 = Some (ret, x)"
  shows "dict_get_conv conv w (Some d) (Some k) True = Some (w, ret, x)"
proof -
  have null: "pairs w 0 = None" using store_inv_null [OF inv] by simp
  obtain a p where a: "dict_lookup w (Some d) (Some k) = Some a" "a \<noteq> 0" "pairs w a = Some p"
      "pair_value p = v" "v \<noteq> 0"
    using dict_lookup_found [OF ok null v] by blast
  have pos: "0 < refs ext w v" using refs_pair [OF inv a(3)] a(4) by simp
  obtain e where e: "datas w v = Some e" "data_refcount e = int (refs ext w v)"
    using store_inv_live [OF inv a(5) pos] by blast
  obtain w1 where w1: "data_ref v w = Some (w1, v)" using data_ref_inv [OF inv a(5) e(1)] by blast
  have "0 < data_refcount e" using e pos by simp
  note ru = data_ref_unref [OF a(5) e(1) this w1]
  show ?thesis using a w1 ru conv [OF e(1)]
    by (simp add: dict_get_conv_def dict_get_with_ref_def)
qed

lemma data_text_printed:
  "0 \<notin> set s \<Longrightarrow> data_text (zero_data\<lparr>data_data := Some \<lparr>ptr_addr = b, ptr_bytes = s @ [0]\<rparr>,
     data_len := int (length s) + 1, data_refcount := r\<rparr>) = Some s"
  by (simp add: data_text_def nat_add_distrib c_string)

text \<open>The round trip of a printed value, whatever is printed and however it is read back.\<close>

lemma printed_roundtrip:
  assumes inv: "store_inv ext w" and ok: "dict_ok w d" and ix: "index_agrees d k"
    and al: "new_allocs_ok al w" and sal: "set_allocs_ok sal w" and s: "0 \<notin> set s"
    and conv: "\<And>(w1 :: store) e. datas w1 (new_data al) = Some e \<Longrightarrow> data_text e = Some s \<Longrightarrow>
        conv True (new_data al) w1 = Some (ret, x)"
  shows "\<exists>w' d'. dict_set_conv sal (Some (data_asprintf al s w)) (Some d) (Some k) = Some (w', Some d', 0)
    \<and> store_inv ext w' \<and> dict_ok w' d' \<and> dict_map w' d' = (dict_map w d)(k \<mapsto> new_data al)
    \<and> dict_get_conv conv w' (Some d') (Some k) True = Some (w', ret, x)"
proof -
  let ?a = "new_data al"
  define dv where "dv = zero_data\<lparr>data_data := Some \<lparr>ptr_addr = new_buf al, ptr_bytes = s @ [0]\<rparr>,
     data_len := int (length s) + 1\<rparr>"
  have new: "data_asprintf al s w = (put_data ?a dv w, ?a)"
    using al by (simp add: data_asprintf_def get_new_data_def new_allocs_ok_def dv_def put_data_def)
  have a: "?a \<noteq> 0" "datas w ?a = None" using al by (auto simp: new_allocs_ok_def)
  have z: "data_refcount dv = 0" by (simp add: dv_def zero_data_def)
  note fresh = store_inv_new_data [OF inv a z]
  let ?w = "put_data ?a dv w"
  have kv: "key_of ?w = key_of w \<and> value_of ?w = value_of w" by (rule key_value_cong) simp
  have ok1: "dict_ok ?w d" using ok by (rule dict_ok_cong) (use ok kv in \<open>auto simp: dict_ok_def\<close>)
  have map1: "dict_map ?w d = dict_map w d" by (rule dict_map_cong) (simp add: kv)
  have sal1: "set_allocs_ok sal ?w" using sal by (simp add: set_allocs_ok_def)
  have live: "datas ?w ?a \<noteq> None" by simp
  obtain w' d' where r: "dict_set sal ?w (Some d) (Some k) ?a = Some (w', Some d', 0)" "store_inv ext w'"
      "dict_ok w' d'" "dict_map w' d' = (dict_map w d)(k \<mapsto> ?a)"
    using dict_set_spec [OF fresh(1) ok1 a(1) live ix sal1] map1 by auto
  have "pair_refs ?w ?a = {}" using fresh(2) by simp
  from dict_set_fresh_value [OF r(1) a(1) _ this]
  have dv': "datas w' ?a = Some (dv\<lparr>data_refcount := 1\<rparr>)" using z by simp
  have "dict_get_conv conv w' (Some d') (Some k) True = Some (w', ret, x)"
  proof (rule dict_get_conv_spec [OF r(2,3)])
    show "dict_map w' d' k = Some ?a" using r(4) by simp
    fix w1 :: store and e assume "datas w' ?a = Some e" "datas w1 ?a = Some (e\<lparr>data_refcount := data_refcount e + 1\<rparr>)"
    then show "conv True ?a w1 = Some (ret, x)"
      using dv' data_text_printed [OF s] by (intro conv) (auto simp: dv_def)
  qed
  then show ?thesis using r a(1) new by (simp add: dict_set_conv_def)
qed

section \<open>Round trips\<close>

lemma sint_word_range: "- (2 ^ 63) \<le> sint (x :: 'a::len word)" "sint x < 2 ^ 63" if "LENGTH('a) \<le> 64"
proof -
  have l: "(2 :: int) ^ (LENGTH('a) - 1) \<le> 2 ^ 63" using that by (intro power_increasing) auto
  show "- (2 ^ 63) \<le> sint x" using l sint_ge [of x] by linarith
  show "sint x < 2 ^ 63" using l sint_lt [of x] by linarith
qed

lemma strto_print:
  fixes x :: "'a::len word"
  assumes "LENGTH('a) \<le> 64"
  shows "strtol 0 (print_int (sint x)) = (sint x, 0, [])"
    and "strtoul 0 (print_int (sint x)) = (sint x mod 2 ^ 64, 0, [])"
    and "strtoul 0 (print_nat (unat x)) = (uint x, 0, [])"
proof -
  show "strtol 0 (print_int (sint x)) = (sint x, 0, [])"
    "strtoul 0 (print_int (sint x)) = (sint x mod 2 ^ 64, 0, [])"
    using sint_word_range [OF assms, of x] by (simp_all add: strtol_print_int strtoul_print_int)
  have "unat x < 2 ^ LENGTH('a)" by (rule unsigned_less)
  also have "\<dots> \<le> 2 ^ 64" using assms by (intro power_increasing) auto
  finally show "strtoul 0 (print_nat (unat x)) = (uint x, 0, [])"
    by (simp add: strtoul_print_nat)
qed

lemma strtol_print_unat:
  fixes x :: "'a::len word"
  assumes "LENGTH('a) < 64"
  shows "strtol 0 (print_nat (unat x)) = (uint x, 0, [])"
proof -
  have "unat x < 2 ^ LENGTH('a)" by (rule unsigned_less)
  also have "\<dots> \<le> 2 ^ 63" using assms by (intro power_increasing) auto
  finally show ?thesis by (simp add: strtol_def parse_number_print_nat)
qed

lemma typed_result_number:
  "\<lbrakk>a \<noteq> 0; datas w a = Some e; data_text e = Some s; strto 0 s = (v, 0, [])\<rbrakk> \<Longrightarrow>
     typed_result (data_to_number strto True a w) = Some (0, Some (word_of_int v))"
  by (simp add: typed_result_def data_to_number_def)

text \<open>Signed and unsigned integers of any width up to 64 bits.\<close>

lemma signed_roundtrip:
  fixes x :: "'a::len word"
  assumes "LENGTH('a) \<le> 64" and "store_inv ext w" and "dict_ok w d" and "index_agrees d k"
    and "new_allocs_ok al w" and "set_allocs_ok sal w"
  shows "\<exists>w' d'. dict_set_conv sal (Some (data_asprintf al (print_int (sint x)) w)) (Some d) (Some k) = Some (w', Some d', 0)
    \<and> store_inv ext w' \<and> dict_ok w' d' \<and> dict_map w' d' = (dict_map w d)(k \<mapsto> new_data al)
    \<and> dict_get_conv (\<lambda>val a w. typed_result (data_to_number strtol val a w)) w' (Some d') (Some k) True
        = Some (w', 0, Some x)"
proof -
  have a: "new_data al \<noteq> 0" using assms(5) by (simp add: new_allocs_ok_def)
  have conv: "typed_result (data_to_number strtol True (new_data al) w1) = Some (0, Some x)"
    if "datas w1 (new_data al) = Some e" "data_text e = Some (print_int (sint x))" for w1 :: store and e
    using strto_print(1) [OF assms(1), of x] by (simp add: typed_result_number [OF a that])
  show ?thesis by (rule printed_roundtrip [OF assms(2-6) print_no_nul(2)]) (rule conv)
qed

lemma unsigned_roundtrip:
  fixes x :: "'a::len word"
  assumes "LENGTH('a) \<le> 64" and "store_inv ext w" and "dict_ok w d" and "index_agrees d k"
    and "new_allocs_ok al w" and "set_allocs_ok sal w"
  shows "\<exists>w' d'. dict_set_conv sal (Some (data_asprintf al (print_nat (unat x)) w)) (Some d) (Some k) = Some (w', Some d', 0)
    \<and> store_inv ext w' \<and> dict_ok w' d' \<and> dict_map w' d' = (dict_map w d)(k \<mapsto> new_data al)
    \<and> dict_get_conv (\<lambda>val a w. typed_result (data_to_number strtoul val a w)) w' (Some d') (Some k) True
        = Some (w', 0, Some x)"
proof -
  have a: "new_data al \<noteq> 0" using assms(5) by (simp add: new_allocs_ok_def)
  have conv: "typed_result (data_to_number strtoul True (new_data al) w1) = Some (0, Some x)"
    if "datas w1 (new_data al) = Some e" "data_text e = Some (print_nat (unat x))" for w1 :: store and e
    using strto_print(3) [OF assms(1), of x] by (simp add: typed_result_number [OF a that])
  show ?thesis by (rule printed_roundtrip [OF assms(2-6) print_no_nul(1)]) (rule conv)
qed

section \<open>Properties\<close>

text \<open>The allocations of a new value at 7 with its buffer at 8, for the witnesses.\<close>

definition demo_new :: new_allocs where
  "demo_new = \<lparr>new_data = 7, new_buf = 8\<rparr>"

lemma demo_new_ok: "new_allocs_ok demo_new demo_store"
  by (simp add: new_allocs_ok_def demo_new_def demo_store_def)

text \<open>
  C19: signed integers survive the dictionary: for every width, a value stored with \<open>dict_set_int*\<close> is
  read back exactly with \<open>dict_get_int*\<close>, for every value of the type (the most negative one
  included), and reading leaves the store as it was.  Insertion and lookup must compute the same bucket for the key
  (\<open>index_agrees\<close>): they do for every key in a dictionary with one bucket, as \<open>dict_new\<close> and \<open>get_new_dict\<close> make it
  (\<open>index_agrees_one\<close>), but with more buckets not for every key, and then the value may be stored where no lookup
  finds it, or outside the array (property \<open>dict_set_correct\<close>).  The allocations succeed.
\<close>

theorem dict_int_roundtrip:
  assumes "store_inv ext w" and "dict_ok w d" and "index_agrees d k"
    and "new_allocs_ok al w" and "set_allocs_ok sal w"
  shows "(\<exists>w' d'. dict_set_int8 al sal w (Some d) (Some k) x8 = Some (w', Some d', 0)
      \<and> store_inv ext w' \<and> dict_ok w' d' \<and> dict_map w' d' = (dict_map w d)(k \<mapsto> new_data al)
      \<and> dict_get_int8 w' (Some d') (Some k) True = Some (w', 0, Some x8))
    \<and> (\<exists>w' d'. dict_set_int16 al sal w (Some d) (Some k) x16 = Some (w', Some d', 0)
      \<and> store_inv ext w' \<and> dict_ok w' d' \<and> dict_map w' d' = (dict_map w d)(k \<mapsto> new_data al)
      \<and> dict_get_int16 w' (Some d') (Some k) True = Some (w', 0, Some x16))
    \<and> (\<exists>w' d'. dict_set_int32 al sal w (Some d) (Some k) x32 = Some (w', Some d', 0)
      \<and> store_inv ext w' \<and> dict_ok w' d' \<and> dict_map w' d' = (dict_map w d)(k \<mapsto> new_data al)
      \<and> dict_get_int32 w' (Some d') (Some k) True = Some (w', 0, Some x32))
    \<and> (\<exists>w' d'. dict_set_int64 al sal w (Some d) (Some k) x64 = Some (w', Some d', 0)
      \<and> store_inv ext w' \<and> dict_ok w' d' \<and> dict_map w' d' = (dict_map w d)(k \<mapsto> new_data al)
      \<and> dict_get_int64 w' (Some d') (Some k) True = Some (w', 0, Some x64))"
proof (intro conjI)
  show "\<exists>w' d'. dict_set_int8 al sal w (Some d) (Some k) x8 = Some (w', Some d', 0)
      \<and> store_inv ext w' \<and> dict_ok w' d' \<and> dict_map w' d' = (dict_map w d)(k \<mapsto> new_data al)
      \<and> dict_get_int8 w' (Some d') (Some k) True = Some (w', 0, Some x8)"
    unfolding dict_set_int8_def dict_get_int8_def data_from_int8_def data_to_int8_ret_def [abs_def]
    by (rule signed_roundtrip [OF _ assms]) simp
next
  show "\<exists>w' d'. dict_set_int16 al sal w (Some d) (Some k) x16 = Some (w', Some d', 0)
      \<and> store_inv ext w' \<and> dict_ok w' d' \<and> dict_map w' d' = (dict_map w d)(k \<mapsto> new_data al)
      \<and> dict_get_int16 w' (Some d') (Some k) True = Some (w', 0, Some x16)"
    unfolding dict_set_int16_def dict_get_int16_def data_from_int16_def data_to_int16_ret_def [abs_def]
    by (rule signed_roundtrip [OF _ assms]) simp
next
  show "\<exists>w' d'. dict_set_int32 al sal w (Some d) (Some k) x32 = Some (w', Some d', 0)
      \<and> store_inv ext w' \<and> dict_ok w' d' \<and> dict_map w' d' = (dict_map w d)(k \<mapsto> new_data al)
      \<and> dict_get_int32 w' (Some d') (Some k) True = Some (w', 0, Some x32)"
    unfolding dict_set_int32_def dict_get_int32_def data_from_int32_def data_to_int32_ret_def [abs_def]
    by (rule signed_roundtrip [OF _ assms]) simp
next
  show "\<exists>w' d'. dict_set_int64 al sal w (Some d) (Some k) x64 = Some (w', Some d', 0)
      \<and> store_inv ext w' \<and> dict_ok w' d' \<and> dict_map w' d' = (dict_map w d)(k \<mapsto> new_data al)
      \<and> dict_get_int64 w' (Some d') (Some k) True = Some (w', 0, Some x64)"
    unfolding dict_set_int64_def dict_get_int64_def data_from_int64_def data_to_int64_ret_def [abs_def]
    by (rule signed_roundtrip [OF _ assms]) simp
qed

theorem dict_int_roundtrip_witness:
  "\<exists>w' d'. dict_set_int8 demo_new demo_set demo_store (Some demo_dict) (Some [97]) 0x80 = Some (w', Some d', 0)
     \<and> dict_get_int8 w' (Some d') (Some [97]) True = Some (w', 0, Some 0x80)"
  using dict_int_roundtrip [OF demo_store_inv demo_dict_ok(1,3) demo_new_ok demo_set_ok, of "[97]" "0x80"] by blast

text \<open>
  unsigned integers survive the dictionary, at every width and for every value.
\<close>

theorem dict_uint_roundtrip:
  assumes "store_inv ext w" and "dict_ok w d" and "index_agrees d k"
    and "new_allocs_ok al w" and "set_allocs_ok sal w"
  shows "(\<exists>w' d'. dict_set_uint16 al sal w (Some d) (Some k) x16 = Some (w', Some d', 0)
      \<and> store_inv ext w' \<and> dict_ok w' d' \<and> dict_map w' d' = (dict_map w d)(k \<mapsto> new_data al)
      \<and> dict_get_uint16 w' (Some d') (Some k) True = Some (w', 0, Some x16))
    \<and> (\<exists>w' d'. dict_set_uint32 al sal w (Some d) (Some k) x32 = Some (w', Some d', 0)
      \<and> store_inv ext w' \<and> dict_ok w' d' \<and> dict_map w' d' = (dict_map w d)(k \<mapsto> new_data al)
      \<and> dict_get_uint32 w' (Some d') (Some k) True = Some (w', 0, Some x32))
    \<and> (\<exists>w' d'. dict_set_uint64 al sal w (Some d) (Some k) x64 = Some (w', Some d', 0)
      \<and> store_inv ext w' \<and> dict_ok w' d' \<and> dict_map w' d' = (dict_map w d)(k \<mapsto> new_data al)
      \<and> dict_get_uint64 w' (Some d') (Some k) True = Some (w', 0, Some x64))"
proof (intro conjI)
  show "\<exists>w' d'. dict_set_uint16 al sal w (Some d) (Some k) x16 = Some (w', Some d', 0)
      \<and> store_inv ext w' \<and> dict_ok w' d' \<and> dict_map w' d' = (dict_map w d)(k \<mapsto> new_data al)
      \<and> dict_get_uint16 w' (Some d') (Some k) True = Some (w', 0, Some x16)"
    unfolding dict_set_uint16_def dict_get_uint16_def data_from_uint16_def data_to_uint16_ret_def [abs_def]
    by (rule unsigned_roundtrip [OF _ assms]) simp
next
  show "\<exists>w' d'. dict_set_uint32 al sal w (Some d) (Some k) x32 = Some (w', Some d', 0)
      \<and> store_inv ext w' \<and> dict_ok w' d' \<and> dict_map w' d' = (dict_map w d)(k \<mapsto> new_data al)
      \<and> dict_get_uint32 w' (Some d') (Some k) True = Some (w', 0, Some x32)"
    unfolding dict_set_uint32_def dict_get_uint32_def data_from_uint32_def data_to_uint32_ret_def [abs_def]
    by (rule unsigned_roundtrip [OF _ assms]) simp
next
  show "\<exists>w' d'. dict_set_uint64 al sal w (Some d) (Some k) x64 = Some (w', Some d', 0)
      \<and> store_inv ext w' \<and> dict_ok w' d' \<and> dict_map w' d' = (dict_map w d)(k \<mapsto> new_data al)
      \<and> dict_get_uint64 w' (Some d') (Some k) True = Some (w', 0, Some x64)"
    unfolding dict_set_uint64_def dict_get_uint64_def data_from_uint64_def data_to_uint64_ret_def [abs_def]
    by (rule unsigned_roundtrip [OF _ assms]) simp
qed

theorem dict_uint_roundtrip_witness:
  "\<exists>w' d'. dict_set_uint64 demo_new demo_set demo_store (Some demo_dict) (Some [97]) (-1) = Some (w', Some d', 0)
     \<and> dict_get_uint64 w' (Some d') (Some [97]) True = Some (w', 0, Some (-1))"
  using dict_uint_roundtrip [OF demo_store_inv demo_dict_ok(1,3) demo_new_ok demo_set_ok, of "[97]" 0 0 "-1"] by blast

lemma data_strto_printed:
  assumes "new_allocs_ok al w" and "0 \<notin> set s"
  shows "data_strto strto (new_data al) (fst (data_asprintf al s w)) = Some (fst (strto 0 s))"
  using assms data_text_printed [OF assms(2), where b = "new_buf al" and r = 0]
  by (simp add: data_strto_def data_asprintf_def get_new_data_def new_allocs_ok_def put_data_def zero_data_def)

lemma word_of_int_mod:
  assumes "LENGTH('a::len) \<le> 64"
  shows "(word_of_int (i mod 18446744073709551616) :: 'a word) = word_of_int i"
proof -
  have "(2 :: int) ^ LENGTH('a) dvd 2 ^ 64" using assms by (rule le_imp_power_dvd)
  then have "i mod 2 ^ 64 mod 2 ^ LENGTH('a) = i mod 2 ^ LENGTH('a)" by (rule mod_mod_cancel)
  then show ?thesis by (simp add: word_of_int_eq_iff take_bit_eq_mod)
qed

text \<open>
  the converters without an error code.  For every type but \<^verbatim>\<open>uint64_t\<close>, converting back what
  \<open>data_from_*\<close> made gives the value.
\<close>

theorem data_to_from_roundtrip:
  assumes "new_allocs_ok al w"
  shows "data_to_int64 (new_data al) (fst (data_from_int64 al x64 w)) = Some x64
    \<and> data_to_int32 (new_data al) (fst (data_from_int32 al x32 w)) = Some x32
    \<and> data_to_int16 (new_data al) (fst (data_from_int16 al x16 w)) = Some x16
    \<and> data_to_int8 (new_data al) (fst (data_from_int8 al x8 w)) = Some x8
    \<and> data_to_uint32 (new_data al) (fst (data_from_uint32 al x32 w)) = Some x32
    \<and> data_to_uint16 (new_data al) (fst (data_from_uint16 al x16 w)) = Some x16"
  unfolding data_to_int64_def data_from_int64_def data_to_int32_def data_from_int32_def
    data_to_int16_def data_from_int16_def data_to_int8_def data_from_int8_def
    data_to_uint32_def data_from_uint32_def data_to_uint16_def data_from_uint16_def
  using data_strto_printed [OF assms print_no_nul(1)] data_strto_printed [OF assms print_no_nul(2)]
  by (simp add: strto_print strtol_print_unat word_of_int_mod word_of_int_uint del: of_int_uint)

theorem data_to_from_roundtrip_witness:
  "data_to_int32 7 (fst (data_from_int32 demo_new (-5) demo_store)) = Some (-5)"
  using data_to_from_roundtrip [OF demo_new_ok, of 0 "-5"] by (simp add: demo_new_def)

text \<open>
  \<open>data_to_uint64\<close> reads with the signed \<^verbatim>\<open>strtoll\<close>: from 2 to the 63 on, every value
  comes back as 2 to the 63 minus 1.
\<close>

theorem data_to_uint64_clamps:
  assumes "new_allocs_ok al w" and "2 ^ 63 \<le> unat x"
  shows "data_to_uint64 (new_data al) (fst (data_from_uint64 al x w)) = Some 0x7fffffffffffffff"
proof -
  have "strtol 0 (print_nat (unat x)) = (2 ^ 63 - 1, 34, [])"
    using assms(2) by (simp add: strtol_def parse_number_print_nat)
  then show ?thesis
    unfolding data_to_uint64_def data_from_uint64_def
    using data_strto_printed [OF assms(1) print_no_nul(1), of strtol] by simp
qed

theorem data_to_uint64_clamps_witness:
  "data_to_uint64 7 (fst (data_from_uint64 demo_new 0x8000000000000000 demo_store)) = Some 0x7fffffffffffffff"
  using data_to_uint64_clamps [OF demo_new_ok, of "0x8000000000000000"] by (simp add: demo_new_def)

lemma dict_get_with_ref_unbound:
  assumes "store_inv ext w" and "dict_ok w d" and "dict_map w d k = None"
  shows "dict_get_with_ref w (Some d) (Some k) = Some (w, - 2, 0)"
    and "dict_get_conv conv w (Some d) (Some k) True = Some (w, - 2, None)"
proof -
  have "pairs w 0 = None" using store_inv_null [OF assms(1)] by simp
  from dict_lookup_absent [OF assms(2) this assms(3)]
  show r: "dict_get_with_ref w (Some d) (Some k) = Some (w, - 2, 0)" by (auto simp: dict_get_with_ref_def)
  then show "dict_get_conv conv w (Some d) (Some k) True = Some (w, - 2, None)"
    by (simp add: dict_get_conv_def data_unref_def)
qed

text \<open>
  a key that is not bound.  Every accessor returns \<^verbatim>\<open>-ENOENT\<close>, writes nothing and leaves the
  store as it was.
\<close>

theorem dict_get_unbound:
  assumes "store_inv ext w" and "dict_ok w d" and "dict_map w d k = None"
  shows "dict_get_with_ref w (Some d) (Some k) = Some (w, - 2, 0)
    \<and> dict_get_int8 w (Some d) (Some k) True = Some (w, - 2, None)
    \<and> dict_get_int16 w (Some d) (Some k) True = Some (w, - 2, None)
    \<and> dict_get_int32 w (Some d) (Some k) True = Some (w, - 2, None)
    \<and> dict_get_int64 w (Some d) (Some k) True = Some (w, - 2, None)
    \<and> dict_get_uint16 w (Some d) (Some k) True = Some (w, - 2, None)
    \<and> dict_get_uint32 w (Some d) (Some k) True = Some (w, - 2, None)
    \<and> dict_get_uint64 w (Some d) (Some k) True = Some (w, - 2, None)
    \<and> dict_get_ptr w (Some d) (Some k) True = Some (w, - 2, None)
    \<and> dict_get_str w (Some d) (Some k) True = Some (w, - 2, None)
    \<and> dict_get_bin w (Some d) (Some k) True = Some (w, - 2, None)"
  using dict_get_with_ref_unbound(1) [OF assms]
  by (simp add: dict_get_with_ref_unbound(2) [OF assms]
      dict_get_int8_def dict_get_int16_def dict_get_int32_def dict_get_int64_def
      dict_get_uint16_def dict_get_uint32_def dict_get_uint64_def dict_get_ptr_def
      dict_get_str_def dict_get_bin_def data_unref_def)

theorem dict_get_unbound_witness:
  "dict_get_int32 demo_store (Some demo_dict) (Some [97]) True = Some (demo_store, - 2, None)"
  using dict_get_unbound [OF demo_store_inv demo_dict_ok(1), of "[97]"] by (simp add: demo_dict_ok(2))

text \<open>
  strings.  After \<open>dict_set_str\<close> of a C string, \<open>dict_get_str\<close> returns 0 and the same pointer,
  and the stored length counts the terminating NUL; the buffer is never freed by the
  dictionary, being static.
\<close>

theorem dict_str_roundtrip:
  assumes inv: "store_inv ext w" and ok: "dict_ok w d" and ix: "index_agrees d k"
    and al: "new_data al \<noteq> 0" "datas w (new_data al) = None" and sal: "set_allocs_ok sal w"
    and str: "c_strlen (ptr_bytes p) = Some n"
  shows "\<exists>w' d' e. dict_set_str al sal w (Some d) (Some k) (Some p) = Some (w', Some d', 0)
    \<and> store_inv ext w' \<and> dict_ok w' d' \<and> dict_get_str w' (Some d') (Some k) True = Some (w', 0, Some p)
    \<and> datas w' (new_data al) = Some e \<and> data_len e = int n + 1 \<and> data_buffers e = []"
proof -
  let ?a = "new_data al"
  define dv where "dv = zero_data\<lparr>data_len := int n + 1, data_data := Some p, data_is_static := True\<rparr>"
  let ?w = "put_data ?a dv w"
  have new: "str_to_data al (Some p) w = Some (?w, ?a)"
    using al str by (simp add: str_to_data_def get_new_data_def dv_def put_data_def)
  have z: "data_refcount dv = 0" by (simp add: dv_def zero_data_def)
  note fresh = store_inv_new_data [OF inv al z]
  have kv: "key_of ?w = key_of w \<and> value_of ?w = value_of w" by (rule key_value_cong) simp
  have ok1: "dict_ok ?w d" using ok by (rule dict_ok_cong) (use ok kv in \<open>auto simp: dict_ok_def\<close>)
  have sal1: "set_allocs_ok sal ?w" using sal by (simp add: set_allocs_ok_def)
  obtain w' d' where r: "dict_set sal ?w (Some d) (Some k) ?a = Some (w', Some d', 0)" "store_inv ext w'"
      "dict_ok w' d'" "dict_map w' d' = (dict_map ?w d)(k \<mapsto> ?a)"
    using dict_set_spec [OF fresh(1) ok1 al(1) _ ix sal1] by auto
  have "pair_refs ?w ?a = {}" using fresh(2) by simp
  from dict_set_fresh_value [OF r(1) al(1) _ this]
  have dv': "datas w' ?a = Some (dv\<lparr>data_refcount := 1\<rparr>)" using z by simp
  have null: "pairs w' 0 = None" using store_inv_null [OF r(2)] by simp
  have "dict_map w' d' k = Some ?a" using r(4) by simp
  from dict_lookup_found [OF r(3) null this] obtain a q where
    q: "dict_lookup w' (Some d') (Some k) = Some a" "a \<noteq> 0" "pairs w' a = Some q" "pair_value q = ?a" by blast
  obtain w1 where w1: "data_ref ?a w' = Some (w1, ?a)" using data_ref_inv [OF r(2) al(1) dv'] by blast
  have "0 < data_refcount (dv\<lparr>data_refcount := 1\<rparr>)" by simp
  note ru = data_ref_unref [OF al(1) dv' this w1]
  have "dict_get_str w' (Some d') (Some k) True = Some (w', 0, Some p)"
    using q w1 ru al(1) by (simp add: dict_get_str_def dict_get_with_ref_def dv_def)
  then show ?thesis using r dv' new al(1)
    by (auto simp: dict_set_str_def dict_set_conv_def dv_def data_buffers_def)
qed

theorem dict_str_roundtrip_witness:
  "\<exists>w' d'. dict_set_str demo_new demo_set demo_store (Some demo_dict) (Some [97])
        (Some \<lparr>ptr_addr = 50, ptr_bytes = [104, 105, 0]\<rparr>) = Some (w', Some d', 0)
     \<and> dict_get_str w' (Some d') (Some [97]) True = Some (w', 0, Some \<lparr>ptr_addr = 50, ptr_bytes = [104, 105, 0]\<rparr>)"
proof -
  have "c_strlen (ptr_bytes \<lparr>ptr_addr = 50, ptr_bytes = [104, 105, 0]\<rparr>) = Some 2" by (simp add: c_strlen_def)
  from dict_str_roundtrip [OF demo_store_inv demo_dict_ok(1,3) _ _ demo_set_ok this, of demo_new "[97]"] demo_new_ok
  show ?thesis by (auto simp: new_allocs_ok_def)
qed

text \<open>
  a bound value without data.  \<open>dict_get_str\<close> and \<open>dict_get_bin\<close> return 0, the code of success,
  although they store no result.
\<close>

theorem dict_get_str_no_data:
  assumes "store_inv ext w" and "dict_ok w d" and "dict_map w d k = Some v"
    and "datas w v = Some e" and "data_data e = None"
  shows "dict_get_str w (Some d) (Some k) True = Some (w, 0, None)
    \<and> dict_get_bin w (Some d) (Some k) True = Some (w, 0, None)"
proof -
  have null: "pairs w 0 = None" using store_inv_null [OF assms(1)] by simp
  obtain a p where a: "dict_lookup w (Some d) (Some k) = Some a" "a \<noteq> 0" "pairs w a = Some p"
      "pair_value p = v" "v \<noteq> 0"
    using dict_lookup_found [OF assms(2) null assms(3)] by blast
  have pos: "0 < refs ext w v" using refs_pair [OF assms(1) a(3)] a(4) by simp
  then have "0 < data_refcount e" using store_inv_live [OF assms(1) a(5) pos] assms(4) by auto
  moreover obtain w1 where w1: "data_ref v w = Some (w1, v)" using data_ref_inv [OF assms(1) a(5) assms(4)] by blast
  ultimately show ?thesis using data_ref_unref [OF a(5) assms(4) _ w1] a w1 assms(5)
    by (simp add: dict_get_str_def dict_get_bin_def dict_get_with_ref_def)
qed

theorem dict_get_str_no_data_witness:
  "\<exists>w' d'. dict_set demo_set demo_store (Some demo_dict) (Some [97]) 5 = Some (w', Some d', 0)
     \<and> dict_get_str w' (Some d') (Some [97]) True = Some (w', 0, None)"
proof -
  have "datas demo_store 5 \<noteq> None" by (simp add: demo_store_def)
  from dict_set_spec [OF demo_store_inv demo_dict_ok(1) _ this demo_dict_ok(3) demo_set_ok, of "[97]"]
  obtain w' d' where r: "dict_set demo_set demo_store (Some demo_dict) (Some [97]) 5 = Some (w', Some d', 0)"
    "store_inv (\<lambda>_. 0) w'" "dict_ok w' d'" "dict_map w' d' [97] = Some 5" by auto
  have "pair_refs demo_store 5 = {}" by (simp add: pair_refs_def demo_store_def)
  from dict_set_fresh_value [OF r(1) _ _ this] have "datas w' 5 = Some (zero_data\<lparr>data_refcount := 1\<rparr>)"
    by (simp add: demo_store_def) (simp add: zero_data_def)
  from dict_get_str_no_data [OF r(2-4) this] r(1) show ?thesis by (simp add: zero_data_def)
qed

end
