(* ===== verification/Lz_Byte_Order.thy ===== *)
theory Lz_Byte_Order
  imports Lz_Prelude
begin

text \<open>
  \<^verbatim>\<open>src/src/byte-order.h\<close>: the byte-swapping functions and the three self-patching function
  pointers \<open>hton16\<close>, \<open>hton32\<close>, \<open>hton64\<close>.  Each pointer starts at an initialiser that probes the
  endianness of the machine, redirects all three pointers and then answers the call.
\<close>

section \<open>Swapping\<close>

definition do_swap2 :: "'a::len word \<Rightarrow> 'a word" where
  "do_swap2 x = shl (x AND 0x00ff) 8 OR shr (x AND 0xff00) 8"

definition do_swap4 :: "'a::len word \<Rightarrow> 'a word" where
  "do_swap4 x = shl (do_swap2 (x AND 0x0000ffff)) 16 OR do_swap2 (shr (x AND 0xffff0000) 16)"

definition do_swap8 :: "'a::len word \<Rightarrow> 'a word" where
  "do_swap8 x = shl (do_swap4 (x AND 0x00000000ffffffff)) 32
                OR do_swap4 (shr (x AND 0xffffffff00000000) 32)"

text \<open>The operand of \<^verbatim>\<open>__swap16\<close> is promoted to \<^verbatim>\<open>int\<close> and the result truncated on return.\<close>

definition swap16 :: "u16 \<Rightarrow> u16" where
  "swap16 x = ucast (do_swap2 (ucast x :: u32))"

definition swap32 :: "u32 \<Rightarrow> u32" where
  "swap32 x = do_swap4 x"

definition swap64 :: "u64 \<Rightarrow> u64" where
  "swap64 x = do_swap8 x"

definition noswap16 :: "u16 \<Rightarrow> u16" where "noswap16 x = x"
definition noswap32 :: "u32 \<Rightarrow> u32" where "noswap32 x = x"
definition noswap64 :: "u64 \<Rightarrow> u64" where "noswap64 x = x"

section \<open>The function pointers\<close>

datatype byte_order_impl = Byte_Order_Init | Swap | Noswap

record byte_order =
  hton16_p :: byte_order_impl
  hton32_p :: byte_order_impl
  hton64_p :: byte_order_impl

definition byte_order_start :: byte_order where
  "byte_order_start = \<lparr>hton16_p = Byte_Order_Init, hton32_p = Byte_Order_Init,
                        hton64_p = Byte_Order_Init\<rparr>"

text \<open>
  The probe \<^verbatim>\<open>((char *)(&num))[0] == 1\<close> is the endianness of the machine, the argument
  \<open>little\<close>.
\<close>

definition byte_order_init :: "bool \<Rightarrow> byte_order" where
  "byte_order_init little =
     (if little then \<lparr>hton16_p = Swap, hton32_p = Swap, hton64_p = Swap\<rparr>
      else \<lparr>hton16_p = Noswap, hton32_p = Noswap, hton64_p = Noswap\<rparr>)"

fun hton16 :: "bool \<Rightarrow> byte_order \<Rightarrow> u16 \<Rightarrow> byte_order \<times> u16" where
  "hton16 little s i =
     (case hton16_p s of
        Byte_Order_Init \<Rightarrow> let s' = byte_order_init little in
          (s', if hton16_p s' = Swap then swap16 i else noswap16 i)
      | Swap \<Rightarrow> (s, swap16 i)
      | Noswap \<Rightarrow> (s, noswap16 i))"

fun hton32 :: "bool \<Rightarrow> byte_order \<Rightarrow> u32 \<Rightarrow> byte_order \<times> u32" where
  "hton32 little s i =
     (case hton32_p s of
        Byte_Order_Init \<Rightarrow> let s' = byte_order_init little in
          (s', if hton32_p s' = Swap then swap32 i else noswap32 i)
      | Swap \<Rightarrow> (s, swap32 i)
      | Noswap \<Rightarrow> (s, noswap32 i))"

fun hton64 :: "bool \<Rightarrow> byte_order \<Rightarrow> u64 \<Rightarrow> byte_order \<times> u64" where
  "hton64 little s i =
     (case hton64_p s of
        Byte_Order_Init \<Rightarrow> let s' = byte_order_init little in
          (s', if hton64_p s' = Swap then swap64 i else noswap64 i)
      | Swap \<Rightarrow> (s, swap64 i)
      | Noswap \<Rightarrow> (s, noswap64 i))"

text \<open>A program's use of the header: a sequence of calls on the shared pointers.\<close>

datatype hton_call = Call16 u16 | Call32 u32 | Call64 u64

fun hton_step :: "bool \<Rightarrow> byte_order \<Rightarrow> hton_call \<Rightarrow> byte_order" where
  "hton_step little s (Call16 i) = fst (hton16 little s i)"
| "hton_step little s (Call32 i) = fst (hton32 little s i)"
| "hton_step little s (Call64 i) = fst (hton64 little s i)"

definition hton_run :: "bool \<Rightarrow> hton_call list \<Rightarrow> byte_order" where
  "hton_run little cs = foldl (hton_step little) byte_order_start cs"

section \<open>Bytes in memory\<close>

text \<open>
  The bytes of a word in memory, least significant first, and the layout the machine uses:
  what \<^verbatim>\<open>memcpy (buf, &netword, sizeof (netword))\<close> stores and the converse reads.
\<close>

definition le_bytes32 :: "u32 \<Rightarrow> u8 list" where
  "le_bytes32 x = [ucast x, ucast (shr x 8), ucast (shr x 16), ucast (shr x 24)]"

definition of_le_bytes32 :: "u8 list \<Rightarrow> u32" where
  "of_le_bytes32 bs = ucast (bs ! 0) OR shl (ucast (bs ! 1)) 8
                      OR shl (ucast (bs ! 2)) 16 OR shl (ucast (bs ! 3)) 24"

definition be_bytes32 :: "u32 \<Rightarrow> u8 list" where
  "be_bytes32 x = rev (le_bytes32 x)"

definition mem_bytes32 :: "bool \<Rightarrow> u32 \<Rightarrow> u8 list" where
  "mem_bytes32 little x = (if little then le_bytes32 x else be_bytes32 x)"

section \<open>Lemmas\<close>

lemma mask_consts:
  "(0x00ff :: 'a::len word) = mask 8"
  "(0xff00 :: 'a::len word) = push_bit 8 (mask 8)"
  "(0x0000ffff :: 'a::len word) = mask 16"
  "(0xffff0000 :: 'a::len word) = push_bit 16 (mask 16)"
  "(0x00000000ffffffff :: 'a::len word) = mask 32"
  "(0xffffffff00000000 :: 'a::len word) = push_bit 32 (mask 32)"
  by (simp_all add: mask_eq_exp_minus_1 push_bit_eq_mult)

lemma bit_do_swap2:
  "bit (do_swap2 (x::'a::len word)) n \<longleftrightarrow>
     n < LENGTH('a) \<and> (if n < 8 then bit x (n + 8) else n < 16 \<and> bit x (n - 8))"
  unfolding do_swap2_def mask_consts
  by (auto simp: word_bits add.commute dest: bit_imp_le_length)

lemma bit_do_swap4:
  "bit (do_swap4 (x::'a::len word)) n \<longleftrightarrow> n < LENGTH('a) \<and>
     (if n < 8 then bit x (n + 24) else if n < 16 then bit x (n + 8)
      else if n < 24 then bit x (n - 8) else n < 32 \<and> bit x (n - 24))"
  unfolding do_swap4_def mask_consts
  by (auto simp: word_bits bit_do_swap2 add.commute dest: bit_imp_le_length)

lemma bit_do_swap8:
  "bit (do_swap8 (x::64 word)) n \<longleftrightarrow> n < 64 \<and>
     (if n < 8 then bit x (n + 56) else if n < 16 then bit x (n + 40)
      else if n < 24 then bit x (n + 24) else if n < 32 then bit x (n + 8)
      else if n < 40 then bit x (n - 8) else if n < 48 then bit x (n - 24)
      else if n < 56 then bit x (n - 40) else bit x (n - 56))"
  unfolding do_swap8_def mask_consts
  by (auto simp: word_bits bit_do_swap4 add.commute not_less dest: bit_imp_le_length)

lemma swap16_swap16 [simp]: "swap16 (swap16 x) = x"
  by (rule bit_word_eqI)
    (auto simp: swap16_def bit_do_swap2 word_bits dest: bit_imp_le_length)

lemma swap32_swap32 [simp]: "swap32 (swap32 x) = x"
  by (rule bit_word_eqI) (auto simp: swap32_def bit_do_swap4 dest: bit_imp_le_length)

lemma swap64_swap64 [simp]: "swap64 (swap64 x) = x"
  by (rule bit_word_eqI) (auto simp: swap64_def bit_do_swap8 dest: bit_imp_le_length)

lemma le_bytes32_swap32 [simp]: "le_bytes32 (swap32 x) = be_bytes32 x"
  unfolding be_bytes32_def le_bytes32_def swap32_def
  by (auto intro!: bit_word_eqI simp: word_bits bit_do_swap4 add.commute)

lemma of_le_bytes32_le_bytes32 [simp]: "of_le_bytes32 (le_bytes32 x) = x"
proof (rule bit_word_eqI)
  fix n assume n: "n < LENGTH(32)"
  consider "n < 8" | "8 \<le> n" "n < 16" | "16 \<le> n" "n < 24" | "24 \<le> n" by linarith
  then show "bit (of_le_bytes32 (le_bytes32 x)) n = bit x n"
    unfolding of_le_bytes32_def le_bytes32_def
    using n by cases (auto simp: word_bits)
qed

lemma length_le_bytes32 [simp]: "length (le_bytes32 x) = 4"
  by (simp add: le_bytes32_def)

lemma length_be_bytes32 [simp]: "length (be_bytes32 x) = 4"
  by (simp add: be_bytes32_def)

lemma be_bytes32_swap32: "be_bytes32 (swap32 x) = le_bytes32 x"
  by (simp add: be_bytes32_def)

lemma of_le_be_bytes32 [simp]: "of_le_bytes32 (be_bytes32 x) = swap32 x"
  using of_le_bytes32_le_bytes32 [of "swap32 x"] by simp

text \<open>
  In every state a program can reach the three pointers agree: all still at their
  initialisers, or all at the implementation for this machine.
\<close>

definition byte_order_ok :: "bool \<Rightarrow> byte_order \<Rightarrow> bool" where
  "byte_order_ok little s \<longleftrightarrow> s = byte_order_start \<or> s = byte_order_init little"

lemmas byte_order_defs =
  byte_order_ok_def byte_order_start_def byte_order_init_def noswap16_def noswap32_def noswap64_def

lemma hton_step_ok: "byte_order_ok little s \<Longrightarrow> byte_order_ok little (hton_step little s c)"
  by (cases c) (auto simp: byte_order_defs)

lemma hton_run_ok: "byte_order_ok little (hton_run little cs)"
proof -
  have "byte_order_ok little s \<Longrightarrow> byte_order_ok little (foldl (hton_step little) s cs)" for s
    by (induction cs arbitrary: s) (auto intro: hton_step_ok)
  then show ?thesis by (simp add: hton_run_def byte_order_ok_def)
qed

lemma hton_ok_result:
  assumes "byte_order_ok little s"
  shows "snd (hton16 little s a) = (if little then swap16 a else a)"
    and "snd (hton32 little s x) = (if little then swap32 x else x)"
    and "snd (hton64 little s y) = (if little then swap64 y else y)"
  using assms by (auto simp: byte_order_defs)

section \<open>Properties\<close>

text \<open>
  C16: after any sequence of conversion calls, including the first one that patches the
  pointers, and on either kind of machine, storing the result of \<open>hton32\<close> leaves the bytes of
  the argument in memory most significant first (network byte order).
\<close>

theorem hton32_network_order:
  "mem_bytes32 little (snd (hton32 little (hton_run little cs) x)) = be_bytes32 x"
  by (simp add: hton_ok_result [OF hton_run_ok] mem_bytes32_def del: hton32.simps)

text \<open>
  the conversions are their own inverses, whatever calls happened before and between, at
  the three widths; so the macros that define \<open>ntoh\<close> as \<open>hton\<close> are right.
\<close>

theorem ntoh_hton_roundtrip:
  "snd (hton16 little (hton_run little cs') (snd (hton16 little (hton_run little cs) a))) = a
   \<and> snd (hton32 little (hton_run little cs') (snd (hton32 little (hton_run little cs) x))) = x
   \<and> snd (hton64 little (hton_run little cs') (snd (hton64 little (hton_run little cs) y))) = y"
  by (simp add: hton_ok_result [OF hton_run_ok] del: hton16.simps hton32.simps hton64.simps)

end
