(* ===== verification/Lz_Dict_Serial.thy ===== *)
theory Lz_Dict_Serial
  imports Lz_Dict_Typed Lz_Byte_Order
begin

text \<open>
  \<^verbatim>\<open>src/src/dict.c\<close>, the wire formats of a dictionary: the binary format (\<open>dict_serialized_length\<close>, \<open>dict_serialize\<close>,
  \<open>dict_unserialize\<close>, \<open>dict_allocate_and_serialize\<close>), the older text format (\<open>dict_serialize_old\<close>,
  \<open>dict_unserialize_old\<close>) and the scatter list (\<open>dict_iovec_len\<close>, \<open>dict_to_iovec\<close>).  A buffer is the
  list of its bytes; a write or a read outside it is undefined (\<open>None\<close>).  A pointer into the buffer is an
  offset.  The state of the byte-order functions is threaded through, as \<open>hton32\<close> may patch itself at the
  first call.  The theorems: the serializer fills exactly the announced length, reading back gives
  the same keys and bytes, and the text format and the scatter list agree.
\<close>

section \<open>Buffers\<close>

definition buf_write :: "u8 list \<Rightarrow> nat \<Rightarrow> u8 list \<Rightarrow> u8 list option" where
  "buf_write buf pos bs =
     (if pos + length bs \<le> length buf then Some (take pos buf @ bs @ drop (pos + length bs) buf) else None)"

text \<open>\<open>memcpy (buf, &netword, sizeof (netword))\<close> with \<open>netword = hton32 (x)\<close>.\<close>

definition put_net32 :: "bool \<Rightarrow> byte_order \<Rightarrow> u8 list \<Rightarrow> nat \<Rightarrow> u32 \<Rightarrow> (byte_order \<times> u8 list) option" where
  "put_net32 little s buf pos x =
     (case hton32 little s x of
        (s', netword) \<Rightarrow> map_option (\<lambda>buf'. (s', buf')) (buf_write buf pos (mem_bytes32 little netword)))"

text \<open>\<open>memcpy (&hostord, buf, sizeof (hostord))\<close> followed by \<open>ntoh32\<close>, as a signed number.\<close>

definition get_net32 :: "bool \<Rightarrow> byte_order \<Rightarrow> u8 list \<Rightarrow> int \<Rightarrow> (byte_order \<times> int) option" where
  "get_net32 little s block off =
     (if off < 0 \<or> int (length block) < off + 4 then None
      else
        let bs = take 4 (drop (nat off) block);
            hostord = of_le_bytes32 (if little then bs else rev bs)
        in (case hton32 little s hostord of (s', x) \<Rightarrow> Some (s', sint x)))"

text \<open>The C string at an offset.\<close>

definition string_at :: "u8 list \<Rightarrow> int \<Rightarrow> cstring option" where
  "string_at block off =
     (if off < 0 \<or> 0 \<notin> set (drop (nat off) block) then None
      else Some (takeWhile (\<lambda>c. c \<noteq> 0) (drop (nat off) block)))"

text \<open>A pointer into the block at address \<open>base\<close>, up to one past the end.\<close>

definition ptr_at :: "addr \<Rightarrow> u8 list \<Rightarrow> int \<Rightarrow> cptr option" where
  "ptr_at base block off =
     (if off < 0 \<or> int (length block) < off then None
      else Some \<lparr>ptr_addr = base + nat off, ptr_bytes = drop (nat off) block\<rparr>)"

text \<open>Arithmetic in a signed 32-bit variable.\<close>

definition int32 :: "int \<Rightarrow> int" where
  "int32 x = signed_take_bit 31 x"

section \<open>The binary format\<close>

fun serialized_vec_length :: "iovec list \<Rightarrow> nat \<Rightarrow> int \<Rightarrow> int option" where
  "serialized_vec_length iov 0 len = Some len"
| "serialized_vec_length [] (Suc n) len = None"
| "serialized_vec_length (v # iov) (Suc n) len = serialized_vec_length iov n (int32 (len + int (iov_len v)))"

fun serialized_pairs_length :: "store \<Rightarrow> nat \<Rightarrow> addr list \<Rightarrow> int \<Rightarrow> int option" where
  "serialized_pairs_length w 0 as len = Some len"
| "serialized_pairs_length w (Suc n) [] len = Some (- EINVAL)"
| "serialized_pairs_length w (Suc n) (a # as) len =
     (case pairs w a of
        None \<Rightarrow> None
      | Some p \<Rightarrow>
          let len1 = int32 (len + 8)
          in (case pair_key p of
                None \<Rightarrow> Some (- EINVAL)
              | Some k \<Rightarrow>
                  let len2 = int32 (len1 + int (length k) + 1)
                  in if pair_value p = 0 then Some (- EINVAL)
                     else
                       (case datas w (pair_value p) of
                          None \<Rightarrow> None
                        | Some d \<Rightarrow>
                            (case data_vec d of
                               Some (_, iov) \<Rightarrow>
                                 (case serialized_vec_length iov (nat (data_len d)) len2 of
                                    None \<Rightarrow> None
                                  | Some len3 \<Rightarrow> serialized_pairs_length w n as len3)
                             | None \<Rightarrow>
                                 if data_len d < 0 then Some (- EINVAL)
                                 else serialized_pairs_length w n as (int32 (len2 + data_len d))))))"

definition dict_serialized_length_locked :: "store \<Rightarrow> dict \<Rightarrow> int option" where
  "dict_serialized_length_locked w this =
     (if dict_count this < 0 then Some (- EINVAL)
      else serialized_pairs_length w (nat (dict_count this)) (dict_members_list this) 4)"

definition dict_serialized_length :: "store \<Rightarrow> dict option \<Rightarrow> int option" where
  "dict_serialized_length w this =
     (case this of None \<Rightarrow> Some (- EINVAL) | Some d \<Rightarrow> dict_serialized_length_locked w d)"

text \<open>The loop over the pairs, from the position \<open>pos\<close> on.\<close>

fun serialize_pairs ::
  "bool \<Rightarrow> store \<Rightarrow> nat \<Rightarrow> addr list \<Rightarrow> byte_order \<Rightarrow> u8 list \<Rightarrow> nat \<Rightarrow> (byte_order \<times> u8 list \<times> int) option" where
  "serialize_pairs little w 0 as s buf pos = Some (s, buf, 0)"
| "serialize_pairs little w (Suc n) [] s buf pos = Some (s, buf, -1)"
| "serialize_pairs little w (Suc n) (a # as) s buf pos =
     (case pairs w a of
        None \<Rightarrow> None
      | Some p \<Rightarrow>
          (case pair_key p of
             None \<Rightarrow> Some (s, buf, -1)
           | Some k \<Rightarrow>
               let keylen = int32 (int (length k))
               in (case put_net32 little s buf pos (word_of_int keylen) of
                     None \<Rightarrow> None
                   | Some (s1, buf1) \<Rightarrow>
                       if pair_value p = 0 then Some (s1, buf1, -1)
                       else
                         (case datas w (pair_value p) of
                            None \<Rightarrow> None
                          | Some d \<Rightarrow>
                              let vallen = data_len d
                              in (case put_net32 little s1 buf1 (pos + 4) (word_of_int vallen) of
                                    None \<Rightarrow> None
                                  | Some (s2, buf2) \<Rightarrow>
                                      if keylen < 0 then None
                                      else
                                        (case buf_write buf2 (pos + 8) (take (nat keylen) k @ [0]) of
                                           None \<Rightarrow> None
                                         | Some buf3 \<Rightarrow>
                                             (case data_data d of
                                                None \<Rightarrow> Some (s2, buf3, -1)
                                              | Some q \<Rightarrow>
                                                  if vallen < 0 \<or> int (length (ptr_bytes q)) < vallen then None
                                                  else
                                                    let pos3 = pos + 8 + nat keylen + 1
                                                    in (case buf_write buf3 pos3 (take (nat vallen) (ptr_bytes q)) of
                                                          None \<Rightarrow> None
                                                        | Some buf4 \<Rightarrow>
                                                            serialize_pairs little w n as s2 buf4
                                                              (pos3 + nat vallen)))))))))"

definition dict_serialize_locked ::
  "bool \<Rightarrow> store \<Rightarrow> dict \<Rightarrow> byte_order \<Rightarrow> u8 list option \<Rightarrow> (byte_order \<times> u8 list option \<times> int) option" where
  "dict_serialize_locked little w this s buf =
     (case buf of
        None \<Rightarrow> Some (s, None, -1)
      | Some b \<Rightarrow>
          if dict_count this < 0 then Some (s, Some b, -1)
          else do {
            (s1, b1) \<leftarrow> put_net32 little s b 0 (word_of_int (dict_count this));
            (s2, b2, ret) \<leftarrow> serialize_pairs little w (nat (dict_count this)) (dict_members_list this) s1 b1 4;
            Some (s2, Some b2, ret)
          })"

definition dict_serialize ::
  "bool \<Rightarrow> store \<Rightarrow> dict option \<Rightarrow> byte_order \<Rightarrow> u8 list option \<Rightarrow> (byte_order \<times> u8 list option \<times> int) option" where
  "dict_serialize little w this s buf =
     (case this of
        None \<Rightarrow> Some (s, buf, -1)
      | Some d \<Rightarrow> if buf = None then Some (s, buf, -1) else dict_serialize_locked little w d s buf)"

text \<open>
  \<open>alloc\<close> says whether \<^verbatim>\<open>CALLOC\<close> succeeds, \<open>buf_ptr\<close> that the pointer to the result is not null.  The result is
  the return code, \<open>*buf\<close> when it was written (\<open>Some None\<close> is a null pointer) and \<open>*length\<close>.
\<close>

definition dict_allocate_and_serialize ::
  "bool \<Rightarrow> bool \<Rightarrow> store \<Rightarrow> dict option \<Rightarrow> bool \<Rightarrow> bool \<Rightarrow> byte_order
   \<Rightarrow> (byte_order \<times> int \<times> u8 list option option \<times> int option) option" where
  "dict_allocate_and_serialize little alloc w this buf_ptr length_ptr s =
     (case this of
        None \<Rightarrow> Some (s, - EINVAL, None, None)
      | Some d \<Rightarrow>
          if \<not> buf_ptr then Some (s, - EINVAL, None, None)
          else do {
            len \<leftarrow> dict_serialized_length_locked w d;
            if len < 0 then Some (s, len, None, None)
            else if \<not> alloc then Some (s, - ENOMEM, Some None, None)
            else do {
              (s', b, ret) \<leftarrow> dict_serialize_locked little w d s (Some (replicate (nat len) 0));
              if ret < 0 then Some (s', ret, Some None, None)
              else Some (s', ret, Some b, if length_ptr then Some len else None)
            }
          })"

text \<open>
  Reading: \<open>block\<close> is the memory at \<open>orig_buf\<close>, \<open>bsize\<close> (\<open>size\<close>) the size the caller states, \<open>off\<close> the offset of \<open>buf\<close>.
  The allocations of the \<open>i\<close>-th iteration are \<open>nals i\<close> for the value and \<open>als i\<close> for \<open>dict_set\<close>.
\<close>

record unserialized =
  us_store :: store
  us_dict :: dict
  us_order :: byte_order
  us_ret :: int

fun unserialize_pairs ::
  "bool \<Rightarrow> addr \<Rightarrow> u8 list \<Rightarrow> int \<Rightarrow> (nat \<Rightarrow> addr) \<Rightarrow> (nat \<Rightarrow> set_allocs) \<Rightarrow> nat \<Rightarrow> nat \<Rightarrow> int
   \<Rightarrow> byte_order \<Rightarrow> store \<Rightarrow> dict \<Rightarrow> unserialized option" where
  "unserialize_pairs little base block bsize nals als 0 i off s w fill =
     Some \<lparr>us_store = w, us_dict = fill, us_order = s, us_ret = 0\<rparr>"
| "unserialize_pairs little base block bsize nals als (Suc n) i off s w fill =
     (if bsize < off + 4 then Some \<lparr>us_store = w, us_dict = fill, us_order = s, us_ret = -1\<rparr>
      else
        (case get_net32 little s block off of
           None \<Rightarrow> None
         | Some (s1, keylen) \<Rightarrow>
             if bsize < off + 8 then Some \<lparr>us_store = w, us_dict = fill, us_order = s1, us_ret = -1\<rparr>
             else
               (case get_net32 little s1 block (off + 4) of
                  None \<Rightarrow> None
                | Some (s2, vallen) \<Rightarrow>
                    if bsize < off + 8 + keylen
                    then Some \<lparr>us_store = w, us_dict = fill, us_order = s2, us_ret = -1\<rparr>
                    else
                      let voff = off + 8 + keylen + 1
                      in if bsize < voff + vallen
                         then Some \<lparr>us_store = w, us_dict = fill, us_order = s2, us_ret = -1\<rparr>
                         else
                           (case get_new_data (nals i) w of (w1, value) \<Rightarrow>
                              (case ptr_at base block voff of
                                 None \<Rightarrow> None
                               | Some q \<Rightarrow>
                                   if value = 0 then None
                                   else
                                     let w2 = put_data value (zero_data\<lparr>data_len := vallen, data_data := Some q,
                                                              data_is_static := True\<rparr>) w1
                                     in (case string_at block (off + 8) of
                                           None \<Rightarrow> None
                                         | Some key \<Rightarrow>
                                             (case dict_set (als i) w2 (Some fill) (Some key) value of
                                                Some (w3, Some fill', _) \<Rightarrow>
                                                  unserialize_pairs little base block bsize nals als n (Suc i)
                                                    (voff + vallen) s2 w3 fill'
                                              | _ \<Rightarrow> None)))))))"

text \<open>\<open>fill = None\<close> is a null \<open>fill\<close> or a null \<open>*fill\<close>; the dictionary is then unchanged.\<close>

definition dict_unserialize ::
  "bool \<Rightarrow> addr \<Rightarrow> u8 list option \<Rightarrow> int \<Rightarrow> (nat \<Rightarrow> addr) \<Rightarrow> (nat \<Rightarrow> set_allocs)
   \<Rightarrow> byte_order \<Rightarrow> store \<Rightarrow> dict option \<Rightarrow> (byte_order \<times> store \<times> dict option \<times> int) option" where
  "dict_unserialize little base orig_buf bsize nals als s w fill =
     (case (orig_buf, fill) of
        (Some block, Some d) \<Rightarrow>
          if bsize = 0 then Some (s, w, fill, -1)
          else if bsize < 4 then Some (s, w, fill, -1)
          else do {
            (s1, count) \<leftarrow> get_net32 little s block 0;
            if count < 0 then Some (s1, w, fill, -1)
            else
              map_option (\<lambda>u. (us_order u, us_store u, Some (us_dict u), us_ret u))
                (unserialize_pairs little base block bsize nals als (nat count) 0 4 s1 w (d\<lparr>dict_count := 0\<rparr>))
          }
      | _ \<Rightarrow> Some (s, w, fill, -1))"

section \<open>The text format\<close>

fun serialized_old_length :: "store \<Rightarrow> int \<Rightarrow> addr list \<Rightarrow> int \<Rightarrow> int option" where
  "serialized_old_length w count [] len = (if count = 0 then Some len else None)"
| "serialized_old_length w count (a # as) len =
     (if count = 0 then Some len
      else do {
        p \<leftarrow> pairs w a;
        k \<leftarrow> pair_key p;
        d \<leftarrow> datas w (pair_value p);
        let len1 = int32 (int32 (len + 18) + int (length k) + 1);
        len2 \<leftarrow> (case data_vec d of
                     Some (_, iov) \<Rightarrow> serialized_vec_length iov (nat (data_len d)) len1
                   | None \<Rightarrow> Some (int32 (len1 + data_len d)));
        serialized_old_length w (count - 1) as len2
      })"

definition dict_serialized_length_old :: "store \<Rightarrow> dict option \<Rightarrow> int option" where
  "dict_serialized_length_old w this =
     (case this of
        None \<Rightarrow> Some (-1)
      | Some d \<Rightarrow> serialized_old_length w (dict_count d) (dict_members_list d) 9)"

text \<open>The headers that \<^verbatim>\<open>sprintf\<close> prints, of 64-bit values.\<close>

definition count_header :: "u64 \<Rightarrow> cstring" where
  "count_header n = print_hex8 (unat n) @ [10]"

definition pair_header :: "u64 \<Rightarrow> u64 \<Rightarrow> cstring" where
  "pair_header keylen vallen = print_hex8 (unat keylen) @ [58] @ print_hex8 (unat vallen) @ [10]"

text \<open>\<^verbatim>\<open>memcpy\<close> of \<open>len\<close> bytes of a value.\<close>

definition value_copy :: "data \<Rightarrow> u8 list option" where
  "value_copy d =
     (let bs = (case data_data d of None \<Rightarrow> [] | Some p \<Rightarrow> ptr_bytes p)
      in if data_len d < 0 \<or> int (length bs) < data_len d then None else Some (take (nat (data_len d)) bs))"

fun serialize_old_pairs :: "store \<Rightarrow> int \<Rightarrow> addr list \<Rightarrow> u8 list \<Rightarrow> nat \<Rightarrow> u8 list option" where
  "serialize_old_pairs w count [] buf pos = (if count = 0 then Some buf else None)"
| "serialize_old_pairs w count (a # as) buf pos =
     (if count = 0 then Some buf
      else do {
        p \<leftarrow> pairs w a;
        k \<leftarrow> pair_key p;
        d \<leftarrow> datas w (pair_value p);
        b1 \<leftarrow> buf_write buf pos (pair_header (of_nat (length k + 1)) (word_of_int (data_len d)) @ [0]);
        b2 \<leftarrow> buf_write b1 (pos + 18) (k @ [0]);
        v \<leftarrow> value_copy d;
        b3 \<leftarrow> buf_write b2 (pos + 18 + length k + 1) v;
        serialize_old_pairs w (count - 1) as b3 (pos + 18 + length k + 1 + length v)
      })"

definition dict_serialize_old :: "store \<Rightarrow> dict option \<Rightarrow> u8 list option \<Rightarrow> (u8 list option \<times> int) option" where
  "dict_serialize_old w this buf =
     (case (this, buf) of
        (Some d, Some b) \<Rightarrow> do {
          b1 \<leftarrow> buf_write b 0 (count_header (word_of_int (dict_count d)) @ [0]);
          b2 \<leftarrow> serialize_old_pairs w (dict_count d) (dict_members_list d) b1 9;
          Some (Some b2, 0)
        }
      | _ \<Rightarrow> Some (buf, -1))"

text \<open>The conversion \<^verbatim>\<open>SCNx64\<close> of \<^verbatim>\<open>sscanf\<close>: the value and what follows, \<open>None\<close> on a matching failure.\<close>

definition scan_hex :: "cstring \<Rightarrow> (u64 \<times> cstring) option" where
  "scan_hex s =
     map_option (\<lambda>(neg, v, rest). (if 2 ^ 64 \<le> v then - 1 else if neg then - of_nat v else of_nat v, rest))
       (parse_number 16 s)"

text \<open>Pointer arithmetic with an unsigned 64-bit operand wraps around.\<close>

definition ptr_add :: "nat \<Rightarrow> u64 \<Rightarrow> nat" where
  "ptr_add off n = (off + unat n) mod 2 ^ 64"

text \<open>The result \<open>Some (w, None)\<close> is the error exit, which frees \<open>*fill\<close> and clears it.\<close>

fun unserialize_old_pairs ::
  "addr \<Rightarrow> u8 list \<Rightarrow> (nat \<Rightarrow> addr) \<Rightarrow> (nat \<Rightarrow> set_allocs) \<Rightarrow> nat \<Rightarrow> nat \<Rightarrow> nat
   \<Rightarrow> store \<Rightarrow> dict \<Rightarrow> (store \<times> dict option) option" where
  "unserialize_old_pairs base block nals als 0 i off w fill = Some (w, Some fill)"
| "unserialize_old_pairs base block nals als (Suc n) i off w fill =
     (case string_at block (int off) of
        None \<Rightarrow> None
      | Some text \<Rightarrow>
          (case scan_hex text of
             None \<Rightarrow> Some (w, None)
           | Some (key_len, rest) \<Rightarrow>
               (case (if take 1 rest = [58] then scan_hex (drop 1 rest) else None) of
                  None \<Rightarrow> Some (w, None)
                | Some (value_len, _) \<Rightarrow>
                    let koff = ptr_add off 18; voff = ptr_add koff key_len; noff = ptr_add voff value_len
                    in (case get_new_data (nals i) w of (w1, value) \<Rightarrow>
                          (case ptr_at base block (int voff) of
                             None \<Rightarrow> None
                           | Some q \<Rightarrow>
                               if value = 0 then None
                               else
                                 let w2 = put_data value (zero_data\<lparr>data_len := sint (ucast value_len :: u32),
                                                          data_data := Some q, data_is_static := True\<rparr>) w1
                                 in (case string_at block (int koff) of
                                       None \<Rightarrow> None
                                     | Some key \<Rightarrow>
                                         (case dict_set (als i) w2 (Some fill) (Some key) value of
                                            Some (w3, Some fill', _) \<Rightarrow>
                                              unserialize_old_pairs base block nals als n (Suc i) noff w3 fill'
                                          | _ \<Rightarrow> None)))))))"

text \<open>
  \<open>fill = None\<close> is a null \<open>fill\<close>, which the error message dereferences; \<open>Some None\<close> is a null \<open>*fill\<close>.  When the
  text ends before the number, \<^verbatim>\<open>sscanf\<close> returns \<^verbatim>\<open>EOF\<close>, which passes the test, and \<open>count\<close> is indeterminate.
\<close>

definition dict_unserialize_old ::
  "addr \<Rightarrow> u8 list option \<Rightarrow> (nat \<Rightarrow> addr) \<Rightarrow> (nat \<Rightarrow> set_allocs) \<Rightarrow> store \<Rightarrow> dict option option
   \<Rightarrow> (store \<times> dict option) option" where
  "dict_unserialize_old base buf nals als w fill =
     (case fill of
        None \<Rightarrow> None
      | Some None \<Rightarrow> Some (w, None)
      | Some (Some d) \<Rightarrow>
          (case buf of
             None \<Rightarrow> Some (w, None)
           | Some block \<Rightarrow> do {
               text \<leftarrow> string_at block 0;
               (case scan_hex text of
                  None \<Rightarrow> if dropWhile is_space text = [] then None else Some (w, None)
                | Some (count, _) \<Rightarrow>
                    if count = 0 then Some (w, None)
                    else unserialize_old_pairs base block nals als (unat count) 0 9 w (d\<lparr>dict_count := 0\<rparr>))
             }))"

section \<open>The scatter list\<close>

fun iovec_len_pairs :: "store \<Rightarrow> addr list \<Rightarrow> int \<Rightarrow> int option" where
  "iovec_len_pairs w [] len = Some len"
| "iovec_len_pairs w (a # as) len =
     do {
       p \<leftarrow> pairs w a;
       d \<leftarrow> datas w (pair_value p);
       iovec_len_pairs w as (len + 2 + (if data_vec d = None then 1 else data_len d))
     }"

definition dict_iovec_len :: "store \<Rightarrow> dict option \<Rightarrow> int option" where
  "dict_iovec_len w this =
     (case this of None \<Rightarrow> Some (-1) | Some d \<Rightarrow> iovec_len_pairs w (dict_members_list d) 1)"

text \<open>An element of the caller's array that gets a length and, when it points to a block, a printed text.\<close>

definition vec_header :: "iovec list \<Rightarrow> nat \<Rightarrow> nat \<Rightarrow> cstring \<Rightarrow> iovec list option" where
  "vec_header vec i n text =
     (if length vec \<le> i then None
      else
        (case iov_base (vec ! i) of
           None \<Rightarrow> Some (vec[i := \<lparr>iov_base = None, iov_len = n\<rparr>])
         | Some p \<Rightarrow> do {
             bs \<leftarrow> buf_write (ptr_bytes p) 0 (text @ [0]);
             Some (vec[i := \<lparr>iov_base = Some (p\<lparr>ptr_bytes := bs\<rparr>), iov_len = n\<rparr>])
           }))"

definition vec_put :: "iovec list \<Rightarrow> nat \<Rightarrow> iovec \<Rightarrow> iovec list option" where
  "vec_put vec i v = (if length vec \<le> i then None else Some (vec[i := v]))"

fun vec_copy :: "iovec list \<Rightarrow> nat \<Rightarrow> iovec list \<Rightarrow> nat \<Rightarrow> iovec list option" where
  "vec_copy vec i iov 0 = Some vec"
| "vec_copy vec i [] (Suc n) = None"
| "vec_copy vec i (v # iov) (Suc n) = do { vec' \<leftarrow> vec_put vec i v; vec_copy vec' (Suc i) iov n }"

definition vec_total :: "iovec list \<Rightarrow> int \<Rightarrow> u64 option" where
  "vec_total iov n =
     (if int (length iov) < n then None else Some (of_nat (sum_list (map iov_len (take (nat n) iov)))))"

text \<open>The key of the pair at \<open>a\<close> is stored at \<open>kaddr a\<close>.\<close>

fun to_iovec_pairs :: "(addr \<Rightarrow> addr) \<Rightarrow> store \<Rightarrow> addr list \<Rightarrow> iovec list \<Rightarrow> nat \<Rightarrow> iovec list option" where
  "to_iovec_pairs kaddr w [] vec i = Some vec"
| "to_iovec_pairs kaddr w (a # as) vec i =
     do {
       p \<leftarrow> pairs w a;
       k \<leftarrow> pair_key p;
       d \<leftarrow> datas w (pair_value p);
       let keylen = length k + 1;
       vallen \<leftarrow> (case data_vec d of
                      Some (_, iov) \<Rightarrow> vec_total iov (data_len d)
                    | None \<Rightarrow> Some (word_of_int (data_len d)));
       vec1 \<leftarrow> vec_header vec i 18 (pair_header (of_nat keylen) vallen);
       vec2 \<leftarrow> vec_put vec1 (i + 1) \<lparr>iov_base = Some \<lparr>ptr_addr = kaddr a, ptr_bytes = k @ [0]\<rparr>, iov_len = keylen\<rparr>;
       (case data_vec d of
          Some (_, iov) \<Rightarrow> do {
            vec3 \<leftarrow> vec_copy vec2 (i + 2) iov (nat (data_len d));
            to_iovec_pairs kaddr w as vec3 (i + 2 + nat (data_len d))
          }
        | None \<Rightarrow> do {
            vec3 \<leftarrow> vec_put vec2 (i + 2)
                     \<lparr>iov_base = data_data d, iov_len = unat (word_of_int (data_len d) :: u64)\<rparr>;
            to_iovec_pairs kaddr w as vec3 (i + 3)
          })
     }"

definition dict_to_iovec ::
  "(addr \<Rightarrow> addr) \<Rightarrow> store \<Rightarrow> dict option \<Rightarrow> iovec list option \<Rightarrow> (iovec list option \<times> int) option" where
  "dict_to_iovec kaddr w this vec =
     (case (this, vec) of
        (Some d, Some v) \<Rightarrow> do {
          v1 \<leftarrow> vec_header v 0 9 (count_header (word_of_int (dict_count d)));
          v2 \<leftarrow> to_iovec_pairs kaddr w (dict_members_list d) v1 1;
          Some (Some v2, 0)
        }
      | _ \<Rightarrow> Some (vec, -1))"

section \<open>What the binary format means\<close>

definition wire_pair :: "cstring \<times> u8 list \<Rightarrow> u8 list" where
  "wire_pair kv = be_bytes32 (of_nat (length (fst kv))) @ be_bytes32 (of_nat (length (snd kv)))
     @ fst kv @ [0] @ snd kv"

definition wire :: "(cstring \<times> u8 list) list \<Rightarrow> u8 list" where
  "wire kvs = be_bytes32 (of_nat (length kvs)) @ concat (map wire_pair kvs)"

text \<open>The bytes of a value, and the keys and bytes of a dictionary in list order.\<close>

definition value_bytes :: "store \<Rightarrow> addr \<Rightarrow> u8 list" where
  "value_bytes w v =
     (case datas w v of
        None \<Rightarrow> []
      | Some d \<Rightarrow> (case data_data d of None \<Rightarrow> [] | Some q \<Rightarrow> take (nat (data_len d)) (ptr_bytes q)))"

definition dict_contents :: "store \<Rightarrow> dict \<Rightarrow> (cstring \<times> u8 list) list" where
  "dict_contents w d = map (\<lambda>(k, v). (k, value_bytes w v)) (dict_alist w d)"

text \<open>Values with a plain data block of at least \<open>len\<close> bytes.\<close>

definition plain_value :: "store \<Rightarrow> addr \<Rightarrow> bool" where
  "plain_value w v \<longleftrightarrow> (case datas w v of
       None \<Rightarrow> False
     | Some d \<Rightarrow> data_vec d = None \<and> 0 \<le> data_len d
         \<and> (case data_data d of None \<Rightarrow> False | Some q \<Rightarrow> data_len d \<le> int (length (ptr_bytes q))))"

definition wire_ok :: "store \<Rightarrow> dict \<Rightarrow> bool" where
  "wire_ok w d \<longleftrightarrow> (\<forall>(k, v) \<in> set (dict_alist w d). 0 \<notin> set k \<and> plain_value w v)
     \<and> length (wire (dict_contents w d)) < 2 ^ 31"

lemma plain_valueE:
  assumes "plain_value w v"
  shows "\<exists>d q. datas w v = Some d \<and> data_vec d = None \<and> data_data d = Some q \<and> 0 \<le> data_len d
    \<and> data_len d \<le> int (length (ptr_bytes q)) \<and> value_bytes w v = take (nat (data_len d)) (ptr_bytes q)
    \<and> length (value_bytes w v) = nat (data_len d)"
  using assms
  by (cases "datas w v") (auto simp: plain_value_def value_bytes_def split: option.splits)

lemma buf_write_at:
  "\<lbrakk>pos = length pre; length bs \<le> length rest\<rbrakk> \<Longrightarrow>
     buf_write (pre @ rest) pos bs = Some (pre @ bs @ drop (length bs) rest)"
  by (simp add: buf_write_def)

lemma put_net32_at:
  assumes "byte_order_ok little s" and "pos = length pre" and "4 \<le> length rest"
  shows "\<exists>s'. put_net32 little s (pre @ rest) pos x = Some (s', pre @ be_bytes32 x @ drop 4 rest)
    \<and> byte_order_ok little s'"
proof -
  obtain s' n where h: "hton32 little s x = (s', n)" by fastforce
  have n: "mem_bytes32 little n = be_bytes32 x"
    using hton_ok_result(2) [OF assms(1), of x] h by (simp add: mem_bytes32_def del: hton32.simps)
  have "byte_order_ok little s'" using hton_step_ok [OF assms(1), of "Call32 x"] h by (simp del: hton32.simps)
  then show ?thesis using h n buf_write_at [OF assms(2), of "be_bytes32 x" rest] assms(3)
    by (simp add: put_net32_def del: hton32.simps)
qed

lemma get_net32_at:
  assumes "byte_order_ok little s" and "off = int (length pre)"
  shows "\<exists>s'. get_net32 little s (pre @ be_bytes32 x @ rest) off = Some (s', sint x) \<and> byte_order_ok little s'"
proof -
  let ?h = "of_le_bytes32 (if little then be_bytes32 x else rev (be_bytes32 x))"
  have h: "?h = (if little then swap32 x else x)" using of_le_be_bytes32 [of x] by (simp add: be_bytes32_def)
  obtain s' n where r: "hton32 little s ?h = (s', n)" by fastforce
  have "n = x" using hton_ok_result(2) [OF assms(1), of ?h] r h by (simp del: hton32.simps split: if_splits)
  moreover have "byte_order_ok little s'" using hton_step_ok [OF assms(1), of "Call32 ?h"] r by (simp del: hton32.simps)
  ultimately show ?thesis using r assms(2) by (simp add: get_net32_def Let_def del: hton32.simps split: if_splits)
qed

lemma int32_small: "0 \<le> x \<Longrightarrow> x < 2 ^ 31 \<Longrightarrow> int32 x = x"
  by (simp add: int32_def signed_take_bit_int_eq_self)

lemma length_wire_pair [simp]: "length (wire_pair kv) = 9 + length (fst kv) + length (snd kv)"
  by (simp add: wire_pair_def)

lemma length_wire [simp]: "length (wire kvs) = 4 + (\<Sum>kv \<leftarrow> kvs. 9 + length (fst kv) + length (snd kv))"
  by (simp add: wire_def length_concat comp_def)

section \<open>The serializer\<close>

definition pair_contents :: "store \<Rightarrow> addr \<Rightarrow> cstring \<times> u8 list" where
  "pair_contents w a = (the (key_of w a), value_bytes w (value_of w a))"

lemma dict_contents_pairs: "dict_contents w d = map (pair_contents w) (dict_members_list d)"
  by (simp add: dict_contents_def dict_alist_def pair_contents_def comp_def)

definition pair_ok :: "store \<Rightarrow> addr \<Rightarrow> bool" where
  "pair_ok w a \<longleftrightarrow> key_of w a \<noteq> None \<and> value_of w a \<noteq> 0 \<and> plain_value w (value_of w a)"

lemma pair_okE:
  assumes "pair_ok w a"
  shows "\<exists>p k d q. pairs w a = Some p \<and> pair_key p = Some k \<and> pair_value p \<noteq> 0 \<and> datas w (pair_value p) = Some d
    \<and> data_vec d = None \<and> data_data d = Some q \<and> 0 \<le> data_len d \<and> data_len d \<le> int (length (ptr_bytes q))
    \<and> pair_contents w a = (k, take (nat (data_len d)) (ptr_bytes q))"
proof -
  obtain p k where p: "pairs w a = Some p" "pair_key p = Some k"
    using assms by (cases "pairs w a") (auto simp: pair_ok_def key_of_def)
  then have v: "value_of w a = pair_value p" "key_of w a = Some k" by (auto simp: value_of_def key_of_def)
  have "plain_value w (pair_value p)" "pair_value p \<noteq> 0" using assms v by (auto simp: pair_ok_def)
  with plain_valueE [OF this(1)] p v show ?thesis by (auto simp: pair_contents_def)
qed

lemma serialize_pairs_writes:
  assumes "byte_order_ok little s" and "\<forall>a \<in> set as. pair_ok w a"
    and "length (concat (map wire_pair (map (pair_contents w) as))) \<le> length rest"
    and "length (concat (map wire_pair (map (pair_contents w) as))) < 2 ^ 31"
  shows "\<exists>s'. serialize_pairs little w (length as) as s (pre @ rest) (length pre)
      = Some (s', pre @ concat (map wire_pair (map (pair_contents w) as))
               @ drop (length (concat (map wire_pair (map (pair_contents w) as)))) rest, 0)
      \<and> byte_order_ok little s'"
  using assms
proof (induction as arbitrary: s pre rest)
  case (Cons a as)
  from Cons.prems(2) have "pair_ok w a" by simp
  from pair_okE [OF this] obtain p k d q where p: "pairs w a = Some p" "pair_key p = Some k" "pair_value p \<noteq> 0"
      "datas w (pair_value p) = Some d" "data_vec d = None" "data_data d = Some q" "0 \<le> data_len d"
      "data_len d \<le> int (length (ptr_bytes q))" "pair_contents w a = (k, take (nat (data_len d)) (ptr_bytes q))"
    by blast
  define v where "v = take (nat (data_len d)) (ptr_bytes q)"
  have lv: "length v = nat (data_len d)" using p by (simp add: v_def)
  let ?rest = "concat (map wire_pair (map (pair_contents w) as))"
  have len: "9 + length k + length v + length ?rest \<le> length rest"
      "9 + length k + length v + length ?rest < 2 ^ 31"
    using Cons.prems(3,4) p(9) by (simp_all add: v_def [symmetric])
  have r4: "4 \<le> length (drop 4 rest)" using len(1) by simp
  have kl: "int32 (int (length k)) = int (length k)" using len(2) by (intro int32_small) auto
  define K where "K = be_bytes32 (word_of_int (int (length k)))"
  define V where "V = be_bytes32 (word_of_int (data_len d))"
  have KV [simp]: "length K = 4" "length V = 4" by (simp_all add: K_def V_def)
  obtain s1 where s1: "put_net32 little s (pre @ rest) (length pre) (word_of_int (int (length k)))
      = Some (s1, pre @ K @ drop 4 rest)" "byte_order_ok little s1"
    unfolding K_def using put_net32_at [OF Cons.prems(1) refl, of rest pre] len(1) by auto
  obtain s2 where s2: "put_net32 little s1 (pre @ K @ drop 4 rest) (length pre + 4) (word_of_int (data_len d))
      = Some (s2, pre @ K @ V @ drop 8 rest)" "byte_order_ok little s2"
    using put_net32_at [OF s1(2) _ r4, of "length pre + 4" "pre @ K" "word_of_int (data_len d)"]
    by (auto simp: V_def)
  let ?r3 = "drop (9 + length k) rest" let ?r4 = "drop (9 + length k + length v) rest"
  have w3: "buf_write (pre @ K @ V @ drop 8 rest) (length pre + 8) (k @ [0]) = Some (pre @ K @ V @ k @ [0] @ ?r3)"
    using buf_write_at [of "length pre + 8" "pre @ K @ V" "k @ [0]" "drop 8 rest"] len(1) by simp
  have w4: "buf_write (pre @ K @ V @ k @ [0] @ ?r3) (length pre + 8 + length k + 1) v
      = Some (pre @ K @ V @ k @ [0] @ v @ ?r4)"
    using buf_write_at [of "length pre + 8 + length k + 1" "pre @ K @ V @ k @ [0]" v ?r3] len(1)
    by (simp add: add.commute)
  have wp: "wire_pair (k, v) = K @ V @ k @ [0] @ v" using lv p(7) by (simp add: wire_pair_def K_def V_def)
  let ?p4 = "pre @ K @ V @ k @ [0] @ v"
  have l4: "\<forall>a \<in> set as. pair_ok w a" "length ?rest \<le> length ?r4" "length ?rest < 2 ^ 31"
    using Cons.prems(2) len by simp_all
  obtain s' where s': "serialize_pairs little w (length as) as s2 (?p4 @ ?r4) (length ?p4)
      = Some (s', ?p4 @ ?rest @ drop (length ?rest) ?r4, 0)" "byte_order_ok little s'"
    using Cons.IH [OF s2(2) l4, of ?p4] by blast
  have "length ?p4 = length pre + 8 + length k + 1 + nat (data_len d)" using lv by simp
  with s'(1) have s'': "serialize_pairs little w (length as) as s2 (pre @ K @ V @ k @ [0] @ v @ ?r4)
      (length pre + 8 + length k + 1 + nat (data_len d)) = Some (s', ?p4 @ ?rest @ drop (length ?rest) ?r4, 0)"
    by (simp only: append_assoc)
  have ge: "\<not> int (length k) < 0" "\<not> (data_len d < 0 \<or> int (length (ptr_bytes q)) < data_len d)"
    "nat (int (length k)) = length k" using p(7,8) by auto
  have "serialize_pairs little w (length (a # as)) (a # as) s (pre @ rest) (length pre)
      = Some (s', ?p4 @ ?rest @ drop (length ?rest) ?r4, 0)"
    by (simp only: list.size serialize_pairs.simps p option.case kl s1(1) s2(1) prod.case Let_def ge if_False
        take_all_iff order_refl take_all w3 v_def [symmetric] w4 s'' add_Suc_right add_0_right)
  then show ?case using s'(2) p(9) wp by (auto simp: v_def [symmetric] ac_simps)
qed auto

lemma serialized_pairs_length_total:
  assumes "\<forall>a \<in> set as. pair_ok w a" and "0 \<le> len"
    and "len + int (length (concat (map wire_pair (map (pair_contents w) as)))) < 2 ^ 31"
  shows "serialized_pairs_length w (length as) as len
    = Some (len + int (length (concat (map wire_pair (map (pair_contents w) as)))))"
  using assms
proof (induction as arbitrary: len)
  case (Cons a as)
  from Cons.prems(1) have "pair_ok w a" by simp
  from pair_okE [OF this] obtain p k d q where p: "pairs w a = Some p" "pair_key p = Some k" "pair_value p \<noteq> 0"
      "datas w (pair_value p) = Some d" "data_vec d = None" "data_data d = Some q" "0 \<le> data_len d"
      "data_len d \<le> int (length (ptr_bytes q))" "pair_contents w a = (k, take (nat (data_len d)) (ptr_bytes q))"
    by blast
  let ?rest = "concat (map wire_pair (map (pair_contents w) as))"
  have tot: "int (length (concat (map wire_pair (map (pair_contents w) (a # as)))))
      = 9 + int (length k) + data_len d + int (length ?rest)"
    using p(7,8,9) by simp
  have lt: "len + 9 + int (length k) + data_len d + int (length ?rest) < 2 ^ 31"
    using Cons.prems(3) tot by linarith
  have i: "int32 (len + 8) = len + 8" "int32 (len + 8 + int (length k) + 1) = len + 9 + int (length k)"
      "int32 (len + 9 + int (length k) + data_len d) = len + 9 + int (length k) + data_len d"
    using lt Cons.prems(2) p(7) by (subst int32_small; simp)+
  have "serialized_pairs_length w (length as) as (len + 9 + int (length k) + data_len d)
      = Some (len + 9 + int (length k) + data_len d + int (length ?rest))"
    by (rule Cons.IH) (use Cons.prems(1,2) lt p(7) in auto)
  then have "serialized_pairs_length w (length (a # as)) (a # as) len
      = Some (len + 9 + int (length k) + data_len d + int (length ?rest))"
    using p i by (simp add: Let_def)
  also have "\<dots> = Some (len + int (length (concat (map wire_pair (map (pair_contents w) (a # as))))))"
    unfolding tot by simp
  finally show ?case .
qed simp

lemma wire_ok_pairs:
  assumes "dict_ok w d" and "wire_ok w d"
  shows "\<forall>a \<in> set (dict_members_list d). pair_ok w a"
proof
  fix a assume a: "a \<in> set (dict_members_list d)"
  have "key_of w a \<noteq> None" "value_of w a \<noteq> 0" using assms(1) a unfolding dict_ok_def by blast+
  moreover have "(the (key_of w a), value_of w a) \<in> set (dict_alist w d)" using a by (simp add: dict_alist_def)
  then have "plain_value w (value_of w a)" using assms(2) unfolding wire_ok_def by blast
  ultimately show "pair_ok w a" by (simp add: pair_ok_def)
qed

lemma dict_serialized_length_wire:
  assumes "dict_ok w d" and "wire_ok w d"
  shows "dict_serialized_length_locked w d = Some (int (length (wire (dict_contents w d))))"
proof -
  have c: "dict_count d = int (length (dict_members_list d))" using assms(1) by (simp add: dict_ok_def)
  have "length (wire (dict_contents w d)) < 2 ^ 31" using assms(2) by (simp add: wire_ok_def)
  then have "serialized_pairs_length w (length (dict_members_list d)) (dict_members_list d) 4
      = Some (4 + int (length (concat (map wire_pair (map (pair_contents w) (dict_members_list d))))))"
    by (intro serialized_pairs_length_total [OF wire_ok_pairs [OF assms]])
      (simp_all add: dict_contents_pairs wire_def)
  then show ?thesis by (simp add: dict_serialized_length_locked_def c wire_def dict_contents_pairs)
qed

lemma dict_serialize_wire:
  assumes "dict_ok w d" and "wire_ok w d" and "byte_order_ok little s"
    and "length (wire (dict_contents w d)) \<le> length buf"
  shows "\<exists>s'. dict_serialize_locked little w d s (Some buf)
      = Some (s', Some (wire (dict_contents w d) @ drop (length (wire (dict_contents w d))) buf), 0)
    \<and> byte_order_ok little s'"
proof -
  let ?as = "dict_members_list d"
  let ?body = "concat (map wire_pair (map (pair_contents w) ?as))"
  have c: "dict_count d = int (length ?as)" using assms(1) by (simp add: dict_ok_def)
  have wire: "wire (dict_contents w d) = be_bytes32 (of_nat (length ?as)) @ ?body"
    by (simp add: wire_def dict_contents_pairs)
  have len: "length (wire (dict_contents w d)) = 4 + length ?body" unfolding wire by simp
  have body: "length ?body \<le> length (drop 4 buf)" "length ?body < 2 ^ 31" "4 \<le> length buf"
    using assms(2,4) unfolding wire_ok_def len by simp_all
  obtain s1 where s1: "put_net32 little s ([] @ buf) 0 (word_of_int (int (length ?as)))
      = Some (s1, [] @ be_bytes32 (word_of_int (int (length ?as))) @ drop 4 buf)" "byte_order_ok little s1"
    using put_net32_at [OF assms(3), of 0 "[]" buf] body(3) by fastforce
  obtain s2 where s2: "serialize_pairs little w (length ?as) ?as s1 (be_bytes32 (of_nat (length ?as)) @ drop 4 buf) 4
      = Some (s2, be_bytes32 (of_nat (length ?as)) @ ?body @ drop (length ?body) (drop 4 buf), 0)" "byte_order_ok little s2"
    using serialize_pairs_writes [OF s1(2) wire_ok_pairs [OF assms(1,2)] body(1,2), of "be_bytes32 (of_nat (length ?as))"]
    by auto
  show ?thesis unfolding wire len
    using s1(1) s2 c by (auto simp: dict_serialize_locked_def len add.commute)
qed

section \<open>The reader\<close>

text \<open>A fresh value inserted under a fresh key goes in front of the contents.\<close>

lemma dict_set_fresh:
  assumes inv: "store_inv ext w" and ok: "dict_ok w d" and v: "v \<noteq> 0" "datas w v = None"
    and z: "data_refcount dv = 0" and ix: "index_agrees d k" and al: "set_allocs_ok al w"
    and none: "dict_map w d k = None"
  shows "\<exists>w' d'. dict_set al (put_data v dv w) (Some d) (Some k) v = Some (w', Some d', 0) \<and> store_inv ext w'
    \<and> dict_ok w' d' \<and> dict_map w' d' = (dict_map w d)(k \<mapsto> v)
    \<and> pairs w' = (pairs w)(set_pair al \<mapsto> \<lparr>pair_key = Some k, pair_value = v\<rparr>)
    \<and> datas w' = (datas w)(v \<mapsto> dv\<lparr>data_refcount := 1\<rparr>) \<and> dict_hash_size d' = dict_hash_size d
    \<and> dict_contents w' d' = (k, value_bytes w' v) # dict_contents w d"
proof -
  let ?w = "put_data v dv w"
  note fresh = store_inv_new_data [OF inv v z]
  have kv: "key_of ?w = key_of w \<and> value_of ?w = value_of w" by (rule key_value_cong) simp
  have ok1: "dict_ok ?w d" using ok by (rule dict_ok_cong) (use ok kv in \<open>auto simp: dict_ok_def\<close>)
  have map1: "dict_map ?w d = dict_map w d" by (rule dict_map_cong) (simp add: kv)
  have alist1: "dict_alist ?w d = dict_alist w d" by (simp add: dict_alist_def kv)
  have al1: "set_allocs_ok al ?w" using al by (simp add: set_allocs_ok_def)
  have none1: "dict_map ?w d k = None" using none map1 by simp
  have dv: "datas ?w v = Some dv" by simp
  obtain w' d' where r: "dict_set al ?w (Some d) (Some k) v = Some (w', Some d', 0)" "store_inv ext w'"
      "dict_ok w' d'" "dict_map w' d' = (dict_map ?w d)(k \<mapsto> v)"
      "pairs w' = (pairs ?w)(set_pair al \<mapsto> \<lparr>pair_key = Some k, pair_value = v\<rparr>)"
      "datas w' = (datas ?w)(v \<mapsto> dv\<lparr>data_refcount := data_refcount dv + 1\<rparr>)"
      "dict_hash_size d' = dict_hash_size d" "dict_alist w' d' = (k, v) # dict_alist ?w d"
    using dict_set_new [OF fresh(1) ok1 v(1) dv ix al1 none1] by blast
  have same: "value_bytes w' u = value_bytes w u" if m: "(j, u) \<in> set (dict_alist w d)" for j u
  proof -
    obtain a where a: "a \<in> set (dict_members_list d)" "u = value_of w a" using m unfolding dict_alist_def by auto
    then have "value_of w a \<noteq> 0" using ok unfolding dict_ok_def by blast
    with refs_pos_member [OF inv, of a] a(2) v(2) have "u \<noteq> v" by auto
    then show ?thesis using r(6) by (simp add: value_bytes_def)
  qed
  have "dict_contents w' d' = (k, value_bytes w' v) # dict_contents w d"
    using same unfolding dict_contents_def r(8) alist1 by auto
  then show ?thesis using r map1 z by simp
qed

text \<open>The addresses for the pairs and values that the iterations \<open>i\<close> to \<open>i + n - 1\<close> allocate.\<close>

definition unser_allocs_ok :: "(nat \<Rightarrow> addr) \<Rightarrow> (nat \<Rightarrow> set_allocs) \<Rightarrow> nat \<Rightarrow> nat \<Rightarrow> store \<Rightarrow> bool" where
  "unser_allocs_ok nals als i n w \<longleftrightarrow>
     (\<forall>j \<in> {i..<i + n}. nals j \<noteq> 0 \<and> datas w (nals j) = None \<and> set_allocs_ok (als j) w)
     \<and> inj_on nals {i..<i + n} \<and> inj_on (\<lambda>j. set_pair (als j)) {i..<i + n}"

lemma unser_allocs_first:
  assumes "unser_allocs_ok nals als i (Suc n) w"
  shows "nals i \<noteq> 0" and "datas w (nals i) = None" and "set_allocs_ok (als i) w"
  using assms by (auto simp: unser_allocs_ok_def)

lemma unser_allocs_rest:
  assumes "unser_allocs_ok nals als i (Suc n) w"
    and "pairs w' = (pairs w)(set_pair (als i) \<mapsto> p)" and "datas w' = (datas w)(nals i \<mapsto> dv)"
  shows "unser_allocs_ok nals als (Suc i) n w'"
proof -
  have inj: "inj_on nals {i..<i + Suc n}" "inj_on (\<lambda>j. set_pair (als j)) {i..<i + Suc n}"
    and j: "\<And>j. j \<in> {i..<i + Suc n} \<Longrightarrow> nals j \<noteq> 0 \<and> datas w (nals j) = None \<and> set_allocs_ok (als j) w"
    using assms(1) unfolding unser_allocs_ok_def by blast+
  have "nals j \<noteq> nals i" "set_pair (als j) \<noteq> set_pair (als i)" if "j \<in> {Suc i..<Suc i + n}" for j
    using that inj [THEN inj_onD, of j i] by auto
  then show ?thesis using j assms(2,3) inj unfolding unser_allocs_ok_def set_allocs_ok_def
    by (auto intro: inj_on_subset)
qed

lemma string_at_key:
  "\<lbrakk>off = int (length pre); 0 \<notin> set k\<rbrakk> \<Longrightarrow> string_at (pre @ k @ [0] @ rest) off = Some k"
  by (simp add: string_at_def c_string)

lemma sint_of_nat32: "n < 2 ^ 31 \<Longrightarrow> sint (of_nat n :: u32) = int n"
  by (simp add: signed_of_nat signed_take_bit_int_eq_self)

text \<open>One iteration on a well-formed pair.\<close>

lemma unserialize_pair:
  assumes bo: "byte_order_ok little s" and inv: "store_inv ext w" and ok: "dict_ok w d"
    and k: "0 \<notin> set k" "index_agrees d k" "dict_map w d k = None"
    and al: "unser_allocs_ok nals als i (Suc n) w"
    and block: "block = pre @ wire_pair (k, v) @ post" and off: "off = int (length pre)"
    and size: "off + int (length (wire_pair (k, v))) \<le> bsize" and small: "length block < 2 ^ 31"
  shows "\<exists>w' d' s'. unserialize_pairs little base block bsize nals als (Suc n) i off s w d
      = unserialize_pairs little base block bsize nals als n (Suc i) (off + int (length (wire_pair (k, v)))) s' w' d'
    \<and> store_inv ext w' \<and> dict_ok w' d' \<and> byte_order_ok little s' \<and> dict_hash_size d' = dict_hash_size d
    \<and> dict_map w' d' = (dict_map w d)(k \<mapsto> nals i) \<and> dict_contents w' d' = (k, v) # dict_contents w d
    \<and> unser_allocs_ok nals als (Suc i) n w'"
proof -
  define K where "K = be_bytes32 (of_nat (length k))"
  define V where "V = be_bytes32 (of_nat (length v))"
  have KV: "length K = 4" "length V = 4" by (simp_all add: K_def V_def)
  have b: "block = pre @ K @ V @ k @ [0] @ v @ post" using block by (simp add: wire_pair_def K_def V_def)
  have len: "length k < 2 ^ 31" "length v < 2 ^ 31" using small b by auto
  obtain s1 where s1: "get_net32 little s block off = Some (s1, int (length k))" "byte_order_ok little s1"
    using get_net32_at [OF bo off, of "of_nat (length k)" "V @ k @ [0] @ v @ post"] sint_of_nat32 [OF len(1)]
    by (auto simp: b K_def)
  have off4: "off + 4 = int (length (pre @ K))" using off KV by simp
  obtain s2 where s2: "get_net32 little s1 block (off + 4) = Some (s2, int (length v))" "byte_order_ok little s2"
    using get_net32_at [OF s1(2) off4, of "of_nat (length v)" "k @ [0] @ v @ post"] sint_of_nat32 [OF len(2)]
    by (auto simp: b V_def)
  let ?voff = "off + 8 + int (length k) + 1"
  define q where "q = \<lparr>ptr_addr = base + nat ?voff, ptr_bytes = v @ post\<rparr>"
  have vo: "nat ?voff = length (pre @ K @ V @ k @ [0])" using off KV by simp
  have "drop (nat ?voff) block = v @ post" unfolding vo b by simp
  then have q: "ptr_at base block ?voff = Some q" using off by (auto simp: ptr_at_def q_def b KV)
  have key: "string_at block (off + 8) = Some k"
    using string_at_key [of "off + 8" "pre @ K @ V" k "v @ post"] k(1) off KV by (simp add: b)
  define dv where "dv = zero_data\<lparr>data_len := int (length v), data_data := Some q, data_is_static := True\<rparr>"
  note al1 = unser_allocs_first [OF al]
  have z: "data_refcount dv = 0" by (simp add: dv_def zero_data_def)
  obtain w' d' where r: "dict_set (als i) (put_data (nals i) dv w) (Some d) (Some k) (nals i) = Some (w', Some d', 0)"
      "store_inv ext w'" "dict_ok w' d'" "dict_map w' d' = (dict_map w d)(k \<mapsto> nals i)"
      "pairs w' = (pairs w)(set_pair (als i) \<mapsto> \<lparr>pair_key = Some k, pair_value = nals i\<rparr>)"
      "datas w' = (datas w)(nals i \<mapsto> dv\<lparr>data_refcount := 1\<rparr>)" "dict_hash_size d' = dict_hash_size d"
      "dict_contents w' d' = (k, value_bytes w' (nals i)) # dict_contents w d"
    using dict_set_fresh [OF inv ok al1(1,2) z k(2) al1(3) k(3)] by blast
  have vb: "value_bytes w' (nals i) = v" using r(6) by (simp add: value_bytes_def dv_def q_def)
  have sz: "\<not> bsize < off + 4" "\<not> bsize < off + 8" "\<not> bsize < off + 8 + int (length k)"
      "\<not> bsize < ?voff + int (length v)" using size off by simp_all
  have new: "get_new_data (nals i) w = (put_data (nals i) zero_data w, nals i)" using al1(1) by (simp add: get_new_data_def)
  have put: "put_data (nals i) x (put_data (nals i) y w) = put_data (nals i) x w" for x y by (simp add: put_data_def)
  have "unserialize_pairs little base block bsize nals als (Suc n) i off s w d
      = unserialize_pairs little base block bsize nals als n (Suc i) (?voff + int (length v)) s2 w' d'"
    by (simp only: unserialize_pairs.simps s1(1) s2(1) option.case prod.case sz if_False Let_def new q al1(1)
        dv_def [symmetric] put key r(1))
  moreover have "?voff + int (length v) = off + int (length (wire_pair (k, v)))" by simp
  ultimately have step: "unserialize_pairs little base block bsize nals als (Suc n) i off s w d
      = unserialize_pairs little base block bsize nals als n (Suc i) (off + int (length (wire_pair (k, v)))) s2 w' d'"
    by (simp only:)
  show ?thesis
    by (rule exI [of _ w'], rule exI [of _ d'], rule exI [of _ s2])
      (intro conjI step r(2,3,4,7) s2(2) unser_allocs_rest [OF al r(5,6)] r(8) [unfolded vb])
qed

lemma unserialize_pairs_wire:
  assumes "byte_order_ok little s" and "store_inv ext w" and "dict_ok w d"
    and "distinct (map fst kvs)"
    and "\<forall>(k, v) \<in> set kvs. 0 \<notin> set k \<and> index_agrees d k \<and> dict_map w d k = None"
    and "unser_allocs_ok nals als i (length kvs) w"
    and "block = pre @ concat (map wire_pair kvs) @ post" and "off = int (length pre)"
    and "off + int (length (concat (map wire_pair kvs))) \<le> bsize" and "length block < 2 ^ 31"
  shows "\<exists>w' d' s'. unserialize_pairs little base block bsize nals als (length kvs) i off s w d
      = Some \<lparr>us_store = w', us_dict = d', us_order = s', us_ret = 0\<rparr>
    \<and> store_inv ext w' \<and> dict_ok w' d' \<and> dict_contents w' d' = rev kvs @ dict_contents w d"
  using assms
proof (induction kvs arbitrary: s w d i pre off)
  case (Cons kv kvs)
  obtain k v where kv: "kv = (k, v)" by fastforce
  have k: "0 \<notin> set k" "index_agrees d k" "dict_map w d k = None" using Cons.prems(5) kv by auto
  have al: "unser_allocs_ok nals als i (Suc (length kvs)) w" using Cons.prems(6) by simp
  have bl: "block = pre @ wire_pair (k, v) @ concat (map wire_pair kvs) @ post" using Cons.prems(7) kv by simp
  have sz: "off + int (length (wire_pair (k, v))) \<le> bsize" using Cons.prems(9) kv by simp
  obtain w1 d1 s1 where r: "unserialize_pairs little base block bsize nals als (Suc (length kvs)) i off s w d
      = unserialize_pairs little base block bsize nals als (length kvs) (Suc i)
          (off + int (length (wire_pair (k, v)))) s1 w1 d1"
      "store_inv ext w1" "dict_ok w1 d1" "byte_order_ok little s1" "dict_hash_size d1 = dict_hash_size d"
      "dict_map w1 d1 = (dict_map w d)(k \<mapsto> nals i)" "dict_contents w1 d1 = (k, v) # dict_contents w d"
      "unser_allocs_ok nals als (Suc i) (length kvs) w1"
    using unserialize_pair [OF Cons.prems(1-3) k al bl Cons.prems(8) sz Cons.prems(10)] by blast
  have ix: "index_agrees d1 = index_agrees d" by (rule index_agrees_cong [OF Cons.prems(3) r(3,5)])
  have rest: "\<forall>(k', v') \<in> set kvs. 0 \<notin> set k' \<and> index_agrees d1 k' \<and> dict_map w1 d1 k' = None"
    using Cons.prems(4,5) kv ix r(6) by (fastforce simp: image_iff)
  have "\<exists>w' d' s'. unserialize_pairs little base block bsize nals als (length kvs) (Suc i)
          (off + int (length (wire_pair (k, v)))) s1 w1 d1
      = Some \<lparr>us_store = w', us_dict = d', us_order = s', us_ret = 0\<rparr>
    \<and> store_inv ext w' \<and> dict_ok w' d' \<and> dict_contents w' d' = rev kvs @ dict_contents w1 d1"
    by (rule Cons.IH [OF r(4,2,3) _ rest r(8), of "pre @ wire_pair (k, v)"])
      (use Cons.prems kv in auto)
  then show ?case using r(1,7) kv by (auto simp del: unserialize_pairs.simps)
qed auto

lemma map_of_dict_contents: "map_of (dict_contents w d) k = map_option (value_bytes w) (dict_map w d k)"
  by (simp add: dict_contents_def dict_map_def map_of_map)

lemma dict_contents_distinct: "dict_ok w d \<Longrightarrow> distinct (map fst (dict_contents w d))"
  using dict_alist_distinct [of w d] by (simp add: dict_contents_def comp_def case_prod_beta)

lemma dict_unserialize_wire:
  assumes "store_inv ext w" and "dict_ok w d" and "byte_order_ok little s" and "dict_members_list d = []"
    and "distinct (map fst kvs)" and "\<forall>(k, v) \<in> set kvs. 0 \<notin> set k \<and> index_agrees d k"
    and "unser_allocs_ok nals als 0 (length kvs) w" and "length (wire kvs) < 2 ^ 31"
  shows "\<exists>s' w' d'. dict_unserialize little base (Some (wire kvs)) (int (length (wire kvs))) nals als s w (Some d)
      = Some (s', w', Some d', 0) \<and> store_inv ext w' \<and> dict_ok w' d' \<and> dict_contents w' d' = rev kvs"
proof -
  let ?C = "be_bytes32 (of_nat (length kvs))" let ?B = "concat (map wire_pair kvs)"
  have w: "wire kvs = ?C @ ?B" by (simp add: wire_def)
  have "length kvs \<le> length ?B"
    by (induction kvs) auto
  then have n: "length kvs < 2 ^ 31" using assms(8) unfolding w by simp
  have zero: "d\<lparr>dict_count := 0\<rparr> = d" using assms(2,4) by (simp add: dict_ok_def)
  have none: "dict_map w d k = None" "dict_contents w d = []" for k
    using assms(4) by (simp_all add: dict_map_def dict_contents_def dict_alist_def)
  obtain s1 where s1: "get_net32 little s (wire kvs) 0 = Some (s1, int (length kvs))" "byte_order_ok little s1"
    using get_net32_at [OF assms(3), of 0 "[]" "of_nat (length kvs)" ?B] sint_of_nat32 [OF n] unfolding w by auto
  obtain w' d' s' where r: "unserialize_pairs little base (wire kvs) (int (length (wire kvs))) nals als (length kvs) 0 4 s1 w d
      = Some \<lparr>us_store = w', us_dict = d', us_order = s', us_ret = 0\<rparr>"
      "store_inv ext w'" "dict_ok w' d'" "dict_contents w' d' = rev kvs @ dict_contents w d"
    using unserialize_pairs_wire [OF s1(2) assms(1,2,5) _ assms(7), of "wire kvs" ?C "[]" 4] assms(6,8) none
    by (fastforce simp: w)
  show ?thesis using r s1(1) zero none(2)
    by (simp add: dict_unserialize_def del: unserialize_pairs.simps)
qed

section \<open>Properties of the binary format\<close>

text \<open>A store with one dictionary that binds the key \<^verbatim>\<open>"a"\<close> to the bytes of \<^verbatim>\<open>"hi"\<close>, for the witnesses.\<close>

definition demo_wire_store :: store where
  "demo_wire_store = \<lparr>datas = [5 \<mapsto> zero_data\<lparr>data_len := 2, data_data := Some \<lparr>ptr_addr = 50, ptr_bytes = [104, 105]\<rparr>,
       data_refcount := 1\<rparr>],
     pairs = [100 \<mapsto> \<lparr>pair_key = Some [97], pair_value = 5\<rparr>], freed = []\<rparr>"

definition demo_wire_dict :: dict where
  "demo_wire_dict = demo_dict\<lparr>dict_members := [[100]], dict_members_list := [100], dict_count := 1\<rparr>"

lemma demo_wire_inv: "store_inv (\<lambda>_. 0) demo_wire_store"
proof -
  have "pair_refs demo_wire_store v = (if v = 5 then {100} else {})" for v
    by (auto simp: pair_refs_def demo_wire_store_def)
  then show ?thesis by (simp add: store_inv_def counted_def demo_wire_store_def refs_def zero_data_def)
qed

lemma lookup_index_demo: "lookup_index demo_wire_dict k = Some 0"
  by (simp add: lookup_index_def demo_wire_dict_def demo_dict_def)

lemma demo_wire_dict_ok: "dict_ok demo_wire_store demo_wire_dict"
  using lookup_index_demo
  by (simp add: dict_ok_def key_of_def value_of_def demo_wire_store_def)
    (simp add: demo_wire_dict_def demo_dict_def)

lemma demo_wire_contents: "dict_contents demo_wire_store demo_wire_dict = [([97], [104, 105])]"
  by (simp add: dict_contents_def dict_alist_def demo_wire_dict_def key_of_def value_of_def value_bytes_def
      demo_wire_store_def zero_data_def)

lemma demo_wire_ok: "wire_ok demo_wire_store demo_wire_dict"
proof -
  have "dict_alist demo_wire_store demo_wire_dict = [([97], 5)]"
    by (simp add: dict_alist_def demo_wire_dict_def key_of_def value_of_def demo_wire_store_def)
  moreover have "plain_value demo_wire_store 5" by (simp add: plain_value_def demo_wire_store_def zero_data_def)
  ultimately show ?thesis by (simp add: wire_ok_def demo_wire_contents)
qed

text \<open>
  C20: the announced length is the written length.  For a well-formed dictionary of plain values whose wire
  form has fewer than 2 to the 31 bytes, \<open>dict_serialized_length\<close> returns the length \<open>n\<close> of the wire form;
  \<open>dict_serialize\<close> into any buffer of at least \<open>n\<close> bytes succeeds, writes the wire form to the first \<open>n\<close>
  bytes in network byte order and never writes beyond them; \<open>dict_allocate_and_serialize\<close> returns a
  buffer holding exactly the wire form.
\<close>

theorem dict_serialize_exact:
  assumes "dict_ok w d" and "wire_ok w d" and "byte_order_ok little s"
    and "dict_serialized_length w (Some d) = Some n" and "nat n \<le> length buf"
  shows "n = int (length (wire (dict_contents w d)))
    \<and> (\<exists>s' buf'. dict_serialize little w (Some d) s (Some buf) = Some (s', Some buf', 0)
         \<and> length buf' = length buf \<and> take (nat n) buf' = wire (dict_contents w d) \<and> drop (nat n) buf' = drop (nat n) buf)
    \<and> (\<exists>s'. dict_allocate_and_serialize little True w (Some d) True True s
         = Some (s', 0, Some (Some (wire (dict_contents w d))), Some n))"
proof -
  let ?W = "wire (dict_contents w d)"
  note len = dict_serialized_length_wire [OF assms(1,2)]
  have n: "n = int (length ?W)" using assms(4) len by (simp add: dict_serialized_length_def)
  obtain s1 where "dict_serialize_locked little w d s (Some buf) = Some (s1, Some (?W @ drop (length ?W) buf), 0)"
    using dict_serialize_wire [OF assms(1-3), of buf] assms(5) n by (auto simp del: length_wire)
  moreover obtain s2 where "dict_serialize_locked little w d s (Some (replicate (length ?W) 0)) = Some (s2, Some ?W, 0)"
    using dict_serialize_wire [OF assms(1-3), of "replicate (length ?W) 0"] by (auto simp del: length_wire)
  ultimately show ?thesis using n len assms(5)
    by (auto simp: dict_serialize_def dict_allocate_and_serialize_def simp del: length_wire)
qed

theorem dict_serialize_exact_witness:
  "\<exists>s' buf'. dict_serialize True demo_wire_store (Some demo_wire_dict) byte_order_start (Some (replicate 20 7))
     = Some (s', Some buf', 0)
     \<and> take 16 buf' = [0, 0, 0, 1, 0, 0, 0, 1, 0, 0, 0, 2, 97, 0, 104, 105] \<and> drop 16 buf' = [7, 7, 7, 7]"
proof -
  have bo: "byte_order_ok True byte_order_start" by (simp add: byte_order_ok_def)
  have len: "dict_serialized_length demo_wire_store (Some demo_wire_dict) = Some 16"
    using dict_serialized_length_wire [OF demo_wire_dict_ok demo_wire_ok]
    by (simp add: dict_serialized_length_def demo_wire_contents)
  have w: "wire [([97], [104, 105])] = [0, 0, 0, 1, 0, 0, 0, 1, 0, 0, 0, 2, 97, 0, 104, 105]" by code_simp
  show ?thesis
    using dict_serialize_exact [OF demo_wire_dict_ok demo_wire_ok bo len, of "replicate 20 7"]
    unfolding demo_wire_contents w by (auto simp: numeral_eq_Suc)
qed

text \<open>
  C7: the wire format round trip.  A well-formed dictionary of plain values, serialized into a buffer of the announced
  length and read back with \<open>dict_unserialize\<close> into an empty dictionary, gives a well-formed dictionary with the
  same keys and, for every key, the same bytes; both calls return 0, the reference counts of the
  store stay exact, and the state of the byte-order functions and the endianness do not matter.  The dictionary that is
  filled must be one in which insertion and lookup compute the same bucket for the keys: any dictionary with one
  bucket, as \<open>dict_new\<close> and \<open>get_new_dict\<close> make it (\<open>index_agrees_one\<close>), but not every one with more (property
  \<open>dict_set_correct\<close>).  The allocations succeed.
\<close>

theorem dict_wire_roundtrip:
  assumes inv: "store_inv ext w" and ok: "dict_ok w d" and wire: "wire_ok w d" and bo: "byte_order_ok little s"
    and n: "dict_serialized_length w (Some d) = Some n" and buf: "int (length buf) = n"
    and fill: "dict_ok w fill" "dict_members_list fill = []" "\<forall>k. dict_map w d k \<noteq> None \<longrightarrow> index_agrees fill k"
    and al: "unser_allocs_ok nals als 0 (length (dict_members_list d)) w"
  shows "\<exists>s' buf' s'' w' fill'. dict_serialize little w (Some d) s (Some buf) = Some (s', Some buf', 0)
    \<and> dict_unserialize little base (Some buf') n nals als s' w (Some fill) = Some (s'', w', Some fill', 0)
    \<and> store_inv ext w' \<and> dict_ok w' fill'
    \<and> (\<forall>k. map_option (value_bytes w') (dict_map w' fill' k) = map_option (value_bytes w) (dict_map w d k))"
proof -
  let ?W = "wire (dict_contents w d)"
  have nW: "n = int (length ?W)" using n dict_serialized_length_wire [OF ok wire] by (simp add: dict_serialized_length_def)
  obtain s1 where s1: "dict_serialize little w (Some d) s (Some buf) = Some (s1, Some ?W, 0)" "byte_order_ok little s1"
    using dict_serialize_wire [OF ok wire bo, of buf] buf nW by (auto simp: dict_serialize_def simp del: length_wire)
  have keys: "\<forall>(k, v) \<in> set (dict_contents w d). 0 \<notin> set k \<and> index_agrees fill k"
  proof clarify
    fix k v assume kv: "(k, v) \<in> set (dict_contents w d)"
    then have "map_of (dict_contents w d) k \<noteq> None" by (auto simp: map_of_eq_None_iff intro: rev_image_eqI)
    then have "index_agrees fill k" using fill(3) by (simp add: map_of_dict_contents)
    moreover have "0 \<notin> set k" using kv wire unfolding wire_ok_def dict_contents_def by auto
    ultimately show "0 \<notin> set k \<and> index_agrees fill k" by simp
  qed
  have al': "unser_allocs_ok nals als 0 (length (dict_contents w d)) w" using al by (simp add: dict_contents_pairs)
  have small: "length ?W < 2 ^ 31" using wire by (simp add: wire_ok_def)
  obtain s2 w' fill' where r: "dict_unserialize little base (Some ?W) (int (length ?W)) nals als s1 w (Some fill)
      = Some (s2, w', Some fill', 0)" "store_inv ext w'" "dict_ok w' fill'"
      "dict_contents w' fill' = rev (dict_contents w d)"
    using dict_unserialize_wire [OF inv fill(1) s1(2) fill(2) dict_contents_distinct [OF ok] keys al' small] by blast
  have "map_option (value_bytes w') (dict_map w' fill' k) = map_option (value_bytes w) (dict_map w d k)" for k
    using map_of_dict_contents [of w' fill' k] map_of_dict_contents [of w d k] r(4)
      dict_contents_distinct [OF ok] by (simp add: map_of_rev_distinct)
  then show ?thesis using s1(1) r(1-3) nW by blast
qed

definition demo_values :: "nat \<Rightarrow> addr" where
  "demo_values j = 20 + j"

definition demo_sets :: "nat \<Rightarrow> set_allocs" where
  "demo_sets j = \<lparr>set_asprintf = True, set_pair = 200 + j, set_key = True\<rparr>"

lemma demo_unser_ok: "unser_allocs_ok demo_values demo_sets 0 n demo_wire_store"
  by (auto simp: unser_allocs_ok_def demo_values_def demo_sets_def set_allocs_ok_def demo_wire_store_def inj_on_def)

theorem dict_wire_roundtrip_witness:
  "\<exists>s' buf' s'' w' fill'.
     dict_serialize True demo_wire_store (Some demo_wire_dict) byte_order_start (Some (replicate 16 0)) = Some (s', Some buf', 0)
     \<and> dict_unserialize True 300 (Some buf') 16 demo_values demo_sets s' demo_wire_store (Some demo_dict) = Some (s'', w', Some fill', 0)
     \<and> map_option (value_bytes w') (dict_map w' fill' [97]) = Some [104, 105]"
proof -
  have bo: "byte_order_ok True byte_order_start" by (simp add: byte_order_ok_def)
  have len: "dict_serialized_length demo_wire_store (Some demo_wire_dict) = Some 16"
    using dict_serialized_length_wire [OF demo_wire_dict_ok demo_wire_ok]
    by (simp add: dict_serialized_length_def demo_wire_contents)
  have v: "map_option (value_bytes demo_wire_store) (dict_map demo_wire_store demo_wire_dict [97]) = Some [104, 105]"
    using map_of_dict_contents [of demo_wire_store demo_wire_dict "[97]"] by (simp add: demo_wire_contents)
  have m: "dict_members_list demo_dict = []" by (simp add: demo_dict_def)
  have ix: "\<forall>k. dict_map demo_wire_store demo_wire_dict k \<noteq> None \<longrightarrow> index_agrees demo_dict k" using demo_dict_ok(3) by simp
  have buf: "int (length (replicate 16 (0 :: u8))) = 16" by simp
  obtain s' buf' s'' w' fill' where r:
      "dict_serialize True demo_wire_store (Some demo_wire_dict) byte_order_start (Some (replicate 16 0)) = Some (s', Some buf', 0)"
      "dict_unserialize True 300 (Some buf') 16 demo_values demo_sets s' demo_wire_store (Some demo_dict) = Some (s'', w', Some fill', 0)"
      "\<forall>k. map_option (value_bytes w') (dict_map w' fill' k)
         = map_option (value_bytes demo_wire_store) (dict_map demo_wire_store demo_wire_dict k)"
    using dict_wire_roundtrip [OF demo_wire_inv demo_wire_dict_ok demo_wire_ok bo len buf demo_dict_ok(1) m ix demo_unser_ok,
        of 300] by blast
  show ?thesis
    by (rule exI [of _ s'], rule exI [of _ buf'], rule exI [of _ s''], rule exI [of _ w'], rule exI [of _ fill'])
      (intro conjI r(1,2) trans [OF spec [OF r(3)] v])
qed

section \<open>Truncated buffers\<close>

text \<open>The iteration on the first part of a pair.\<close>

lemma unserialize_cut_pair:
  assumes bo: "byte_order_ok little s" and off: "off = int (length pre)" and cut: "m < length (wire_pair (k, v))"
    and small: "length (wire_pair (k, v)) < 2 ^ 31"
  shows "\<exists>s'. unserialize_pairs little base (pre @ take m (wire_pair (k, v))) (off + int m) nals als (Suc n) i off s w d
    = Some \<lparr>us_store = w, us_dict = d, us_order = s', us_ret = -1\<rparr>"
proof -
  define K where "K = be_bytes32 (of_nat (length k))"
  define V where "V = be_bytes32 (of_nat (length v))"
  have KV: "length K = 4" "length V = 4" by (simp_all add: K_def V_def)
  let ?block = "pre @ take m (wire_pair (k, v))"
  have wp: "wire_pair (k, v) = K @ V @ k @ [0] @ v" by (simp add: wire_pair_def K_def V_def)
  have len: "length k < 2 ^ 31" "length v < 2 ^ 31" using small wp by auto
  show ?thesis
  proof (cases "m < 4")
    case False
    then have b: "?block = pre @ K @ take (m - 4) (V @ k @ [0] @ v)" unfolding wp by (simp add: KV)
    obtain s1 where s1: "get_net32 little s ?block off = Some (s1, int (length k))" "byte_order_ok little s1"
      using get_net32_at [OF bo off, of "of_nat (length k)" "take (m - 4) (V @ k @ [0] @ v)"] sint_of_nat32 [OF len(1)]
      by (auto simp: b K_def)
    show ?thesis
    proof (cases "m < 8")
      case True
      then show ?thesis using s1(1) False by (simp add: Let_def)
    next
      case m8: False
      then have b8: "?block = (pre @ K) @ V @ take (m - 8) (k @ [0] @ v)" unfolding b by (simp add: KV)
      have off4: "off + 4 = int (length (pre @ K))" using off KV by simp
      obtain s2 where s2: "get_net32 little s1 ?block (off + 4) = Some (s2, int (length v))"
        using get_net32_at [OF s1(2) off4, of "of_nat (length v)" "take (m - 8) (k @ [0] @ v)"] sint_of_nat32 [OF len(2)]
        by (auto simp: b8 V_def)
      have "int m < 8 + int (length k) + 1 + int (length v)" using cut KV unfolding wp by simp
      then show ?thesis using s1(1) s2 False m8 by (simp add: Let_def)
    qed
  qed simp
qed

lemma unserialize_cut_pairs:
  assumes "byte_order_ok little s" and "store_inv ext w" and "dict_ok w d" and "distinct (map fst kvs)"
    and "\<forall>(k, v) \<in> set kvs. 0 \<notin> set k \<and> index_agrees d k \<and> dict_map w d k = None"
    and "unser_allocs_ok nals als i (length kvs) w" and "off = int (length pre)"
    and "m < length (concat (map wire_pair kvs))" and "length pre + length (concat (map wire_pair kvs)) < 2 ^ 31"
  shows "\<exists>j w' d' s'. unserialize_pairs little base (pre @ take m (concat (map wire_pair kvs))) (off + int m) nals als (length kvs) i off s w d
      = Some \<lparr>us_store = w', us_dict = d', us_order = s', us_ret = -1\<rparr>
    \<and> store_inv ext w' \<and> dict_ok w' d' \<and> dict_contents w' d' = rev (take j kvs) @ dict_contents w d
    \<and> j < length kvs \<and> length (concat (map wire_pair (take j kvs))) \<le> m
    \<and> m < length (concat (map wire_pair (take (Suc j) kvs)))"
  using assms
proof (induction kvs arbitrary: s w d i pre off m)
  case (Cons kv kvs)
  obtain k v where kv: "kv = (k, v)" by fastforce
  let ?p = "wire_pair (k, v)" and ?rest = "concat (map wire_pair kvs)"
  show ?case
  proof (cases "m < length ?p")
    case True
    have small: "length ?p < 2 ^ 31" using Cons.prems(9) kv by simp
    have b: "pre @ take m (concat (map wire_pair (kv # kvs))) = pre @ take m ?p" using True kv by simp
    obtain s' where "unserialize_pairs little base (pre @ take m ?p) (off + int m) nals als (Suc (length kvs)) i off s w d
        = Some \<lparr>us_store = w, us_dict = d, us_order = s', us_ret = -1\<rparr>"
      using unserialize_cut_pair [OF Cons.prems(1,7) True small] by blast
    then show ?thesis using Cons.prems(2,3) True kv unfolding b
      by (intro exI [of _ 0] exI [of _ w] exI [of _ d] exI [of _ s']) (simp del: unserialize_pairs.simps)
  next
    case False
    then obtain m' where m: "m = length ?p + m'" using nat_le_iff_add not_less by blast
    have m': "m' < length ?rest" using Cons.prems(8) kv m by simp
    let ?block = "pre @ take m (concat (map wire_pair (kv # kvs)))"
    have b: "?block = pre @ ?p @ take m' ?rest" by (simp add: kv m)
    have k: "0 \<notin> set k" "index_agrees d k" "dict_map w d k = None" using Cons.prems(5) kv by auto
    have al: "unser_allocs_ok nals als i (Suc (length kvs)) w" using Cons.prems(6) by simp
    have sz: "off + int (length ?p) \<le> off + int m" by (simp add: m)
    have small: "length ?block < 2 ^ 31" using Cons.prems(9) m' kv unfolding b by simp
    obtain w1 d1 s1 where r: "unserialize_pairs little base ?block (off + int m) nals als (Suc (length kvs)) i off s w d
        = unserialize_pairs little base ?block (off + int m) nals als (length kvs) (Suc i) (off + int (length ?p)) s1 w1 d1"
        "store_inv ext w1" "dict_ok w1 d1" "byte_order_ok little s1" "dict_hash_size d1 = dict_hash_size d"
        "dict_map w1 d1 = (dict_map w d)(k \<mapsto> nals i)" "dict_contents w1 d1 = (k, v) # dict_contents w d"
        "unser_allocs_ok nals als (Suc i) (length kvs) w1"
      using unserialize_pair [OF Cons.prems(1-3) k al b Cons.prems(7) sz small] by blast
    have ix: "index_agrees d1 = index_agrees d" by (rule index_agrees_cong [OF Cons.prems(3) r(3,5)])
    have rest: "\<forall>(k', v') \<in> set kvs. 0 \<notin> set k' \<and> index_agrees d1 k' \<and> dict_map w1 d1 k' = None"
      using Cons.prems(4,5) kv ix r(6) by (fastforce simp: image_iff)
    have "\<exists>j w' d' s'. unserialize_pairs little base ((pre @ ?p) @ take m' ?rest) ((off + int (length ?p)) + int m') nals als (length kvs)
          (Suc i) (off + int (length ?p)) s1 w1 d1 = Some \<lparr>us_store = w', us_dict = d', us_order = s', us_ret = -1\<rparr>
      \<and> store_inv ext w' \<and> dict_ok w' d' \<and> dict_contents w' d' = rev (take j kvs) @ dict_contents w1 d1
      \<and> j < length kvs \<and> length (concat (map wire_pair (take j kvs))) \<le> m'
      \<and> m' < length (concat (map wire_pair (take (Suc j) kvs)))"
      by (rule Cons.IH [OF r(4,2,3) _ rest r(8) _ m']) (use Cons.prems kv in \<open>auto simp del: unserialize_pairs.simps\<close>)
    then obtain j w' d' s' where j: "unserialize_pairs little base ?block (off + int m) nals als (length kvs)
          (Suc i) (off + int (length ?p)) s1 w1 d1 = Some \<lparr>us_store = w', us_dict = d', us_order = s', us_ret = -1\<rparr>"
        "store_inv ext w'" "dict_ok w' d'" "dict_contents w' d' = rev (take j kvs) @ dict_contents w1 d1"
        "j < length kvs" "length (concat (map wire_pair (take j kvs))) \<le> m'"
        "m' < length (concat (map wire_pair (take (Suc j) kvs)))"
      unfolding b by (auto simp: m add.assoc simp del: unserialize_pairs.simps)
    show ?thesis using r(1,7) j kv m
      by (intro exI [of _ "Suc j"] exI [of _ w'] exI [of _ d'] exI [of _ s']) (simp del: unserialize_pairs.simps)
  qed
qed simp

text \<open>
  C21: \<open>dict_unserialize\<close> rejects every truncated message.  Of the wire form of any pairs with distinct keys, given only
  the first \<open>n\<close> bytes and told that size, it returns -1 and reads nothing behind them, wherever the cut is: in a length, a key, its
  terminator, a value or between two pairs.  The dictionary, empty before, is well formed and has exactly the pairs
  that were complete, and the reference counts are exact.  (Insertion and lookup must compute the same bucket for
  the keys, as in any dictionary with one bucket, and the allocations succeed.  A message with a negative length is not a truncated
  one: see \<open>dict_unserialize_overread\<close>.)
\<close>

theorem dict_unserialize_truncated:
  assumes inv: "store_inv ext w" and ok: "dict_ok w d" "dict_members_list d = []" and bo: "byte_order_ok little s"
    and keys: "distinct (map fst kvs)" "\<forall>(k, v) \<in> set kvs. 0 \<notin> set k \<and> index_agrees d k"
    and al: "unser_allocs_ok nals als 0 (length kvs) w" and n: "n < length (wire kvs)" and small: "length (wire kvs) < 2 ^ 31"
  shows "\<exists>j s' w' d'. dict_unserialize little base (Some (take n (wire kvs))) (int n) nals als s w (Some d) = Some (s', w', Some d', -1)
    \<and> store_inv ext w' \<and> dict_ok w' d' \<and> dict_contents w' d' = rev (take j kvs)
    \<and> (j = 0 \<or> length (wire (take j kvs)) \<le> n) \<and> (n < 4 \<or> j < length kvs \<and> n < length (wire (take (Suc j) kvs)))"
proof -
  let ?C = "be_bytes32 (of_nat (length kvs))" let ?B = "concat (map wire_pair kvs)"
  have w: "wire kvs = ?C @ ?B" by (simp add: wire_def)
  have zero: "d\<lparr>dict_count := 0\<rparr> = d" using ok by (simp add: dict_ok_def)
  have none: "dict_map w d k = None" "dict_contents w d = []" for k
    using ok(2) by (simp_all add: dict_map_def dict_contents_def dict_alist_def)
  show ?thesis
  proof (cases "n < 4")
    case True
    then show ?thesis using inv ok none by (intro exI [of _ 0] exI [of _ s] exI [of _ w] exI [of _ d]) (simp add: dict_unserialize_def)
  next
    case False
    then obtain m where m: "n = 4 + m" using nat_le_iff_add not_less by blast
    have t: "take n (wire kvs) = ?C @ take m ?B" by (simp add: w m)
    have "length kvs \<le> length ?B" by (induction kvs) auto
    then have c: "length kvs < 2 ^ 31" using small unfolding w by simp
    obtain s1 where s1: "get_net32 little s (take n (wire kvs)) 0 = Some (s1, int (length kvs))" "byte_order_ok little s1"
      using get_net32_at [OF bo, of 0 "[]" "of_nat (length kvs)" "take m ?B"] sint_of_nat32 [OF c] unfolding t by auto
    have mB: "m < length ?B" using n m unfolding w by simp
    obtain j w' d' s' where r: "unserialize_pairs little base (?C @ take m ?B) (4 + int m) nals als (length kvs) 0 4 s1 w d
        = Some \<lparr>us_store = w', us_dict = d', us_order = s', us_ret = -1\<rparr>"
        "store_inv ext w'" "dict_ok w' d'" "dict_contents w' d' = rev (take j kvs) @ dict_contents w d"
        "j < length kvs" "length (concat (map wire_pair (take j kvs))) \<le> m" "m < length (concat (map wire_pair (take (Suc j) kvs)))"
      using unserialize_cut_pairs [OF s1(2) inv ok(1) keys(1) _ al _ mB, of 4 ?C] keys(2) none(1) small
      by (fastforce simp: w)
    have "wire (take i kvs) = be_bytes32 (of_nat (length (take i kvs))) @ concat (map wire_pair (take i kvs))" for i by (simp add: wire_def)
    then have "length (wire (take i kvs)) = 4 + length (concat (map wire_pair (take i kvs)))" for i by simp
    then show ?thesis using r s1(1) zero none(2) False m t
      by (intro exI [of _ j] exI [of _ s'] exI [of _ w'] exI [of _ d'])
        (simp add: dict_unserialize_def del: unserialize_pairs.simps length_wire)
  qed
qed

theorem dict_unserialize_truncated_witness:
  "\<exists>s' w' d'. dict_unserialize True 300 (Some [0, 0, 0, 1, 0, 0, 0, 1, 0, 0, 0, 2, 97, 0, 104]) 15 demo_values demo_sets byte_order_start
       demo_wire_store (Some demo_dict) = Some (s', w', Some d', -1) \<and> dict_contents w' d' = []"
proof -
  have bo: "byte_order_ok True byte_order_start" by (simp add: byte_order_ok_def)
  have m: "dict_members_list demo_dict = []" by (simp add: demo_dict_def)
  have w: "wire [([97], [104, 105])] = [0, 0, 0, 1, 0, 0, 0, 1, 0, 0, 0, 2, 97, 0, 104, 105]" by code_simp
  have k: "\<forall>(k, v) \<in> set [([97], [104, 105])]. 0 \<notin> set k \<and> index_agrees demo_dict k" using demo_dict_ok(3) by simp
  have n: "15 < length (wire [([97], [104, 105])])" "length (wire [([97 :: u8], [104, 105])]) < 2 ^ 31" unfolding w by simp_all
  have d: "distinct (map fst [([97 :: u8], [104 :: u8, 105])])" by simp
  obtain j s' w' d' where "dict_unserialize True 300 (Some (take 15 (wire [([97], [104, 105])]))) (int 15) demo_values demo_sets byte_order_start
       demo_wire_store (Some demo_dict) = Some (s', w', Some d', -1)" "dict_contents w' d' = rev (take j [([97], [104, 105])])" "j < 1"
    using dict_unserialize_truncated [OF demo_wire_inv demo_dict_ok(1) m bo d k _ n, of demo_values demo_sets 300] demo_unser_ok by fastforce
  then show ?thesis unfolding w by simp
qed

text \<open>
  \<open>dict_unserialize\<close> trusts the lengths in the buffer.  For this buffer of 16 bytes, whose size the caller states
  correctly, every bound check passes (the negative value length hides that the key fills the
  buffer to the end), and the reader then looks for the terminator of the key and places the value
  beyond the end of the buffer.
\<close>

lemma dict_unserialize_overread:
  "dict_unserialize True base (Some [0, 0, 0, 1, 0, 0, 0, 4, 255, 255, 255, 255, 97, 97, 97, 97]) 16
     nals als byte_order_start w (Some d) = None
   \<and> string_at [0, 0, 0, 1, 0, 0, 0, 4, 255, 255, 255, 255, 97, 97, 97, 97] 12 = None"
proof -
  let ?b = "[0, 0, 0, 1, 0, 0, 0, 4, 255, 255, 255, 255, 97, 97, 97, 97] :: u8 list"
  have g: "get_net32 True byte_order_start ?b 0 = Some (byte_order_init True, 1)"
      "get_net32 True (byte_order_init True) ?b 4 = Some (byte_order_init True, 4)"
      "get_net32 True (byte_order_init True) ?b 8 = Some (byte_order_init True, - 1)"
    by code_simp+
  have "ptr_at base ?b 17 = None" "string_at ?b 12 = None" by (simp_all add: ptr_at_def string_at_def)
  then show ?thesis using g
    by (simp add: dict_unserialize_def Let_def split: prod.split)
qed

section \<open>The text format and the scatter list agree\<close>

definition text_pair :: "cstring \<times> u8 list \<Rightarrow> u8 list" where
  "text_pair kv = pair_header (of_nat (length (fst kv) + 1)) (of_nat (length (snd kv))) @ fst kv @ [0] @ snd kv"

definition text_form :: "(cstring \<times> u8 list) list \<Rightarrow> u8 list" where
  "text_form kvs = count_header (of_nat (length kvs)) @ concat (map text_pair kvs)"

lemma length_print_base: "\<lbrakk>2 \<le> b; n < b ^ m; 0 < m\<rbrakk> \<Longrightarrow> length (print_base b n) \<le> m"
proof (induction b n arbitrary: m rule: print_base.induct)
  case (1 b n)
  show ?case
  proof (cases "n < b")
    case True then show ?thesis using 1(4) by (subst print_base.simps) simp
  next
    case False
    then obtain m' where m: "m = Suc m'" "0 < m'" using 1(3,4) by (cases m; cases "m - 1") auto
    have "n div b < b ^ m'" using 1(2,3) m by (simp add: less_mult_imp_div_less mult.commute)
    then have "length (print_base b (n div b)) \<le> m'" using 1(1) False 1(2) m by simp
    then show ?thesis using False 1(2) m by (subst print_base.simps) simp
  qed
qed

lemma length_print_hex8: "n < 2 ^ 32 \<Longrightarrow> length (print_hex8 n) = 8"
  using length_print_base [of 16 n 8] by (simp add: print_hex8_def Let_def)

lemma unat_small64: "n < 2 ^ 32 \<Longrightarrow> unat (of_nat n :: u64) = n"
  by (simp add: unat_of_nat take_bit_nat_eq_self)

lemma length_pair_header: "\<lbrakk>k < 2 ^ 32; v < 2 ^ 32\<rbrakk> \<Longrightarrow> length (pair_header (of_nat k) (of_nat v)) = 18"
  unfolding pair_header_def by (simp only: unat_small64 length_append length_print_hex8) simp

lemma length_count_header: "n < 2 ^ 32 \<Longrightarrow> length (count_header (of_nat n)) = 9"
  unfolding count_header_def by (simp only: unat_small64 length_append length_print_hex8) simp

definition pair_small :: "store \<Rightarrow> addr \<Rightarrow> bool" where
  "pair_small w a \<longleftrightarrow> pair_ok w a \<and> length (fst (pair_contents w a)) < 2 ^ 31 \<and> length (snd (pair_contents w a)) < 2 ^ 31"

lemma wire_ok_small:
  assumes "dict_ok w d" and "wire_ok w d"
  shows "\<forall>a \<in> set (dict_members_list d). pair_small w a" and "length (dict_members_list d) < 2 ^ 31"
proof -
  let ?l = "\<lambda>kv :: cstring \<times> u8 list. 9 + length (fst kv) + length (snd kv)"
  have tot: "4 + (\<Sum>kv \<leftarrow> map (pair_contents w) (dict_members_list d). ?l kv) < 2 ^ 31"
    using assms(2) unfolding wire_ok_def dict_contents_pairs length_wire by blast
  show "\<forall>a \<in> set (dict_members_list d). pair_small w a"
  proof
    fix a assume a: "a \<in> set (dict_members_list d)"
    have "?l (pair_contents w a) \<le> (\<Sum>kv \<leftarrow> map (pair_contents w) (dict_members_list d). ?l kv)"
      by (rule member_le_sum_list) (use a in auto)
    with tot have "?l (pair_contents w a) < 2 ^ 31" by linarith
    then show "pair_small w a" using wire_ok_pairs [OF assms] a by (simp add: pair_small_def)
  qed
  have "length as \<le> (\<Sum>kv \<leftarrow> map (pair_contents w) as. ?l kv)" for as by (induction as) auto
  from this [of "dict_members_list d"] tot show "length (dict_members_list d) < 2 ^ 31" by linarith
qed

lemma pair_smallE:
  assumes "pair_small w a"
  shows "\<exists>p k d q v. pairs w a = Some p \<and> pair_key p = Some k \<and> datas w (pair_value p) = Some d
    \<and> data_vec d = None \<and> data_data d = Some q \<and> data_len d = int (length v) \<and> value_copy d = Some v
    \<and> take (length v) (ptr_bytes q) = v
    \<and> pair_contents w a = (k, v) \<and> length (pair_header (of_nat (length k + 1)) (of_nat (length v))) = 18
    \<and> length v < 2 ^ 31"
proof -
  from pair_okE [of w a] assms obtain p k d q where p: "pairs w a = Some p" "pair_key p = Some k"
      "datas w (pair_value p) = Some d" "data_vec d = None" "data_data d = Some q" "0 \<le> data_len d"
      "data_len d \<le> int (length (ptr_bytes q))" "pair_contents w a = (k, take (nat (data_len d)) (ptr_bytes q))"
    unfolding pair_small_def by blast
  let ?v = "take (nat (data_len d)) (ptr_bytes q)"
  have "length k < 2 ^ 31" "length ?v < 2 ^ 31" using assms p(8) unfolding pair_small_def by auto
  then have l: "length k + 1 < 2 ^ 32" "length ?v < 2 ^ 32" "length ?v < 2 ^ 31" by simp_all
  have "data_len d = int (length ?v)" "value_copy d = Some ?v" "take (length ?v) (ptr_bytes q) = ?v"
    using p by (auto simp: value_copy_def min_def)
  with p l length_pair_header [OF l(1,2)] show ?thesis by blast
qed

text \<open>The NUL that \<^verbatim>\<open>sprintf\<close> writes after a header is overwritten by the key.\<close>

lemma serialize_old_pairs_writes:
  assumes "\<forall>a \<in> set as. pair_small w a"
    and "length (concat (map text_pair (map (pair_contents w) as))) \<le> length rest"
  shows "serialize_old_pairs w (int (length as)) as (pre @ rest) (length pre)
      = Some (pre @ concat (map text_pair (map (pair_contents w) as))
          @ drop (length (concat (map text_pair (map (pair_contents w) as)))) rest)"
  using assms
proof (induction as arbitrary: pre rest)
  case (Cons a as)
  from Cons.prems(1) have "pair_small w a" by simp
  from pair_smallE [OF this] obtain p k d v where p: "pairs w a = Some p" "pair_key p = Some k"
      "datas w (pair_value p) = Some d" "data_len d = int (length v)" "value_copy d = Some v"
      "pair_contents w a = (k, v)" "length (pair_header (of_nat (length k + 1)) (of_nat (length v))) = 18"
    by blast
  define H where "H = pair_header (of_nat (length k + 1)) (of_nat (length v))"
  have H [simp]: "length H = 18" using p(7) by (simp add: H_def)
  let ?B = "concat (map text_pair (map (pair_contents w) as))"
  have tp: "text_pair (k, v) = H @ k @ [0] @ v" by (simp add: text_pair_def H_def)
  have len: "19 + length k + length v + length ?B \<le> length rest" using Cons.prems(2) p(6) tp by simp
  let ?r = "drop (19 + length k) rest" let ?r' = "drop (19 + length k + length v) rest"
  have w1: "buf_write (pre @ rest) (length pre) (H @ [0]) = Some (pre @ H @ [0] @ drop 19 rest)"
    using buf_write_at [OF refl, of "H @ [0]" rest pre] len by simp
  have w2: "buf_write (pre @ H @ [0] @ drop 19 rest) (length pre + 18) (k @ [0]) = Some (pre @ H @ k @ [0] @ ?r)"
    using buf_write_at [of "length pre + 18" "pre @ H" "k @ [0]" "[0] @ drop 19 rest"] len by (simp add: add.commute)
  have w3: "buf_write (pre @ H @ k @ [0] @ ?r) (length pre + 18 + length k + 1) v = Some (pre @ H @ k @ [0] @ v @ ?r')"
    using buf_write_at [of "length pre + 18 + length k + 1" "pre @ H @ k @ [0]" v ?r] len by (simp add: add.commute)
  have ih: "serialize_old_pairs w (int (length as)) as ((pre @ H @ k @ [0] @ v) @ ?r') (length (pre @ H @ k @ [0] @ v))
      = Some ((pre @ H @ k @ [0] @ v) @ ?B @ drop (length ?B) ?r')"
    by (rule Cons.IH) (use Cons.prems(1) len in simp_all)
  have hd: "pair_header (word_of_nat (length k + 1)) (word_of_int (int (length v))) = H" by (simp add: H_def)
  have "serialize_old_pairs w (int (length (a # as))) (a # as) (pre @ rest) (length pre)
      = serialize_old_pairs w (int (length as)) as (pre @ H @ k @ [0] @ v @ ?r') (length pre + 18 + length k + 1 + length v)"
    unfolding serialize_old_pairs.simps p(1,2,3) Option.bind.bind_lunit p(4) hd w1 w2 p(5) w3 by simp
  also have "\<dots> = Some (pre @ concat (map text_pair (map (pair_contents w) (a # as)))
          @ drop (length (concat (map text_pair (map (pair_contents w) (a # as))))) rest)"
    using ih p(6) tp by (simp add: ac_simps)
  finally show ?case .
qed simp

text \<open>What a scatter list describes, and header elements with room for the printed text.\<close>

definition gather :: "iovec list \<Rightarrow> u8 list" where
  "gather vec = concat (map (\<lambda>v. take (iov_len v) (case iov_base v of None \<Rightarrow> [] | Some p \<Rightarrow> ptr_bytes p)) vec)"

definition has_room :: "nat \<Rightarrow> iovec \<Rightarrow> bool" where
  "has_room n v \<longleftrightarrow> (case iov_base v of None \<Rightarrow> False | Some p \<Rightarrow> n \<le> length (ptr_bytes p))"

fun headers_ok :: "nat \<Rightarrow> iovec list \<Rightarrow> bool" where
  "headers_ok 0 vec \<longleftrightarrow> vec = []"
| "headers_ok (Suc n) (h # x # y # vec) \<longleftrightarrow> has_room 19 h \<and> headers_ok n vec"
| "headers_ok (Suc n) _ \<longleftrightarrow> False"

lemma gather_simps [simp]: "gather [] = []" "gather (xs @ ys) = gather xs @ gather ys"
  "gather (v # vs) = take (iov_len v) (case iov_base v of None \<Rightarrow> [] | Some p \<Rightarrow> ptr_bytes p) @ gather vs"
  by (simp_all add: gather_def)

lemma headers_ok_length: "headers_ok n vec \<Longrightarrow> length vec = 3 * n"
  by (induction n vec rule: headers_ok.induct) auto

lemma vec_header_at:
  assumes "has_room (Suc (length t)) h" and "i = length pre" and "n = length t"
  shows "\<exists>h'. vec_header (pre @ h # rest) i n t = Some (pre @ h' # rest) \<and> gather [h'] = t"
proof -
  obtain p where p: "iov_base h = Some p" "Suc (length t) \<le> length (ptr_bytes p)"
    using assms(1) by (cases "iov_base h") (auto simp: has_room_def)
  have "buf_write (ptr_bytes p) 0 (t @ [0]) = Some (t @ [0] @ drop (Suc (length t)) (ptr_bytes p))"
    using p(2) by (simp add: buf_write_def)
  then show ?thesis using p(1) assms(2,3) by (simp add: vec_header_def)
qed

lemma vec_put_at: "i = length pre \<Longrightarrow> vec_put (pre @ x # rest) i v = Some (pre @ v # rest)"
  by (simp add: vec_put_def)

lemma to_iovec_pairs_gather:
  assumes "\<forall>a \<in> set as. pair_small w a" and "headers_ok (length as) rest"
  shows "\<exists>rest'. to_iovec_pairs kaddr w as (pre @ rest) (length pre) = Some (pre @ rest')
    \<and> gather rest' = concat (map text_pair (map (pair_contents w) as))"
  using assms
proof (induction as arbitrary: pre rest)
  case (Cons a as)
  obtain h x y r where r: "rest = h # x # y # r" "has_room 19 h" "headers_ok (length as) r"
    using Cons.prems(2) by (cases rest rule: headers_ok.cases [of "(Suc (length as), rest)" for rest, simplified]) auto
  from Cons.prems(1) have "pair_small w a" by simp
  from pair_smallE [OF this] obtain p k d q v where p: "pairs w a = Some p" "pair_key p = Some k"
      "datas w (pair_value p) = Some d" "data_vec d = None" "data_data d = Some q" "data_len d = int (length v)"
      "take (length v) (ptr_bytes q) = v" "pair_contents w a = (k, v)"
      "length (pair_header (of_nat (length k + 1)) (of_nat (length v))) = 18" "length v < 2 ^ 31"
    by blast
  define H where "H = pair_header (of_nat (length k + 1)) (of_nat (length v))"
  have H: "length H = 18" using p(9) by (simp add: H_def)
  obtain h' where h': "vec_header (pre @ h # x # y # r) (length pre) 18 H = Some (pre @ h' # x # y # r)" "gather [h'] = H"
    using vec_header_at [OF _ refl H [symmetric], of h pre "x # y # r"] r(2) H by fastforce
  define kv where "kv = \<lparr>iov_base = Some \<lparr>ptr_addr = kaddr a, ptr_bytes = k @ [0]\<rparr>, iov_len = length k + 1\<rparr>"
  define vv where "vv = \<lparr>iov_base = Some q, iov_len = length v\<rparr>"
  have put: "vec_put (pre @ h' # x # y # r) (length pre + 1) kv = Some (pre @ h' # kv # y # r)"
      "vec_put (pre @ h' # kv # y # r) (length pre + 2) vv = Some (pre @ h' # kv # vv # r)"
    using vec_put_at [of "length pre + 1" "pre @ [h']" x "y # r" kv] vec_put_at [of "length pre + 2" "pre @ [h', kv]" y r vv]
    by simp_all
  obtain r' where r': "to_iovec_pairs kaddr w as ((pre @ [h', kv, vv]) @ r) (length (pre @ [h', kv, vv]))
      = Some ((pre @ [h', kv, vv]) @ r')" "gather r' = concat (map text_pair (map (pair_contents w) as))"
    using Cons.IH [of r "pre @ [h', kv, vv]"] Cons.prems(1) r(3) by auto
  have u: "unat (word_of_int (data_len d) :: u64) = length v" using p(6,10) unat_small64 [of "length v"] by simp
  have hd: "pair_header (of_nat (length k + 1)) (word_of_int (data_len d)) = H" using p(6) by (simp add: H_def)
  have "to_iovec_pairs kaddr w (a # as) (pre @ rest) (length pre) = Some (pre @ h' # kv # vv # r')"
    using p(1-5) hd h'(1) put r'(1) u r(1) by (simp add: Let_def kv_def vv_def numeral_3_eq_3)
  moreover have "gather (h' # kv # vv # r') = concat (map text_pair (map (pair_contents w) (a # as)))"
    using h'(2) r'(2) p(7,8) by (simp add: kv_def vv_def text_pair_def H_def)
  ultimately show ?case by blast
qed simp

text \<open>
  the three encoders of the text format agree.  For a non-empty well-formed dictionary of plain values the buffer that
  \<open>dict_serialize_old\<close> fills and the scatter list that \<open>dict_to_iovec\<close> fills describe the same bytes, and
  \<open>dict_iovec_len\<close> is the number of elements the scatter list needs.
\<close>

theorem dict_to_iovec_serialize_old:
  assumes "dict_ok w d" and "wire_ok w d" and "dict_members_list d \<noteq> []"
    and "length (text_form (dict_contents w d)) \<le> length buf"
    and "has_room 10 h" and "headers_ok (length (dict_members_list d)) vec"
  shows "dict_serialize_old w (Some d) (Some buf)
      = Some (Some (text_form (dict_contents w d) @ drop (length (text_form (dict_contents w d))) buf), 0)
    \<and> dict_iovec_len w (Some d) = Some (int (length (h # vec)))
    \<and> (\<exists>vec'. dict_to_iovec kaddr w (Some d) (Some (h # vec)) = Some (Some vec', 0)
         \<and> gather vec' = text_form (dict_contents w d))"
proof -
  let ?as = "dict_members_list d"
  note small = wire_ok_small [OF assms(1,2)]
  define C where "C = count_header (of_nat (length ?as))"
  have C: "length C = 9" using length_count_header [of "length ?as"] small(2) by (simp add: C_def)
  let ?B = "concat (map text_pair (map (pair_contents w) ?as))"
  have c: "dict_count d = int (length ?as)" using assms(1) by (simp add: dict_ok_def)
  have ch: "count_header (word_of_int (dict_count d)) = C" using c by (simp add: C_def)
  have tf: "text_form (dict_contents w d) = C @ ?B" by (simp add: text_form_def dict_contents_pairs C_def)
  obtain a as where as: "?as = a # as" using assms(3) by (cases ?as) auto
  have "pair_small w a" using small(1) as by simp
  from pair_smallE [OF this] have "length (text_pair (pair_contents w a)) \<ge> 1" by (auto simp: text_pair_def)
  then have B: "1 \<le> length ?B" unfolding as by simp
  have len: "9 + length ?B \<le> length buf" using assms(4) C unfolding tf by simp
  have "buf_write ([] @ buf) 0 (C @ [0]) = Some ([] @ (C @ [0]) @ drop (length (C @ [0])) buf)"
    by (rule buf_write_at) (use len B C in auto)
  then have w1: "buf_write buf 0 (C @ [0]) = Some (C @ [0] @ drop 10 buf)" using C by simp
  have "serialize_old_pairs w (int (length ?as)) ?as (C @ [0] @ drop 10 buf) (length C)
      = Some (C @ ?B @ drop (length ?B) ([0] @ drop 10 buf))"
    by (rule serialize_old_pairs_writes [OF small(1)]) (use len B in simp)
  moreover have "1 \<le> n \<Longrightarrow> drop n ([0] @ drop 10 buf) = drop (9 + n) buf" for n by (cases n) (simp_all add: add.commute)
  from this [OF B] have "drop (length ?B) ([0] @ drop 10 buf) = drop (9 + length ?B) buf" .
  ultimately have old: "dict_serialize_old w (Some d) (Some buf) = Some (Some (C @ ?B @ drop (length (C @ ?B)) buf), 0)"
    using w1 c ch C by (simp add: dict_serialize_old_def)
  have iv: "iovec_len_pairs w xs n = Some (n + int (3 * length xs))" if "\<forall>a \<in> set xs. pair_small w a" for xs n
    using that by (induction xs arbitrary: n) (use pair_smallE in fastforce)+
  have "length vec = 3 * length ?as" using assms(6) by (rule headers_ok_length)
  then have ivl: "dict_iovec_len w (Some d) = Some (int (length (h # vec)))"
    using iv [OF small(1), of 1] by (simp add: dict_iovec_len_def)
  obtain h' where h': "vec_header ([] @ h # vec) 0 9 C = Some ([] @ h' # vec)" "gather [h'] = C"
    using vec_header_at [OF _ _ C [symmetric], of h 0 "[]" vec] assms(5) C by fastforce
  obtain vec' where v: "to_iovec_pairs kaddr w ?as ([h'] @ vec) (length [h']) = Some ([h'] @ vec')" "gather vec' = ?B"
    using to_iovec_pairs_gather [OF small(1) assms(6), of kaddr "[h']"] by blast
  have "dict_to_iovec kaddr w (Some d) (Some (h # vec)) = Some (Some (h' # vec'), 0)"
    using h'(1) v(1) ch by (simp add: dict_to_iovec_def)
  moreover have "gather (h' # vec') = C @ ?B" using h'(2) v(2) by simp
  ultimately show ?thesis using old ivl unfolding tf by auto
qed

definition demo_iov :: "nat \<Rightarrow> iovec" where
  "demo_iov n = \<lparr>iov_base = Some \<lparr>ptr_addr = 60, ptr_bytes = replicate n 0\<rparr>, iov_len = 0\<rparr>"

theorem dict_to_iovec_serialize_old_witness:
  "\<exists>vec'. dict_to_iovec (\<lambda>a. a + 1) demo_wire_store (Some demo_wire_dict)
       (Some [demo_iov 10, demo_iov 19, demo_iov 0, demo_iov 0]) = Some (Some vec', 0)
     \<and> gather vec' = [48, 48, 48, 48, 48, 48, 48, 49, 10, 48, 48, 48, 48, 48, 48, 48, 50, 58,
                      48, 48, 48, 48, 48, 48, 48, 50, 10, 97, 0, 104, 105]"
proof -
  have ml: "dict_members_list demo_wire_dict = [100]" by (simp add: demo_wire_dict_def)
  have t: "text_form [([97], [104, 105])] = [48, 48, 48, 48, 48, 48, 48, 49, 10, 48, 48, 48, 48, 48, 48, 48, 50, 58,
                      48, 48, 48, 48, 48, 48, 48, 50, 10, 97, 0, 104, 105]" by code_simp
  have "headers_ok (Suc 0) [demo_iov 19, demo_iov 0, demo_iov 0]" "has_room 10 (demo_iov 10)"
    by (simp_all add: has_room_def demo_iov_def)
  then show ?thesis
    using dict_to_iovec_serialize_old [OF demo_wire_dict_ok demo_wire_ok, of "replicate 31 0" "demo_iov 10"
        "[demo_iov 19, demo_iov 0, demo_iov 0]" "\<lambda>a. a + 1"]
    unfolding demo_wire_contents t ml by simp
qed

text \<open>
  \<open>dict_serialize_old\<close> writes one byte more than \<open>dict_serialized_length_old\<close> announces when the dictionary is empty:
  the terminator of the header that \<^verbatim>\<open>sprintf\<close> prints falls behind the buffer of 9 bytes.
\<close>

theorem dict_serialize_old_empty_overflow:
  assumes "dict_ok w d" and "dict_members_list d = []"
  shows "dict_serialized_length_old w (Some d) = Some 9
    \<and> (length buf = 9 \<longrightarrow> dict_serialize_old w (Some d) (Some buf) = None)"
proof -
  have c: "dict_count d = 0" using assms by (simp add: dict_ok_def)
  have "length (count_header 0) = 9" using length_count_header [of 0] by simp
  then show ?thesis using assms(2) c
    by (simp add: dict_serialized_length_old_def dict_serialize_old_def buf_write_def)
qed

theorem dict_serialize_old_empty_overflow_witness:
  "dict_serialized_length_old demo_store (Some demo_dict) = Some 9
    \<and> dict_serialize_old demo_store (Some demo_dict) (Some (replicate 9 0)) = None"
  using dict_serialize_old_empty_overflow [OF demo_dict_ok(1), of demo_store "replicate 9 0"]
  by (simp add: demo_dict_def)

end
