(* ===== verification/Lz_Iovec.thy ===== *)
theory Lz_Iovec
  imports Lz_Dict_Serial
begin

text \<open>
  The inline functions of \<^verbatim>\<open>src/src/common-utils.h\<close> on scatter lists.  An element has the bytes its base points to and a
  length; \<open>gather\<close> is the byte sequence a scatter list describes.  Reading past the end of the array or
  of a block is undefined (\<open>None\<close>).
\<close>

section \<open>Operations\<close>

text \<open>The blocks passed to \<^verbatim>\<open>FREE\<close>, the vector itself last.\<close>

fun iov_free_loop :: "iovec list \<Rightarrow> nat \<Rightarrow> addr list option" where
  "iov_free_loop vector 0 = Some []"
| "iov_free_loop [] (Suc n) = None"
| "iov_free_loop (v # vector) (Suc n) =
     map_option (\<lambda>fs. (case iov_base v of None \<Rightarrow> [] | Some p \<Rightarrow> [ptr_addr p]) @ fs) (iov_free_loop vector n)"

definition iov_free :: "addr \<Rightarrow> iovec list \<Rightarrow> int \<Rightarrow> addr list option" where
  "iov_free vec_addr vector count = map_option (\<lambda>fs. fs @ [vec_addr]) (iov_free_loop vector (nat count))"

text \<open>The sum of sizes, of type \<^verbatim>\<open>size_t\<close>, is returned as an \<^verbatim>\<open>int\<close>.\<close>

fun iov_length_loop :: "iovec list \<Rightarrow> nat \<Rightarrow> u64 \<Rightarrow> u64 option" where
  "iov_length_loop vector 0 acc = Some acc"
| "iov_length_loop [] (Suc n) acc = None"
| "iov_length_loop (v # vector) (Suc n) acc = iov_length_loop vector n (acc + of_nat (iov_len v))"

definition iov_length :: "iovec list \<Rightarrow> int \<Rightarrow> int option" where
  "iov_length vector count = map_option (\<lambda>n. int32 (uint n)) (iov_length_loop vector (nat count) 0)"

fun iov_copy_loop :: "iovec list \<Rightarrow> nat \<Rightarrow> iovec list option" where
  "iov_copy_loop vector 0 = Some []"
| "iov_copy_loop [] (Suc n) = None"
| "iov_copy_loop (v # vector) (Suc n) = map_option ((#) v) (iov_copy_loop vector n)"

definition iov_dup :: "bool \<Rightarrow> iovec list \<Rightarrow> int \<Rightarrow> iovec list option option" where
  "iov_dup alloc vector count = (if \<not> alloc then Some None else map_option Some (iov_copy_loop vector (nat count)))"

text \<open>
  \<open>new = None\<close> only counts.  The offsets are not negative; \<open>orig[i].iov_base + start_offset\<close> moves the pointer.  The result is
  the count and the elements written.
\<close>

definition ptr_move :: "cptr option \<Rightarrow> nat \<Rightarrow> cptr option" where
  "ptr_move p n = map_option (\<lambda>q. \<lparr>ptr_addr = ptr_addr q + n, ptr_bytes = drop n (ptr_bytes q)\<rparr>) p"

fun iov_subset_loop ::
  "iovec list \<Rightarrow> nat \<Rightarrow> nat \<Rightarrow> nat \<Rightarrow> nat \<Rightarrow> bool \<Rightarrow> nat \<Rightarrow> iovec list \<Rightarrow> (nat \<times> iovec list) option" where
  "iov_subset_loop orig 0 src_offset dst_offset offset fill new_count new = Some (new_count, new)"
| "iov_subset_loop [] (Suc n) src_offset dst_offset offset fill new_count new = None"
| "iov_subset_loop (v # orig) (Suc n) src_offset dst_offset offset fill new_count new =
     (if offset + iov_len v < src_offset \<or> dst_offset < offset
      then iov_subset_loop orig n src_offset dst_offset (offset + iov_len v) fill new_count new
      else if \<not> fill
      then iov_subset_loop orig n src_offset dst_offset (offset + iov_len v) fill (new_count + 1) new
      else
        let start_offset = (if offset \<le> src_offset then src_offset - offset else 0);
            end_offset = (if dst_offset \<le> offset + iov_len v then dst_offset - offset else iov_len v)
        in iov_subset_loop orig n src_offset dst_offset (offset + iov_len v) fill (new_count + 1)
             (new @ [\<lparr>iov_base = ptr_move (iov_base v) start_offset, iov_len = end_offset - start_offset\<rparr>]))"

definition iov_subset :: "iovec list \<Rightarrow> int \<Rightarrow> nat \<Rightarrow> nat \<Rightarrow> bool \<Rightarrow> (nat \<times> iovec list) option" where
  "iov_subset orig orig_count src_offset dst_offset fill =
     iov_subset_loop orig (nat orig_count) src_offset dst_offset 0 fill 0 []"

definition iov_bytes :: "iovec \<Rightarrow> u8 list option" where
  "iov_bytes v =
     (let bs = (case iov_base v of None \<Rightarrow> [] | Some p \<Rightarrow> ptr_bytes p)
      in if length bs < iov_len v then None else Some (take (iov_len v) bs))"

fun iov_unload_loop :: "u8 list \<Rightarrow> iovec list \<Rightarrow> nat \<Rightarrow> nat \<Rightarrow> u8 list option" where
  "iov_unload_loop buf vector 0 copied = Some buf"
| "iov_unload_loop buf [] (Suc n) copied = None"
| "iov_unload_loop buf (v # vector) (Suc n) copied =
     (case iov_bytes v of
        None \<Rightarrow> None
      | Some bs \<Rightarrow>
          (case buf_write buf copied bs of
             None \<Rightarrow> None
           | Some buf' \<Rightarrow> iov_unload_loop buf' vector n (copied + iov_len v)))"

definition iov_unload :: "u8 list \<Rightarrow> iovec list \<Rightarrow> int \<Rightarrow> u8 list option" where
  "iov_unload buf vector count = iov_unload_loop buf vector (nat count) 0"

text \<open>\<open>ret\<close> is the first byte that is not zero, as a signed number.\<close>

definition mem_0filled :: "u8 list \<Rightarrow> int" where
  "mem_0filled buf = (case find (\<lambda>b. b \<noteq> 0) buf of None \<Rightarrow> 0 | Some b \<Rightarrow> sint b)"

fun iov_0filled_loop :: "iovec list \<Rightarrow> nat \<Rightarrow> int option" where
  "iov_0filled_loop vector 0 = Some 0"
| "iov_0filled_loop [] (Suc n) = None"
| "iov_0filled_loop (v # vector) (Suc n) =
     (case iov_bytes v of
        None \<Rightarrow> None
      | Some bs \<Rightarrow> if mem_0filled bs \<noteq> 0 then Some (mem_0filled bs) else iov_0filled_loop vector n)"

definition iov_0filled :: "iovec list \<Rightarrow> int \<Rightarrow> int option" where
  "iov_0filled vector count = iov_0filled_loop vector (nat count)"

section \<open>Correctness\<close>

text \<open>Scatter lists whose blocks hold the bytes they announce.\<close>

definition iov_ok :: "iovec \<Rightarrow> bool" where
  "iov_ok v \<longleftrightarrow> iov_bytes v \<noteq> None"

lemma iov_ok_bytes: "iov_ok v \<Longrightarrow> iov_bytes v = Some (gather [v]) \<and> length (gather [v]) = iov_len v"
  by (auto simp: iov_ok_def iov_bytes_def Let_def split: option.splits if_splits)

lemma gather_Cons: "gather (v # vs) = gather [v] @ gather vs" by simp

text \<open>The element of a subset is the part of the block between the two offsets.\<close>

lemma gather_moved:
  assumes "iov_ok v" and "a \<le> b" and "b \<le> iov_len v"
  shows "gather [\<lparr>iov_base = ptr_move (iov_base v) a, iov_len = b - a\<rparr>] = take (b - a) (drop a (gather [v]))"
  using assms by (cases "iov_base v") (auto simp: ptr_move_def drop_take iov_ok_def iov_bytes_def Let_def min_def)

lemma iov_subset_loop_gather:
  assumes "\<forall>v \<in> set orig. iov_ok v" and "src \<le> dst"
  shows "\<exists>cnt new'. iov_subset_loop orig (length orig) src dst off True (length new) new = Some (cnt, new')
    \<and> cnt = length new' \<and> gather new' = gather new @ take (dst - max src off) (drop (src - off) (gather orig))"
  using assms
proof (induction orig arbitrary: off new)
  case (Cons v orig)
  let ?n = "iov_len v" let ?g = "gather [v]"
  have v: "iov_ok v" "length ?g = ?n" using Cons.prems(1) iov_ok_bytes by auto
  have rest: "\<forall>v \<in> set orig. iov_ok v" using Cons.prems(1) by simp
  note IH = Cons.IH [OF rest Cons.prems(2)]
  have split: "take (dst - max src off) (drop (src - off) (gather (v # orig)))
      = take (dst - max src off) (drop (src - off) ?g)
        @ take (dst - max src (off + ?n)) (drop (src - (off + ?n)) (gather orig))"
    unfolding gather_Cons [of v orig] using v(2) by (auto simp: max_def)
  show ?case
  proof (cases "off + ?n < src \<or> dst < off")
    case True
    then have "take (dst - max src off) (drop (src - off) ?g) = []" using v(2) by auto
    then show ?thesis using IH [of "off + ?n" new] True split by auto
  next
    case False
    let ?a = "if off \<le> src then src - off else 0"
    let ?b = "if dst \<le> off + ?n then dst - off else ?n"
    let ?v = "\<lparr>iov_base = ptr_move (iov_base v) ?a, iov_len = ?b - ?a\<rparr>"
    have ab: "?a \<le> ?b" "?b \<le> ?n" using False Cons.prems(2) by auto
    have "gather [?v] = take (?b - ?a) (drop ?a ?g)" by (rule gather_moved [OF v(1) ab])
    also have "\<dots> = take (dst - max src off) (drop (src - off) ?g)"
      using False v(2) Cons.prems(2) by (auto simp: max_def)
    finally have g: "gather [?v] = take (dst - max src off) (drop (src - off) ?g)" .
    obtain cnt new' where r: "iov_subset_loop orig (length orig) src dst (off + ?n) True (length (new @ [?v])) (new @ [?v])
        = Some (cnt, new')" "cnt = length new'"
        "gather new' = gather (new @ [?v]) @ take (dst - max src (off + ?n)) (drop (src - (off + ?n)) (gather orig))"
      using IH [of "off + ?n" "new @ [?v]"] by blast
    have "iov_subset_loop (v # orig) (length (v # orig)) src dst off True (length new) new = Some (cnt, new')"
      using r(1) False by (simp add: Let_def)
    moreover have "gather new' = gather new @ take (dst - max src off) (drop (src - off) (gather (v # orig)))"
      unfolding r(3) split gather_simps(2) g by simp
    ultimately show ?thesis using r(2) by blast
  qed
qed simp

lemma iov_unload_loop_gather:
  assumes "\<forall>v \<in> set vec. iov_ok v" and "length (gather vec) \<le> length rest"
  shows "iov_unload_loop (pre @ rest) vec (length vec) (length pre) = Some (pre @ gather vec @ drop (length (gather vec)) rest)"
  using assms
proof (induction vec arbitrary: pre rest)
  case (Cons v vec)
  let ?g = "gather [v]"
  have v: "iov_bytes v = Some ?g" "length ?g = iov_len v" using Cons.prems(1) iov_ok_bytes by auto
  have len: "length ?g + length (gather vec) \<le> length rest" using Cons.prems(2) unfolding gather_Cons [of v vec] by simp
  have "iov_unload_loop ((pre @ ?g) @ drop (length ?g) rest) vec (length vec) (length (pre @ ?g))
      = Some ((pre @ ?g) @ gather vec @ drop (length (gather vec)) (drop (length ?g) rest))"
    by (rule Cons.IH) (use Cons.prems(1) len in simp_all)
  moreover have "buf_write (pre @ rest) (length pre) ?g = Some (pre @ ?g @ drop (length ?g) rest)"
    by (rule buf_write_at) (use len in simp_all)
  ultimately show ?case using v unfolding gather_Cons [of v vec]
    by (simp add: add.commute del: gather_simps(3))
qed simp

section \<open>Properties\<close>

text \<open>
  \<open>iov_subset\<close> selects a byte range: for offsets \<open>src \<le> dst\<close> the new scatter list describes exactly the bytes \<open>src\<close> to \<open>dst\<close> of
  the original one (as far as it reaches), without copying them, and the count returned is its
  length; unloading a scatter list into a large enough buffer writes exactly the bytes it describes.
\<close>

theorem iov_subset_range:
  assumes "\<forall>v \<in> set orig. iov_ok v" and "src \<le> dst" and "length (gather orig) \<le> length buf"
  shows "(\<exists>new. iov_subset orig (int (length orig)) src dst True = Some (length new, new)
      \<and> gather new = take (dst - src) (drop src (gather orig)))
    \<and> iov_unload buf orig (int (length orig)) = Some (gather orig @ drop (length (gather orig)) buf)"
  using iov_subset_loop_gather [OF assms(1,2), of 0 "[]"] iov_unload_loop_gather [OF assms(1,3), of "[]"]
  by (auto simp: iov_subset_def iov_unload_def)

definition demo_block :: "nat \<Rightarrow> u8 list \<Rightarrow> iovec" where
  "demo_block a bs = \<lparr>iov_base = Some \<lparr>ptr_addr = a, ptr_bytes = bs\<rparr>, iov_len = length bs\<rparr>"

theorem iov_subset_range_witness:
  "\<exists>new. iov_subset [demo_block 10 [1, 2, 3], demo_block 20 [4, 5, 6, 7]] 2 1 5 True = Some (length new, new)
     \<and> gather new = [2, 3, 4, 5]"
proof -
  let ?o = "[demo_block 10 [1, 2, 3], demo_block 20 [4, 5, 6, 7]]"
  have "\<forall>v \<in> set ?o. iov_ok v" by (simp add: demo_block_def iov_ok_def iov_bytes_def)
  moreover have "gather ?o = [1, 2, 3, 4, 5, 6, 7]" by (simp add: demo_block_def)
  ultimately show ?thesis using iov_subset_range [of ?o 1 5 "replicate 7 0"] by (simp add: numeral_eq_Suc)
qed

end
