(* ===== verification/Lz_Socket.thy ===== *)
theory Lz_Socket
  imports Lz_Sock_Io Lz_Iovec Lz_Iobuf Lz_Event
begin

text \<open>
  \<^verbatim>\<open>src/src/socket.c\<close>, \<^verbatim>\<open>src/src/socket.h\<close>: the connection of one transport.  The state is the private record of the transport with
  its queue of outgoing messages and the message being received, the kernel side of the connection and the
  memory (theory \<open>Lz_Sock_Io\<close>), the store of the buffer pool, the event registry, and the descriptors closed and blocks freed.
  The queue is the sequence of its entries, which is what the operations of \<^verbatim>\<open>list.h\<close> implement (theory \<open>Lz_List\<close>).
  The results of allocations and system calls are the arguments \<open>env\<close>; \<open>None\<close> is undefined behaviour, a failed assertion
  or a call that has not returned because the schedule of the kernel is used up.  Functions run under the mutex of the
  transport and are one step.

  The theorems: whatever the kernel does, the bytes sent and the bytes still queued are the submitted messages in order, each
  with its header; the receiver's state machine consumes exactly one message of the stream and leaves its two parts in
  the header block and the I/O buffer; a message sent by one end is the message the other end receives.
\<close>

section \<open>State\<close>

datatype proto_state =
    Proto_Nada | Proto_Header_Coming | Proto_Header_Came | Proto_Data_Coming | Proto_Data_Came | Proto_Complete

text \<open>
  The vector of the incoming record is only used through \<^verbatim>\<open>pending_vector\<close>, the part of it that is left.  An entry of
  the queue is known by its address, at which its list links are; its header follows them.
\<close>

record incoming =
  in_state :: proto_state
  in_hdr_p :: addr
  in_hdrlen :: nat
  in_iobuf :: addr
  in_buf_p :: addr
  in_buflen :: nat
  in_count :: int
  in_pending_vector :: "siov list"
  in_pending_count :: int

record ioq =
  q_entry :: addr
  q_count :: int
  q_pending_vector :: "siov list"
  q_pending_count :: int
  q_buf :: addr
  q_iobref :: addr

record socket_private =
  sp_sock :: int
  sp_idx :: int
  sp_connected :: u8
  sp_bio :: bool
  sp_connect_finish_log :: bool
  sp_submit_log :: bool
  sp_ioq :: "ioq list"
  sp_incoming :: incoming
  sp_header :: addr
  sp_windowsize :: int
  sp_lowlat :: bool
  sp_nodelay :: bool

datatype sock_handler = Socket_Event_Handler | Socket_Server_Event_Handler

record sock =
  sk_io :: sock_io
  sk_sched :: "io_step list"
  sk_priv :: socket_private
  sk_iobs :: iob_store
  sk_iobuf_pool :: addr
  sk_events :: "(sock_handler, addr) event_pool option"
  sk_bo :: byte_order
  sk_refcount :: int
  sk_closed :: "int list"
  sk_freed :: "addr list"
  sk_alive :: bool

text \<open>
  The environment of a call: the endianness, the results of \<^verbatim>\<open>MALLOC\<close> and \<^verbatim>\<open>CALLOC\<close> (0 for failure), the allocations of the
  buffer pool, whether \<^verbatim>\<open>epoll_ctl\<close> succeeds, and the results of \<^verbatim>\<open>shutdown\<close>, \<^verbatim>\<open>getsockopt\<close> (return value and
  option value) and \<^verbatim>\<open>getsockname\<close>.
\<close>

record sock_env =
  e_little :: bool
  e_malloc :: addr
  e_calloc :: addr
  e_arena :: arena_allocs
  e_ctl :: bool
  e_ctl2 :: bool
  e_shutdown :: int
  e_getsockopt :: "int \<times> int"
  e_getsockname :: int

abbreviation (input) ENOMEM :: int where "ENOMEM \<equiv> 12"
abbreviation (input) EINPROGRESS :: int where "EINPROGRESS \<equiv> 115"

definition upd_priv :: "(socket_private \<Rightarrow> socket_private) \<Rightarrow> sock \<Rightarrow> sock" where
  "upd_priv f s = s\<lparr>sk_priv := f (sk_priv s)\<rparr>"

definition upd_in :: "(incoming \<Rightarrow> incoming) \<Rightarrow> sock \<Rightarrow> sock" where
  "upd_in f = upd_priv (\<lambda>p. p\<lparr>sp_incoming := f (sp_incoming p)\<rparr>)"

definition zero_incoming :: incoming where
  "zero_incoming = \<lparr>in_state = Proto_Nada, in_hdr_p = 0, in_hdrlen = 0, in_iobuf = 0, in_buf_p = 0, in_buflen = 0,
                    in_count = 0, in_pending_vector = [], in_pending_count = 0\<rparr>"

section \<open>Disconnecting\<close>

definition socket_disconnect_locked :: "sock_env \<Rightarrow> sock \<Rightarrow> sock \<times> int" where
  "socket_disconnect_locked env s =
     (if sp_sock (sk_priv s) \<noteq> -1 then (upd_priv (\<lambda>p. p\<lparr>sp_connected := -1\<rparr>) s, e_shutdown env) else (s, -1))"

definition socket_disconnect :: "sock_env \<Rightarrow> sock \<Rightarrow> sock \<times> int" where
  "socket_disconnect env s = socket_disconnect_locked env s"

definition socket_reset :: "sock_env \<Rightarrow> sock \<Rightarrow> sock option" where
  "socket_reset env s =
     do {
       let inc = sp_incoming (sk_priv s);
       let s1 = (if in_hdr_p inc \<noteq> 0 then s\<lparr>sk_freed := in_hdr_p inc # sk_freed s\<rparr> else s);
       iobs \<leftarrow> (if in_iobuf inc \<noteq> 0 then iobuf_unref (in_iobuf inc) (sk_iobs s1) else Some (sk_iobs s1));
       let s2 = upd_in (\<lambda>_. zero_incoming) (s1\<lparr>sk_iobs := iobs\<rparr>);
       (ev, _) \<leftarrow> event_unregister (e_ctl env) (e_ctl2 env) (sk_events s2) (sp_sock (sk_priv s2)) (sp_idx (sk_priv s2));
       Some (upd_priv (\<lambda>p. p\<lparr>sp_sock := -1, sp_idx := -1, sp_connected := -1\<rparr>)
               (s2\<lparr>sk_events := ev, sk_closed := sp_sock (sk_priv s2) # sk_closed s2\<rparr>))
     }"

section \<open>The queue of outgoing messages\<close>

text \<open>The header of a message, as the bytes of the packed structure \<^verbatim>\<open>socket_header\<close>.\<close>

definition header_bytes :: "bool \<Rightarrow> byte_order \<Rightarrow> int \<Rightarrow> int \<Rightarrow> byte_order \<times> u8 list" where
  "header_bytes little bo len size2 =
     (let (bo1, w1) = hton32 little bo (word_of_int len);
          (bo2, w2) = hton32 little bo1 (word_of_int size2)
      in (bo2, [58, 79, 0] @ mem_bytes32 little w1 @ mem_bytes32 little w2 @ [42]))"

definition header_offset :: nat where "header_offset = 16"

definition sv_iovec :: "siov \<Rightarrow> iovec" where
  "sv_iovec v = \<lparr>iov_base = Some \<lparr>ptr_addr = sv_base v, ptr_bytes = []\<rparr>, iov_len = sv_len v\<rparr>"

definition socket_ioq_new ::
  "sock_env \<Rightarrow> addr \<Rightarrow> int \<Rightarrow> siov list \<Rightarrow> int \<Rightarrow> addr \<Rightarrow> sock \<Rightarrow> (sock \<times> ioq option) option" where
  "socket_ioq_new env buf len vector count iobref s =
     (if e_calloc env = 0 then Some (s, None)
      else if count > 14 \<or> count < 0 \<or> len < 0 then None
      else do {
        let entry = e_calloc env;
        size2 \<leftarrow> iov_length (map sv_iovec vector) count;
        let (bo, hdr) = header_bytes (e_little env) (sk_bo s) len size2;
        let at = [entry + header_offset ..< entry + header_offset + length hdr];
        let io = sk_io s;
        let vs = \<lparr>sv_base = entry + header_offset, sv_len = length hdr\<rparr> # \<lparr>sv_base = buf, sv_len = nat len\<rparr> # take (nat count) vector;
        (iobs, ref) \<leftarrow> (if iobref \<noteq> 0 then iobref_ref iobref (sk_iobs s) else Some (sk_iobs s, 0));
        Some (s\<lparr>sk_io := io\<lparr>io_mem := (io_mem io)(at [\<mapsto>] hdr)\<rparr>, sk_bo := bo, sk_iobs := iobs\<rparr>,
              Some \<lparr>q_entry = entry, q_count = 2 + count, q_pending_vector = vs, q_pending_count = 2 + count,
                    q_buf = buf, q_iobref = ref\<rparr>)
      })"

definition socket_ioq_entry_free :: "ioq \<Rightarrow> sock \<Rightarrow> sock option" where
  "socket_ioq_entry_free entry s =
     do {
       let s1 = upd_priv (\<lambda>p. p\<lparr>sp_ioq := filter (\<lambda>q. q_entry q \<noteq> q_entry entry) (sp_ioq p)\<rparr>) s;
       iobs \<leftarrow> (if q_iobref entry \<noteq> 0 then iobref_unref (q_iobref entry) (sk_iobs s1) else Some (sk_iobs s1));
       Some (s1\<lparr>sk_iobs := iobs, sk_freed := q_entry entry # q_buf entry # sk_freed s1\<rparr>)
     }"

fun ioq_flush_loop :: "nat \<Rightarrow> sock \<Rightarrow> sock option" where
  "ioq_flush_loop 0 s = (if sp_ioq (sk_priv s) = [] then Some s else None)"
| "ioq_flush_loop (Suc n) s =
     (case sp_ioq (sk_priv s) of
        [] \<Rightarrow> Some s
      | entry # _ \<Rightarrow> do { s1 \<leftarrow> socket_ioq_entry_free entry s; ioq_flush_loop n s1 })"

definition socket_ioq_flush :: "sock \<Rightarrow> sock option" where
  "socket_ioq_flush s = ioq_flush_loop (length (sp_ioq (sk_priv s))) s"

text \<open>The entry is updated in the queue when it is there.  The result has the entry with what is left of it.\<close>

definition socket_ioq_churn_entry :: "ioq \<Rightarrow> sock \<Rightarrow> (sock \<times> ioq \<times> int) option" where
  "socket_ioq_churn_entry entry s =
     do {
       (vs, n, ss, io) \<leftarrow> socket_writev (sk_sched s) (q_pending_vector entry) (q_pending_count entry) (sk_io s);
       let entry1 = entry\<lparr>q_pending_vector := vs, q_pending_count := n\<rparr>;
       let s1 = upd_priv (\<lambda>p. p\<lparr>sp_ioq := map (\<lambda>q. if q_entry q = q_entry entry then entry1 else q) (sp_ioq p)\<rparr>)
                  (s\<lparr>sk_io := io, sk_sched := ss\<rparr>);
       if n = 0 then map_option (\<lambda>s2. (s2, entry1, 0)) (socket_ioq_entry_free entry1 s1)
       else Some (s1, entry1, n)
     }"

fun ioq_churn_loop :: "nat \<Rightarrow> int \<Rightarrow> sock \<Rightarrow> (sock \<times> int) option" where
  "ioq_churn_loop 0 ret s = (if sp_ioq (sk_priv s) = [] then Some (s, ret) else None)"
| "ioq_churn_loop (Suc n) ret s =
     (case sp_ioq (sk_priv s) of
        [] \<Rightarrow> Some (s, ret)
      | entry # _ \<Rightarrow>
          do {
            (s1, _, ret1) \<leftarrow> socket_ioq_churn_entry entry s;
            if ret1 \<noteq> 0 then Some (s1, ret1) else ioq_churn_loop n ret1 s1
          })"

definition select_out :: "sock_env \<Rightarrow> int \<Rightarrow> sock \<Rightarrow> sock option" where
  "select_out env poll_out s =
     do {
       (ev, idx) \<leftarrow> event_select_on (e_ctl env) (sk_events s) (sp_sock (sk_priv s)) (sp_idx (sk_priv s)) (-1) poll_out;
       Some (upd_priv (\<lambda>p. p\<lparr>sp_idx := idx\<rparr>) (s\<lparr>sk_events := ev\<rparr>))
     }"

definition socket_ioq_churn :: "sock_env \<Rightarrow> sock \<Rightarrow> (sock \<times> int) option" where
  "socket_ioq_churn env s =
     do {
       (s1, ret) \<leftarrow> ioq_churn_loop (length (sp_ioq (sk_priv s))) 0 s;
       if sp_ioq (sk_priv s1) = [] then map_option (\<lambda>s2. (s2, ret)) (select_out env 0 s1) else Some (s1, ret)
     }"

definition socket_event_poll_err :: "sock_env \<Rightarrow> sock \<Rightarrow> (sock \<times> int) option" where
  "socket_event_poll_err env s =
     do {
       s1 \<leftarrow> socket_ioq_flush s;
       s2 \<leftarrow> socket_reset env s1;
       Some (s2, -1)
     }"

definition socket_event_poll_out :: "sock_env \<Rightarrow> sock \<Rightarrow> (sock \<times> int) option" where
  "socket_event_poll_out env s =
     (if sp_connected (sk_priv s) = 1
      then do {
        (s1, ret) \<leftarrow> socket_ioq_churn env s;
        Some (if ret = -1 then fst (socket_disconnect_locked env s1) else s1, ret)
      }
      else Some (s, -1))"

text \<open>
  \<open>socket_submit\<close>: the message is written at once when nothing is queued, and appended to the queue when it
  was not written completely; an error of the write is left for the next attempt.
\<close>

definition socket_submit ::
  "sock_env \<Rightarrow> addr \<Rightarrow> int \<Rightarrow> siov list \<Rightarrow> int \<Rightarrow> addr \<Rightarrow> sock \<Rightarrow> (sock \<times> int) option" where
  "socket_submit env buf len vector count iobref s =
     (if sp_connected (sk_priv s) \<noteq> 1
      then Some (if \<not> sp_submit_log (sk_priv s) \<and> \<not> sp_connect_finish_log (sk_priv s)
                 then upd_priv (\<lambda>p. p\<lparr>sp_submit_log := True\<rparr>) s else s, -1)
      else do {
        let s0 = upd_priv (\<lambda>p. p\<lparr>sp_submit_log := False\<rparr>) s;
        (s1, e) \<leftarrow> socket_ioq_new env buf len vector count iobref s0;
        (case e of
           None \<Rightarrow> Some (s1, -1)
         | Some entry \<Rightarrow>
             do {
               (s2, entry1, ret) \<leftarrow> (if sp_ioq (sk_priv s1) = [] then socket_ioq_churn_entry entry s1 else Some (s1, entry, -1));
               let written = (sp_ioq (sk_priv s1) = [] \<and> ret = 0);
               let s3 = (if written then s2 else upd_priv (\<lambda>p. p\<lparr>sp_ioq := sp_ioq p @ [entry1]\<rparr>) s2);
               s4 \<leftarrow> (if sp_ioq (sk_priv s1) = [] \<and> ret > 0 then select_out env 1 s3 else Some s3);
               Some (s4, 0)
             })
      })"

section \<open>Receiving\<close>

text \<open>
  The signature is compared as a C string, the version is a character, the sizes are in network order.
  The result is the return value and the two sizes.
\<close>

definition socket_proto_validate_header :: "bool \<Rightarrow> byte_order \<Rightarrow> u8 list \<Rightarrow> byte_order \<times> int \<times> nat \<times> nat" where
  "socket_proto_validate_header little bo hdr =
     (if take 3 hdr \<noteq> [58, 79, 0] then (bo, -1, 0, 0)
      else if hdr ! 11 \<noteq> 42 then (bo, -1, 0, 0)
      else
        let word = (\<lambda>off. let bs = take 4 (drop off hdr) in of_le_bytes32 (if little then bs else rev bs));
            (bo1, size1) = hton32 little bo (word 3);
            (bo2, size2) = hton32 little bo1 (word 7)
        in if unat size1 = 0 \<or> unat size1 > 1048576 then (bo2, -1, 0, 0)
           else if unat size2 > 131072 then (bo2, -1, 0, 0)
           else (bo2, 0, unat size1, unat size2))"

text \<open>Fresh memory from \<^verbatim>\<open>MALLOC\<close>; its contents are arbitrary, here 0.\<close>

definition mem_alloc :: "addr \<Rightarrow> nat \<Rightarrow> byte_mem \<Rightarrow> byte_mem" where
  "mem_alloc a n m = (if a = 0 then m else m([a ..< a + n] [\<mapsto>] replicate n 0))"

text \<open>\<^verbatim>\<open>__socket_readv\<close> on the pending vector; the return value is also the number of elements left.\<close>

definition socket_read_pending :: "int \<Rightarrow> sock \<Rightarrow> (sock \<times> int) option" where
  "socket_read_pending count s =
     do {
       (vs, n, ss, io) \<leftarrow> socket_readv (sk_sched s) (in_pending_vector (sp_incoming (sk_priv s))) count (sk_io s);
       Some (upd_in (\<lambda>i. i\<lparr>in_pending_vector := vs\<rparr>) (s\<lparr>sk_io := io, sk_sched := ss\<rparr>), n)
     }"

text \<open>
  The case \<^verbatim>\<open>SOCKET_PROTO_STATE_HEADER_CAME\<close>.  The result has the return value and whether the function is left.
  Of the two elements of the vector only the first \<^verbatim>\<open>count\<close> are used.
\<close>

definition proto_header_came :: "sock_env \<Rightarrow> sock \<Rightarrow> (sock \<times> int \<times> bool) option" where
  "proto_header_came env s =
     do {
       hdr \<leftarrow> mem_load (io_mem (sk_io s)) (sp_header (sk_priv s)) 12;
       let (bo, ret, size1, size2) = socket_proto_validate_header (e_little env) (sk_bo s) hdr;
       let s0 = s\<lparr>sk_bo := bo\<rparr>;
       if ret = -1 then Some (s0, -1, True)
       else do {
         let io = sk_io s0;
         let s1 = upd_in (\<lambda>i. i\<lparr>in_hdrlen := size1, in_buflen := size2, in_hdr_p := e_malloc env\<rparr>)
                    (s0\<lparr>sk_io := io\<lparr>io_mem := mem_alloc (e_malloc env) size1 (io_mem io)\<rparr>\<rparr>);
         (s2, ok) \<leftarrow> (if size2 \<noteq> 0
              then do {
                (iobs, iobuf) \<leftarrow> iobuf_get (e_arena env) (sk_iobuf_pool s1) (sk_iobs s1);
                if iobuf = 0 then Some (s1\<lparr>sk_iobs := iobs\<rparr>, False)
                else do {
                  b \<leftarrow> bufs iobs iobuf;
                  Some (upd_in (\<lambda>i. i\<lparr>in_iobuf := iobuf, in_buf_p := buf_ptr b\<rparr>) (s1\<lparr>sk_iobs := iobs\<rparr>), True)
                }
              }
              else Some (s1, True));
         if \<not> ok then Some (s2, - ENOMEM, True)
         else
           let inc = sp_incoming (sk_priv s2);
               count = (if size2 \<noteq> 0 then 2 else 1)
           in Some (upd_in (\<lambda>i. i\<lparr>in_count := count,
                                  in_pending_vector := take (nat count) [\<lparr>sv_base = in_hdr_p inc, sv_len = size1\<rparr>, \<lparr>sv_base = in_buf_p inc, sv_len = size2\<rparr>],
                                  in_pending_count := count, in_state := Proto_Data_Coming\<rparr>) s2, ret, False)
       }
     }"

text \<open>One turn of the loop: the return value so far and whether the function is left.\<close>

definition proto_turn :: "sock_env \<Rightarrow> int \<Rightarrow> sock \<Rightarrow> (sock \<times> int \<times> bool) option" where
  "proto_turn env ret s =
     (case in_state (sp_incoming (sk_priv s)) of
        Proto_Nada \<Rightarrow>
          Some (upd_in (\<lambda>i. i\<lparr>in_pending_vector := [\<lparr>sv_base = sp_header (sk_priv s), sv_len = 12\<rparr>],
                              in_state := Proto_Header_Coming\<rparr>) s, ret, False)
      | Proto_Header_Coming \<Rightarrow>
          do {
            (s1, ret1) \<leftarrow> socket_read_pending 1 s;
            if ret1 = 0 then Some (upd_in (\<lambda>i. i\<lparr>in_state := Proto_Header_Came\<rparr>) s1, ret1, False)
            else Some (s1, ret1, True)
          }
      | Proto_Header_Came \<Rightarrow> proto_header_came env s
      | Proto_Data_Coming \<Rightarrow>
          do {
            (s1, ret1) \<leftarrow> socket_read_pending (in_pending_count (sp_incoming (sk_priv s))) s;
            let s2 = upd_in (\<lambda>i. i\<lparr>in_pending_count := ret1\<rparr>) s1;
            if ret1 = 0 then Some (upd_in (\<lambda>i. i\<lparr>in_state := Proto_Data_Came\<rparr>) s2, ret1, False)
            else Some (s2, ret1, True)
          }
      | Proto_Data_Came \<Rightarrow>
          Some (upd_in (\<lambda>i. i\<lparr>in_pending_vector := [], in_pending_count := 0, in_state := Proto_Complete\<rparr>) s, ret, False)
      | Proto_Complete \<Rightarrow> Some (s, ret, False))"

text \<open>
  The loop with its check against a state that did not change.  Six turns are enough, as the state only
  moves forward.
\<close>

fun proto_loop :: "nat \<Rightarrow> sock_env \<Rightarrow> proto_state option \<Rightarrow> int \<Rightarrow> sock \<Rightarrow> (sock \<times> int) option" where
  "proto_loop 0 env previous ret s = None"
| "proto_loop (Suc n) env previous ret s =
     (let state = in_state (sp_incoming (sk_priv s))
      in if state = Proto_Complete then Some (s, ret)
         else if previous = Some state then Some (s, -1)
         else do {
           (s1, ret1, left) \<leftarrow> proto_turn env ret s;
           if left then Some (s1, ret1) else proto_loop n env (Some state) ret1 s1
         })"

definition socket_proto_state_machine :: "sock_env \<Rightarrow> sock \<Rightarrow> (sock \<times> int) option" where
  "socket_proto_state_machine env s = proto_loop 6 env None (-1) s"

definition socket_event_poll_in :: "sock_env \<Rightarrow> sock \<Rightarrow> (sock \<times> int) option" where
  "socket_event_poll_in env s = socket_proto_state_machine env s"

text \<open>\<open>ptrs\<close>: none of the three result pointers is null.  The result has the values stored through them.\<close>

definition socket_receive :: "bool \<Rightarrow> sock \<Rightarrow> sock \<times> int \<times> (addr \<times> nat \<times> addr) option" where
  "socket_receive ptrs s =
     (if sp_connected (sk_priv s) \<noteq> 1 then (s, -1, None)
      else if \<not> ptrs then (s, -1, None)
      else
        let inc = sp_incoming (sk_priv s)
        in if in_state inc = Proto_Complete
           then (upd_in (\<lambda>_. zero_incoming) s, 0, Some (in_hdr_p inc, in_hdrlen inc, in_iobuf inc))
           else (s, -1, None))"

section \<open>Reference counts and the event handler\<close>

definition transport_ref :: "sock \<Rightarrow> sock" where
  "transport_ref s = s\<lparr>sk_refcount := sk_refcount s + 1\<rparr>"

text \<open>\<open>transport_destroy\<close> calls \<open>socket_fini\<close>, which frees the private record, and frees the transport.\<close>

definition transport_destroy :: "sock \<Rightarrow> sock \<times> int" where
  "transport_destroy s = (s\<lparr>sk_alive := False\<rparr>, -1)"

definition transport_unref :: "sock \<Rightarrow> sock \<times> int" where
  "transport_unref s =
     (let s1 = s\<lparr>sk_refcount := sk_refcount s - 1\<rparr>
      in (if sk_refcount s1 = 0 then fst (transport_destroy s1) else s1, 0))"

text \<open>The return value and \<^verbatim>\<open>errno\<close>.\<close>

definition socket_connect_finish_fd :: "sock_env \<Rightarrow> int \<times> int" where
  "socket_connect_finish_fd env =
     (case e_getsockopt env of (ret, optval) \<Rightarrow> if ret = 0 \<and> optval \<noteq> 0 then (-1, optval) else (ret, 0))"

definition socket_connect_finish :: "sock_env \<Rightarrow> sock \<Rightarrow> sock \<times> int" where
  "socket_connect_finish env s =
     (if sp_connected (sk_priv s) \<noteq> 0 then (s, 0)
      else
        let (ret0, errno) = socket_connect_finish_fd env;
            ret = (if ret0 = -1 \<and> errno = EINPROGRESS then 1 else ret0)
        in if ret = -1 \<and> errno \<noteq> EINPROGRESS
           then (fst (socket_disconnect_locked env (upd_priv (\<lambda>p. p\<lparr>sp_connect_finish_log := True\<rparr>) s)), 0)
           else if ret = 0
           then (if e_getsockname env = -1 then (fst (socket_disconnect_locked env s), 0)
                 else (upd_priv (\<lambda>p. p\<lparr>sp_connected := 1, sp_connect_finish_log := False\<rparr>) s, 0))
           else (s, 0))"

definition socket_event_handler :: "sock_env \<Rightarrow> int \<Rightarrow> u32 \<Rightarrow> u32 \<Rightarrow> u32 \<Rightarrow> sock \<Rightarrow> sock option" where
  "socket_event_handler env idx poll_in poll_out poll_err s =
     do {
       let s1 = upd_priv (\<lambda>p. p\<lparr>sp_idx := idx\<rparr>) s;
       let (s2, ret2) = (if sp_connected (sk_priv s1) = 0 then socket_connect_finish env s1 else (s1, 0));
       (s3, ret3) \<leftarrow> (if ret2 = 0 \<and> poll_out \<noteq> 0 then socket_event_poll_out env s2 else Some (s2, ret2));
       (s4, ret4) \<leftarrow> (if ret3 = 0 \<and> poll_in \<noteq> 0 then socket_event_poll_in env s3 else Some (s3, ret3));
       if ret4 < 0 \<or> poll_err \<noteq> 0
       then do {
         (s5, _) \<leftarrow> socket_event_poll_err env s4;
         Some (fst (transport_unref s5))
       }
       else Some s4
     }"

section \<open>Messages on the wire\<close>

text \<open>A message with the header block \<open>h\<close> and the data \<open>d\<close>.\<close>

definition wire_frame :: "u8 list \<Rightarrow> u8 list \<Rightarrow> u8 list" where
  "wire_frame h d = [58, 79, 0] @ be_bytes32 (of_nat (length h)) @ be_bytes32 (of_nat (length d)) @ [42] @ h @ d"

lemma header_bytes_eq:
  assumes "byte_order_ok little bo"
  shows "\<exists>bo'. header_bytes little bo len size2
      = (bo', [58, 79, 0] @ be_bytes32 (word_of_int len) @ be_bytes32 (word_of_int size2) @ [42]) \<and> byte_order_ok little bo'"
proof -
  obtain bo1 w1 where h1: "hton32 little bo (word_of_int len) = (bo1, w1)" by fastforce
  obtain bo2 w2 where h2: "hton32 little bo1 (word_of_int size2) = (bo2, w2)" by fastforce
  have ok1: "byte_order_ok little bo1" using hton_step_ok [OF assms, of "Call32 (word_of_int len)"] h1 by (simp del: hton32.simps)
  have ok2: "byte_order_ok little bo2" using hton_step_ok [OF ok1, of "Call32 (word_of_int size2)"] h2 by (simp del: hton32.simps)
  have "mem_bytes32 little w1 = be_bytes32 (word_of_int len)" "mem_bytes32 little w2 = be_bytes32 (word_of_int size2)"
    using hton_ok_result(2) [OF assms, of "word_of_int len"] h1 hton_ok_result(2) [OF ok1, of "word_of_int size2"] h2
    by (simp_all add: mem_bytes32_def del: hton32.simps)
  then show ?thesis using h1 h2 ok2 by (simp add: header_bytes_def del: hton32.simps)
qed

lemma iov_length_loop_total:
  "n \<le> length vs \<Longrightarrow> iov_length_loop (map sv_iovec vs) n acc = Some (acc + of_nat (sv_total (take n vs)))"
  by (induction vs arbitrary: n acc) (auto simp: sv_iovec_def take_Cons' gr0_conv_Suc Suc_le_eq less_Suc_eq_le split: nat.splits)

lemma iov_length_total:
  assumes "nat count \<le> length vs" and "sv_total (take (nat count) vs) < 2 ^ 31"
  shows "iov_length (map sv_iovec vs) count = Some (int (sv_total (take (nat count) vs)))"
proof -
  have "uint (of_nat (sv_total (take (nat count) vs)) :: u64) = int (sv_total (take (nat count) vs))"
    using assms(2) by (simp add: unsigned_of_nat take_bit_nat_eq_self flip: of_nat_take_bit)
  moreover have "int32 (int n) = int n" if "n < 2 ^ 31" for n
    using that by (simp add: int32_def signed_take_bit_int_eq_self)
  ultimately show ?thesis using assms by (simp add: iov_length_def iov_length_loop_total)
qed

section \<open>The sending side\<close>

text \<open>An entry of the queue with the bytes \<open>bs\<close> still to be sent.  After a failed write the count is -1.\<close>

definition entry_ok :: "byte_mem \<Rightarrow> ioq \<Rightarrow> u8 list \<Rightarrow> bool" where
  "entry_ok m q bs \<longleftrightarrow> holds m (sv_addrs (q_pending_vector q)) bs \<and> 0 \<notin> set (sv_addrs (q_pending_vector q)) \<and> bs \<noteq> []
     \<and> (q_pending_count q = int (length (q_pending_vector q)) \<or> q_pending_count q = -1)"

text \<open>Every queued reference is counted, besides the one of the caller.\<close>

definition bref_ok :: "iob_store \<Rightarrow> addr list \<Rightarrow> bool" where
  "bref_ok iobs rs \<longleftrightarrow>
     (\<forall>r \<in> set rs. r \<noteq> 0 \<longrightarrow> (\<exists>b. brefs iobs r = Some b \<and> int (count_list rs r) < iobref_refs b))"

lemma rwv_returns:
  "Io_Again \<in> set ss \<Longrightarrow> holds (io_mem io) (sv_addrs vs) bs \<Longrightarrow> 0 \<notin> set (sv_addrs vs) \<Longrightarrow> n = int (length vs) \<Longrightarrow>
     vs = [] \<longleftrightarrow> bs = [] \<Longrightarrow>
     \<exists>vs' n' ss' io'. socket_rwv True ss vs n io = Some (vs', n', ss', io') \<and> (n' = 0 \<longrightarrow> Io_Again \<in> set ss')"
proof (induction ss arbitrary: vs n io bs)
  case (Cons s ss)
  note len = holds_length [OF Cons.prems(2)]
  have nz: "\<not> n < 0" "\<not> length vs < nat n" "take (nat n) vs = vs" "\<not> null_first vs"
    using Cons.prems(3,4) by (simp_all add: null_first_addrs)
  show ?case
  proof (cases "n = 0")
    case False
    show ?thesis
    proof (cases s)
      case (Io_Move k)
      define k1 where "k1 = min k (length bs)"
      let ?io = "io\<lparr>io_tx := io_tx io @ take k1 bs\<rparr>"
      have w: "sys_writev s vs n io = Some (Io_Ret k1, ?io)"
        using Cons.prems(2) nz by (simp add: sys_writev_def Io_Move k1_def sv_load_iff [symmetric] Let_def)
      show ?thesis
      proof (cases "k1 = 0")
        case True
        then show ?thesis using w False by simp
      next
        case False': False
        have k1: "0 < k1" "k1 \<le> sv_total vs" using False' len by (auto simp: k1_def sv_total_addrs)
        from advance_spec [OF k1 Cons.prems(4)] obtain vs1 where vs1: "advance k1 vs n = Some (vs1, int (length vs1))"
            "sv_addrs vs1 = drop k1 (sv_addrs vs)" "vs1 = [] \<longleftrightarrow> k1 = sv_total vs" by blast
        have "0 \<notin> set (sv_addrs vs1)" using Cons.prems(3) vs1(2) by (auto dest: in_set_dropD)
        moreover have "vs1 = [] \<longleftrightarrow> drop k1 bs = []" using vs1(3) k1(2) len by (auto simp: sv_total_addrs)
        ultimately show ?thesis
          using Cons.IH [of ?io vs1 "drop k1 bs"] Cons.prems(1) w False False' vs1 holds_drop [OF Cons.prems(2), of k1]
          by (auto simp: Io_Move)
      qed
    next
      case Io_Intr
      then show ?thesis using Cons False nz by (auto simp: sys_writev_def)
    qed (use False nz in \<open>auto simp: sys_writev_def\<close>)
  qed (use Cons.prems in auto)
qed simp

lemma entry_write:
  assumes e: "entry_ok (io_mem io) q bs" and again: "Io_Again \<in> set sched"
  shows "\<exists>vs n ss k. socket_writev sched (q_pending_vector q) (q_pending_count q) io = Some (vs, n, ss, io\<lparr>io_tx := io_tx io @ take k bs\<rparr>)
    \<and> (n = 0 \<and> k = length bs \<and> Io_Again \<in> set ss
       \<or> n \<noteq> 0 \<and> entry_ok (io_mem io) (q\<lparr>q_pending_vector := vs, q_pending_count := n\<rparr>) (drop k bs))"
proof (cases "q_pending_count q = -1")
  case True
  obtain s ss where "sched = s # ss" using again by (cases sched) auto
  then show ?thesis using e True by (auto simp: socket_writev_def sys_writev_def entry_ok_def intro!: exI [of _ 0])
next
  case False
  let ?vs = "q_pending_vector q" and ?n = "q_pending_count q"
  have h: "holds (io_mem io) (sv_addrs ?vs) bs" "0 \<notin> set (sv_addrs ?vs)" "?n = int (length ?vs)" "bs \<noteq> []"
    using e False by (auto simp: entry_ok_def)
  then have ne: "?vs = [] \<longleftrightarrow> bs = []" by (auto simp: holds_def)
  obtain vs n ss io' where r: "socket_rwv True sched ?vs ?n io = Some (vs, n, ss, io')" "n = 0 \<longrightarrow> Io_Again \<in> set ss"
    using rwv_returns [OF again h(1-3) ne] by blast
  obtain k where k: "k \<le> length bs" "io' = io\<lparr>io_tx := io_tx io @ take k bs\<rparr>" "sv_addrs vs = drop k (sv_addrs ?vs)"
      "n = int (length vs) \<or> n = -1" "n = 0 \<longleftrightarrow> k = length bs"
    using socket_writev_spec [OF r(1) h(1-3) ne] by blast
  have "0 \<notin> set (sv_addrs vs)" using h(2) k(3) by (auto dest: in_set_dropD)
  then have "n \<noteq> 0 \<Longrightarrow> entry_ok (io_mem io) (q\<lparr>q_pending_vector := vs, q_pending_count := n\<rparr>) (drop k bs)"
    using holds_drop [OF h(1), of k] k by (auto simp: entry_ok_def)
  then show ?thesis using r k by (auto simp: socket_writev_def)
qed

lemma bref_ok_remove:
  assumes ok: "bref_ok iobs (r # rs)" and nz: "r \<noteq> 0"
  shows "\<exists>iobs'. iobref_unref r iobs = Some iobs' \<and> bref_ok iobs' rs"
proof -
  obtain b where b: "brefs iobs r = Some b" "int (count_list rs r) + 1 < iobref_refs b"
    using ok nz by (auto simp: bref_ok_def)
  let ?iobs = "put_bref r (b\<lparr>iobref_refs := iobref_refs b - 1\<rparr>) iobs"
  have "iobref_unref r iobs = Some ?iobs" using b nz by (simp add: iobref_unref_def Let_def)
  moreover have "bref_ok ?iobs rs" using b ok by (auto simp: bref_ok_def put_bref_def)
  ultimately show ?thesis by blast
qed

text \<open>The state of the sending side: \<open>bss\<close> are the bytes the queued entries have still to send.\<close>

definition out_ok :: "bool \<Rightarrow> sock \<Rightarrow> u8 list list \<Rightarrow> bool" where
  "out_ok little s bss \<longleftrightarrow> list_all2 (entry_ok (io_mem (sk_io s))) (sp_ioq (sk_priv s)) bss
     \<and> distinct (map q_entry (sp_ioq (sk_priv s))) \<and> bref_ok (sk_iobs s) (map q_iobref (sp_ioq (sk_priv s)))
     \<and> byte_order_ok little (sk_bo s) \<and> (\<exists>pool. sk_events s = Some pool \<and> pool_valid pool)"

lemma upd_simps [simp]:
  "sk_priv (upd_priv f s) = f (sk_priv s)" "sk_io (upd_priv f s) = sk_io s" "sk_sched (upd_priv f s) = sk_sched s"
  "sk_iobs (upd_priv f s) = sk_iobs s" "sk_bo (upd_priv f s) = sk_bo s" "sk_events (upd_priv f s) = sk_events s"
  "sk_iobuf_pool (upd_priv f s) = sk_iobuf_pool s"
  "sk_priv (upd_in g s) = (sk_priv s)\<lparr>sp_incoming := g (sp_incoming (sk_priv s))\<rparr>" "sk_io (upd_in g s) = sk_io s"
  "sk_sched (upd_in g s) = sk_sched s" "sk_iobs (upd_in g s) = sk_iobs s" "sk_bo (upd_in g s) = sk_bo s"
  "sk_events (upd_in g s) = sk_events s" "sk_iobuf_pool (upd_in g s) = sk_iobuf_pool s"
  by (simp_all add: upd_priv_def upd_in_def)

text \<open>One attempt to write the first entry of the queue: it is sent and removed, or its rest stays.\<close>

lemma churn_head:
  assumes ok: "out_ok little s (bs # bss)" and again: "Io_Again \<in> set (sk_sched s)" and q: "sp_ioq (sk_priv s) = q # qs"
  shows "\<exists>s' q' n k. socket_ioq_churn_entry q s = Some (s', q', n)
    \<and> sk_io s' = (sk_io s)\<lparr>io_tx := io_tx (sk_io s) @ take k bs\<rparr>
    \<and> sp_sock (sk_priv s') = sp_sock (sk_priv s) \<and> sp_connected (sk_priv s') = sp_connected (sk_priv s)
    \<and> (n = 0 \<and> k = length bs \<and> Io_Again \<in> set (sk_sched s') \<and> sp_ioq (sk_priv s') = qs \<and> out_ok little s' bss
       \<or> n \<noteq> 0 \<and> out_ok little s' (drop k bs # bss) \<and> sp_ioq (sk_priv s') \<noteq> [])"
proof -
  have e: "entry_ok (io_mem (sk_io s)) q bs" and es: "list_all2 (entry_ok (io_mem (sk_io s))) qs bss"
    and d: "q_entry q \<notin> q_entry ` set qs" "distinct (map q_entry qs)" and b: "bref_ok (sk_iobs s) (q_iobref q # map q_iobref qs)"
    using ok q by (auto simp: out_ok_def)
  have same: "map (\<lambda>p. if q_entry p = q_entry q then x else p) qs = qs" for x using d(1) by (intro map_idI) (metis imageI)
  have others: "filter (\<lambda>p. q_entry p \<noteq> q_entry q) qs = qs" using d(1) by (intro filter_True) (metis imageI)
  obtain vs n ss k where w: "socket_writev (sk_sched s) (q_pending_vector q) (q_pending_count q) (sk_io s)
        = Some (vs, n, ss, (sk_io s)\<lparr>io_tx := io_tx (sk_io s) @ take k bs\<rparr>)"
      and c: "n = 0 \<and> k = length bs \<and> Io_Again \<in> set ss
       \<or> n \<noteq> 0 \<and> entry_ok (io_mem (sk_io s)) (q\<lparr>q_pending_vector := vs, q_pending_count := n\<rparr>) (drop k bs)"
    using entry_write [OF e again] by blast
  let ?q = "q\<lparr>q_pending_vector := vs, q_pending_count := n\<rparr>"
  show ?thesis
  proof (cases "n = 0")
    case True
    have "\<exists>iobs. (if q_iobref q \<noteq> 0 then iobref_unref (q_iobref q) (sk_iobs s) else Some (sk_iobs s)) = Some iobs \<and> bref_ok iobs (map q_iobref qs)"
      using bref_ok_remove [OF b] b by (auto simp: bref_ok_def)
    then obtain iobs where "(if q_iobref q \<noteq> 0 then iobref_unref (q_iobref q) (sk_iobs s) else Some (sk_iobs s)) = Some iobs" "bref_ok iobs (map q_iobref qs)"
      by blast
    then show ?thesis using True w c q ok es d same others
      by (auto simp: socket_ioq_churn_entry_def socket_ioq_entry_free_def out_ok_def Let_def)
  next
    case False
    show ?thesis using False w c q ok es d b same
      by (auto simp: socket_ioq_churn_entry_def out_ok_def Let_def)
  qed
qed

lemma churn_loop_spec:
  "\<lbrakk>out_ok little s bss; Io_Again \<in> set (sk_sched s)\<rbrakk> \<Longrightarrow>
     \<exists>s' ret' bss'. ioq_churn_loop (length bss) ret s = Some (s', ret') \<and> out_ok little s' bss'
       \<and> io_tx (sk_io s') @ concat bss' = io_tx (sk_io s) @ concat bss \<and> io_mem (sk_io s') = io_mem (sk_io s)
       \<and> sp_sock (sk_priv s') = sp_sock (sk_priv s) \<and> sp_connected (sk_priv s') = sp_connected (sk_priv s)"
proof (induction bss arbitrary: s ret)
  case Nil
  then show ?case by (auto simp: out_ok_def)
next
  case (Cons bs bss)
  obtain q qs where q: "sp_ioq (sk_priv s) = q # qs" using Cons.prems(1) by (auto simp: out_ok_def list_all2_Cons2)
  obtain s1 q1 n k where h: "socket_ioq_churn_entry q s = Some (s1, q1, n)"
      "sk_io s1 = (sk_io s)\<lparr>io_tx := io_tx (sk_io s) @ take k bs\<rparr>"
      "sp_sock (sk_priv s1) = sp_sock (sk_priv s)" "sp_connected (sk_priv s1) = sp_connected (sk_priv s)"
      "n = 0 \<and> k = length bs \<and> Io_Again \<in> set (sk_sched s1) \<and> sp_ioq (sk_priv s1) = qs \<and> out_ok little s1 bss
       \<or> n \<noteq> 0 \<and> out_ok little s1 (drop k bs # bss) \<and> sp_ioq (sk_priv s1) \<noteq> []"
    using churn_head [OF Cons.prems q] by blast
  show ?case
  proof (cases "n = 0")
    case True
    with h obtain s2 ret2 bss2 where "ioq_churn_loop (length bss) 0 s1 = Some (s2, ret2)" "out_ok little s2 bss2"
        "io_tx (sk_io s2) @ concat bss2 = io_tx (sk_io s1) @ concat bss" "io_mem (sk_io s2) = io_mem (sk_io s1)"
        "sp_sock (sk_priv s2) = sp_sock (sk_priv s1)" "sp_connected (sk_priv s2) = sp_connected (sk_priv s1)"
      using Cons.IH [of s1 0] by auto
    then show ?thesis using True h q by auto
  next
    case False
    then have "out_ok little s1 (drop k bs # bss)" using h(5) by blast
    then show ?thesis using False h q by (intro exI [of _ s1] exI [of _ n] exI [of _ "drop k bs # bss"]) simp
  qed
qed

lemma select_out_spec:
  assumes "out_ok little s bss"
  shows "\<exists>s'. select_out env u s = Some s' \<and> out_ok little s' bss \<and> sk_io s' = sk_io s \<and> sp_ioq (sk_priv s') = sp_ioq (sk_priv s)
    \<and> sp_sock (sk_priv s') = sp_sock (sk_priv s) \<and> sp_connected (sk_priv s') = sp_connected (sk_priv s)"
proof -
  obtain pool where p: "sk_events s = Some pool" "pool_valid pool" using assms by (auto simp: out_ok_def)
  obtain pool' idx where "event_select_on (e_ctl env) (Some pool) (sp_sock (sk_priv s)) (sp_idx (sk_priv s)) (-1) u = Some (Some pool', idx)"
      "pool_valid pool'"
    using event_select_on_valid [OF p(2)] by blast
  then show ?thesis using assms p by (auto simp: select_out_def out_ok_def)
qed

lemma poll_out_spec:
  assumes ok: "out_ok little s bss" and again: "Io_Again \<in> set (sk_sched s)"
  shows "\<exists>s' ret bss'. socket_event_poll_out env s = Some (s', ret) \<and> out_ok little s' bss'
    \<and> io_tx (sk_io s') @ concat bss' = io_tx (sk_io s) @ concat bss \<and> io_mem (sk_io s') = io_mem (sk_io s)"
proof (cases "sp_connected (sk_priv s) = 1")
  case False
  then show ?thesis using ok by (auto simp: socket_event_poll_out_def)
next
  case True
  have len: "length (sp_ioq (sk_priv s)) = length bss" using ok by (auto simp: out_ok_def dest: list_all2_lengthD)
  obtain s1 ret bss1 where l: "ioq_churn_loop (length bss) 0 s = Some (s1, ret)" and o1: "out_ok little s1 bss1"
      and tx: "io_tx (sk_io s1) @ concat bss1 = io_tx (sk_io s) @ concat bss" "io_mem (sk_io s1) = io_mem (sk_io s)"
    using churn_loop_spec [OF assms] by blast
  obtain s2 where s2: "select_out env 0 s1 = Some s2" "out_ok little s2 bss1" "sk_io s2 = sk_io s1"
    using select_out_spec [OF o1] by blast
  have disc: "out_ok little (fst (socket_disconnect_locked env t)) b = out_ok little t b"
      "sk_io (fst (socket_disconnect_locked env t)) = sk_io t" for t b
    by (simp_all add: socket_disconnect_locked_def out_ok_def)
  show ?thesis using True len l o1 tx s2
    by (auto simp: socket_event_poll_out_def socket_ioq_churn_def disc)
qed

text \<open>
  A message that may be submitted: its blocks are allocated and hold \<open>h\<close> and \<open>d\<close>, the entry is allocated at a fresh place, and
  the caller holds a reference of the \<^verbatim>\<open>iobref\<close>, if any.
\<close>

definition msg_ok :: "bool \<Rightarrow> sock_env \<Rightarrow> addr \<Rightarrow> int \<Rightarrow> siov list \<Rightarrow> int \<Rightarrow> addr \<Rightarrow> u8 list \<Rightarrow> u8 list \<Rightarrow> sock \<Rightarrow> bool" where
  "msg_ok little env buf len vector count iobref h d s \<longleftrightarrow>
     e_little env = little \<and> 0 \<le> len \<and> 0 \<le> count \<and> count \<le> 14 \<and> nat count \<le> length vector
     \<and> holds (io_mem (sk_io s)) [buf ..< buf + nat len] h \<and> holds (io_mem (sk_io s)) (sv_addrs (take (nat count) vector)) d
     \<and> 0 \<notin> set [buf ..< buf + nat len] \<and> 0 \<notin> set (sv_addrs (take (nat count) vector)) \<and> length d < 2 ^ 31
     \<and> (\<forall>a. e_calloc env + 16 \<le> a \<and> a < e_calloc env + 28 \<longrightarrow> io_mem (sk_io s) a = None)
     \<and> e_calloc env \<notin> q_entry ` set (sp_ioq (sk_priv s))
     \<and> (iobref \<noteq> 0 \<longrightarrow> (\<exists>b. brefs (sk_iobs s) iobref = Some b
          \<and> int (count_list (map q_iobref (sp_ioq (sk_priv s))) iobref) < iobref_refs b))"

lemma holds_mapped: "\<lbrakk>holds m as bs; a \<in> set as\<rbrakk> \<Longrightarrow> m a \<noteq> None"
  unfolding holds_def by (induction as bs rule: list_all2_induct) auto

lemma holds_fresh:
  assumes "holds m as bs" and "\<forall>a \<in> set as'. m a = None"
  shows "holds (m(as' [\<mapsto>] bs')) as bs"
proof -
  have "a \<notin> set as'" if "a \<in> set as" for a
    using holds_mapped [OF assms(1) that] assms(2) by auto
  then have "(m(as' [\<mapsto>] bs')) a = m a" if "a \<in> set as" for a using that by simp
  then show ?thesis using assms(1) holds_cong by blast
qed

lemma entry_ok_fresh: "\<lbrakk>entry_ok m q bs; \<forall>a \<in> set as'. m a = None\<rbrakk> \<Longrightarrow> entry_ok (m(as' [\<mapsto>] bs')) q bs"
  by (auto simp: entry_ok_def intro: holds_fresh)

lemma ioq_new_spec:
  assumes ok: "out_ok little s bss" and m: "msg_ok little env buf len vector count iobref h d s" and nz: "e_calloc env \<noteq> 0"
  shows "\<exists>s1 q. socket_ioq_new env buf len vector count iobref s = Some (s1, Some q) \<and> out_ok little s1 bss
    \<and> entry_ok (io_mem (sk_io s1)) q (wire_frame h d) \<and> q_entry q \<notin> q_entry ` set (sp_ioq (sk_priv s1)) \<and> sk_priv s1 = sk_priv s
    \<and> bref_ok (sk_iobs s1) (map q_iobref (sp_ioq (sk_priv s1)) @ [q_iobref q]) \<and> sk_sched s1 = sk_sched s
    \<and> io_tx (sk_io s1) = io_tx (sk_io s)"
proof -
  let ?vs = "take (nat count) vector" and ?m = "io_mem (sk_io s)" and ?rs = "map q_iobref (sp_ioq (sk_priv s))"
  note M = m [unfolded msg_ok_def]
  have d: "length d = sv_total ?vs" and h: "int (length h) = len" using M holds_length by (force simp: sv_total_addrs)+
  have size2: "iov_length (map sv_iovec vector) count = Some (int (length d))" using M d iov_length_total by simp
  define hdr where "hdr = [58, 79, 0] @ be_bytes32 (word_of_int len) @ be_bytes32 (word_of_int (int (length d))) @ [42]"
  have hlen: "length hdr = 12" by (simp add: hdr_def)
  obtain bo where bo: "header_bytes little (sk_bo s) len (int (length d)) = (bo, hdr)" "byte_order_ok little bo"
    using header_bytes_eq [of little "sk_bo s" len "int (length d)"] ok unfolding out_ok_def hdr_def by blast
  define at where "at = [e_calloc env + 16 ..< e_calloc env + 16 + length hdr]"
  have fresh: "\<forall>a \<in> set at. ?m a = None" using M hlen by (simp add: at_def)
  have "holds (?m(at [\<mapsto>] hdr)) at hdr" using hlen by (intro holds_upds) (simp_all add: at_def)
  moreover have "holds (?m(at [\<mapsto>] hdr)) [buf ..< buf + nat len] h" "holds (?m(at [\<mapsto>] hdr)) (sv_addrs ?vs) d"
    using M fresh by (blast intro: holds_fresh)+
  ultimately have "holds (?m(at [\<mapsto>] hdr)) (at @ [buf ..< buf + nat len] @ sv_addrs ?vs) (hdr @ h @ d)"
    by (intro holds_appendI)
  moreover have "hdr @ h @ d = wire_frame h d" by (simp add: wire_frame_def hdr_def flip: h)
  ultimately have hold: "holds (?m(at [\<mapsto>] hdr)) (at @ [buf ..< buf + nat len] @ sv_addrs ?vs) (wire_frame h d)" by simp
  have "\<exists>iobs r. (if iobref \<noteq> 0 then iobref_ref iobref (sk_iobs s) else Some (sk_iobs s, 0)) = Some (iobs, r)
      \<and> bref_ok iobs (?rs @ [r]) \<and> bref_ok iobs ?rs"
  proof (cases "iobref = 0")
    case True
    then show ?thesis using ok by (auto simp: out_ok_def bref_ok_def)
  next
    case False
    then obtain b where b: "brefs (sk_iobs s) iobref = Some b" "int (count_list ?rs iobref) < iobref_refs b" using M by blast
    then show ?thesis using False ok by (auto simp: iobref_ref_def out_ok_def bref_ok_def put_bref_def)
  qed
  then obtain iobs r where r: "(if iobref \<noteq> 0 then iobref_ref iobref (sk_iobs s) else Some (sk_iobs s, 0)) = Some (iobs, r)"
      "bref_ok iobs (?rs @ [r])" "bref_ok iobs ?rs" by blast
  have old: "list_all2 (entry_ok (?m(at [\<mapsto>] hdr))) (sp_ioq (sk_priv s)) bss"
    using ok fresh by (auto simp: out_ok_def elim!: list_all2_mono intro: entry_ok_fresh)
  define q where "q = \<lparr>q_entry = e_calloc env, q_count = 2 + count,
      q_pending_vector = \<lparr>sv_base = e_calloc env + 16, sv_len = 12\<rparr> # \<lparr>sv_base = buf, sv_len = nat len\<rparr> # ?vs,
      q_pending_count = 2 + count, q_buf = buf, q_iobref = r\<rparr>"
  define s1 where "s1 = s\<lparr>sk_io := (sk_io s)\<lparr>io_mem := ?m(at [\<mapsto>] hdr)\<rparr>, sk_bo := bo, sk_iobs := iobs\<rparr>"
  have "socket_ioq_new env buf len vector count iobref s = Some (s1, Some q)"
    using nz M size2 bo(1) r(1) hlen by (simp add: socket_ioq_new_def header_offset_def s1_def q_def at_def Let_def)
  moreover have "entry_ok (io_mem (sk_io s1)) q (wire_frame h d)"
    using hold M hlen by (simp add: entry_ok_def s1_def q_def at_def) (simp add: wire_frame_def)
  moreover have "out_ok little s1 bss" using ok old r(3) bo(2) by (simp add: out_ok_def s1_def)
  ultimately show ?thesis using r(2) M by (auto simp: s1_def q_def)
qed

lemma out_ok_cong:
  "\<lbrakk>out_ok little s bss; sk_io s' = sk_io s; sp_ioq (sk_priv s') = sp_ioq (sk_priv s); sk_iobs s' = sk_iobs s;
    sk_bo s' = sk_bo s; sk_events s' = sk_events s\<rbrakk> \<Longrightarrow> out_ok little s' bss"
  by (simp add: out_ok_def)

text \<open>The first attempt to write a new entry when nothing is queued.\<close>

lemma churn_new:
  assumes ok: "out_ok little s []" and e: "entry_ok (io_mem (sk_io s)) q bs" and b: "bref_ok (sk_iobs s) [q_iobref q]"
    and again: "Io_Again \<in> set (sk_sched s)"
  shows "\<exists>s' q' n k. socket_ioq_churn_entry q s = Some (s', q', n)
    \<and> sk_io s' = (sk_io s)\<lparr>io_tx := io_tx (sk_io s) @ take k bs\<rparr> \<and> q_entry q' = q_entry q \<and> out_ok little s' []
    \<and> (n = 0 \<and> k = length bs \<or> n \<noteq> 0 \<and> entry_ok (io_mem (sk_io s')) q' (drop k bs) \<and> bref_ok (sk_iobs s') [q_iobref q'])"
proof -
  have empty: "sp_ioq (sk_priv s) = []" using ok by (simp add: out_ok_def)
  obtain vs n ss k where w: "socket_writev (sk_sched s) (q_pending_vector q) (q_pending_count q) (sk_io s)
        = Some (vs, n, ss, (sk_io s)\<lparr>io_tx := io_tx (sk_io s) @ take k bs\<rparr>)"
      and c: "n = 0 \<and> k = length bs \<and> Io_Again \<in> set ss
       \<or> n \<noteq> 0 \<and> entry_ok (io_mem (sk_io s)) (q\<lparr>q_pending_vector := vs, q_pending_count := n\<rparr>) (drop k bs)"
    using entry_write [OF e again] by blast
  show ?thesis
  proof (cases "n = 0")
    case True
    have "\<exists>iobs. (if q_iobref q \<noteq> 0 then iobref_unref (q_iobref q) (sk_iobs s) else Some (sk_iobs s)) = Some iobs"
      using bref_ok_remove [OF b] by auto
    then show ?thesis using True w c ok empty
      by (auto simp: socket_ioq_churn_entry_def socket_ioq_entry_free_def out_ok_def bref_ok_def Let_def)
  next
    case False
    then show ?thesis using w c b ok empty
      by (auto simp: socket_ioq_churn_entry_def out_ok_def Let_def)
  qed
qed

lemma out_ok_append:
  assumes "out_ok little s bss" and "entry_ok (io_mem (sk_io s)) q bs" and "q_entry q \<notin> q_entry ` set (sp_ioq (sk_priv s))"
    and "bref_ok (sk_iobs s) (map q_iobref (sp_ioq (sk_priv s)) @ [q_iobref q])"
  shows "out_ok little (upd_priv (\<lambda>p. p\<lparr>sp_ioq := sp_ioq p @ [q]\<rparr>) s) (bss @ [bs])"
  using assms by (auto simp: out_ok_def intro!: list_all2_appendI)

lemma submit_spec:
  assumes ok: "out_ok little s bss" and again: "Io_Again \<in> set (sk_sched s)"
    and m: "msg_ok little env buf len vector count iobref h d s"
  shows "\<exists>s' ret bss'. socket_submit env buf len vector count iobref s = Some (s', ret) \<and> out_ok little s' bss'
    \<and> io_tx (sk_io s') @ concat bss' = io_tx (sk_io s) @ concat bss @ (if ret = 0 then wire_frame h d else [])
    \<and> (ret = 0 \<longleftrightarrow> sp_connected (sk_priv s) = 1 \<and> e_calloc env \<noteq> 0)"
proof (cases "sp_connected (sk_priv s) = 1 \<and> e_calloc env \<noteq> 0")
  case False
  show ?thesis
    using False ok by (auto simp: socket_submit_def socket_ioq_new_def out_ok_def intro!: exI [of _ bss])
next
  case True
  let ?s0 = "upd_priv (\<lambda>p. p\<lparr>sp_submit_log := False\<rparr>) s"
  have "out_ok little ?s0 bss" using ok by (rule out_ok_cong) simp_all
  moreover have "msg_ok little env buf len vector count iobref h d ?s0" using m by (simp add: msg_ok_def)
  ultimately obtain s1 q where n: "socket_ioq_new env buf len vector count iobref ?s0 = Some (s1, Some q)" "out_ok little s1 bss"
      "entry_ok (io_mem (sk_io s1)) q (wire_frame h d)" "q_entry q \<notin> q_entry ` set (sp_ioq (sk_priv s1))" "sk_priv s1 = sk_priv ?s0"
      "bref_ok (sk_iobs s1) (map q_iobref (sp_ioq (sk_priv s1)) @ [q_iobref q])" "sk_sched s1 = sk_sched ?s0"
      "io_tx (sk_io s1) = io_tx (sk_io ?s0)"
    using ioq_new_spec True by blast
  note sub = socket_submit_def Let_def
  show ?thesis
  proof (cases "sp_ioq (sk_priv s1) = []")
    case False
    let ?s3 = "upd_priv (\<lambda>p. p\<lparr>sp_ioq := sp_ioq p @ [q]\<rparr>) s1"
    have "out_ok little ?s3 (bss @ [wire_frame h d])" using n(2-4,6) by (rule out_ok_append)
    moreover have "socket_submit env buf len vector count iobref s = Some (?s3, 0)" using True False n(1) by (simp add: sub)
    ultimately show ?thesis using True n(8) by (intro exI [of _ ?s3] exI [of _ 0] exI [of _ "bss @ [wire_frame h d]"]) simp
  next
    case empty: True
    then have bss: "bss = []" using n(2) by (simp add: out_ok_def)
    have "Io_Again \<in> set (sk_sched s1)" using n(7) again by simp
    then obtain s2 q2 r k where c: "socket_ioq_churn_entry q s1 = Some (s2, q2, r)"
        "sk_io s2 = (sk_io s1)\<lparr>io_tx := io_tx (sk_io s1) @ take k (wire_frame h d)\<rparr>" "out_ok little s2 []"
        "r = 0 \<and> k = length (wire_frame h d) \<or> r \<noteq> 0 \<and> entry_ok (io_mem (sk_io s2)) q2 (drop k (wire_frame h d)) \<and> bref_ok (sk_iobs s2) [q_iobref q2]"
      using churn_new [of little s1 q "wire_frame h d"] n(2,3,6) empty bss by auto
    show ?thesis
    proof (cases "r = 0")
      case r0: True
      then have "socket_submit env buf len vector count iobref s = Some (s2, 0)" using True empty n(1) c(1) by (simp add: sub)
      then show ?thesis using True c r0 n(8) bss by (intro exI [of _ s2] exI [of _ 0] exI [of _ "[]"]) simp
    next
      case r1: False
      let ?s3 = "upd_priv (\<lambda>p. p\<lparr>sp_ioq := sp_ioq p @ [q2]\<rparr>) s2"
      have e2: "sp_ioq (sk_priv s2) = []" using c(3) by (simp add: out_ok_def)
      have o3: "out_ok little ?s3 ([] @ [drop k (wire_frame h d)])" using c(3,4) r1 e2 by (intro out_ok_append) simp_all
      obtain s4 where s4: "select_out env 1 ?s3 = Some s4" "out_ok little s4 [drop k (wire_frame h d)]" "sk_io s4 = sk_io ?s3"
        using select_out_spec [OF o3] by auto
      have "\<exists>s'. socket_submit env buf len vector count iobref s = Some (s', 0) \<and> (s' = ?s3 \<or> s' = s4)"
        using True empty n(1) c(1) r1 s4(1) by (simp add: sub)
      then obtain s' where s': "socket_submit env buf len vector count iobref s = Some (s', 0)" "s' = ?s3 \<or> s' = s4" by blast
      then have "out_ok little s' [drop k (wire_frame h d)]" "sk_io s' = sk_io s2" using o3 s4 by auto
      then show ?thesis using True c n(8) bss s'(1)
        by (intro exI [of _ s'] exI [of _ 0] exI [of _ "[drop k (wire_frame h d)]"]) simp
    qed
  qed
qed

text \<open>The bytes that are queued and not yet accepted by the kernel.\<close>

definition queue_bytes :: "sock \<Rightarrow> u8 list" where
  "queue_bytes s = concat (map (\<lambda>q. the (sv_load (io_mem (sk_io s)) (q_pending_vector q))) (sp_ioq (sk_priv s)))"

lemma out_ok_queue_bytes: "out_ok little s bss \<Longrightarrow> queue_bytes s = concat bss"
proof -
  assume "out_ok little s bss"
  then have "list_all2 (entry_ok (io_mem (sk_io s))) (sp_ioq (sk_priv s)) bss" by (simp add: out_ok_def)
  then have "map (\<lambda>q. the (sv_load (io_mem (sk_io s)) (q_pending_vector q))) (sp_ioq (sk_priv s)) = bss"
    by (induction rule: list_all2_induct) (auto simp: entry_ok_def sv_load_iff [symmetric])
  then show ?thesis by (simp add: queue_bytes_def)
qed

text \<open>
  Runs of the sending side: messages are submitted, the kernel reports that it can take more, and in
  between the caller allocates and fills blocks and takes and drops references other than the queued ones.  The list has the
  accepted messages.
\<close>

inductive sends :: "bool \<Rightarrow> sock \<Rightarrow> u8 list list \<Rightarrow> bool" for little where
  sends_start: "\<lbrakk>sp_ioq (sk_priv s) = []; io_tx (sk_io s) = []; byte_order_ok little (sk_bo s); sk_events s = Some pool; pool_valid pool\<rbrakk>
    \<Longrightarrow> sends little s []"
| sends_submit: "\<lbrakk>sends little s fs; Io_Again \<in> set sched; msg_ok little env buf len vector count iobref h d s;
    socket_submit env buf len vector count iobref (s\<lparr>sk_sched := sched\<rparr>) = Some (s', ret)\<rbrakk>
    \<Longrightarrow> sends little s' (if ret = 0 then fs @ [wire_frame h d] else fs)"
| sends_poll_out: "\<lbrakk>sends little s fs; Io_Again \<in> set sched; socket_event_poll_out env (s\<lparr>sk_sched := sched\<rparr>) = Some (s', ret)\<rbrakk>
    \<Longrightarrow> sends little s' fs"
| sends_caller: "\<lbrakk>sends little s fs; \<forall>a. io_mem (sk_io s) a \<noteq> None \<longrightarrow> m a = io_mem (sk_io s) a;
    \<forall>q \<in> set (sp_ioq (sk_priv s)). brefs iobs (q_iobref q) = brefs (sk_iobs s) (q_iobref q)\<rbrakk>
    \<Longrightarrow> sends little (s\<lparr>sk_io := (sk_io s)\<lparr>io_mem := m\<rparr>, sk_iobs := iobs\<rparr>) fs"

lemma sends_ok:
  "sends little s fs \<Longrightarrow> \<exists>bss. out_ok little s bss \<and> io_tx (sk_io s) @ concat bss = concat fs"
proof (induction rule: sends.induct)
  case (sends_start s pool)
  then show ?case by (auto simp: out_ok_def bref_ok_def)
next
  case (sends_submit s fs sched env buf len vector count iobref h d s' ret)
  then obtain bss where bss: "out_ok little s bss" "io_tx (sk_io s) @ concat bss = concat fs" by blast
  have ok: "out_ok little (s\<lparr>sk_sched := sched\<rparr>) bss" using bss(1) by (rule out_ok_cong) simp_all
  have m: "msg_ok little env buf len vector count iobref h d (s\<lparr>sk_sched := sched\<rparr>)"
    using sends_submit.hyps(3) by (simp add: msg_ok_def)
  from submit_spec [OF ok _ m] sends_submit.hyps(2,4) obtain bss' where "out_ok little s' bss'"
      "io_tx (sk_io s') @ concat bss' = io_tx (sk_io s) @ concat bss @ (if ret = 0 then wire_frame h d else [])" by auto
  then show ?case using bss(2) by (auto simp flip: append_assoc)
next
  case (sends_poll_out s fs sched env s' ret)
  then obtain bss where bss: "out_ok little s bss" "io_tx (sk_io s) @ concat bss = concat fs" by blast
  have "out_ok little (s\<lparr>sk_sched := sched\<rparr>) bss" using bss(1) by (rule out_ok_cong) simp_all
  from poll_out_spec [OF this, of env] sends_poll_out.hyps(2,3) bss(2) show ?case by auto
next
  case (sends_caller s fs m iobs)
  then obtain bss where bss: "out_ok little s bss" "io_tx (sk_io s) @ concat bss = concat fs" by blast
  have "holds m as bs" if "holds (io_mem (sk_io s)) as bs" for as bs
    using that holds_mapped [OF that] sends_caller.hyps(2) holds_cong [of as m "io_mem (sk_io s)" bs] by blast
  then have "list_all2 (entry_ok m) (sp_ioq (sk_priv s)) bss"
    using bss(1) by (auto simp: out_ok_def entry_ok_def elim!: list_all2_mono)
  then show ?case using bss sends_caller.hyps(3) by (auto simp: out_ok_def bref_ok_def)
qed

text \<open>
  C2: The sending side of a connection keeps the order and the content of the messages: in every run, whatever
  the kernel accepts in each call and whether calls are interrupted or fail, the bytes accepted by the
  kernel followed by the bytes of the queue are the accepted messages in the order of their submission,
  each with its header; the calls return, and a message is accepted exactly when the connection is up and
  the entry can be allocated.
\<close>

theorem socket_stream_order:
  assumes "sends little s fs"
  shows "io_tx (sk_io s) @ queue_bytes s = concat fs
    \<and> (\<forall>env sched. Io_Again \<in> set sched \<longrightarrow> socket_event_poll_out env (s\<lparr>sk_sched := sched\<rparr>) \<noteq> None)
    \<and> (\<forall>env buf len vector count iobref h d sched. Io_Again \<in> set sched \<and> msg_ok little env buf len vector count iobref h d s \<longrightarrow>
         (\<exists>s' ret. socket_submit env buf len vector count iobref (s\<lparr>sk_sched := sched\<rparr>) = Some (s', ret)
            \<and> (ret = 0 \<longleftrightarrow> sp_connected (sk_priv s) = 1 \<and> e_calloc env \<noteq> 0)))"
proof -
  obtain bss where bss: "out_ok little s bss" "io_tx (sk_io s) @ concat bss = concat fs" using sends_ok [OF assms] by blast
  have ok: "out_ok little (s\<lparr>sk_sched := sched\<rparr>) bss" for sched using bss(1) by (rule out_ok_cong) simp_all
  have "io_tx (sk_io s) @ queue_bytes s = concat fs" using bss out_ok_queue_bytes by simp
  moreover have "socket_event_poll_out env (s\<lparr>sk_sched := sched\<rparr>) \<noteq> None" if "Io_Again \<in> set sched" for env sched
    using poll_out_spec [OF ok, of sched env] that by auto
  moreover have "\<exists>s' ret. socket_submit env buf len vector count iobref (s\<lparr>sk_sched := sched\<rparr>) = Some (s', ret)
      \<and> (ret = 0 \<longleftrightarrow> sp_connected (sk_priv s) = 1 \<and> e_calloc env \<noteq> 0)"
    if "Io_Again \<in> set sched" "msg_ok little env buf len vector count iobref h d s" for env buf len vector count iobref h d sched
  proof -
    have "msg_ok little env buf len vector count iobref h d (s\<lparr>sk_sched := sched\<rparr>)" using that(2) by (simp add: msg_ok_def)
    from submit_spec [OF ok _ this] that(1) show ?thesis by fastforce
  qed
  ultimately show ?thesis by blast
qed

text \<open>A connected transport without messages, with one byte allocated at address 100.\<close>

definition demo_sock :: sock where
  "demo_sock = \<lparr>sk_io = \<lparr>io_mem = [100 \<mapsto> 7], io_rx = [], io_tx = []\<rparr>, sk_sched = [],
     sk_priv = \<lparr>sp_sock = 5, sp_idx = 0, sp_connected = 1, sp_bio = False, sp_connect_finish_log = False, sp_submit_log = False,
       sp_ioq = [], sp_incoming = zero_incoming, sp_header = 300, sp_windowsize = 0, sp_lowlat = False, sp_nodelay = True\<rparr>,
     sk_iobs = empty_iobs, sk_iobuf_pool = 0, sk_events = Some (new_pool 0 1), sk_bo = byte_order_start, sk_refcount = 1,
     sk_closed = [], sk_freed = [], sk_alive = True\<rparr>"

definition demo_env :: sock_env where
  "demo_env = \<lparr>e_little = True, e_malloc = 0, e_calloc = 200,
     e_arena = \<lparr>al_arena = 0, al_mem = 0, al_iobufs = 0\<rparr>, e_ctl = True, e_ctl2 = True, e_shutdown = 0, e_getsockopt = (0, 0), e_getsockname = 0\<rparr>"

lemma demo_sends: "\<exists>s. sends True s [wire_frame [7] []]"
proof -
  have "pool_valid (new_pool 0 1 :: (sock_handler, addr) event_pool)" by (rule pool_isI [OF pool_is_new, THEN conjunct1]) simp
  then have start: "sends True demo_sock []"
    by (intro sends_start) (auto simp: demo_sock_def byte_order_ok_def)
  then obtain bss where ok: "out_ok True demo_sock bss" using sends_ok by blast
  have m: "msg_ok True demo_env 100 1 [] 0 0 [7] [] demo_sock"
    by (simp add: msg_ok_def demo_env_def demo_sock_def holds_def)
  have ok': "out_ok True (demo_sock\<lparr>sk_sched := [Io_Move 5, Io_Again]\<rparr>) bss" using ok by (rule out_ok_cong) simp_all
  have m': "msg_ok True demo_env 100 1 [] 0 0 [7] [] (demo_sock\<lparr>sk_sched := [Io_Move 5, Io_Again]\<rparr>)" using m by (simp add: msg_ok_def)
  obtain s where "socket_submit demo_env 100 1 [] 0 0 (demo_sock\<lparr>sk_sched := [Io_Move 5, Io_Again]\<rparr>) = Some (s, 0)"
    using submit_spec [OF ok' _ m'] by (fastforce simp: demo_env_def demo_sock_def)
  from sends_submit [OF start _ m this] show ?thesis by auto
qed

theorem socket_stream_order_witness:
  "\<exists>s. sends True s [wire_frame [7] []] \<and> io_tx (sk_io s) @ queue_bytes s = wire_frame [7] []"
proof -
  obtain s where "sends True s [wire_frame [7] []]" using demo_sends by blast
  with socket_stream_order [OF this] show ?thesis by auto
qed

end
