(* ===== verification/Lz_Socket_Recv.thy ===== *)
theory Lz_Socket_Recv
  imports Lz_Socket
begin

text \<open>
  The receiving side of \<^verbatim>\<open>src/src/socket.c\<close>: what the protocol state machine does with a stream that starts with a
  message.  It consumes the header, allocates the blocks, consumes exactly the bytes of the message, in any number of calls and
  whatever the kernel delivers in each, and hands out the two parts unchanged.  The laws of the buffer
  pool (theory \<open>Lz_Iobuf\<close>) give the page that the data is read into.
\<close>

section \<open>Reading\<close>

text \<open>The number of reads in which the kernel hands out something before it reports that it has nothing.\<close>

fun moves :: "io_step list \<Rightarrow> nat" where
  "moves (Io_Move k # ss) = (if k = 0 then 0 else Suc (moves ss))"
| "moves (Io_Intr # ss) = moves ss"
| "moves _ = 0"

lemma read_returns:
  "\<lbrakk>Io_Again \<in> set ss; \<forall>a \<in> set (sv_addrs vs). io_mem io a \<noteq> None; 0 \<notin> set (sv_addrs vs); n = int (length vs);
    vs = [] \<longleftrightarrow> sv_addrs vs = []\<rbrakk> \<Longrightarrow>
   \<exists>vs' n' ss' io'. socket_rwv False ss vs n io = Some (vs', n', ss', io') \<and> (n' = 0 \<longrightarrow> Io_Again \<in> set ss')
     \<and> (n' < 0 \<longrightarrow> Io_Fail \<in> set ss \<or> Io_Zero \<in> set ss) \<and> set ss' \<subseteq> set ss
     \<and> (0 < n' \<longrightarrow> io_rx io' = [] \<or> moves ss + length (io_rx io') \<le> length (io_rx io))
     \<and> (n' = 0 \<longrightarrow> moves ss + length (io_rx io') \<le> moves ss' + length (io_rx io))"
proof (induction ss arbitrary: vs n io)
  case (Cons s ss)
  have nz: "\<not> n < 0" "\<not> length vs < nat n" "take (nat n) vs = vs" "\<not> null_first vs"
    using Cons.prems(3,4) by (simp_all add: null_first_addrs)
  show ?case
  proof (cases "n = 0")
    case False
    show ?thesis
    proof (cases s)
      case (Io_Move k)
      define c where "c = take (min k (sv_total vs)) (io_rx io)"
      have k: "min k (min (sv_total vs) (length (io_rx io))) = length c" "take (length c) (io_rx io) = c"
          "length c \<le> sv_total vs"
        by (auto simp: c_def min_def)
      let ?io = "io\<lparr>io_mem := (io_mem io)(take (length c) (sv_addrs vs) [\<mapsto>] c), io_rx := drop (length c) (io_rx io)\<rparr>"
      show ?thesis
      proof (cases "c = []")
        case True
        then have "io_rx io = [] \<or> k = 0 \<or> sv_total vs = 0" by (auto simp: c_def min_def split: if_splits)
        then show ?thesis using True nz k False Cons.prems(4,5) by (auto simp: sys_readv_def Io_Move sv_total_addrs)
      next
        case c: False
        have r: "sys_readv s vs n io = Some (Io_Ret (length c), ?io)"
          using nz c k sv_store_upds [OF Cons.prems(2) k(3)] by (simp add: sys_readv_def Io_Move Let_def)
        from advance_spec [OF _ k(3) Cons.prems(4)] c obtain vs1 where vs1: "advance (length c) vs n = Some (vs1, int (length vs1))"
            "sv_addrs vs1 = drop (length c) (sv_addrs vs)" "vs1 = [] \<longleftrightarrow> length c = sv_total vs" by auto
        have sub: "set (sv_addrs vs1) \<subseteq> set (sv_addrs vs)" using vs1(2) by (simp add: set_drop_subset)
        have "io_mem ?io a \<noteq> None" if "a \<in> set (sv_addrs vs1)" for a
          using map_upds_mapped [of "io_mem io" a] Cons.prems(2) sub that by auto
        moreover have "0 \<notin> set (sv_addrs vs1)" using Cons.prems(3) sub by blast
        moreover have "vs1 = [] \<longleftrightarrow> sv_addrs vs1 = []" using vs1(2,3) k(3) by (auto simp: sv_total_addrs)
        moreover have "Io_Again \<in> set ss" using Cons.prems(1) Io_Move by simp
        ultimately obtain vs' n' ss' io' where x: "socket_rwv False ss vs1 (int (length vs1)) ?io = Some (vs', n', ss', io')"
            "n' = 0 \<longrightarrow> Io_Again \<in> set ss'" "n' < 0 \<longrightarrow> Io_Fail \<in> set ss \<or> Io_Zero \<in> set ss" "set ss' \<subseteq> set ss"
            "0 < n' \<longrightarrow> io_rx io' = [] \<or> moves ss + length (io_rx io') \<le> length (io_rx ?io)"
            "n' = 0 \<longrightarrow> moves ss + length (io_rx io') \<le> moves ss' + length (io_rx ?io)"
          using Cons.IH [of vs1 ?io "int (length vs1)"] by blast
        have "length (io_rx ?io) < length (io_rx io)" "k \<noteq> 0" using c by (auto simp: c_def)
        then show ?thesis using x r c False vs1 Io_Move by fastforce
      qed
    next
      case Io_Intr
      then have "Io_Again \<in> set ss" using Cons.prems(1) by simp
      from Cons.IH [OF this Cons.prems(2-)] show ?thesis using Io_Intr False nz by (fastforce simp: sys_readv_def)
    qed (use Cons.prems False nz in \<open>auto simp: sys_readv_def\<close>)
  qed (use Cons.prems in auto)
qed simp

section \<open>The header\<close>

lemma frame_header:
  "take 12 (wire_frame h d) = [58, 79, 0] @ be_bytes32 (of_nat (length h)) @ be_bytes32 (of_nat (length d)) @ [42]"
  "drop 12 (wire_frame h d) = h @ d"
  by (simp_all add: wire_frame_def numeral_eq_Suc be_bytes32_def le_bytes32_def)

lemma length_frame [simp]: "length (wire_frame h d) = 12 + length h + length d"
  by (simp add: wire_frame_def)

lemma ntoh32_be:
  assumes "byte_order_ok little bo"
  shows "\<exists>bo'. hton32 little bo (of_le_bytes32 (if little then be_bytes32 x else rev (be_bytes32 x))) = (bo', x)
    \<and> byte_order_ok little bo'"
proof -
  let ?h = "of_le_bytes32 (if little then be_bytes32 x else rev (be_bytes32 x))"
  have h: "?h = (if little then swap32 x else x)" using of_le_be_bytes32 [of x] by (simp add: be_bytes32_def)
  obtain s' n where r: "hton32 little bo ?h = (s', n)" by fastforce
  have "n = x" using hton_ok_result(2) [OF assms, of ?h] r h by (simp del: hton32.simps split: if_splits)
  moreover have "byte_order_ok little s'" using hton_step_ok [OF assms, of "Call32 ?h"] r by (simp del: hton32.simps)
  ultimately show ?thesis using r by simp
qed

lemma validate_frame:
  assumes bo: "byte_order_ok little bo" and h: "0 < length h" "length h \<le> 1048576" and d: "length d \<le> 131072"
  shows "\<exists>bo'. socket_proto_validate_header little bo (take 12 (wire_frame h d)) = (bo', 0, length h, length d) \<and> byte_order_ok little bo'"
proof -
  let ?x = "of_nat (length h) :: u32" and ?y = "of_nat (length d) :: u32" and ?hdr = "take 12 (wire_frame h d)"
  have words: "take 4 (drop 3 ?hdr) = be_bytes32 ?x" "take 4 (drop 7 ?hdr) = be_bytes32 ?y" "take 3 ?hdr = [58, 79, 0]" "?hdr ! 11 = 42"
    unfolding frame_header by (simp_all add: be_bytes32_def le_bytes32_def numeral_eq_Suc)
  obtain bo1 where b1: "hton32 little bo (of_le_bytes32 (if little then be_bytes32 ?x else rev (be_bytes32 ?x))) = (bo1, ?x)" "byte_order_ok little bo1"
    using ntoh32_be [OF bo] by blast
  obtain bo2 where b2: "hton32 little bo1 (of_le_bytes32 (if little then be_bytes32 ?y else rev (be_bytes32 ?y))) = (bo2, ?y)" "byte_order_ok little bo2"
    using ntoh32_be [OF b1(2)] by blast
  have "unat ?x = length h" "unat ?y = length d" using h d by (simp_all add: unsigned_of_nat take_bit_nat_eq_self)
  then show ?thesis using words b1 b2 h d
    unfolding socket_proto_validate_header_def by (cases little) (simp_all add: Let_def del: hton32.simps)
qed

section \<open>The state of the receiver\<close>

text \<open>The pages of the buffer pool are allocated memory.\<close>

definition mem_regions :: "byte_mem \<Rightarrow> iob_store \<Rightarrow> bool" where
  "mem_regions m iobs \<longleftrightarrow> (\<forall>base sz a. mapped iobs base = Some sz \<and> base \<le> a \<and> a < base + sz \<longrightarrow> m a \<noteq> None)"

text \<open>
  What a call may rely on: \<^verbatim>\<open>MALLOC\<close> returns fresh memory for the header block, the buffer pool is well formed
  with pages that hold the largest message, and it can provide a page.
\<close>

definition recv_env :: "bool \<Rightarrow> sock_env \<Rightarrow> nat \<Rightarrow> sock \<Rightarrow> bool" where
  "recv_env little env n s \<longleftrightarrow>
     e_little env = little \<and> byte_order_ok little (sk_bo s) \<and> e_malloc env \<noteq> 0
     \<and> (\<forall>a. e_malloc env \<le> a \<and> a < e_malloc env + n \<longrightarrow> io_mem (sk_io s) a = None)
     \<and> (\<exists>p. iob_inv (sk_iobuf_pool s) p (sk_iobs s) \<and> 131072 \<le> page_size p \<and> allocs_fresh p (sk_iobs s) (e_arena env))
     \<and> alloc_succeeds (e_arena env)
     \<and> (\<forall>iobs' x. iobuf_get (e_arena env) (sk_iobuf_pool s) (sk_iobs s) = Some (iobs', x) \<longrightarrow> mem_regions (io_mem (sk_io s)) iobs')"

text \<open>The addresses of the two parts of the message.\<close>

definition data_addrs :: "u8 list \<Rightarrow> u8 list \<Rightarrow> incoming \<Rightarrow> addr list" where
  "data_addrs h d i = [in_hdr_p i ..< in_hdr_p i + length h] @ [in_buf_p i ..< in_buf_p i + length d]"

definition blocks_ok :: "u8 list \<Rightarrow> u8 list \<Rightarrow> sock \<Rightarrow> bool" where
  "blocks_ok h d s \<longleftrightarrow>
     (let i = sp_incoming (sk_priv s)
      in in_hdrlen i = length h \<and> in_buflen i = length d \<and> (d = [] \<longrightarrow> in_iobuf i = 0)
         \<and> (d \<noteq> [] \<longrightarrow> in_iobuf i \<noteq> 0 \<and> (\<exists>b. bufs (sk_iobs s) (in_iobuf i) = Some b \<and> buf_ptr b = in_buf_p i)))"

text \<open>The bytes \<open>c\<close> of the message have been consumed.\<close>

definition in_ok :: "u8 list \<Rightarrow> u8 list \<Rightarrow> u8 list \<Rightarrow> sock \<Rightarrow> bool" where
  "in_ok h d c s \<longleftrightarrow>
     (let i = sp_incoming (sk_priv s); m = io_mem (sk_io s); H = [sp_header (sk_priv s) ..< sp_header (sk_priv s) + 12]
      in m 0 = None \<and> (\<forall>a \<in> set H. m a \<noteq> None)
         \<and> (case in_state i of
              Proto_Nada \<Rightarrow> c = [] \<and> in_iobuf i = 0
            | Proto_Header_Coming \<Rightarrow> length (in_pending_vector i) = 1 \<and> length c < 12 \<and> in_iobuf i = 0
                \<and> sv_addrs (in_pending_vector i) = drop (length c) H \<and> holds m (take (length c) H) c
            | Proto_Header_Came \<Rightarrow> length c = 12 \<and> in_iobuf i = 0 \<and> holds m H c
            | Proto_Data_Coming \<Rightarrow> blocks_ok h d s \<and> distinct (data_addrs h d i) \<and> (\<forall>a \<in> set (data_addrs h d i). m a \<noteq> None)
                \<and> 12 \<le> length c \<and> length c < 12 + length h + length d
                \<and> holds m (take (length c - 12) (data_addrs h d i)) (drop 12 c)
                \<and> sv_addrs (in_pending_vector i) = drop (length c - 12) (data_addrs h d i)
                \<and> in_pending_count i = int (length (in_pending_vector i))
            | Proto_Data_Came \<Rightarrow> blocks_ok h d s \<and> length c = 12 + length h + length d \<and> holds m (data_addrs h d i) (drop 12 c)
            | Proto_Complete \<Rightarrow> blocks_ok h d s \<and> length c = 12 + length h + length d \<and> holds m (data_addrs h d i) (drop 12 c)))"

text \<open>What \<open>socket_receive\<close> hands out: the header block holds \<open>h\<close>, and the buffer, if there is data, holds \<open>d\<close>.\<close>

definition delivers :: "u8 list \<Rightarrow> u8 list \<Rightarrow> addr \<times> nat \<times> addr \<Rightarrow> sock \<Rightarrow> bool" where
  "delivers h d out s \<longleftrightarrow>
     (case out of (hdr_p, hdrlen, iobuf) \<Rightarrow>
        hdrlen = length h \<and> mem_load (io_mem (sk_io s)) hdr_p (length h) = Some h
        \<and> (if d = [] then iobuf = 0
           else \<exists>b. bufs (sk_iobs s) iobuf = Some b \<and> mem_load (io_mem (sk_io s)) (buf_ptr b) (length d) = Some d))"

lemma in_ok_complete:
  assumes "in_ok h d c s" and "in_state (sp_incoming (sk_priv s)) = Proto_Complete" and "c @ rest' = wire_frame h d @ rest"
  shows "delivers h d (in_hdr_p (sp_incoming (sk_priv s)), in_hdrlen (sp_incoming (sk_priv s)), in_iobuf (sp_incoming (sk_priv s))) s"
    and "rest' = rest"
proof -
  let ?i = "sp_incoming (sk_priv s)" and ?m = "io_mem (sk_io s)"
  have c: "length c = 12 + length h + length d" "holds ?m (data_addrs h d ?i) (drop 12 c)" "blocks_ok h d s"
    using assms(1,2) by (auto simp: in_ok_def Let_def)
  then have "c = wire_frame h d" "rest' = rest" using assms(3) by simp_all
  then have "holds ?m (data_addrs h d ?i) (h @ d)" using c(2) by (simp add: frame_header(2))
  then obtain cs ds where cd: "h @ d = cs @ ds" "holds ?m [in_hdr_p ?i ..< in_hdr_p ?i + length h] cs"
      "holds ?m [in_buf_p ?i ..< in_buf_p ?i + length d] ds"
    unfolding data_addrs_def holds_append by blast
  have "length cs = length h" using holds_length [OF cd(2)] by simp
  then have "cs = h" "ds = d" using cd(1) by simp_all
  then have "holds ?m [in_hdr_p ?i ..< in_hdr_p ?i + length h] h" "holds ?m [in_buf_p ?i ..< in_buf_p ?i + length d] d"
    using cd by simp_all
  then show "delivers h d (in_hdr_p ?i, in_hdrlen ?i, in_iobuf ?i) s" using c(3)
    by (auto simp: delivers_def blocks_ok_def mem_load_iff Let_def)
  show "rest' = rest" by fact
qed

section \<open>The turns of the loop\<close>

text \<open>Reading into the rest of the addresses \<open>A\<close>, of which the first hold \<open>c0\<close>.\<close>

lemma read_rest:
  assumes again: "Io_Again \<in> set sched" and A: "distinct A" "\<forall>a \<in> set A. io_mem io a \<noteq> None" "io_mem io 0 = None"
    and vs: "sv_addrs vs = drop (length c0) A" "length c0 < length A" "n = int (length vs)"
    and c0: "holds (io_mem io) (take (length c0) A) c0"
  shows "\<exists>vs' n' ss' io' c1. socket_readv sched vs n io = Some (vs', n', ss', io') \<and> io_rx io = c1 @ io_rx io'
    \<and> io_tx io' = io_tx io \<and> dom (io_mem io') = dom (io_mem io) \<and> length (c0 @ c1) \<le> length A
    \<and> holds (io_mem io') (take (length (c0 @ c1)) A) (c0 @ c1) \<and> sv_addrs vs' = drop (length (c0 @ c1)) A
    \<and> (n' = int (length vs') \<or> n' = -1) \<and> (n' = 0 \<longleftrightarrow> length (c0 @ c1) = length A) \<and> length vs' \<le> length vs
    \<and> (n' = 0 \<longrightarrow> Io_Again \<in> set ss') \<and> (n' < 0 \<longrightarrow> Io_Fail \<in> set sched \<or> Io_Zero \<in> set sched)
    \<and> set ss' \<subseteq> set sched
    \<and> (0 < n' \<longrightarrow> io_rx io' = [] \<or> moves sched + length (io_rx io') \<le> length (io_rx io))
    \<and> (n' = 0 \<longrightarrow> moves sched + length (io_rx io') \<le> moves ss' + length (io_rx io))"
proof -
  have mapped: "\<forall>a \<in> set (sv_addrs vs). io_mem io a \<noteq> None" and null: "0 \<notin> set (sv_addrs vs)"
    using A(2,3) vs(1) by (metis in_set_dropD)+
  have ne: "vs = [] \<longleftrightarrow> sv_addrs vs = []" using vs(1,2) by auto
  obtain vs' n' ss' io' where r: "socket_rwv False sched vs n io = Some (vs', n', ss', io')" "n' = 0 \<longrightarrow> Io_Again \<in> set ss'"
      "n' < 0 \<longrightarrow> Io_Fail \<in> set sched \<or> Io_Zero \<in> set sched" "set ss' \<subseteq> set sched"
      "0 < n' \<longrightarrow> io_rx io' = [] \<or> moves sched + length (io_rx io') \<le> length (io_rx io)"
      "n' = 0 \<longrightarrow> moves sched + length (io_rx io') \<le> moves ss' + length (io_rx io)"
    using read_returns [OF again mapped null vs(3) ne] by blast
  obtain c1 where c1: "length c1 \<le> sv_total vs" "io_rx io = c1 @ io_rx io'" "io_tx io' = io_tx io"
      "io_mem io' = (io_mem io)(take (length c1) (sv_addrs vs) [\<mapsto>] c1)" "sv_addrs vs' = drop (length c1) (sv_addrs vs)"
      "n' = int (length vs') \<or> n' = -1" "n' = 0 \<longleftrightarrow> length c1 = sv_total vs"
    using socket_readv_spec [OF r(1) mapped null vs(3) ne] by blast
  let ?B = "take (length c1) (drop (length c0) A)"
  have len: "length c1 \<le> length A - length c0" using c1(1) vs(1) by (simp add: sv_total_addrs)
  have mem: "io_mem io' = (io_mem io)(?B [\<mapsto>] c1)" using c1(4) vs(1) by simp
  have "set (take (length c0) A) \<inter> set ?B = {}"
    using A(1) by (metis disjoint_iff in_set_takeD set_take_disj_set_drop_if_distinct order_refl)
  then have "holds (io_mem io') (take (length c0) A) c0"
    using c0 holds_cong [of "take (length c0) A" "io_mem io'" "io_mem io" c0] mem by (auto simp: disjoint_iff)
  moreover have "holds (io_mem io') ?B c1" unfolding mem using A(1) len by (intro holds_upds) simp_all
  ultimately have "holds (io_mem io') (take (length c0) A @ ?B) (c0 @ c1)" by (rule holds_appendI)
  then have "holds (io_mem io') (take (length (c0 @ c1)) A) (c0 @ c1)" by (simp add: take_add)
  moreover have "dom (io_mem io') = dom (io_mem io)"
    unfolding mem using A(2) len by (auto dest!: in_set_takeD in_set_dropD)
  moreover have "sv_addrs vs' = drop (length (c0 @ c1)) A" using c1(5) vs(1) by (simp add: add.commute)
  moreover have "n' = 0 \<longleftrightarrow> length (c0 @ c1) = length A" using c1(7) vs(1,2) by (auto simp: sv_total_addrs)
  ultimately show ?thesis using r c1 len vs(2) socket_rwv_length [OF r(1)] by (auto simp: socket_readv_def)
qed

text \<open>
  What a call of the state machine leaves: a complete message, a part of one, or a broken connection.  \<open>fut\<close> are the bytes of the
  stream that have not arrived, \<open>rest\<close> the stream after the message, \<open>n\<close> the number of bytes that could be read at the beginning of
  the call.
\<close>

definition recv_result :: "u8 list \<Rightarrow> u8 list \<Rightarrow> u8 list \<Rightarrow> u8 list \<Rightarrow> nat \<Rightarrow> io_step list \<Rightarrow> sock \<Rightarrow> int \<Rightarrow> bool" where
  "recv_result h d fut rest n sched s ret \<longleftrightarrow>
     (\<exists>c. c @ io_rx (sk_io s) @ fut = wire_frame h d @ rest
        \<and> (ret = 0 \<and> in_state (sp_incoming (sk_priv s)) = Proto_Complete \<and> in_ok h d c s
           \<or> ret > 0 \<and> in_state (sp_incoming (sk_priv s)) \<in> {Proto_Header_Coming, Proto_Data_Coming} \<and> in_ok h d c s
             \<and> (io_rx (sk_io s) = [] \<or> moves sched + length (io_rx (sk_io s)) \<le> n)
           \<or> ret < 0 \<and> (Io_Fail \<in> set sched \<or> Io_Zero \<in> set sched)))"

lemma recv_result_mono:
  assumes "recv_result h d fut rest n ss s ret" and "set ss \<subseteq> set sched" and "moves sched + n \<le> moves ss + n'"
  shows "recv_result h d fut rest n' sched s ret"
proof -
  have "io_rx (sk_io s) = [] \<or> moves sched + length (io_rx (sk_io s)) \<le> n'"
    if "io_rx (sk_io s) = [] \<or> moves ss + length (io_rx (sk_io s)) \<le> n" using that assms(3) by linarith
  then show ?thesis using assms(1,2) unfolding recv_result_def by blast
qed

lemma loop_data_came:
  assumes "in_ok h d c s" and "in_state (sp_incoming (sk_priv s)) = Proto_Data_Came" and "prev \<noteq> Some Proto_Data_Came"
    and "c @ io_rx (sk_io s) @ fut = wire_frame h d @ rest"
  shows "\<exists>s'. proto_loop (Suc (Suc n)) env prev 0 s = Some (s', 0) \<and> recv_result h d fut rest k sched s' 0"
  using assms by (auto simp: proto_turn_def recv_result_def in_ok_def blocks_ok_def data_addrs_def Let_def intro!: exI [of _ c])

lemma loop_data_coming:
  assumes ok: "in_ok h d c s" and st: "in_state (sp_incoming (sk_priv s)) = Proto_Data_Coming" "prev \<noteq> Some Proto_Data_Coming"
    and rx: "c @ io_rx (sk_io s) @ fut = wire_frame h d @ rest" and again: "Io_Again \<in> set (sk_sched s)"
  shows "\<exists>s' ret'. proto_loop (Suc (Suc (Suc n))) env prev ret s = Some (s', ret') \<and> recv_result h d fut rest (length (io_rx (sk_io s))) (sk_sched s) s' ret'"
proof -
  let ?i = "sp_incoming (sk_priv s)" and ?io = "sk_io s"
  let ?A = "data_addrs h d ?i" and ?c0 = "drop 12 c"
  have I: "blocks_ok h d s" "distinct ?A" "\<forall>a \<in> set ?A. io_mem ?io a \<noteq> None" "io_mem ?io 0 = None" "12 \<le> length c"
      "length c < 12 + length h + length d" "holds (io_mem ?io) (take (length ?c0) ?A) ?c0"
      "sv_addrs (in_pending_vector ?i) = drop (length ?c0) ?A" "in_pending_count ?i = int (length (in_pending_vector ?i))"
      "\<forall>a \<in> set [sp_header (sk_priv s) ..< sp_header (sk_priv s) + 12]. io_mem ?io a \<noteq> None"
    using ok st(1) by (auto simp: in_ok_def Let_def)
  have lA: "length ?A = length h + length d" by (simp add: data_addrs_def)
  then have "length ?c0 < length ?A" using I(5,6) by simp
  from read_rest [OF again I(2,3,4,8) this I(9,7)] obtain vs n' ss io c1 where
      r: "socket_readv (sk_sched s) (in_pending_vector ?i) (in_pending_count ?i) ?io = Some (vs, n', ss, io)"
      "io_rx ?io = c1 @ io_rx io" "dom (io_mem io) = dom (io_mem ?io)" "length (?c0 @ c1) \<le> length ?A"
      "holds (io_mem io) (take (length (?c0 @ c1)) ?A) (?c0 @ c1)" "sv_addrs vs = drop (length (?c0 @ c1)) ?A"
      "n' = int (length vs) \<or> n' = -1" "n' = 0 \<longleftrightarrow> length (?c0 @ c1) = length ?A"
      "n' < 0 \<longrightarrow> Io_Fail \<in> set (sk_sched s) \<or> Io_Zero \<in> set (sk_sched s)"
      "0 < n' \<longrightarrow> io_rx io = [] \<or> moves (sk_sched s) + length (io_rx io) \<le> length (io_rx ?io)"
    by blast
  have c: "drop 12 (c @ c1) = ?c0 @ c1" "length (c @ c1) - 12 = length (?c0 @ c1)" using I(5) by simp_all
  have rx': "(c @ c1) @ io_rx io @ fut = wire_frame h d @ rest" using rx r(2) by simp
  have mapped: "io_mem io 0 = None" "\<forall>a \<in> set ?A. io_mem io a \<noteq> None"
      "\<forall>a \<in> set [sp_header (sk_priv s) ..< sp_header (sk_priv s) + 12]. io_mem io a \<noteq> None"
    using I(3,4,10) r(3) by (metis domIff)+
  let ?s1 = "upd_in (\<lambda>i. i\<lparr>in_pending_count := n'\<rparr>) (upd_in (\<lambda>i. i\<lparr>in_pending_vector := vs\<rparr>) (s\<lparr>sk_io := io, sk_sched := ss\<rparr>))"
  show ?thesis
  proof (cases "n' = 0")
    case True
    let ?s2 = "upd_in (\<lambda>i. i\<lparr>in_state := Proto_Data_Came\<rparr>) ?s1"
    have "proto_loop (Suc (Suc (Suc n))) env prev ret s = proto_loop (Suc (Suc n)) env (Some Proto_Data_Coming) 0 ?s2"
      using st r(1) True by (simp add: proto_turn_def socket_read_pending_def Let_def del: upd_simps)
    moreover have "in_ok h d (c @ c1) ?s2"
      using I(1,5) mapped r(5,8) True lA c by (simp add: in_ok_def blocks_ok_def data_addrs_def Let_def)
    ultimately show ?thesis
      using loop_data_came [of h d "c @ c1" ?s2 "Some Proto_Data_Coming" fut rest n env "length (io_rx ?io)" "sk_sched s"] rx' by auto
  next
    case False
    have eq: "proto_loop (Suc (Suc (Suc n))) env prev ret s = Some (?s1, n')"
      using st r(1) False by (simp add: proto_turn_def socket_read_pending_def Let_def del: upd_simps)
    have "recv_result h d fut rest (length (io_rx ?io)) (sk_sched s) ?s1 n'"
    proof (cases "n' < 0")
      case True
      then show ?thesis using r(9) rx' by (auto simp: recv_result_def intro!: exI [of _ "c @ c1"])
    next
      case pos: False
      then have "in_ok h d (c @ c1) ?s1"
        using I(1,2,5) mapped r(4-8) False lA c st(1) by (auto simp: in_ok_def blocks_ok_def data_addrs_def Let_def)
      then show ?thesis using rx' pos False st(1) r(10) by (auto simp: recv_result_def intro!: exI [of _ "c @ c1"])
    qed
    then show ?thesis using eq by blast
  qed
qed

text \<open>The page that the buffer pool provides.\<close>

lemma get_page:
  assumes inv: "iob_inv pool p iobs" and page: "131072 \<le> page_size p" and f: "allocs_fresh p iobs al" "alloc_succeeds al"
    and m: "\<forall>iobs' x. iobuf_get al pool iobs = Some (iobs', x) \<longrightarrow> mem_regions m iobs'" and n: "n \<le> 131072"
  shows "\<exists>iobs' x b. iobuf_get al pool iobs = Some (iobs', x) \<and> x \<noteq> 0 \<and> bufs iobs' x = Some b
    \<and> (\<forall>a. buf_ptr b \<le> a \<and> a < buf_ptr b + n \<longrightarrow> m a \<noteq> None)"
proof -
  obtain iobs' x p' where g: "iobuf_get al pool iobs = Some (iobs', x)" "iob_inv pool p' iobs'" "same_sizes p p'" "x \<noteq> 0"
      "refs iobs x = 0" "changes_ref iobs iobs' x 1"
    using iobuf_get_inv [OF inv f(1)] f(2) by blast
  have "refs iobs' x = 1" using g(5,6) by (simp add: changes_ref_def)
  then obtain b where b: "bufs iobs' x = Some b" by (auto simp: refs_def split: option.splits)
  obtain base where r: "mapped iobs' base = Some (arena_size p')"
      "page_of iobs' (page_size p') x \<subseteq> {base ..< base + arena_size p'}"
    by (rule page_in_region [OF g(2) b])
  have "m a \<noteq> None" if "buf_ptr b \<le> a" "a < buf_ptr b + n" for a
  proof -
    have "a \<in> page_of iobs' (page_size p') x" using that b page n g(3) by (simp add: page_of_def same_sizes_def)
    then have "base \<le> a \<and> a < base + arena_size p'" using r(2) by auto
    then show ?thesis using m g(1) r(1) unfolding mem_regions_def by blast
  qed
  then show ?thesis using g(1,4) b by blast
qed

lemma mem_alloc_dom: "a \<noteq> 0 \<Longrightarrow> mem_alloc a n m b \<noteq> None \<longleftrightarrow> m b \<noteq> None \<or> a \<le> b \<and> b < a + n"
proof -
  assume "a \<noteq> 0"
  then have "dom (mem_alloc a n m) = {a ..< a + n} \<union> dom m" by (simp add: mem_alloc_def)
  then show ?thesis by (metis UnE UnI1 UnI2 atLeastLessThan_iff domIff)
qed

lemma turn_header_came:
  assumes ok: "in_ok h d c s" and st: "in_state (sp_incoming (sk_priv s)) = Proto_Header_Came"
    and rx: "c @ io_rx (sk_io s) @ fut = wire_frame h d @ rest" and env: "recv_env little env (length h) s"
    and h: "0 < length h" "length h \<le> 1048576" and d: "length d \<le> 131072"
  shows "\<exists>s1. proto_turn env ret s = Some (s1, 0, False) \<and> in_ok h d c s1 \<and> in_state (sp_incoming (sk_priv s1)) = Proto_Data_Coming
    \<and> io_rx (sk_io s1) = io_rx (sk_io s) \<and> sk_sched s1 = sk_sched s"
proof -
  let ?m = "io_mem (sk_io s)" and ?a = "e_malloc env"
  have I: "length c = 12" "in_iobuf (sp_incoming (sk_priv s)) = 0" "?m 0 = None"
      "holds ?m [sp_header (sk_priv s) ..< sp_header (sk_priv s) + 12] c"
      "\<forall>x \<in> set [sp_header (sk_priv s) ..< sp_header (sk_priv s) + 12]. ?m x \<noteq> None"
    using ok st by (auto simp: in_ok_def Let_def)
  have load: "mem_load ?m (sp_header (sk_priv s)) 12 = Some c" using I(4) by (simp add: mem_load_iff)
  have "take 12 (c @ io_rx (sk_io s) @ fut) = take 12 (wire_frame h d @ rest)" using rx by simp
  then have c: "c = take 12 (wire_frame h d)" using I(1) by simp
  have E: "e_little env = little" "byte_order_ok little (sk_bo s)" "?a \<noteq> 0"
      "\<And>x. ?a \<le> x \<and> x < ?a + length h \<Longrightarrow> ?m x = None" "alloc_succeeds (e_arena env)"
      "\<forall>iobs' x. iobuf_get (e_arena env) (sk_iobuf_pool s) (sk_iobs s) = Some (iobs', x) \<longrightarrow> mem_regions ?m iobs'"
    using env unfolding recv_env_def by blast+
  obtain p where p: "iob_inv (sk_iobuf_pool s) p (sk_iobs s)" "131072 \<le> page_size p" "allocs_fresh p (sk_iobs s) (e_arena env)"
    using env unfolding recv_env_def by blast
  obtain bo where v: "socket_proto_validate_header (e_little env) (sk_bo s) c = (bo, 0, length h, length d)"
    using validate_frame [OF E(2) h d] E(1) c by auto
  obtain iobs x b where g: "iobuf_get (e_arena env) (sk_iobuf_pool s) (sk_iobs s) = Some (iobs, x)" "x \<noteq> 0" "bufs iobs x = Some b"
      "\<And>a. buf_ptr b \<le> a \<and> a < buf_ptr b + length d \<Longrightarrow> ?m a \<noteq> None"
    using get_page [OF p E(5,6) d] by blast
  note dom = mem_alloc_dom [OF E(3), of "length h" ?m]
  have null: "mem_alloc ?a (length h) ?m 0 = None" using dom [of 0] I(3) E(3) by auto
  note defs = proto_turn_def proto_header_came_def in_ok_def blocks_ok_def data_addrs_def Let_def
  show ?thesis
  proof (cases "d = []")
    case True
    then show ?thesis using st load v I h E(3) dom null by (auto simp: defs holds_def simp del: mem_load.simps)
  next
    case False
    have "{?a ..< ?a + length h} \<inter> {buf_ptr b ..< buf_ptr b + length d} = {}" using E(4) g(4) by fastforce
    then show ?thesis using False st load v I h E(3) g dom null by (auto simp: defs holds_def simp del: mem_load.simps)
  qed
qed

lemma loop_header_came:
  assumes ok: "in_ok h d c s" and st: "in_state (sp_incoming (sk_priv s)) = Proto_Header_Came" "prev \<noteq> Some Proto_Header_Came"
    and rx: "c @ io_rx (sk_io s) @ fut = wire_frame h d @ rest" and env: "recv_env little env (length h) s"
    and h: "0 < length h" "length h \<le> 1048576" and d: "length d \<le> 131072" and again: "Io_Again \<in> set (sk_sched s)"
  shows "\<exists>s' ret'. proto_loop (Suc (Suc (Suc (Suc n)))) env prev ret s = Some (s', ret') \<and> recv_result h d fut rest (length (io_rx (sk_io s))) (sk_sched s) s' ret'"
proof -
  obtain s1 where t: "proto_turn env ret s = Some (s1, 0, False)" "in_ok h d c s1"
      "in_state (sp_incoming (sk_priv s1)) = Proto_Data_Coming" "io_rx (sk_io s1) = io_rx (sk_io s)" "sk_sched s1 = sk_sched s"
    using turn_header_came [OF ok st(1) rx env h d] by blast
  have "proto_loop (Suc (Suc (Suc (Suc n)))) env prev ret s = proto_loop (Suc (Suc (Suc n))) env (Some Proto_Header_Came) 0 s1"
    using st t(1) by (simp only: proto_loop.simps Let_def) simp
  then show ?thesis
    using loop_data_coming [OF t(2,3), of "Some Proto_Header_Came" fut rest n env 0] rx again t(4,5) by simp
qed

lemma recv_env_cong:
  assumes "recv_env little env n s" and "dom (io_mem (sk_io s')) = dom (io_mem (sk_io s))" and "sk_bo s' = sk_bo s"
    and "sk_iobs s' = sk_iobs s" and "sk_iobuf_pool s' = sk_iobuf_pool s"
  shows "recv_env little env n s'"
proof -
  have "io_mem (sk_io s') a = None \<longleftrightarrow> io_mem (sk_io s) a = None" for a using assms(2) by (metis domIff)
  then show ?thesis using assms unfolding recv_env_def mem_regions_def by simp
qed

lemma loop_header_coming:
  assumes ok: "in_ok h d c s" and st: "in_state (sp_incoming (sk_priv s)) = Proto_Header_Coming" "prev \<noteq> Some Proto_Header_Coming"
    and rx: "c @ io_rx (sk_io s) @ fut = wire_frame h d @ rest" and env: "recv_env little env (length h) s"
    and h: "0 < length h" "length h \<le> 1048576" and d: "length d \<le> 131072" and again: "Io_Again \<in> set (sk_sched s)"
  shows "\<exists>s' ret'. proto_loop (Suc (Suc (Suc (Suc (Suc n))))) env prev ret s = Some (s', ret')
    \<and> recv_result h d fut rest (length (io_rx (sk_io s))) (sk_sched s) s' ret'"
proof -
  let ?i = "sp_incoming (sk_priv s)" and ?io = "sk_io s" and ?H = "[sp_header (sk_priv s) ..< sp_header (sk_priv s) + 12]"
  have I: "length (in_pending_vector ?i) = 1" "length c < length ?H" "in_iobuf ?i = 0" "io_mem ?io 0 = None"
      "sv_addrs (in_pending_vector ?i) = drop (length c) ?H" "holds (io_mem ?io) (take (length c) ?H) c"
      "\<forall>a \<in> set ?H. io_mem ?io a \<noteq> None"
    using ok st(1) by (auto simp: in_ok_def Let_def)
  have one: "1 = int (length (in_pending_vector ?i))" using I(1) by simp
  have dH: "distinct ?H" by simp
  obtain vs n' ss io c1 where
      r: "socket_readv (sk_sched s) (in_pending_vector ?i) 1 ?io = Some (vs, n', ss, io)"
      "io_rx ?io = c1 @ io_rx io" "dom (io_mem io) = dom (io_mem ?io)" "length (c @ c1) \<le> length ?H"
      "holds (io_mem io) (take (length (c @ c1)) ?H) (c @ c1)" "sv_addrs vs = drop (length (c @ c1)) ?H"
      "n' = int (length vs) \<or> n' = -1" "n' = 0 \<longleftrightarrow> length (c @ c1) = length ?H" "length vs \<le> length (in_pending_vector ?i)"
      "n' = 0 \<longrightarrow> Io_Again \<in> set ss" "n' < 0 \<longrightarrow> Io_Fail \<in> set (sk_sched s) \<or> Io_Zero \<in> set (sk_sched s)" "set ss \<subseteq> set (sk_sched s)"
      "0 < n' \<longrightarrow> io_rx io = [] \<or> moves (sk_sched s) + length (io_rx io) \<le> length (io_rx ?io)"
      "n' = 0 \<longrightarrow> moves (sk_sched s) + length (io_rx io) \<le> moves ss + length (io_rx ?io)"
    using read_rest [OF again dH I(7,4,5,2) one I(6)] by blast
  have rx': "(c @ c1) @ io_rx io @ fut = wire_frame h d @ rest" using rx r(2) by simp
  have mapped: "io_mem io 0 = None" "\<forall>a \<in> set ?H. io_mem io a \<noteq> None" using I(4,7) r(3) by (metis domIff)+
  let ?s1 = "upd_in (\<lambda>i. i\<lparr>in_pending_vector := vs\<rparr>) (s\<lparr>sk_io := io, sk_sched := ss\<rparr>)"
  show ?thesis
  proof (cases "n' = 0")
    case True
    let ?s2 = "upd_in (\<lambda>i. i\<lparr>in_state := Proto_Header_Came\<rparr>) ?s1"
    have eq: "proto_loop (Suc (Suc (Suc (Suc (Suc n))))) env prev ret s
        = proto_loop (Suc (Suc (Suc (Suc n)))) env (Some Proto_Header_Coming) 0 ?s2"
      using st r(1) True by (simp add: proto_turn_def socket_read_pending_def Let_def del: upd_simps proto_loop.simps(2) add: proto_loop.simps(2) [of "Suc (Suc (Suc (Suc n)))"])
    have ok2: "in_ok h d (c @ c1) ?s2" using I(3) mapped r(5,8) True by (simp add: in_ok_def Let_def)
    have env2: "recv_env little env (length h) ?s2" using env by (rule recv_env_cong) (simp_all add: r(3))
    obtain s' ret' where l: "proto_loop (Suc (Suc (Suc (Suc n)))) env (Some Proto_Header_Coming) 0 ?s2 = Some (s', ret')"
        "recv_result h d fut rest (length (io_rx io)) ss s' ret'"
      using loop_header_came [OF ok2 _ _ _ env2 h d, of "Some Proto_Header_Coming" fut rest n 0] rx' r(10) True by auto
    have "recv_result h d fut rest (length (io_rx ?io)) (sk_sched s) s' ret'"
      using recv_result_mono [OF l(2), of "sk_sched s" "length (io_rx ?io)"] r(12,14) True by auto
    then show ?thesis using eq l(1) by auto
  next
    case False
    have eq: "proto_loop (Suc (Suc (Suc (Suc (Suc n))))) env prev ret s = Some (?s1, n')"
      using st r(1) False by (simp add: proto_turn_def socket_read_pending_def Let_def del: upd_simps)
    have "recv_result h d fut rest (length (io_rx ?io)) (sk_sched s) ?s1 n'"
    proof (cases "n' < 0")
      case True
      then show ?thesis using r(11) rx' by (auto simp: recv_result_def intro!: exI [of _ "c @ c1"])
    next
      case pos: False
      then have "length vs = 1" using r(7,9) I(1) False by linarith
      then have "in_ok h d (c @ c1) ?s1"
        using I(1,3) mapped r(4-9) False st(1) by (auto simp: in_ok_def Let_def)
      then show ?thesis using rx' pos False st(1) r(13) by (auto simp: recv_result_def intro!: exI [of _ "c @ c1"])
    qed
    then show ?thesis using eq by blast
  qed
qed

lemma poll_in_spec:
  assumes ok: "in_ok h d c s" and st: "in_state (sp_incoming (sk_priv s)) \<in> {Proto_Nada, Proto_Header_Coming, Proto_Data_Coming}"
    and rx: "c @ io_rx (sk_io s) @ fut = wire_frame h d @ rest" and env: "recv_env little env (length h) s"
    and h: "0 < length h" "length h \<le> 1048576" and d: "length d \<le> 131072" and again: "Io_Again \<in> set (sk_sched s)"
  shows "\<exists>s' ret. socket_event_poll_in env s = Some (s', ret) \<and> recv_result h d fut rest (length (io_rx (sk_io s))) (sk_sched s) s' ret"
proof -
  have six: "(6 :: nat) = Suc (Suc (Suc (Suc (Suc (Suc 0)))))" by simp
  note def = socket_event_poll_in_def socket_proto_state_machine_def six
  consider (nada) "in_state (sp_incoming (sk_priv s)) = Proto_Nada" | (hdr) "in_state (sp_incoming (sk_priv s)) = Proto_Header_Coming"
    | (dat) "in_state (sp_incoming (sk_priv s)) = Proto_Data_Coming"
    using st by blast
  then show ?thesis
  proof cases
    case nada
    let ?s1 = "upd_in (\<lambda>i. i\<lparr>in_pending_vector := [\<lparr>sv_base = sp_header (sk_priv s), sv_len = 12\<rparr>], in_state := Proto_Header_Coming\<rparr>) s"
    have eq: "proto_loop (Suc (Suc (Suc (Suc (Suc (Suc 0)))))) env None (-1) s
        = proto_loop (Suc (Suc (Suc (Suc (Suc 0))))) env (Some Proto_Nada) (-1) ?s1"
      using nada by (subst proto_loop.simps) (simp add: proto_turn_def Let_def)
    have ok1: "in_ok h d c ?s1" using ok nada by (auto simp: in_ok_def holds_def Let_def)
    have env1: "recv_env little env (length h) ?s1" using env by (rule recv_env_cong) simp_all
    show ?thesis unfolding def eq
      using loop_header_coming [OF ok1 _ _ _ env1 h d, of "Some Proto_Nada" fut rest 0 "-1"] rx again by simp
  next
    case hdr
    show ?thesis unfolding def by (rule loop_header_coming [OF ok hdr _ rx env h d again]) simp
  next
    case dat
    show ?thesis unfolding def by (rule loop_data_coming [OF ok dat _ rx again]) simp
  qed
qed

section \<open>Sessions\<close>

definition busy :: "sock \<Rightarrow> addr set" where
  "busy s = (let p = sk_priv s; i = sp_incoming p
     in {sp_header p ..< sp_header p + 12} \<union> {in_hdr_p i ..< in_hdr_p i + in_hdrlen i} \<union> {in_buf_p i ..< in_buf_p i + in_buflen i})"

text \<open>
  A connection from the side of the receiver: bytes arrive, the event handler reads, the owner of the transport takes a complete
  message, and in between it may use and release all memory and buffers but those of the message that
  is being received.  \<open>fut\<close> are the bytes that have not arrived, the last argument has the messages taken.
\<close>

inductive receives :: "bool \<Rightarrow> u8 list \<Rightarrow> u8 list \<Rightarrow> sock \<Rightarrow> (u8 list \<times> u8 list) list \<Rightarrow> bool" for little stream where
  recv_start: "\<lbrakk>sp_incoming (sk_priv s) = zero_incoming; io_mem (sk_io s) 0 = None;
    \<forall>a \<in> {sp_header (sk_priv s) ..< sp_header (sk_priv s) + 12}. io_mem (sk_io s) a \<noteq> None; io_rx (sk_io s) = []\<rbrakk>
    \<Longrightarrow> receives little stream stream s []"
| recv_arrive: "receives little stream (new @ fut) s ms
    \<Longrightarrow> receives little stream fut (s\<lparr>sk_io := (sk_io s)\<lparr>io_rx := io_rx (sk_io s) @ new\<rparr>\<rparr>) ms"
| recv_poll_in: "\<lbrakk>receives little stream fut s ms; in_state (sp_incoming (sk_priv s)) \<noteq> Proto_Complete; recv_env little env 1048576 s;
    Io_Again \<in> set sched; Io_Fail \<notin> set sched; Io_Zero \<notin> set sched;
    socket_event_poll_in env (s\<lparr>sk_sched := sched\<rparr>) = Some (s', ret)\<rbrakk>
    \<Longrightarrow> receives little stream fut s' ms"
| recv_take: "\<lbrakk>receives little stream fut s ms; socket_receive True s = (s', 0, Some out);
    delivers h d out s'; length d = in_buflen (sp_incoming (sk_priv s))\<rbrakk>
    \<Longrightarrow> receives little stream fut s' (ms @ [(h, d)])"
| recv_owner: "\<lbrakk>receives little stream fut s ms; m 0 = None; \<forall>a \<in> busy s. m a = io_mem (sk_io s) a;
    bufs iobs (in_iobuf (sp_incoming (sk_priv s))) = bufs (sk_iobs s) (in_iobuf (sp_incoming (sk_priv s)))\<rbrakk>
    \<Longrightarrow> receives little stream fut (s\<lparr>sk_io := (sk_io s)\<lparr>io_mem := m\<rparr>, sk_iobs := iobs\<rparr>) ms"

definition sizes_ok_msg :: "u8 list \<times> u8 list \<Rightarrow> bool" where
  "sizes_ok_msg x \<longleftrightarrow> 0 < length (fst x) \<and> length (fst x) \<le> 1048576 \<and> length (snd x) \<le> 131072"

definition frames :: "(u8 list \<times> u8 list) list \<Rightarrow> u8 list" where
  "frames ms = concat (map (\<lambda>(h, d). wire_frame h d) ms)"

text \<open>
  The invariant.  The stream is continued by one more message that never arrives, so that there is always a
  message to wait for.
\<close>

definition recv_inv :: "(u8 list \<times> u8 list) list \<Rightarrow> u8 list \<Rightarrow> sock \<Rightarrow> (u8 list \<times> u8 list) list \<Rightarrow> bool" where
  "recv_inv msgs fut s ms \<longleftrightarrow>
     (\<exists>todo h d c rest. msgs @ [([0], [])] = ms @ (h, d) # todo \<and> in_ok h d c s \<and> rest = frames todo
        \<and> in_state (sp_incoming (sk_priv s)) \<in> {Proto_Nada, Proto_Header_Coming, Proto_Data_Coming, Proto_Complete}
        \<and> c @ io_rx (sk_io s) @ fut @ wire_frame [0] [] = wire_frame h d @ rest)"

lemma recv_env_mono: "\<lbrakk>recv_env little env n s; k \<le> n\<rbrakk> \<Longrightarrow> recv_env little env k s"
  unfolding recv_env_def by (meson add_left_mono order_less_le_trans)

lemma in_ok_same:
  "\<lbrakk>in_ok h d c s; sk_priv s' = sk_priv s; io_mem (sk_io s') = io_mem (sk_io s); sk_iobs s' = sk_iobs s\<rbrakk> \<Longrightarrow> in_ok h d c s'"
proof -
  assume a: "in_ok h d c s" "sk_priv s' = sk_priv s" "io_mem (sk_io s') = io_mem (sk_io s)" "sk_iobs s' = sk_iobs s"
  then have b: "blocks_ok h d s' = blocks_ok h d s" by (simp add: blocks_ok_def)
  show ?thesis using a(1) unfolding in_ok_def b a(2,3) .
qed

lemma sizes_ok_next: "\<lbrakk>\<forall>x \<in> set msgs. sizes_ok_msg x; msgs @ [([0], [])] = ms @ (h, d) # todo\<rbrakk> \<Longrightarrow> sizes_ok_msg (h, d)"
proof -
  assume s: "\<forall>x \<in> set msgs. sizes_ok_msg x" and m: "msgs @ [([0], [])] = ms @ (h, d) # todo"
  have "(h, d) \<in> set (msgs @ [([0], [])])" unfolding m by simp
  then show ?thesis using s by (auto simp: sizes_ok_msg_def)
qed

lemma poll_in_inv:
  assumes inv: "recv_inv msgs fut s ms" and sz: "\<forall>x \<in> set msgs. sizes_ok_msg x"
    and st: "in_state (sp_incoming (sk_priv s)) \<noteq> Proto_Complete" and env: "recv_env little env 1048576 s"
    and sched: "Io_Again \<in> set sched" "Io_Fail \<notin> set sched" "Io_Zero \<notin> set sched"
  shows "\<exists>s' ret. socket_event_poll_in env (s\<lparr>sk_sched := sched\<rparr>) = Some (s', ret) \<and> 0 \<le> ret \<and> recv_inv msgs fut s' ms
    \<and> (in_state (sp_incoming (sk_priv s')) = Proto_Complete \<or> io_rx (sk_io s') = []
       \<or> moves sched + length (io_rx (sk_io s')) \<le> length (io_rx (sk_io s)))"
proof -
  obtain todo h d c where i: "msgs @ [([0], [])] = ms @ (h, d) # todo" "in_ok h d c s"
      "in_state (sp_incoming (sk_priv s)) \<in> {Proto_Nada, Proto_Header_Coming, Proto_Data_Coming}"
      "c @ io_rx (sk_io s) @ fut @ wire_frame [0] [] = wire_frame h d @ frames todo"
    using inv st by (auto simp: recv_inv_def)
  have h: "0 < length h" "length h \<le> 1048576" "length d \<le> 131072" using sizes_ok_next [OF sz i(1)] by (simp_all add: sizes_ok_msg_def)
  let ?s = "s\<lparr>sk_sched := sched\<rparr>"
  have "recv_env little env (length h) ?s" using recv_env_mono [OF env h(2)] by (rule recv_env_cong) simp_all
  moreover have "in_ok h d c ?s" using i(2) by (rule in_ok_same) simp_all
  ultimately obtain s' ret where r: "socket_event_poll_in env ?s = Some (s', ret)"
      "recv_result h d (fut @ wire_frame [0] []) (frames todo) (length (io_rx (sk_io ?s))) (sk_sched ?s) s' ret"
    using poll_in_spec [of h d c ?s "fut @ wire_frame [0] []" "frames todo" little env] i(3,4) h sched(1) by auto
  then obtain c' where c': "c' @ io_rx (sk_io s') @ fut @ wire_frame [0] [] = wire_frame h d @ frames todo" "0 \<le> ret" "in_ok h d c' s'"
      "in_state (sp_incoming (sk_priv s')) \<in> {Proto_Header_Coming, Proto_Data_Coming, Proto_Complete}"
      "in_state (sp_incoming (sk_priv s')) = Proto_Complete \<or> io_rx (sk_io s') = []
       \<or> moves sched + length (io_rx (sk_io s')) \<le> length (io_rx (sk_io s))"
    using sched by (auto simp: recv_result_def)
  then have "recv_inv msgs fut s' ms" using i(1) unfolding recv_inv_def by blast
  then show ?thesis using r(1) c'(2,5) by blast
qed

lemma complete_next:
  assumes inv: "recv_inv msgs fut s ms" and st: "in_state (sp_incoming (sk_priv s)) = Proto_Complete"
  shows "\<exists>todo h d. msgs = ms @ (h, d) # todo \<and> in_buflen (sp_incoming (sk_priv s)) = length d
    \<and> delivers h d (in_hdr_p (sp_incoming (sk_priv s)), in_hdrlen (sp_incoming (sk_priv s)), in_iobuf (sp_incoming (sk_priv s))) s
    \<and> io_rx (sk_io s) @ fut @ wire_frame [0] [] = frames (todo @ [([0], [])])"
proof -
  obtain todo h d c where i: "msgs @ [([0], [])] = ms @ (h, d) # todo" "in_ok h d c s"
      "c @ io_rx (sk_io s) @ fut @ wire_frame [0] [] = wire_frame h d @ frames todo"
    using inv by (auto simp: recv_inv_def)
  note C = in_ok_complete [OF i(2) st i(3)]
  have "todo \<noteq> []"
  proof
    assume "todo = []"
    then have "length (io_rx (sk_io s) @ fut @ wire_frame [0] []) = length ([] :: u8 list)" using C(2) by (simp add: frames_def)
    then show False by simp
  qed
  then obtain todo' x where t: "todo = todo' @ [x]" by (cases todo rule: rev_cases) auto
  then have "msgs = ms @ (h, d) # todo'" "x = ([0], [])" using i(1) by auto
  moreover have "in_buflen (sp_incoming (sk_priv s)) = length d" using i(2) st by (auto simp: in_ok_def blocks_ok_def Let_def)
  ultimately show ?thesis using C t by blast
qed

lemma receive_complete:
  assumes "socket_receive ptrs s = (s', 0, Some out)"
  shows "in_state (sp_incoming (sk_priv s)) = Proto_Complete" and "s' = upd_in (\<lambda>_. zero_incoming) s"
    and "out = (in_hdr_p (sp_incoming (sk_priv s)), in_hdrlen (sp_incoming (sk_priv s)), in_iobuf (sp_incoming (sk_priv s)))"
  using assms by (auto simp: socket_receive_def Let_def split: if_splits)

lemma delivers_unique:
  assumes "delivers h d out s" and "delivers h' d' out s" and len: "length d = length d'"
  shows "h = h' \<and> d = d'"
proof -
  obtain hdr_p hdrlen iobuf where out: "out = (hdr_p, hdrlen, iobuf)" by (cases out)
  have "length h = length h'" "mem_load (io_mem (sk_io s)) hdr_p (length h) = Some h" "mem_load (io_mem (sk_io s)) hdr_p (length h') = Some h'"
    using assms(1,2) by (simp_all add: delivers_def out)
  then have "h = h'" by (metis option.inject)
  moreover have "d = d'"
  proof (cases "d = []")
    case False
    then have "d' \<noteq> []" using len by auto
    with False assms(1,2) obtain b :: iobuf where "mem_load (io_mem (sk_io s)) (buf_ptr b) (length d) = Some d"
        "mem_load (io_mem (sk_io s)) (buf_ptr b) (length d') = Some d'"
      by (auto simp: delivers_def out)
    then show ?thesis using len by (metis option.inject)
  qed (use len in simp)
  ultimately show ?thesis by blast
qed

lemma delivers_upd_in: "delivers h d out (upd_in f s) = delivers h d out s"
  unfolding delivers_def by simp

lemma frames_simps [simp]: "frames (ms @ ms') = frames ms @ frames ms'" "frames ((h, d) # ms) = wire_frame h d @ frames ms" "frames [] = []"
  by (simp_all add: frames_def)

lemma in_ok_owner:
  assumes ok: "in_ok h d c s" and m: "m 0 = None" "\<forall>a \<in> busy s. m a = io_mem (sk_io s) a"
    and b: "bufs iobs (in_iobuf (sp_incoming (sk_priv s))) = bufs (sk_iobs s) (in_iobuf (sp_incoming (sk_priv s)))"
  shows "in_ok h d c (s\<lparr>sk_io := (sk_io s)\<lparr>io_mem := m\<rparr>, sk_iobs := iobs\<rparr>)"
proof -
  let ?s = "s\<lparr>sk_io := (sk_io s)\<lparr>io_mem := m\<rparr>, sk_iobs := iobs\<rparr>" and ?m = "io_mem (sk_io s)" and ?i = "sp_incoming (sk_priv s)"
  let ?H = "[sp_header (sk_priv s) ..< sp_header (sk_priv s) + 12]"
  have H: "m a = ?m a" if "a \<in> set ?H" for a using m(2) that by (simp add: busy_def Let_def)
  have D: "m a = ?m a" if "blocks_ok h d s" "a \<in> set (data_addrs h d ?i)" for a
    using m(2) that by (auto simp: busy_def blocks_ok_def data_addrs_def Let_def)
  have bl: "blocks_ok h d ?s = blocks_ok h d s" using b by (simp add: blocks_ok_def)
  have hH: "holds m (take k ?H) bs = holds ?m (take k ?H) bs" "holds m ?H bs = holds ?m ?H bs" for k bs
    by (rule holds_cong, rule H, erule in_set_takeD) (rule holds_cong, rule H)
  have hD: "holds m (take k (data_addrs h d ?i)) bs = holds ?m (take k (data_addrs h d ?i)) bs"
      "holds m (data_addrs h d ?i) bs = holds ?m (data_addrs h d ?i) bs" if "blocks_ok h d s" for k bs
    by (rule holds_cong, rule D [OF that], erule in_set_takeD) (rule holds_cong, rule D [OF that])
  have mH: "(\<forall>a \<in> set ?H. m a \<noteq> None) = (\<forall>a \<in> set ?H. ?m a \<noteq> None)" using H by simp
  have mD: "(\<forall>a \<in> set (data_addrs h d ?i). m a \<noteq> None) = (\<forall>a \<in> set (data_addrs h d ?i). ?m a \<noteq> None)" if "blocks_ok h d s"
    using D [OF that] by simp
  show ?thesis
  proof (cases "in_state ?i")
    case Proto_Data_Coming
    then show ?thesis using ok m(1) mH bl mD hD by (simp add: in_ok_def Let_def)
  next
    case Proto_Header_Coming
    then show ?thesis using ok m(1) mH hH(1) [of "length c" c] by (simp add: in_ok_def Let_def del: take_upt)
  qed (use ok m(1) mH bl hH hD in \<open>simp_all add: in_ok_def Let_def\<close>)
qed

lemma receives_inv:
  "\<lbrakk>receives little stream fut s ms; stream = frames msgs; \<forall>x \<in> set msgs. sizes_ok_msg x\<rbrakk> \<Longrightarrow> recv_inv msgs fut s ms"
proof (induction rule: receives.induct)
  case (recv_start s)
  obtain h d todo where t: "msgs @ [([0], [])] = (h, d) # todo" by (cases msgs) auto
  then have "frames msgs @ wire_frame [0] [] = wire_frame h d @ frames todo"
    using arg_cong [OF t, of frames] unfolding frames_simps by simp
  moreover have "in_ok h d [] s" using recv_start.hyps by (simp add: in_ok_def zero_incoming_def)
  moreover have "in_state (sp_incoming (sk_priv s)) = Proto_Nada" using recv_start.hyps(1) by (simp add: zero_incoming_def)
  ultimately show ?case using t recv_start.prems(1) recv_start.hyps(4)
    unfolding recv_inv_def by (intro exI [of _ todo] exI [of _ h] exI [of _ d] exI [of _ "[]"] exI [of _ "frames todo"]) simp
next
  case (recv_arrive new fut s ms)
  then obtain todo h d c where i: "msgs @ [([0], [])] = ms @ (h, d) # todo" "in_ok h d c s"
      "in_state (sp_incoming (sk_priv s)) \<in> {Proto_Nada, Proto_Header_Coming, Proto_Data_Coming, Proto_Complete}"
      "c @ io_rx (sk_io s) @ (new @ fut) @ wire_frame [0] [] = wire_frame h d @ frames todo"
    unfolding recv_inv_def by blast
  have "in_ok h d c (s\<lparr>sk_io := (sk_io s)\<lparr>io_rx := io_rx (sk_io s) @ new\<rparr>\<rparr>)" using i(2) by (rule in_ok_same) simp_all
  then show ?case using i unfolding recv_inv_def
    by (intro exI [of _ todo] exI [of _ h] exI [of _ d] exI [of _ c] exI [of _ "frames todo"]) simp
next
  case (recv_poll_in fut s ms env sched s' ret)
  then show ?case using poll_in_inv [of msgs fut s ms little env sched] by auto
next
  case (recv_take fut s ms s' out h d)
  note R = receive_complete [OF recv_take.hyps(2)]
  have "recv_inv msgs fut s ms" using recv_take by blast
  from complete_next [OF this R(1)] obtain todo h0 d0 where n: "msgs = ms @ (h0, d0) # todo"
      "in_buflen (sp_incoming (sk_priv s)) = length d0" "delivers h0 d0 out s"
      "io_rx (sk_io s) @ fut @ wire_frame [0] [] = frames (todo @ [([0], [])])"
    unfolding R(3) by blast
  have "delivers h0 d0 out s'" unfolding R(2) delivers_upd_in by (rule n(3))
  then have hd: "h0 = h" "d0 = d" using delivers_unique [of h0 d0 out s' h d] recv_take.hyps(3,4) n(2) by simp_all
  obtain h1 d1 todo1 where t: "todo @ [([0], [])] = (h1, d1) # todo1" by (cases todo) auto
  have eq: "msgs @ [([0], [])] = (ms @ [(h, d)]) @ (h1, d1) # todo1" using n(1) hd t by simp
  obtain h2 d2 c2 where "in_ok h2 d2 c2 s" using \<open>recv_inv msgs fut s ms\<close> unfolding recv_inv_def by blast
  then have "in_ok h1 d1 [] s'" using R(1,2) by (simp add: in_ok_def zero_incoming_def Let_def)
  moreover have "in_state (sp_incoming (sk_priv s')) = Proto_Nada" using R(2) by (simp add: zero_incoming_def)
  moreover have "io_rx (sk_io s') @ fut @ wire_frame [0] [] = wire_frame h1 d1 @ frames todo1" using n(4) R(2) unfolding t by simp
  ultimately show ?case using eq unfolding recv_inv_def
    by (intro exI [of _ todo1] exI [of _ h1] exI [of _ d1] exI [of _ "[]"] exI [of _ "frames todo1"]) simp
next
  case (recv_owner fut s ms m iobs)
  then obtain todo h d c where i: "msgs @ [([0], [])] = ms @ (h, d) # todo" "in_ok h d c s"
      "in_state (sp_incoming (sk_priv s)) \<in> {Proto_Nada, Proto_Header_Coming, Proto_Data_Coming, Proto_Complete}"
      "c @ io_rx (sk_io s) @ fut @ wire_frame [0] [] = wire_frame h d @ frames todo"
    unfolding recv_inv_def by blast
  from in_ok_owner [OF i(2) recv_owner.hyps(2-4)] show ?case using i unfolding recv_inv_def
    by (intro exI [of _ todo] exI [of _ h] exI [of _ d] exI [of _ c] exI [of _ "frames todo"]) simp
qed

lemma all_taken:
  assumes inv: "recv_inv msgs [] s ms" and st: "in_state (sp_incoming (sk_priv s)) \<noteq> Proto_Complete" and rx: "io_rx (sk_io s) = []"
  shows "ms = msgs"
proof -
  obtain todo h d c where i: "msgs @ [([0], [])] = ms @ (h, d) # todo" "in_ok h d c s"
      "in_state (sp_incoming (sk_priv s)) \<in> {Proto_Nada, Proto_Header_Coming, Proto_Data_Coming}"
      "c @ wire_frame [0] [] = wire_frame h d @ frames todo"
    using inv st rx by (auto simp: recv_inv_def)
  have c: "length c < 12 + length h + length d" using i(2,3) by (auto simp: in_ok_def Let_def)
  show ?thesis
  proof (cases todo rule: rev_cases)
    case Nil
    then show ?thesis using i(1) by simp
  next
    case (snoc todo' x)
    then have "x = ([0], [])" using i(1) by simp
    then have "c = wire_frame h d @ frames todo'" using i(4) snoc by simp
    then show ?thesis using c by simp
  qed
qed

lemma recv_inv_prefix: "recv_inv msgs fut s ms \<Longrightarrow> \<exists>todo. msgs = ms @ todo"
proof -
  assume "recv_inv msgs fut s ms"
  then obtain todo h d where "msgs @ [([0], [])] = ms @ (h, d) # todo" unfolding recv_inv_def by blast
  then show ?thesis by (cases todo rule: rev_cases) auto
qed

lemma recv_inv_take:
  assumes inv: "recv_inv msgs fut s ms" and st: "in_state (sp_incoming (sk_priv s)) = Proto_Complete" "sp_connected (sk_priv s) = 1"
  shows "\<exists>h d todo s' out. msgs = ms @ (h, d) # todo \<and> socket_receive True s = (s', 0, Some out) \<and> delivers h d out s'"
proof -
  let ?out = "(in_hdr_p (sp_incoming (sk_priv s)), in_hdrlen (sp_incoming (sk_priv s)), in_iobuf (sp_incoming (sk_priv s)))"
  obtain todo h d where "msgs = ms @ (h, d) # todo" "delivers h d ?out s" using complete_next [OF inv st(1)] by blast
  moreover from this have "delivers h d ?out (upd_in (\<lambda>_. zero_incoming) s)" unfolding delivers_upd_in by simp
  moreover have "socket_receive True s = (upd_in (\<lambda>_. zero_incoming) s, 0, Some ?out)" using st by (simp add: socket_receive_def Let_def)
  ultimately show ?thesis by blast
qed

text \<open>
  C3: A connection delivers the messages of the stream unchanged and in order, and makes progress.  However the bytes arrive and however much
  of them the kernel hands out in each call: the messages the owner of a transport takes with \<open>socket_receive\<close> are the
  first messages of the stream; while no message is complete the event handler's read returns without an error, and when the
  kernel hands out what it has, it completes a message or consumes all bytes that have arrived; a
  complete message is the next message of the stream, its header block of the announced length and its
  data in the page of the I/O buffer; and when the whole stream is consumed and no message waits, all messages were taken.
\<close>

theorem socket_session_delivers:
  assumes "receives little (frames msgs) fut s ms" and "\<forall>x \<in> set msgs. sizes_ok_msg x"
  shows "(\<exists>todo. msgs = ms @ todo)
    \<and> (\<forall>env sched. in_state (sp_incoming (sk_priv s)) \<noteq> Proto_Complete \<and> recv_env little env 1048576 s
         \<and> Io_Again \<in> set sched \<and> Io_Fail \<notin> set sched \<and> Io_Zero \<notin> set sched \<longrightarrow>
         (\<exists>s' ret. socket_event_poll_in env (s\<lparr>sk_sched := sched\<rparr>) = Some (s', ret) \<and> 0 \<le> ret
            \<and> (length (io_rx (sk_io s)) \<le> moves sched \<longrightarrow>
                 in_state (sp_incoming (sk_priv s')) = Proto_Complete \<or> io_rx (sk_io s') = [])))
    \<and> (in_state (sp_incoming (sk_priv s)) = Proto_Complete \<and> sp_connected (sk_priv s) = 1 \<longrightarrow>
         (\<exists>h d todo s' out. msgs = ms @ (h, d) # todo \<and> socket_receive True s = (s', 0, Some out) \<and> delivers h d out s'))
    \<and> (in_state (sp_incoming (sk_priv s)) \<noteq> Proto_Complete \<and> io_rx (sk_io s) = [] \<and> fut = [] \<longrightarrow> ms = msgs)"
proof -
  have inv: "recv_inv msgs fut s ms" using receives_inv [OF assms(1) refl assms(2)] .
  have "\<exists>s' ret. socket_event_poll_in env (s\<lparr>sk_sched := sched\<rparr>) = Some (s', ret) \<and> 0 \<le> ret
      \<and> (length (io_rx (sk_io s)) \<le> moves sched \<longrightarrow> in_state (sp_incoming (sk_priv s')) = Proto_Complete \<or> io_rx (sk_io s') = [])"
    if "in_state (sp_incoming (sk_priv s)) \<noteq> Proto_Complete" "recv_env little env 1048576 s"
      "Io_Again \<in> set sched" "Io_Fail \<notin> set sched" "Io_Zero \<notin> set sched" for env sched
  proof -
    note pre = that
    obtain s' ret where r: "socket_event_poll_in env (s\<lparr>sk_sched := sched\<rparr>) = Some (s', ret)" "0 \<le> ret"
        "in_state (sp_incoming (sk_priv s')) = Proto_Complete \<or> io_rx (sk_io s') = []
          \<or> moves sched + length (io_rx (sk_io s')) \<le> length (io_rx (sk_io s))"
      using poll_in_inv [OF inv assms(2) pre] by blast
    have "length (io_rx (sk_io s)) \<le> moves sched \<longrightarrow> in_state (sp_incoming (sk_priv s')) = Proto_Complete \<or> io_rx (sk_io s') = []"
      using r(3) by (cases "io_rx (sk_io s')") auto
    then show ?thesis using r(1,2) by blast
  qed
  then show ?thesis using recv_inv_prefix [OF inv] recv_inv_take [OF inv] all_taken inv by blast
qed

text \<open>
  A complete message that was not taken yet makes the next read fail without looking at the connection, and the event handler then resets it.
\<close>

lemma poll_in_complete: "in_state (sp_incoming (sk_priv s)) = Proto_Complete \<Longrightarrow> socket_event_poll_in env s = Some (s, -1)"
  by (simp add: socket_event_poll_in_def socket_proto_state_machine_def numeral_eq_Suc Let_def)

section \<open>A session\<close>

definition recv_allocs :: "addr \<Rightarrow> arena_allocs" where
  "recv_allocs k = \<lparr>al_arena = 100 + k, al_mem = 16777216 + k * 131072, al_iobufs = 200 + k\<rparr>"

definition recv_iobs :: "nat \<Rightarrow> iob_store" where
  "recv_iobs n = \<lparr>bufs = [200 \<mapsto> \<lparr>buf_arena = 100, buf_ref = int n, buf_ptr = 16777216\<rparr>],
     ars = [100 \<mapsto> \<lparr>arena_pool = 9, mem_base = 16777216, arena_iobufs = 200, active_cnt = int n, active_list = replicate n 200,
                     passive_cnt = 1 - int n, passive_list = replicate (1 - n) 200\<rparr>],
     pls = [9 \<mapsto> \<lparr>page_size = 131072, arena_size = 131072, arena_cnt = 1,
                   arenas = replicate (1 - n) 100, filled = replicate n 100, purge = []\<rparr>],
     brefs = Map.empty, mapped = [16777216 \<mapsto> 131072]\<rparr>"

lemma recv_iobs_new: "iobuf_pool_new 9 (recv_allocs 0) 131072 131072 empty_iobs = Some (recv_iobs 0, 9)"
  by (simp add: iobuf_pool_new_def iobuf_pool_add_arena_def iobuf_arena_unprune_def iobuf_arena_alloc_def
      iobuf_arena_init_iobufs_def iobuf_cnt_def to_cint_def zero_arena_def recv_allocs_def empty_iobs_def
      recv_iobs_def MAP_FAILED_def Let_def put_arena_def put_pool_def)

lemma recv_iobs_get: "iobuf_get (recv_allocs 1) 9 (recv_iobs 0) = Some (recv_iobs 1, 200)"
  by (simp add: iobuf_get_def iobuf_select_arena_def iobuf_get_from_def iobuf_add_ref_def recv_iobs_def
      Let_def put_arena_def put_pool_def put_buf_def unlink_iobuf_def unlink_arena_def)

lemma recv_iobs_inv: "\<exists>p. iob_inv 9 p (recv_iobs 0) \<and> page_size p = 131072 \<and> allocs_fresh p (recv_iobs 0) (recv_allocs 1)"
proof -
  have "allocs_fresh (first_pool 131072 131072) empty_iobs (recv_allocs 0)"
    by (simp add: allocs_fresh_def empty_iobs_def recv_allocs_def first_pool_def pages_def iobuf_array_def)
  from iobuf_pool_new_inv [of 9 131072 131072, OF _ _ _ _ this] obtain p where p: "iob_inv 9 p (recv_iobs 0)" "page_size p = 131072"
      "arena_size p = 131072"
    by (auto simp: recv_iobs_new)
  moreover have "allocs_fresh p (recv_iobs 0) (recv_allocs 1)"
    using iob_invD(2) [OF p(1)] p by (auto simp: allocs_fresh_def recv_iobs_def recv_allocs_def iobuf_array_def pages_def)
  ultimately show ?thesis by blast
qed

definition recv_sock :: sock where
  "recv_sock = demo_sock\<lparr>sk_io := \<lparr>io_mem = (\<lambda>a. if 300 \<le> a \<and> a < 312 \<or> 16777216 \<le> a then Some 0 else None), io_rx = [], io_tx = []\<rparr>,
     sk_iobs := recv_iobs 0, sk_iobuf_pool := 9\<rparr>"

definition recv_demo_env :: "bool \<Rightarrow> sock_env" where
  "recv_demo_env little = demo_env\<lparr>e_little := little, e_malloc := 1000, e_arena := recv_allocs 1\<rparr>"

lemma recv_demo_ok: "recv_env little (recv_demo_env little) 1048576 (recv_sock\<lparr>sk_io := (sk_io recv_sock)\<lparr>io_rx := rx\<rparr>\<rparr>)"
proof -
  have "mem_regions (\<lambda>a. if 300 \<le> a \<and> a < 312 \<or> 16777216 \<le> a then Some 0 else None) (recv_iobs 1)"
    by (simp add: mem_regions_def recv_iobs_def)
  moreover have "alloc_succeeds (recv_allocs 1)" by (simp add: alloc_succeeds_def recv_allocs_def MAP_FAILED_def)
  moreover have "\<exists>p. iob_inv 9 p (recv_iobs 0) \<and> 131072 \<le> page_size p \<and> allocs_fresh p (recv_iobs 0) (recv_allocs 1)"
    using recv_iobs_inv by auto
  ultimately show ?thesis
    by (simp add: recv_env_def recv_demo_env_def recv_sock_def demo_env_def demo_sock_def recv_iobs_get byte_order_ok_def
        del: One_nat_def)
qed

lemma moves_replicate: "k \<noteq> 0 \<Longrightarrow> moves (replicate n (Io_Move k) @ [Io_Again]) = n"
  by (induction n) simp_all

lemma recv_demo_start: "receives little stream stream recv_sock []"
  by (rule recv_start) (simp_all add: recv_sock_def demo_sock_def)

theorem socket_session_delivers_witness:
  "\<exists>s. receives True (frames [([7], [9])]) [] s [] \<and> in_state (sp_incoming (sk_priv s)) = Proto_Complete"
proof -
  let ?st = "frames [([7], [9])]" and ?sched = "replicate 14 (Io_Move 20) @ [Io_Again]"
  let ?s = "recv_sock\<lparr>sk_io := (sk_io recv_sock)\<lparr>io_rx := io_rx (sk_io recv_sock) @ ?st\<rparr>\<rparr>"
  have sz: "\<forall>x \<in> set [([7], [9])]. sizes_ok_msg x" by (simp add: sizes_ok_msg_def)
  have run: "receives True ?st [] ?s []"
    using recv_arrive [of True ?st ?st "[]" recv_sock "[]"] recv_demo_start [of True ?st] by simp
  have n: "in_state (sp_incoming (sk_priv ?s)) = Proto_Nada" by (simp add: recv_sock_def demo_sock_def zero_incoming_def)
  have e: "recv_env True (recv_demo_env True) 1048576 ?s" by (rule recv_demo_ok)
  have l: "length (io_rx (sk_io ?s)) \<le> moves ?sched" by (simp add: recv_sock_def moves_replicate)
  obtain s ret where s: "socket_event_poll_in (recv_demo_env True) (?s\<lparr>sk_sched := ?sched\<rparr>) = Some (s, ret)"
      "in_state (sp_incoming (sk_priv s)) = Proto_Complete \<or> io_rx (sk_io s) = []"
    using socket_session_delivers [OF run sz, THEN conjunct2, THEN conjunct1, rule_format, of "recv_demo_env True" ?sched] e n l
    by auto
  have r: "receives True ?st [] s []" by (rule recv_poll_in [OF run _ e _ _ _ s(1)]) (use n in simp_all)
  from socket_session_delivers [OF r sz] s(2) have "in_state (sp_incoming (sk_priv s)) = Proto_Complete" by auto
  with r show ?thesis by blast
qed

text \<open>
  C1: Two ends of a connection, of the same or of different byte order: what one end sends is what the other receives.  The stream is
  what the kernel has accepted of the sender followed by what is queued; the messages that the
  receiver's owner takes are the first of the messages that were accepted by \<open>socket_submit\<close>, in order, and when the
  receiver has consumed everything, they are all of them.
\<close>

theorem socket_end_to_end:
  assumes "sends little1 s1 (map (\<lambda>(h, d). wire_frame h d) msgs)" and "\<forall>x \<in> set msgs. sizes_ok_msg x"
    and "receives little2 (io_tx (sk_io s1) @ queue_bytes s1) fut s2 ms"
  shows "(\<exists>todo. msgs = ms @ todo)
    \<and> (in_state (sp_incoming (sk_priv s2)) = Proto_Complete \<and> sp_connected (sk_priv s2) = 1 \<longrightarrow>
         (\<exists>h d todo s' out. msgs = ms @ (h, d) # todo \<and> socket_receive True s2 = (s', 0, Some out) \<and> delivers h d out s'))
    \<and> (in_state (sp_incoming (sk_priv s2)) \<noteq> Proto_Complete \<and> io_rx (sk_io s2) = [] \<and> fut = [] \<longrightarrow> ms = msgs)"
proof -
  obtain bss where "out_ok little1 s1 bss" "io_tx (sk_io s1) @ concat bss = frames msgs"
    using sends_ok [OF assms(1)] by (auto simp: frames_def)
  then have "io_tx (sk_io s1) @ queue_bytes s1 = frames msgs" using out_ok_queue_bytes by simp
  then have "recv_inv msgs fut s2 ms" using receives_inv [OF assms(3) _ assms(2)] by simp
  then show ?thesis using recv_inv_prefix recv_inv_take all_taken by blast
qed

theorem socket_end_to_end_witness:
  "\<exists>s1 s2 ms todo. sends True s1 [wire_frame [7] []] \<and> receives False (io_tx (sk_io s1) @ queue_bytes s1) [] s2 ms \<and> [([7], [])] = ms @ todo"
proof -
  obtain s1 where s1: "sends True s1 [wire_frame [7] []]" using demo_sends by blast
  let ?st = "io_tx (sk_io s1) @ queue_bytes s1"
  have run: "receives False ?st [] (recv_sock\<lparr>sk_io := (sk_io recv_sock)\<lparr>io_rx := io_rx (sk_io recv_sock) @ ?st\<rparr>\<rparr>) []"
    using recv_arrive [of False ?st ?st "[]" recv_sock "[]"] recv_demo_start [of False ?st] by simp
  have sz: "\<forall>x \<in> set [([7], [])]. sizes_ok_msg x" by (simp add: sizes_ok_msg_def)
  have m: "sends True s1 (map (\<lambda>(h, d). wire_frame h d) [([7], [])])" using s1 by simp
  from socket_end_to_end [OF m sz run] show ?thesis using s1 run by blast
qed

end
