(* ===== verification/Lz_Timer.thy ===== *)
theory Lz_Timer
  imports Lz_List "HOL-Library.Signed_Division"
begin

text \<open>
  \<^verbatim>\<open>src/src/timer.c\<close>: the registry of timers.  The registry has two rings, the active timers in the order of their times and the
  timers that have fired; the links are those of theory \<open>Lz_List\<close>, but the code writes them itself.  A
  call is refused with an error value where the code would touch freed memory (\<open>Tm_Fault\<close>), wait for the mutex that its own thread
  holds (\<open>Tm_Deadlock\<close>) or abort.  The timer thread is modelled by the turns of its inner loop, between which other threads and the
  callbacks run.  The clock and the allocator give their results as arguments.

  The theorems: in every run of calls and turns the rings are well formed, the active one is sorted by time, and every operation of
  the registry succeeds; what the thread reads after it released the mutex is freed memory exactly when the timer was cancelled in
  between (a race of the code); a round of the timer thread
  terminates and fires exactly the timers that are due, in the order of their times; and the end of
  the thread never returns once a timer was set.
\<close>

section \<open>State\<close>

record timeval =
  tv_sec :: int
  tv_usec :: int

record lz_timer =
  tm_at :: timeval
  tm_cbk :: nat
  tm_data :: addr

record timer_reg =
  tr_fin :: bool
  tr_stale :: addr
  tr_active :: addr
  tr_locked :: bool
  tr_links :: list_store
  tr_events :: "addr \<rightharpoonup> lz_timer"

datatype timer_error = Tm_Fault | Tm_Deadlock | Tm_Abort

text \<open>The macro \<^verbatim>\<open>TS\<close>: microseconds in 64 bits.\<close>

definition TS :: "timeval \<Rightarrow> u64" where
  "TS tv = word_of_int (tv_sec tv) * 1000000 + word_of_int (tv_usec tv)"

text \<open>The list heads are timers of the zeroed registry.\<close>

definition timer_at :: "timer_reg \<Rightarrow> addr \<Rightarrow> timeval option" where
  "timer_at r a = (if a = tr_active r \<or> a = tr_stale r then Some \<lparr>tv_sec = 0, tv_usec = 0\<rparr> else map_option tm_at (tr_events r a))"

section \<open>Links\<close>

definition timer_insert :: "addr \<Rightarrow> addr \<Rightarrow> list_store \<Rightarrow> list_store" where
  "timer_insert event trav h0 =
     (let h1 = set_prev event trav h0;
          h2 = set_next event (list_next (h1 (list_prev (h1 event)))) h1;
          h3 = set_next (list_prev (h2 event)) event h2
      in set_prev (list_next (h3 event)) event h3)"

definition timer_unlink :: "addr \<Rightarrow> list_store \<Rightarrow> list_store" where
  "timer_unlink event h0 =
     (let h1 = set_prev (list_next (h0 event)) (list_prev (h0 event)) h0
      in set_next (list_prev (h1 event)) (list_next (h1 event)) h1)"

definition timer_append :: "addr \<Rightarrow> addr \<Rightarrow> list_store \<Rightarrow> list_store" where
  "timer_append event head h0 =
     (let h1 = set_next event head h0;
          h2 = set_prev event (list_prev (h1 (list_next (h1 event)))) h1;
          h3 = set_prev (list_next (h2 event)) event h2
      in set_next (list_prev (h3 event)) event h3)"

section \<open>Operations\<close>

text \<open>
  The time of a new timer.  The microseconds are reduced before the carry is computed from them.  \<^verbatim>\<open>/\<close> and \<^verbatim>\<open>%\<close> of C
  truncate towards zero.
\<close>

definition timer_due :: "timeval \<Rightarrow> timeval \<Rightarrow> timeval" where
  "timer_due now delta =
     (let usec = (tv_usec now + tv_usec delta) smod 1000000;
          sec = tv_sec now + (usec + tv_usec delta) sdiv 1000000
      in \<lparr>tv_sec = sec + tv_sec delta, tv_usec = usec\<rparr>)"

text \<open>The search for the place of a new timer, from the end of the ring.  It returns when it meets the head or an earlier timer.\<close>

partial_function (option) timer_place :: "timer_reg \<Rightarrow> u64 \<Rightarrow> addr \<Rightarrow> (timer_error + addr) option" where
  "timer_place r at trav =
     (if trav = tr_active r then Some (Inr trav)
      else case timer_at r trav of
          None \<Rightarrow> Some (Inl Tm_Fault)
        | Some tv \<Rightarrow> if TS tv < at then Some (Inr trav) else timer_place r at (list_prev (tr_links r trav)))"

definition lz_timer_call_after ::
  "addr \<Rightarrow> timeval \<Rightarrow> timeval \<Rightarrow> nat \<Rightarrow> addr \<Rightarrow> timer_reg option \<Rightarrow> (timer_error + timer_reg option \<times> addr) option" where
  "lz_timer_call_after new now delta cbk data timer =
     (case timer of
        None \<Rightarrow> Some (Inr (None, 0))
      | Some reg \<Rightarrow>
          if new = 0 then Some (Inr (timer, 0))
          else
            let event = \<lparr>tm_at = timer_due now delta, tm_cbk = cbk, tm_data = data\<rparr>
            in if tr_locked reg then Some (Inl Tm_Deadlock)
               else (case timer_place reg (TS (tm_at event)) (list_prev (tr_links reg (tr_active reg))) of
                   None \<Rightarrow> None
                 | Some (Inl e) \<Rightarrow> Some (Inl e)
                 | Some (Inr trav) \<Rightarrow>
                     Some (Inr (Some (reg\<lparr>tr_links := timer_insert new trav (tr_links reg), tr_events := (tr_events reg)(new \<mapsto> event)\<rparr>), new))))"

definition lz_timer_call_stale :: "timer_reg option \<Rightarrow> addr \<Rightarrow> timer_error + timer_reg option \<times> int" where
  "lz_timer_call_stale reg event =
     (case reg of
        None \<Rightarrow> Inr (reg, 0)
      | Some r \<Rightarrow>
          if event = 0 then Inr (reg, 0)
          else if tr_events r event = None then Inl Tm_Fault
          else Inr (Some (r\<lparr>tr_links := timer_append event (tr_stale r) (timer_unlink event (tr_links r))\<rparr>), 0))"

definition lz_timer_call_cancel :: "timer_reg option \<Rightarrow> addr \<Rightarrow> timer_error + timer_reg option \<times> int" where
  "lz_timer_call_cancel timer event =
     (case timer of
        None \<Rightarrow> Inr (timer, 0)
      | Some reg \<Rightarrow>
          if event = 0 then Inr (timer, 0)
          else if tr_locked reg then Inl Tm_Deadlock
          else if tr_events reg event = None then Inl Tm_Fault
          else Inr (Some (reg\<lparr>tr_links := timer_unlink event (tr_links reg), tr_events := (tr_events reg)(event := None)\<rparr>), 0))"

text \<open>
  The locked part of a turn of the inner loop of the timer thread: the timer that has been moved to the other ring, or 0.
\<close>

definition timer_turn_take :: "u64 \<Rightarrow> timer_reg \<Rightarrow> timer_error + timer_reg \<times> addr" where
  "timer_turn_take now reg =
     (if tr_locked reg then Inl Tm_Deadlock
      else
        let event = list_next (tr_links reg (tr_active reg))
        in (case timer_at reg event of
             None \<Rightarrow> Inl Tm_Fault
           | Some at \<Rightarrow>
               if event \<noteq> tr_active reg \<and> TS at \<le> now
               then (case lz_timer_call_stale (Some reg) event of
                   Inl e \<Rightarrow> Inl e
                 | Inr (Some r, _) \<Rightarrow> Inr (r, event)
                 | Inr (None, _) \<Rightarrow> Inl Tm_Fault)
               else Inr (reg, 0)))"

text \<open>The call of the callback, after the mutex was released: the timer is read again.\<close>

definition timer_turn_call :: "timer_reg \<Rightarrow> addr \<Rightarrow> timer_error + nat \<times> addr" where
  "timer_turn_call reg event =
     (case tr_events reg event of None \<Rightarrow> Inl Tm_Fault | Some e \<Rightarrow> Inr (tm_cbk e, tm_data e))"

text \<open>
  The inner loop with the calls it makes, when nothing else runs in between.  The fuel bounds the turns; \<open>None\<close> is
  running out of it.
\<close>

fun timer_round :: "nat \<Rightarrow> u64 \<Rightarrow> timer_reg \<Rightarrow> (timer_error + timer_reg \<times> (nat \<times> addr) list) option" where
  "timer_round 0 now reg = None"
| "timer_round (Suc n) now reg =
     (case timer_turn_take now reg of
        Inl e \<Rightarrow> Some (Inl e)
      | Inr (r, event) \<Rightarrow>
          if event = 0 then Some (Inr (r, []))
          else (case timer_turn_call r event of
              Inl e \<Rightarrow> Some (Inl e)
            | Inr call \<Rightarrow>
                (case timer_round n now r of
                   Some (Inr (r', calls)) \<Rightarrow> Some (Inr (r', call # calls))
                 | res \<Rightarrow> res)))"

text \<open>The loops at the end of the thread, which run with the mutex held.\<close>

fun timer_cancel_all :: "nat \<Rightarrow> addr \<Rightarrow> timer_reg \<Rightarrow> (timer_error + timer_reg) option" where
  "timer_cancel_all n head reg =
     (if list_next (tr_links reg head) = head then Some (Inr reg)
      else case n of
          0 \<Rightarrow> None
        | Suc m \<Rightarrow>
            (case lz_timer_call_cancel (Some reg) (list_next (tr_links reg head)) of
               Inl e \<Rightarrow> Some (Inl e)
             | Inr (Some r, _) \<Rightarrow> timer_cancel_all m head r
             | Inr (None, _) \<Rightarrow> None))"

definition timer_proc_end :: "nat \<Rightarrow> timer_reg \<Rightarrow> (timer_error + timer_reg) option" where
  "timer_proc_end n reg =
     (if tr_locked reg then Some (Inl Tm_Deadlock)
      else case timer_cancel_all n (tr_active reg) (reg\<lparr>tr_locked := True\<rparr>) of
          Some (Inr r) \<Rightarrow>
            (case timer_cancel_all n (tr_stale reg) r of
               Some (Inr r2) \<Rightarrow> Some (Inr (r2\<lparr>tr_locked := False\<rparr>))
             | res \<Rightarrow> res)
        | res \<Rightarrow> res)"

text \<open>
  The thread when nothing else runs: rounds at the given times, the end when \<^verbatim>\<open>fin\<close> is set.  \<open>None\<close> is that it is still running.
\<close>

fun lz_timer_proc :: "nat \<Rightarrow> u64 list \<Rightarrow> timer_reg option \<Rightarrow> (timer_error + timer_reg option \<times> (nat \<times> addr) list) option" where
  "lz_timer_proc n clock None = Some (Inr (None, []))"
| "lz_timer_proc n clock (Some reg) =
     (if tr_fin reg
      then (case timer_proc_end n reg of
              None \<Rightarrow> None
            | Some (Inl e) \<Rightarrow> Some (Inl e)
            | Some (Inr r) \<Rightarrow> Some (Inr (Some r, [])))
      else (case clock of
              [] \<Rightarrow> None
            | now # later \<Rightarrow>
                (case timer_round n now reg of
                   None \<Rightarrow> None
                 | Some (Inl e) \<Rightarrow> Some (Inl e)
                 | Some (Inr (r, calls)) \<Rightarrow>
                     (case lz_timer_proc n later (Some r) of
                        Some (Inr (r', calls')) \<Rightarrow> Some (Inr (r', calls @ calls'))
                      | res \<Rightarrow> res))))"

text \<open>
  \<open>lz_timer_registry_init\<close>: the argument is the pointer to the registry, which is not changed; the result is the registry and
  whether a thread was started for it.  The two heads are inside the registry.
\<close>

definition lz_timer_registry_init ::
  "addr \<Rightarrow> list_store \<Rightarrow> timer_reg option option \<Rightarrow> timer_error + timer_reg option \<times> bool" where
  "lz_timer_registry_init new links timer =
     (case timer of
        None \<Rightarrow> Inr (None, False)
      | Some (Some reg) \<Rightarrow> Inr (Some reg, False)
      | Some None \<Rightarrow>
          if new = 0 then Inl Tm_Abort
          else
            let stale = new + 16; active = new + 64;
                h1 = set_next active active links; h2 = set_prev active active h1;
                h3 = set_next stale stale h2; h4 = set_prev stale stale h3
            in Inr (Some \<lparr>tr_fin = False, tr_stale = stale, tr_active = active, tr_locked = False,
                          tr_links = h4, tr_events = Map.empty\<rparr>, True))"

section \<open>The links are rings\<close>

lemma ring_rotate: "ring h a (xs @ b # ys) \<Longrightarrow> ring h b (ys @ a # xs)"
  by (auto simp: ring_def seg_append)

lemma timer_insert_eq: "event \<noteq> trav \<Longrightarrow> timer_insert event trav h = list_add event trav h"
  by (simp add: timer_insert_def list_add_def Let_def)

lemma timer_append_eq: "event \<noteq> head \<Longrightarrow> timer_append event head h = list_add_tail event head h"
  by (auto simp: timer_append_def list_add_tail_def Let_def fun_eq_iff link_defs)

lemma timer_unlink_eq:
  assumes "ring h head (xs @ event # ys)"
  shows "timer_unlink event h = list_unlink event h"
proof -
  have "event \<notin> {list_prev (h event), list_next (h event)}"
    using ring_neighbours [OF assms] assms by (auto simp: ring_def)
  then show ?thesis by (auto simp: timer_unlink_def list_unlink_def Let_def fun_eq_iff link_defs)
qed

lemma ring_timer_insert:
  assumes "ring h head (xs @ ys)" and "new \<notin> set (head # xs @ ys)"
  shows "ring (timer_insert new (last (head # xs)) h) head (xs @ new # ys)"
proof (cases xs rule: rev_cases)
  case Nil
  then show ?thesis using assms timer_insert_eq [of new head h] ring_list_add [of h head ys new] by simp
next
  case (snoc zs z)
  then have "ring h z (ys @ head # zs)" using assms(1) ring_rotate [of h head zs z ys] by simp
  then have "ring (list_add new z h) z (new # ys @ head # zs)" using assms(2) snoc by (intro ring_list_add) auto
  then have "ring (list_add new z h) head (zs @ z # new # ys)" using ring_rotate [of _ z "new # ys" head zs] by simp
  then show ?thesis using assms(2) snoc timer_insert_eq [of new z h] by simp
qed

lemma ring_timer_insert_other:
  assumes "ring h head (xs @ ys)" and "new \<notin> set (head # xs @ ys)" and "ring h head' zs"
    and "set (head' # zs) \<inter> set (new # head # xs @ ys) = {}"
  shows "ring (timer_insert new (last (head # xs)) h) head' zs"
proof (cases xs rule: rev_cases)
  case Nil
  then show ?thesis using assms timer_insert_eq [of new head h] list_add_other(1) [of h head ys new head' zs] by simp
next
  case (snoc us u)
  then have "ring h u (ys @ head # us)" using assms(1) ring_rotate [of h head us u ys] by simp
  from list_add_other(1) [OF this _ assms(3), of new] show ?thesis
    using assms(2,4) snoc timer_insert_eq [of new u h] by auto
qed

interpretation timer_rings: ring_ops timer_append timer_unlink "\<lambda>x xs. xs @ [x]"
proof unfold_locales
  fix h head xs old ys assume r: "ring h head (xs @ old # ys)"
  show "ring (timer_unlink old h) head (xs @ ys)" using ring_unlink [OF r] timer_unlink_eq [OF r] by simp
next
  fix h head xs old ys head' zs
  assume r: "ring h head (xs @ old # ys)" "ring h head' zs" "set (head' # zs) \<inter> set (head # xs @ old # ys) = {}"
  have "timer_unlink old h c = h c" if "c \<in> set (head' # zs)" for c
    unfolding timer_unlink_eq [OF r(1)] using r(3) that ring_neighbours [OF r(1)] by (intro list_unlink_frame) auto
  then show "ring (timer_unlink old h) head' zs" using r(2) ring_cong [of head' zs "timer_unlink old h" h] by blast
qed (auto simp: timer_append_eq intro!: ring_list_add_tail list_add_other(2))

section \<open>The invariant\<close>

definition due :: "timer_reg \<Rightarrow> addr \<Rightarrow> u64" where
  "due r a = (case tr_events r a of None \<Rightarrow> 0 | Some e \<Rightarrow> TS (tm_at e))"

definition call_of :: "timer_reg \<Rightarrow> addr \<Rightarrow> nat \<times> addr" where
  "call_of r a = (case tr_events r a of None \<Rightarrow> (0, 0) | Some e \<Rightarrow> (tm_cbk e, tm_data e))"

text \<open>\<open>act\<close> are the active timers, \<open>stl\<close> those that have fired.\<close>

definition timer_ok :: "timer_reg \<Rightarrow> addr list \<Rightarrow> addr list \<Rightarrow> bool" where
  "timer_ok r act stl \<longleftrightarrow>
     ring (tr_links r) (tr_active r) act \<and> ring (tr_links r) (tr_stale r) stl
     \<and> set (tr_active r # act) \<inter> set (tr_stale r # stl) = {}
     \<and> dom (tr_events r) = set act \<union> set stl \<and> 0 \<notin> set act \<union> set stl \<and> \<not> tr_locked r
     \<and> sorted (map (due r) act)"

lemma timer_okD:
  assumes "timer_ok r act stl"
  shows "ring (tr_links r) (tr_active r) act" "ring (tr_links r) (tr_stale r) stl"
    "set (tr_active r # act) \<inter> set (tr_stale r # stl) = {}" "dom (tr_events r) = set act \<union> set stl"
    "0 \<notin> set act \<union> set stl" "\<not> tr_locked r" "sorted (map (due r) act)"
    "tr_active r \<notin> set act \<union> set stl" "tr_stale r \<notin> set act \<union> set stl" "distinct act" "distinct stl"
  using assms by (auto simp: timer_ok_def ring_def)

lemma timer_at_event:
  assumes "timer_ok r act stl" and "a \<in> set act \<union> set stl"
  shows "\<exists>e. tr_events r a = Some e \<and> timer_at r a = Some (tm_at e) \<and> due r a = TS (tm_at e)"
proof -
  note D = timer_okD [OF assms(1)]
  obtain e where "tr_events r a = Some e" using assms(2) D(4) by blast
  moreover have "a \<noteq> tr_active r" "a \<noteq> tr_stale r" using assms(2) D(8,9) by auto
  ultimately show ?thesis by (simp add: timer_at_def due_def)
qed

lemma insort_key_split:
  "insort_key f x xs = takeWhile (\<lambda>y. f y < f x) xs @ x # dropWhile (\<lambda>y. f y < f x) xs"
  by (induction xs) (auto simp: not_le)

lemma timer_place_back:
  assumes ok: "timer_ok r act stl"
  shows "\<lbrakk>act = ps @ qs @ us; \<forall>q \<in> set qs. at \<le> due r q; ps = [] \<or> due r (last ps) < at\<rbrakk> \<Longrightarrow>
    timer_place r at (last (tr_active r # ps @ qs)) = Some (Inr (last (tr_active r # ps)))"
proof (induction qs arbitrary: us rule: rev_induct)
  case Nil
  show ?case
  proof (cases "ps = []")
    case False
    then have "last ps \<in> set act" using Nil.prems(1) by auto
    then show ?thesis using timer_at_event [OF ok, of "last ps"] Nil.prems(3) False timer_okD(8) [OF ok]
      by (subst timer_place.simps) auto
  qed (subst timer_place.simps, simp)
next
  case (snoc q qs)
  have q: "q \<in> set act" "at \<le> due r q" using snoc.prems by auto
  have "seg (tr_links r) (tr_active r) (ps @ qs) q"
    using timer_okD(1) [OF ok] snoc.prems(1) seg_append [of "tr_links r" "tr_active r" "ps @ qs" q us] by (simp add: ring_def)
  then have prev: "list_prev (tr_links r q) = last (tr_active r # ps @ qs)" by (rule seg_next_last)
  have "timer_place r at q = timer_place r at (list_prev (tr_links r q))"
    using timer_at_event [OF ok, of q] q timer_okD(8) [OF ok] by (subst timer_place.simps) auto
  then show ?case using snoc.IH [of "q # us"] snoc.prems prev by simp
qed

lemma sorted_split:
  assumes "sorted (map f xs)"
  shows "\<forall>q \<in> set (dropWhile (\<lambda>y. f y < k) xs). k \<le> f q"
  using assms by (induction xs) (auto simp: not_less)

lemma call_after_ok:
  assumes ok: "timer_ok r act stl" and new: "new \<noteq> 0" "new \<notin> set act \<union> set stl \<union> {tr_active r, tr_stale r}"
  shows "\<exists>r'. lz_timer_call_after new now delta cbk data (Some r) = Some (Inr (Some r', new))
    \<and> tr_events r' = (tr_events r)(new \<mapsto> \<lparr>tm_at = timer_due now delta, tm_cbk = cbk, tm_data = data\<rparr>)
    \<and> timer_ok r' (insort_key (due r') new act) stl \<and> tr_active r' = tr_active r \<and> tr_stale r' = tr_stale r"
proof -
  note D = timer_okD [OF ok]
  let ?at = "TS (timer_due now delta)" and ?h = "tr_links r"
  let ?ps = "takeWhile (\<lambda>y. due r y < ?at) act" and ?qs = "dropWhile (\<lambda>y. due r y < ?at) act"
  let ?e = "\<lparr>tm_at = timer_due now delta, tm_cbk = cbk, tm_data = data\<rparr>"
  let ?r = "r\<lparr>tr_links := timer_insert new (last (tr_active r # ?ps)) ?h, tr_events := (tr_events r)(new \<mapsto> ?e)\<rparr>"
  have "?ps = [] \<or> due r (last ?ps) < ?at" by (metis last_in_set set_takeWhileD)
  then have place: "timer_place r ?at (last (tr_active r # ?ps @ ?qs)) = Some (Inr (last (tr_active r # ?ps)))"
    using timer_place_back [OF ok, of ?ps ?qs "[]" ?at] sorted_split [OF D(7), of ?at] by simp
  have call: "lz_timer_call_after new now delta cbk data (Some r) = Some (Inr (Some ?r, new))"
    using new(1) D(6) place ring_prev [OF D(1)] by (simp add: lz_timer_call_after_def Let_def)
  have d: "due ?r a = (if a = new then ?at else due r a)" for a by (simp add: due_def)
  have same: "map (due ?r) act = map (due r) act" using new(2) d by auto
  have "insort_key (due ?r) new act = takeWhile (\<lambda>y. due ?r y < ?at) act @ new # dropWhile (\<lambda>y. due ?r y < ?at) act"
    unfolding insort_key_split using d by simp
  also have "takeWhile (\<lambda>y. due ?r y < ?at) act = ?ps" using new(2) d by (intro takeWhile_cong) auto
  also have "dropWhile (\<lambda>y. due ?r y < ?at) act = ?qs" using new(2) d by (intro dropWhile_cong) auto
  finally have ins: "insort_key (due ?r) new act = ?ps @ new # ?qs" .
  have fresh: "new \<notin> set (tr_active r # ?ps @ ?qs)" using new(2) by simp
  have R: "ring ?h (tr_active r) (?ps @ ?qs)" using D(1) by simp
  have "ring (tr_links ?r) (tr_active r) (?ps @ new # ?qs)" using ring_timer_insert [OF R fresh] by simp
  moreover have "set (tr_stale r # stl) \<inter> set (new # tr_active r # ?ps @ ?qs) = {}" using D(3) new(2) by auto
  then have "ring (tr_links ?r) (tr_stale r) stl" using ring_timer_insert_other [OF R fresh D(2)] by simp
  moreover have "sorted (map (due ?r) (insort_key (due ?r) new act))" using D(7) by (simp only: sorted_insort_key same)
  moreover have "set (?ps @ new # ?qs) = insert new (set act)"
    by (metis set_insort_key ins)
  ultimately have "timer_ok ?r (insort_key (due ?r) new act) stl"
    using D(3-6) new unfolding timer_ok_def ins by auto
  then show ?thesis using call by (intro exI [of _ ?r]) simp
qed

lemma call_cancel_ok:
  assumes ok: "timer_ok r act stl" and e: "event \<in> set act \<union> set stl"
  shows "\<exists>r'. lz_timer_call_cancel (Some r) event = Inr (Some r', 0) \<and> timer_ok r' (remove1 event act) (remove1 event stl)
    \<and> tr_events r' = (tr_events r)(event := None) \<and> tr_active r' = tr_active r \<and> tr_stale r' = tr_stale r"
proof -
  note D = timer_okD [OF ok]
  let ?r = "r\<lparr>tr_links := timer_unlink event (tr_links r), tr_events := (tr_events r)(event := None)\<rparr>"
  have "tr_events r event \<noteq> None" "event \<noteq> 0" using e D(4,5) by auto
  then have call: "lz_timer_call_cancel (Some r) event = Inr (Some ?r, 0)" using D(6) by (auto simp: lz_timer_call_cancel_def)
  have other: "remove1 event xs = xs" if "event \<notin> set xs" for xs using that by (simp add: remove1_idem)
  have rings: "ring (tr_links ?r) (tr_active r) (remove1 event act) \<and> ring (tr_links ?r) (tr_stale r) (remove1 event stl)"
  proof (cases "event \<in> set act")
    case True
    then obtain xs ys where xy: "act = xs @ event # ys" "event \<notin> set xs" by (meson split_list_first)
    have "event \<notin> set stl" using True D(3) by auto
    then show ?thesis using xy D(1,2,3) timer_rings.del_ring [of "tr_links r" "tr_active r" xs event ys]
        timer_rings.del_other [of "tr_links r" "tr_active r" xs event ys "tr_stale r" stl] other [of stl]
      by (auto simp: remove1_append)
  next
    case False
    then obtain xs ys where xy: "stl = xs @ event # ys" "event \<notin> set xs" using e by (meson UnE split_list_first)
    then show ?thesis using D(1,2,3) timer_rings.del_ring [of "tr_links r" "tr_stale r" xs event ys]
        timer_rings.del_other [of "tr_links r" "tr_stale r" xs event ys "tr_active r" act] other [OF False]
      by (auto simp: remove1_append)
  qed
  have "map (due ?r) (remove1 event act) = map (due r) (remove1 event act)" using D(10) by (auto simp: due_def)
  then have "sorted (map (due ?r) (remove1 event act))" using sorted_map_remove1 [OF D(7)] by (simp only:)
  then have "timer_ok ?r (remove1 event act) (remove1 event stl)"
    using rings D(3-6,10,11) unfolding timer_ok_def by auto
  then show ?thesis using call by (intro exI [of _ ?r]) simp
qed

lemma turn_take_due:
  assumes ok: "timer_ok r (a # act) stl" and d: "due r a \<le> now"
  shows "\<exists>r'. timer_turn_take now r = Inr (r', a) \<and> timer_ok r' act (stl @ [a]) \<and> tr_events r' = tr_events r
    \<and> tr_active r' = tr_active r \<and> tr_stale r' = tr_stale r"
proof -
  note D = timer_okD [OF ok]
  let ?r = "r\<lparr>tr_links := timer_append a (tr_stale r) (timer_unlink a (tr_links r))\<rparr>"
  obtain e where e: "tr_events r a = Some e" "timer_at r a = Some (tm_at e)" "due r a = TS (tm_at e)"
    using timer_at_event [OF ok] by auto
  have "list_next (tr_links r (tr_active r)) = a" using ring_next [OF D(1)] by simp
  then have call: "timer_turn_take now r = Inr (?r, a)"
    using e d D(5,6,8) by (auto simp: timer_turn_take_def lz_timer_call_stale_def Let_def)
  have dis: "set (tr_stale r # stl) \<inter> set (tr_active r # [] @ a # act) = {}" using D(3) by auto
  have R: "ring (tr_links r) (tr_active r) ([] @ a # act)" using D(1) by simp
  from timer_rings.move_between [OF R D(2) dis]
  have "ring (tr_links ?r) (tr_active r) act" "ring (tr_links ?r) (tr_stale r) (stl @ [a])" by simp_all
  moreover have "due ?r = due r" by (simp add: due_def fun_eq_iff)
  ultimately have "timer_ok ?r act (stl @ [a])" using D(3-10) unfolding timer_ok_def by auto
  then show ?thesis using call by (intro exI [of _ ?r]) simp
qed

lemma turn_take_idle:
  assumes ok: "timer_ok r act stl" and d: "act = [] \<or> now < due r (hd act)"
  shows "timer_turn_take now r = Inr (r, 0)"
proof -
  note D = timer_okD [OF ok]
  have n: "list_next (tr_links r (tr_active r)) = hd (act @ [tr_active r])" using ring_next [OF D(1)] .
  show ?thesis
  proof (cases act)
    case Nil
    then show ?thesis using n D(6) by (simp add: timer_turn_take_def timer_at_def)
  next
    case (Cons a as)
    then show ?thesis using n d D(6) timer_at_event [OF ok, of a] by (auto simp: timer_turn_take_def Let_def)
  qed
qed

lemma turn_call_ok:
  assumes "timer_ok r act stl" and "a \<in> set act \<union> set stl"
  shows "timer_turn_call r a = Inr (call_of r a)"
  using timer_at_event [OF assms] by (auto simp: timer_turn_call_def call_of_def)

lemma takeWhile_sorted: "sorted (map f xs) \<Longrightarrow> takeWhile (\<lambda>x. f x \<le> k) xs = filter (\<lambda>x. f x \<le> k) xs"
proof (induction xs)
  case (Cons x xs)
  have "\<forall>y \<in> set xs. f y \<le> k \<longrightarrow> f x \<le> k" using Cons.prems by (auto intro: order_trans)
  then show ?case using Cons by (auto intro!: filter_False [symmetric])
qed simp

lemma dropWhile_sorted:
  assumes "sorted (map f xs)"
  shows "dropWhile (\<lambda>x. f x \<le> k) xs = filter (\<lambda>x. k < f x) xs"
  using assms
proof (induction xs)
  case (Cons x xs)
  have "\<forall>y \<in> set xs. k < f x \<longrightarrow> k < f y" using Cons.prems by (auto intro: less_le_trans)
  then show ?case using Cons by (auto simp: not_le intro!: filter_True [symmetric])
qed simp

section \<open>Rounds\<close>

lemma timer_round_spec:
  "\<lbrakk>timer_ok r act stl; length act < n\<rbrakk> \<Longrightarrow>
   \<exists>r'. timer_round n now r = Some (Inr (r', map (call_of r) (takeWhile (\<lambda>a. due r a \<le> now) act)))
     \<and> timer_ok r' (dropWhile (\<lambda>a. due r a \<le> now) act) (stl @ takeWhile (\<lambda>a. due r a \<le> now) act)"
proof (induction n arbitrary: r act stl)
  case (Suc n)
  show ?case
  proof (cases "act = [] \<or> now < due r (hd act)")
    case True
    then show ?thesis using turn_take_idle [OF Suc.prems(1) True] Suc.prems(1) by (cases act) auto
  next
    case False
    then obtain a as where act: "act = a # as" "due r a \<le> now" by (cases act) (auto simp: not_less)
    obtain r1 where r1: "timer_turn_take now r = Inr (r1, a)" "timer_ok r1 as (stl @ [a])" "tr_events r1 = tr_events r"
      using turn_take_due [of r a as stl now] Suc.prems(1) act by blast
    have c: "timer_turn_call r1 a = Inr (call_of r1 a)" by (rule turn_call_ok [OF r1(2)]) simp
    have same: "due r1 = due r" "call_of r1 = call_of r" using r1(3) by (simp_all add: due_def call_of_def fun_eq_iff)
    have "length as < n" using Suc.prems(2) act by simp
    from Suc.IH [OF r1(2) this] obtain r2 where
        "timer_round n now r1 = Some (Inr (r2, map (call_of r) (takeWhile (\<lambda>a. due r a \<le> now) as)))"
        "timer_ok r2 (dropWhile (\<lambda>a. due r a \<le> now) as) ((stl @ [a]) @ takeWhile (\<lambda>a. due r a \<le> now) as)"
      unfolding same by blast
    moreover have "a \<noteq> 0" using timer_okD(5) [OF Suc.prems(1)] act by auto
    ultimately show ?thesis using r1(1) c same act by simp
  qed
qed simp

section \<open>Runs\<close>

text \<open>
  A run of the registry: threads set and cancel timers, the timer thread takes the timers that are due and calls them, in any
  order.  The state has the registry, the timer that the thread has taken and not yet called (0 for none), whether that
  timer was cancelled since it was taken, and the calls.
\<close>

inductive timer_runs :: "timer_reg \<Rightarrow> addr \<Rightarrow> bool \<Rightarrow> (nat \<times> addr) list \<Rightarrow> bool" where
  run_init: "\<lbrakk>lz_timer_registry_init new links (Some None) = Inr (Some r, started)\<rbrakk> \<Longrightarrow> timer_runs r 0 False []"
| run_after: "\<lbrakk>timer_runs r p raced cs; new \<notin> dom (tr_events r) \<union> {tr_active r, tr_stale r};
    lz_timer_call_after new now delta cbk data (Some r) = Some (Inr (Some r', event))\<rbrakk> \<Longrightarrow> timer_runs r' p raced cs"
| run_cancel: "\<lbrakk>timer_runs r p raced cs; event \<in> dom (tr_events r);
    lz_timer_call_cancel (Some r) event = Inr (Some r', ret)\<rbrakk> \<Longrightarrow> timer_runs r' p (raced \<or> event = p) cs"
| run_take: "\<lbrakk>timer_runs r 0 raced cs; timer_turn_take now r = Inr (r', p)\<rbrakk> \<Longrightarrow> timer_runs r' p False cs"
| run_call: "\<lbrakk>timer_runs r p raced cs; p \<noteq> 0; timer_turn_call r p = Inr call\<rbrakk> \<Longrightarrow> timer_runs r 0 False (cs @ [call])"

lemma registry_init_ok:
  assumes "lz_timer_registry_init new links (Some None) = Inr (Some r, started)"
  shows "timer_ok r [] []"
  using assms by (auto simp: lz_timer_registry_init_def timer_ok_def ring_def Let_def split: if_splits)

lemma call_after_null: "lz_timer_call_after 0 now delta cbk data (Some r) = Some (Inr (Some r, 0))"
  by (simp add: lz_timer_call_after_def)

lemma timer_runs_ok:
  "timer_runs r p raced cs \<Longrightarrow> \<exists>act stl. timer_ok r act stl \<and> (p \<noteq> 0 \<and> \<not> raced \<longrightarrow> p \<in> set act \<union> set stl)"
proof (induction rule: timer_runs.induct)
  case run_init
  then show ?case using registry_init_ok by blast
next
  case (run_after r p raced cs new now delta cbk data r' event)
  then obtain act stl where ok: "timer_ok r act stl" "p \<noteq> 0 \<and> \<not> raced \<longrightarrow> p \<in> set act \<union> set stl" by blast
  show ?case
  proof (cases "new = 0")
    case True
    then show ?thesis using run_after.hyps(3) ok by (auto simp: call_after_null)
  next
    case False
    have "new \<notin> set act \<union> set stl \<union> {tr_active r, tr_stale r}" using run_after.hyps(2) timer_okD(4) [OF ok(1)] by auto
    from call_after_ok [OF ok(1) False this, of now delta cbk data] run_after.hyps(3)
    have "timer_ok r' (insort_key (due r') new act) stl" by auto
    then show ?thesis using ok(2) by (intro exI [of _ "insort_key (due r') new act"] exI [of _ stl]) (auto simp: set_insort_key)
  qed
next
  case (run_cancel r p raced cs event r' ret)
  then obtain act stl where ok: "timer_ok r act stl" "p \<noteq> 0 \<and> \<not> raced \<longrightarrow> p \<in> set act \<union> set stl" by blast
  have "event \<in> set act \<union> set stl" using run_cancel.hyps(2) timer_okD(4) [OF ok(1)] by simp
  from call_cancel_ok [OF ok(1) this] run_cancel.hyps(3)
  have "timer_ok r' (remove1 event act) (remove1 event stl)" by auto
  then show ?case using ok(2)
    by (intro exI [of _ "remove1 event act"] exI [of _ "remove1 event stl"]) auto
next
  case (run_take r raced cs now r' p)
  then obtain act stl where ok: "timer_ok r act stl" by blast
  show ?case
  proof (cases "act = [] \<or> now < due r (hd act)")
    case True
    then show ?thesis using turn_take_idle [OF ok True] run_take.hyps(2) ok by auto
  next
    case False
    then obtain a as where act: "act = a # as" "due r a \<le> now" by (cases act) (auto simp: not_less)
    obtain r1 where "timer_turn_take now r = Inr (r1, a)" "timer_ok r1 as (stl @ [a])"
      using turn_take_due [of r a as stl now] ok act by blast
    then show ?thesis using run_take.hyps(2) by (intro exI [of _ as] exI [of _ "stl @ [a]"]) auto
  qed
next
  case (run_call r p raced cs call)
  then show ?case by blast
qed

text \<open>
  C29: In every interleaving of calls and turns of the timer thread the registry stays well formed and no operation on it touches
  freed memory or waits for itself: the two lists are rings of the allocated timers and the active one is sorted by time; setting a
  timer inserts it at its place; every timer, active or fired, can be cancelled at any moment, which removes exactly it; and a turn
  moves the earliest timer to the other ring exactly when it is due.  The callback of the timer that was
  taken is called with its data unless it was cancelled after it was taken.  That race is in the code: the
  thread reads the timer after it released the mutex, and then it reads freed memory, or a timer that was set since at the same
  address.
\<close>

theorem timer_runs_safe:
  assumes "timer_runs r p raced cs"
  shows "\<exists>act stl. timer_ok r act stl
    \<and> (\<forall>new now delta cbk data. new \<noteq> 0 \<and> new \<notin> set act \<union> set stl \<union> {tr_active r, tr_stale r} \<longrightarrow>
         (\<exists>r'. lz_timer_call_after new now delta cbk data (Some r) = Some (Inr (Some r', new))
            \<and> due r' new = TS (timer_due now delta) \<and> timer_ok r' (insort_key (due r') new act) stl))
    \<and> (\<forall>event \<in> set act \<union> set stl.
         \<exists>r'. lz_timer_call_cancel (Some r) event = Inr (Some r', 0) \<and> timer_ok r' (remove1 event act) (remove1 event stl)
            \<and> timer_turn_call r' event = Inl Tm_Fault)
    \<and> (\<forall>now. if act = [] \<or> now < due r (hd act) then timer_turn_take now r = Inr (r, 0)
             else \<exists>r'. timer_turn_take now r = Inr (r', hd act) \<and> timer_ok r' (tl act) (stl @ [hd act]))
    \<and> (p \<noteq> 0 \<and> \<not> raced \<longrightarrow> timer_turn_call r p = Inr (call_of r p))
    \<and> (p \<noteq> 0 \<longrightarrow> timer_turn_call r p = (if p \<in> set act \<union> set stl then Inr (call_of r p) else Inl Tm_Fault))"
proof -
  obtain act stl where ok: "timer_ok r act stl" and p: "p \<noteq> 0 \<and> \<not> raced \<longrightarrow> p \<in> set act \<union> set stl"
    using timer_runs_ok [OF assms] by blast
  have after: "\<exists>r'. lz_timer_call_after new now delta cbk data (Some r) = Some (Inr (Some r', new))
      \<and> due r' new = TS (timer_due now delta) \<and> timer_ok r' (insort_key (due r') new act) stl"
    if "new \<noteq> 0" "new \<notin> set act \<union> set stl \<union> {tr_active r, tr_stale r}" for new now delta cbk data
    using call_after_ok [OF ok that, of now delta cbk data] by (auto simp: due_def)
  have cancel: "\<exists>r'. lz_timer_call_cancel (Some r) event = Inr (Some r', 0) \<and> timer_ok r' (remove1 event act) (remove1 event stl)
      \<and> timer_turn_call r' event = Inl Tm_Fault" if "event \<in> set act \<union> set stl" for event
    using call_cancel_ok [OF ok that] by (auto simp: timer_turn_call_def)
  have take: "if act = [] \<or> now < due r (hd act) then timer_turn_take now r = Inr (r, 0)
      else \<exists>r'. timer_turn_take now r = Inr (r', hd act) \<and> timer_ok r' (tl act) (stl @ [hd act])" for now
  proof (cases "act = [] \<or> now < due r (hd act)")
    case False
    then have "timer_ok r (hd act # tl act) stl" "due r (hd act) \<le> now" using ok by (simp_all add: not_less)
    from turn_take_due [OF this] show ?thesis using False by auto
  qed (simp add: turn_take_idle [OF ok])
  have call: "timer_turn_call r q = (if q \<in> set act \<union> set stl then Inr (call_of r q) else Inl Tm_Fault)" for q
    using turn_call_ok [OF ok, of q] timer_okD(4) [OF ok] by (auto simp: timer_turn_call_def split: option.splits)
  show ?thesis
    by (intro exI [of _ act] exI [of _ stl] conjI allI impI ballI ok after cancel take call; (elim conjE)?)
      (use call p in auto)
qed

definition demo_timer :: timer_reg where
  "demo_timer = \<lparr>tr_fin = False, tr_stale = 1016, tr_active = 1064, tr_locked = False,
     tr_links = (\<lambda>a. \<lparr>list_next = a, list_prev = a\<rparr>), tr_events = Map.empty\<rparr>"

lemma demo_timer_runs: "timer_runs demo_timer 0 False []"
  by (rule run_init [of 1000 "\<lambda>a. \<lparr>list_next = a, list_prev = a\<rparr>"])
    (auto simp: lz_timer_registry_init_def demo_timer_def Let_def link_defs fun_eq_iff)

theorem timer_runs_safe_witness:
  "\<exists>r. lz_timer_call_after 5 \<lparr>tv_sec = 1, tv_usec = 0\<rparr> \<lparr>tv_sec = 2, tv_usec = 0\<rparr> 7 8 (Some demo_timer) = Some (Inr (Some r, 5))
     \<and> due r 5 = 3000000"
proof -
  obtain act stl where ok: "timer_ok demo_timer act stl"
      "\<forall>new now delta cbk data. new \<noteq> 0 \<and> new \<notin> set act \<union> set stl \<union> {tr_active demo_timer, tr_stale demo_timer} \<longrightarrow>
         (\<exists>r'. lz_timer_call_after new now delta cbk data (Some demo_timer) = Some (Inr (Some r', new))
            \<and> due r' new = TS (timer_due now delta) \<and> timer_ok r' (insort_key (due r') new act) stl)"
    using timer_runs_safe [OF demo_timer_runs] by blast
  have "set act \<union> set stl = {}" using timer_okD(4) [OF ok(1)] by (auto simp: demo_timer_def)
  then have "5 \<notin> set act \<union> set stl \<union> {tr_active demo_timer, tr_stale demo_timer}" by (auto simp: demo_timer_def)
  then show ?thesis using ok(2) [rule_format, of 5 "\<lparr>tv_sec = 1, tv_usec = 0\<rparr>" "\<lparr>tv_sec = 2, tv_usec = 0\<rparr>" 7 8]
    by (auto simp: TS_def timer_due_def)
qed

lemma demo_timer_set:
  "\<exists>r. lz_timer_call_after 5 \<lparr>tv_sec = 1, tv_usec = 0\<rparr> \<lparr>tv_sec = 2, tv_usec = 0\<rparr> 7 8 (Some demo_timer) = Some (Inr (Some r, 5))
     \<and> timer_ok r [5] [] \<and> due r 5 = 3000000 \<and> call_of r 5 = (7, 8)"
proof -
  have "timer_ok demo_timer [] []" by (simp add: timer_ok_def ring_def demo_timer_def)
  then show ?thesis
    using call_after_ok [of demo_timer "[]" "[]" 5 "\<lparr>tv_sec = 1, tv_usec = 0\<rparr>" "\<lparr>tv_sec = 2, tv_usec = 0\<rparr>" 7 8]
    by (auto simp: demo_timer_def due_def call_of_def TS_def timer_due_def)
qed

text \<open>
  C30: A round of the timer thread terminates and calls exactly the timers whose time has come, each once and in the
  order of their times; these are then on the list of the fired timers, and the others stay active.
\<close>

theorem timer_round_fires:
  assumes "timer_ok r act stl" and "length act < n"
  shows "\<exists>r'. timer_round n now r = Some (Inr (r', map (call_of r) (filter (\<lambda>a. due r a \<le> now) act)))
    \<and> timer_ok r' (filter (\<lambda>a. now < due r a) act) (stl @ filter (\<lambda>a. due r a \<le> now) act)
    \<and> sorted (map (due r) (filter (\<lambda>a. due r a \<le> now) act))"
proof -
  note s = timer_okD(7) [OF assms(1)]
  have t: "takeWhile (\<lambda>a. due r a \<le> now) act = filter (\<lambda>a. due r a \<le> now) act" by (rule takeWhile_sorted [OF s])
  have "dropWhile (\<lambda>a. due r a \<le> now) act = filter (\<lambda>a. now < due r a) act"
    by (rule dropWhile_sorted [OF s])
  then show ?thesis using timer_round_spec [OF assms, of now] s unfolding t by (auto intro: sorted_filter)
qed

theorem timer_round_fires_witness:
  "\<exists>r r'. lz_timer_call_after 5 \<lparr>tv_sec = 1, tv_usec = 0\<rparr> \<lparr>tv_sec = 2, tv_usec = 0\<rparr> 7 8 (Some demo_timer) = Some (Inr (Some r, 5))
     \<and> timer_round 2 3000000 r = Some (Inr (r', [(7, 8)])) \<and> timer_ok r' [] [5]
     \<and> timer_round 2 2999999 r = Some (Inr (r, []))"
proof -
  obtain r where r: "lz_timer_call_after 5 \<lparr>tv_sec = 1, tv_usec = 0\<rparr> \<lparr>tv_sec = 2, tv_usec = 0\<rparr> 7 8 (Some demo_timer) = Some (Inr (Some r, 5))"
      "timer_ok r [5] []" "due r 5 = 3000000" "call_of r 5 = (7, 8)"
    using demo_timer_set by blast
  have "timer_turn_take 2999999 r = Inr (r, 0)" using turn_take_idle [OF r(2), of 2999999] r(3) by simp
  then have "timer_round (Suc 1) 2999999 r = Some (Inr (r, []))" by simp
  then have "timer_round 2 2999999 r = Some (Inr (r, []))" by (simp only: Suc_1)
  moreover obtain r' where "timer_round 2 3000000 r = Some (Inr (r', [(7, 8)]))" "timer_ok r' [] [5]"
    using timer_round_fires [OF r(2), of 2 3000000] r(3,4) by auto
  ultimately show ?thesis using r(1) by blast
qed

text \<open>
  C31: The timer thread never ends once a timer was set and not cancelled: the loops at its end call \<open>lz_timer_call_cancel\<close> with the
  mutex held, which takes it again.
\<close>

theorem timer_proc_end_deadlock:
  assumes "timer_ok r act stl"
  shows "timer_proc_end (Suc n) r = Some (if act = [] \<and> stl = [] then Inr r else Inl Tm_Deadlock)"
proof -
  note D = timer_okD [OF assms]
  have next': "list_next (tr_links r (tr_active r)) = hd (act @ [tr_active r])"
      "list_next (tr_links r (tr_stale r)) = hd (stl @ [tr_stale r])"
    using ring_next [OF D(1)] ring_next [OF D(2)] .
  have "hd act \<noteq> tr_active r \<and> hd act \<noteq> 0" if "act \<noteq> []" using that D(5,8) by (metis Un_iff hd_in_set)
  moreover have "hd stl \<noteq> tr_stale r \<and> hd stl \<noteq> 0" if "stl \<noteq> []" using that D(5,9) by (metis Un_iff hd_in_set)
  moreover have "r\<lparr>tr_locked := False\<rparr> = r" using D(6) by simp
  ultimately show ?thesis using next' D(6)
    by (auto simp: timer_proc_end_def lz_timer_call_cancel_def hd_append split: if_splits)
qed

theorem timer_proc_end_deadlock_witness:
  "\<exists>r. lz_timer_call_after 5 \<lparr>tv_sec = 1, tv_usec = 0\<rparr> \<lparr>tv_sec = 2, tv_usec = 0\<rparr> 7 8 (Some demo_timer) = Some (Inr (Some r, 5))
     \<and> timer_proc_end 1 r = Some (Inl Tm_Deadlock)"
proof -
  obtain r where r: "lz_timer_call_after 5 \<lparr>tv_sec = 1, tv_usec = 0\<rparr> \<lparr>tv_sec = 2, tv_usec = 0\<rparr> 7 8 (Some demo_timer) = Some (Inr (Some r, 5))"
      "timer_ok r [5] []"
    using demo_timer_set by blast
  have "timer_proc_end 1 r = Some (Inl Tm_Deadlock)" using timer_proc_end_deadlock [OF r(2), of 0] by simp
  then show ?thesis using r(1) by blast
qed

section \<open>Times\<close>

text \<open>
  The carry from the microseconds to the seconds is wrong for most arguments: with \<open>u\<close> microseconds on the clock and a delay of \<open>d\<close> the time is
  exact only when \<open>u + 2 d\<close> is below a second or at least two.
\<close>

lemma signed_pos:
  fixes a b :: int
  assumes "0 \<le> a" "0 < b"
  shows "a sdiv b = a div b" and "a smod b = a mod b"
  using assms by (cases "a = 0"; simp add: signed_modulo_int_def signed_divide_int_def)+

lemma div_mod_one:
  fixes x m :: int
  assumes "m \<le> x" "x < 2 * m"
  shows "x div m = 1" and "x mod m = x - m"
proof -
  show "x div m = 1" by (rule int_div_pos_eq [of x m 1 "x - m"]) (use assms in simp_all)
  show "x mod m = x - m" by (rule int_mod_pos_eq [of x m 1 "x - m"]) (use assms in simp_all)
qed

lemma carry_iff:
  fixes u d m :: int
  assumes "0 \<le> u" "u < m" "0 \<le> d" "d < m"
  shows "((u + d) mod m + d) div m = (u + d) div m \<longleftrightarrow> u + 2 * d < m \<or> 2 * m \<le> u + 2 * d"
proof (cases "u + d < m")
  case True
  then have s: "(u + d) mod m = u + d" "(u + d) div m = 0" using assms by simp_all
  show ?thesis
  proof (cases "u + 2 * d < m")
    case True
    then have "(u + d + d) div m = 0" using assms by simp
    then show ?thesis using s True by simp
  next
    case False
    then have "(u + d + d) div m = 1" using assms \<open>u + d < m\<close> by (intro div_mod_one) simp_all
    then show ?thesis using s False \<open>u + d < m\<close> assms by simp
  qed
next
  case False
  then have s: "(u + d) mod m = u + d - m" "(u + d) div m = 1" using assms by (simp_all add: div_mod_one)
  show ?thesis
  proof (cases "2 * m \<le> u + 2 * d")
    case True
    then have "(u + d - m + d) div m = 1" using assms by (intro div_mod_one) simp_all
    then show ?thesis using s True by simp
  next
    case f: False
    then have "(u + d - m + d) div m = 0" using assms False by simp
    then show ?thesis using s f False assms by simp
  qed
qed

lemma timer_due_exact_iff:
  assumes u: "0 \<le> u" "u < 1000000" and d: "0 \<le> d" "d < 1000000"
  shows "timer_due \<lparr>tv_sec = s, tv_usec = u\<rparr> \<lparr>tv_sec = ds, tv_usec = d\<rparr>
      = \<lparr>tv_sec = s + ds + (u + d) div 1000000, tv_usec = (u + d) mod 1000000\<rparr>
    \<longleftrightarrow> u + 2 * d < 1000000 \<or> 2000000 \<le> u + 2 * d"
proof -
  define m :: int where "m = 1000000"
  have nn: "0 \<le> (u + d) mod m" "0 < m" by (simp_all add: m_def)
  have "timer_due \<lparr>tv_sec = s, tv_usec = u\<rparr> \<lparr>tv_sec = ds, tv_usec = d\<rparr>
      = \<lparr>tv_sec = s + ((u + d) mod m + d) div m + ds, tv_usec = (u + d) mod m\<rparr>"
    using u d nn by (simp add: timer_due_def signed_pos Let_def flip: m_def)
  then show ?thesis using carry_iff [of u m d] u d unfolding m_def by auto
qed

text \<open>A delay of 0.6 seconds set at 1.6 seconds is due at 1.2 seconds, before it was set.\<close>

lemma timer_due_past:
  "timer_due \<lparr>tv_sec = 1, tv_usec = 600000\<rparr> \<lparr>tv_sec = 0, tv_usec = 600000\<rparr> = \<lparr>tv_sec = 1, tv_usec = 200000\<rparr>"
  by (simp add: timer_due_def signed_modulo_int_def signed_divide_int_def)

text \<open>Cancelling a timer that the thread has taken and not called yet frees what the thread reads.\<close>

lemma timer_cancel_race:
  assumes "timer_ok r (a # act) stl" and "due r a \<le> now"
  shows "\<exists>r1 r2. timer_turn_take now r = Inr (r1, a) \<and> lz_timer_call_cancel (Some r1) a = Inr (Some r2, 0)
    \<and> timer_turn_call r2 a = Inl Tm_Fault"
proof -
  obtain r1 where r1: "timer_turn_take now r = Inr (r1, a)" "timer_ok r1 act (stl @ [a])"
    using turn_take_due [OF assms] by blast
  obtain r2 where "lz_timer_call_cancel (Some r1) a = Inr (Some r2, 0)" "tr_events r2 = (tr_events r1)(a := None)"
    using call_cancel_ok [OF r1(2), of a] by auto
  then show ?thesis using r1(1) by (auto simp: timer_turn_call_def)
qed

end
