(* ===== verification/Lz_Log.thy ===== *)
theory Lz_Log
  imports Lz_List Lz_Numeric "HOL-Library.Monad_Syntax"
begin

text \<open>
  \<^verbatim>\<open>src/src/logging.c\<close>: the log file with its level and rotation, and the log files of clients.  The state has the static variables of the
  file, the streams that are open and the lines of the files on the disk.  The results of the system calls and of the formatting functions are
  arguments; a line is written as a whole, under the mutex.  A call ends with an error value where the code would dereference a null
  pointer, read outside the names of the levels (\<open>Log_Fault\<close>), or wait for the mutex that is held with \<^verbatim>\<open>lz_log_lock\<close> (\<open>Log_Deadlock\<close>).
  The branch for \<^verbatim>\<open>__central_log_enabled\<close>, which is 0 and never assigned, is never taken.

  The theorems: what a call writes to which file, for every level and in rotation, the failure of which included; and that the messages of all
  clients end up in the file of the first one.
\<close>

section \<open>State\<close>

datatype log_error = Log_Fault | Log_Deadlock

record client_log =
  cl_identifier :: cstring
  cl_file :: nat

record log_state =
  lg_filename :: "cstring option"
  lg_rotate :: bool
  lg_file :: nat
  lg_level :: nat
  lg_macro_level :: nat
  lg_locked :: bool
  lg_streams :: "nat \<rightharpoonup> cstring"
  lg_disk :: "cstring \<Rightarrow> cstring list"
  lg_clients :: addr
  lg_client :: "addr \<rightharpoonup> client_log"
  lg_links :: list_store

abbreviation (input) LZ_LOG_CRITICAL :: nat where "LZ_LOG_CRITICAL \<equiv> 1"
abbreviation (input) LZ_LOG_DEBUG :: nat where "LZ_LOG_DEBUG \<equiv> 5"

text \<open>The bytes of a string of the source.\<close>

definition text_of :: "string \<Rightarrow> cstring" where
  "text_of s = map of_char s"

text \<open>
  The results of a call: the stream of \<^verbatim>\<open>fopen\<close> or 0, the formatted time, whether the prefix was allocated, the formatted message, and whether
  the line was allocated.
\<close>

record log_env =
  le_fopen :: nat
  le_time :: cstring
  le_prefix :: bool
  le_message :: "cstring option"
  le_malloc :: bool

section \<open>Setting up\<close>

definition lz_log_logrotate :: "log_state \<Rightarrow> log_state" where
  "lz_log_logrotate s = s\<lparr>lg_rotate := True\<rparr>"

definition lz_log_get_loglevel :: "log_state \<Rightarrow> nat" where
  "lz_log_get_loglevel s = lg_level s"

definition lz_log_set_loglevel :: "nat \<Rightarrow> log_state \<Rightarrow> log_state" where
  "lz_log_set_loglevel level s = s\<lparr>lg_level := level, lg_macro_level := level\<rparr>"

definition lz_log_lock :: "log_state \<Rightarrow> log_error + log_state" where
  "lz_log_lock s = (if lg_locked s then Inl Log_Deadlock else Inr (s\<lparr>lg_locked := True\<rparr>))"

definition lz_log_unlock :: "log_state \<Rightarrow> log_state" where
  "lz_log_unlock s = s\<lparr>lg_locked := False\<rparr>"

text \<open>A stream that is opened for appending.\<close>

definition open_append :: "nat \<Rightarrow> cstring \<Rightarrow> log_state \<Rightarrow> log_state" where
  "open_append f path s = (if f = 0 then s else s\<lparr>lg_streams := (lg_streams s)(f \<mapsto> path)\<rparr>)"

definition lz_log_init :: "bool \<Rightarrow> nat \<Rightarrow> cstring option \<Rightarrow> log_state \<Rightarrow> log_state \<times> int" where
  "lz_log_init strdup_ok fopen file s =
     (case file of
        None \<Rightarrow> (s, -1)
      | Some path \<Rightarrow>
          if \<not> strdup_ok then (s\<lparr>lg_filename := None\<rparr>, -1)
          else
            let s1 = (open_append fopen path s)\<lparr>lg_filename := Some path, lg_file := fopen\<rparr>
            in if fopen = 0 then (s1, -1) else (s1, 0))"

section \<open>Writing\<close>

definition put_line :: "nat \<Rightarrow> cstring \<Rightarrow> log_state \<Rightarrow> log_error + log_state" where
  "put_line f line s =
     (case lg_streams s f of
        None \<Rightarrow> Inl Log_Fault
      | Some path \<Rightarrow> Inr (s\<lparr>lg_disk := (lg_disk s)(path := lg_disk s path @ [line])\<rparr>))"

definition level_strings :: "cstring list" where
  "level_strings = map text_of ['''', ''C'', ''E'', ''W'', ''N'', ''D'', ''T'', '''']"

text \<open>The name of the file without its directory.\<close>

definition base_name :: "cstring \<Rightarrow> cstring" where
  "base_name file = rev (takeWhile (\<lambda>c. c \<noteq> of_char (CHR ''/'')) (rev file))"

definition log_prefix :: "cstring \<Rightarrow> nat \<Rightarrow> cstring \<Rightarrow> int \<Rightarrow> cstring \<Rightarrow> cstring \<Rightarrow> cstring" where
  "log_prefix time level file line function domain =
     text_of ''['' @ time @ text_of ''] '' @ level_strings ! level @ text_of '' ['' @ base_name file @ text_of '':''
     @ print_int line @ text_of '':'' @ function @ text_of ''] '' @ domain @ text_of '': ''"

text \<open>The part of \<open>_lz_log\<close> from the label \<^verbatim>\<open>log\<close> on.\<close>

definition log_write ::
  "log_env \<Rightarrow> cstring \<Rightarrow> cstring \<Rightarrow> cstring \<Rightarrow> int \<Rightarrow> nat \<Rightarrow> log_state \<Rightarrow> log_error + log_state \<times> int" where
  "log_write env domain file function line level s =
     (if level > lg_level s then Inr (s, 0)
      else if lg_locked s then Inl Log_Deadlock
      else if level \<ge> length level_strings then Inl Log_Fault
      else if \<not> le_prefix env then Inr (s, 0)
      else (case le_message env of
          None \<Rightarrow> Inr (s, 0)
        | Some body \<Rightarrow>
            if \<not> le_malloc env then Inl Log_Fault
            else (case put_line (lg_file s) (log_prefix (le_time env) level file line function domain @ body) s of
                Inl e \<Rightarrow> Inl e
              | Inr s1 \<Rightarrow> Inr (s1, 0))))"

text \<open>
  \<open>_lz_log\<close>.  The second environment is for the call that reports a failure of the rotation; that call finds no rotation
  pending.  \<open>src\<close> and \<open>ln\<close> are \<^verbatim>\<open>__FILE__\<close> and \<^verbatim>\<open>__LINE__\<close> there; \<open>fmt\<close> is whether the format is not null.
\<close>

definition lz_log_fn ::
  "log_env \<Rightarrow> log_env \<Rightarrow> cstring \<Rightarrow> int \<Rightarrow> cstring option \<Rightarrow> cstring option \<Rightarrow> cstring option \<Rightarrow> int \<Rightarrow> nat \<Rightarrow> bool \<Rightarrow> log_state
   \<Rightarrow> log_error + log_state \<times> int" where
  "lz_log_fn env env2 src ln domain file function line level fmt s =
     (case (domain, file, function) of
        (Some d, Some f, Some fn) \<Rightarrow>
          if \<not> fmt then Inr (s, -1)
          else if lg_file s = 0 then Inr (s, -1)
          else if lg_rotate s
          then
            let s1 = s\<lparr>lg_rotate := False\<rparr>
            in (case lg_filename s1 of
                 None \<Rightarrow> Inl Log_Fault
               | Some path \<Rightarrow>
                   if le_fopen env = 0
                   then (case (if LZ_LOG_CRITICAL \<le> lg_macro_level s1
                               then log_write env2 (text_of ''logrotate'') src (text_of ''_lz_log'') ln LZ_LOG_CRITICAL s1
                               else Inr (s1, 0)) of
                       Inl e \<Rightarrow> Inl e
                     | Inr (s2, _) \<Rightarrow> log_write env d f fn line level s2)
                   else
                     let s2 = open_append (le_fopen env) path s1;
                         s3 = s2\<lparr>lg_streams := (lg_streams s2)(lg_file s2 := None)\<rparr>
                     in log_write env d f fn line level (s3\<lparr>lg_file := le_fopen env\<rparr>))
          else log_write env d f fn line level s
      | _ \<Rightarrow> Inr (s, -1))"

text \<open>The macro \<^verbatim>\<open>lz_log\<close>, with its own copy of the level.\<close>

definition lz_log ::
  "log_env \<Rightarrow> log_env \<Rightarrow> cstring \<Rightarrow> int \<Rightarrow> cstring option \<Rightarrow> cstring option \<Rightarrow> cstring option \<Rightarrow> int \<Rightarrow> nat \<Rightarrow> bool \<Rightarrow> log_state
   \<Rightarrow> log_error + log_state" where
  "lz_log env env2 src ln domain file function line level fmt s =
     (if level \<le> lg_macro_level s
      then (case lz_log_fn env env2 src ln domain file function line level fmt s of Inl e \<Rightarrow> Inl e | Inr (s1, _) \<Rightarrow> Inr s1)
      else Inr s)"

section \<open>The logs of clients\<close>

text \<open>The results of a call: the new \<^verbatim>\<open>struct _client_log\<close> or 0, whether the path was allocated, the stream of \<^verbatim>\<open>fopen\<close> or 0.\<close>

record client_env =
  ce_calloc :: addr
  ce_path :: bool
  ce_fopen :: nat

definition client_path :: "cstring option \<Rightarrow> cstring \<Rightarrow> cstring" where
  "client_path file ident = (case file of None \<Rightarrow> text_of ''(null)'' | Some f \<Rightarrow> f) @ text_of ''.client-'' @ ident"

text \<open>\<open>cl\<close> is zeroed memory; its list is at offset 16.  The identifier is the text at the pointer that is stored.\<close>

definition client_log_init :: "client_env \<Rightarrow> addr \<Rightarrow> cstring \<Rightarrow> log_state \<Rightarrow> log_state" where
  "client_log_init env cl ident s =
     (let s1 = s\<lparr>lg_client := (lg_client s)(cl \<mapsto> \<lparr>cl_identifier = ident, cl_file = 0\<rparr>),
                 lg_links := set_next (cl + 16) 0 (set_prev (cl + 16) 0 (lg_links s))\<rparr>
      in if \<not> ce_path env then s1
         else
           let s2 = open_append (ce_fopen env) (client_path (lg_filename s1) ident) s1
           in s2\<lparr>lg_client := (lg_client s2)(cl \<mapsto> \<lparr>cl_identifier = ident, cl_file = ce_fopen env\<rparr>),
                 lg_links := init_list_head (cl + 16) (lg_links s2)\<rparr>)"

text \<open>The loop over the clients, whose head is the list of the first client itself.\<close>

partial_function (option) client_find :: "log_state \<Rightarrow> addr \<Rightarrow> addr \<Rightarrow> cstring \<Rightarrow> (log_error + addr) option" where
  "client_find s head client ident =
     (if client + 16 = head then Some (Inr client)
      else case lg_client s client of
          None \<Rightarrow> Some (Inl Log_Fault)
        | Some c \<Rightarrow>
            if cl_identifier c = ident then Some (Inr client)
            else client_find s head (list_next (lg_links s (client + 16)) - 16) ident)"

text \<open>\<open>env2\<close> is for the client that is appended when the loop ends with a null pointer.\<close>

definition logfile_for_client :: "client_env \<Rightarrow> client_env \<Rightarrow> cstring \<Rightarrow> log_state \<Rightarrow> (log_error + log_state \<times> nat) option" where
  "logfile_for_client env env2 ident s =
     (if lg_clients s = 0 \<and> ce_calloc env = 0 then Some (Inl Log_Fault)
      else
        let s1 = (if lg_clients s = 0 then (client_log_init env (ce_calloc env) ident s)\<lparr>lg_clients := ce_calloc env\<rparr> else s);
            head = lg_clients s1 + 16
        in (case client_find s1 head (list_next (lg_links s1 head) - 16) ident of
             None \<Rightarrow> None
           | Some (Inl e) \<Rightarrow> Some (Inl e)
           | Some (Inr client) \<Rightarrow>
               if client = 0 \<and> ce_calloc env2 = 0 then Some (Inl Log_Fault)
               else
                 let (s2, c) = (if client = 0
                                then let t = client_log_init env2 (ce_calloc env2) ident s1
                                     in (t\<lparr>lg_links := list_add_tail (ce_calloc env2 + 16) head (lg_links t)\<rparr>, ce_calloc env2)
                                else (s1, client))
                 in (case lg_client s2 c of None \<Rightarrow> Some (Inl Log_Fault) | Some cl \<Rightarrow> Some (Inr (s2, cl_file cl)))))"

definition lz_log_from_client ::
  "client_env \<Rightarrow> client_env \<Rightarrow> cstring \<Rightarrow> cstring \<Rightarrow> log_state \<Rightarrow> (log_error + log_state \<times> int) option" where
  "lz_log_from_client env env2 msg ident s =
     (case logfile_for_client env env2 ident s of
        None \<Rightarrow> None
      | Some (Inl e) \<Rightarrow> Some (Inl e)
      | Some (Inr (s1, f)) \<Rightarrow> Some (case put_line f msg s1 of Inl e \<Rightarrow> Inl e | Inr s2 \<Rightarrow> Inr (s2, 0)))"

section \<open>What is written\<close>

text \<open>The mutex is free, the log file is open, and every allocation and formatting succeeds.\<close>

definition log_ready :: "log_state \<Rightarrow> cstring \<Rightarrow> bool" where
  "log_ready s path \<longleftrightarrow> \<not> lg_locked s \<and> lg_file s \<noteq> 0 \<and> lg_streams s (lg_file s) = Some path \<and> lg_level s < 8"

definition formatted :: "log_env \<Rightarrow> cstring \<Rightarrow> bool" where
  "formatted env body \<longleftrightarrow> le_prefix env \<and> le_message env = Some body \<and> le_malloc env"

definition add_lines :: "cstring \<Rightarrow> cstring list \<Rightarrow> log_state \<Rightarrow> log_state" where
  "add_lines path ls s = s\<lparr>lg_disk := (lg_disk s)(path := lg_disk s path @ ls)\<rparr>"

lemma add_lines_simps [simp]:
  "add_lines path [] s = s"
  "add_lines path ls (add_lines path ls' s) = add_lines path (ls' @ ls) s"
  "lg_disk (add_lines path ls s) = (lg_disk s)(path := lg_disk s path @ ls)"
  "lg_level (add_lines path ls s) = lg_level s" "lg_file (add_lines path ls s) = lg_file s"
  "lg_rotate (add_lines path ls s) = lg_rotate s" "lg_streams (add_lines path ls s) = lg_streams s"
  "log_ready (add_lines path ls s) q = log_ready s q"
  by (simp_all add: add_lines_def log_ready_def)

lemma log_write_ok:
  assumes "log_ready s path" and "formatted env body"
  shows "log_write env domain file function line level s
    = Inr (add_lines path (if level \<le> lg_level s then [log_prefix (le_time env) level file line function domain @ body] else []) s, 0)"
  using assms by (auto simp: log_write_def log_ready_def formatted_def put_line_def add_lines_def level_strings_def)

text \<open>
  C39: What a call of \<open>_lz_log\<close> writes: one line with its prefix when the level is not above the limit, else none; at the end of the
  current log file, or, when a rotation is pending, of the file that the name of the log file stands for then, to which the log
  switches and the old stream is closed.  When that file cannot be opened the old one stays, with a critical line
  before the message.  No other file and no other stream changes, and no rotation is pending any more.
\<close>

theorem log_line_written:
  assumes "log_ready s path" and "formatted env body" and "formatted env2 notice"
    and "lg_filename s = Some name" and "le_fopen env \<notin> dom (lg_streams s)"
  shows "\<exists>s'. lz_log_fn env env2 src ln (Some domain) (Some file) (Some function) line level True s = Inr (s', 0)
    \<and> (let switch = (lg_rotate s \<and> le_fopen env \<noteq> 0);
           target = (if switch then name else path);
           failure = (if lg_rotate s \<and> le_fopen env = 0 \<and> 1 \<le> lg_macro_level s \<and> 1 \<le> lg_level s
                      then [log_prefix (le_time env2) 1 src ln (text_of ''_lz_log'') (text_of ''logrotate'') @ notice] else []);
           message = (if level \<le> lg_level s then [log_prefix (le_time env) level file line function domain @ body] else [])
       in lg_disk s' = (lg_disk s)(target := lg_disk s target @ failure @ message)
          \<and> lg_streams s' = (if switch then (lg_streams s)(lg_file s := None, le_fopen env \<mapsto> name) else lg_streams s)
          \<and> \<not> lg_rotate s' \<and> log_ready s' target)"
proof -
  let ?m = "if level \<le> lg_level s then [log_prefix (le_time env) level file line function domain @ body] else []"
  consider (none) "\<not> lg_rotate s" | (fail) "lg_rotate s" "le_fopen env = 0" | (switch) "lg_rotate s" "le_fopen env \<noteq> 0" by blast
  then show ?thesis
  proof cases
    case none
    have "lg_file s \<noteq> 0" using assms(1) by (simp add: log_ready_def)
    then show ?thesis using none log_write_ok [OF assms(1,2)] assms(1) by (simp add: lz_log_fn_def)
  next
    case fail
    let ?s1 = "s\<lparr>lg_rotate := False\<rparr>"
    have r: "log_ready ?s1 path" "lg_file s \<noteq> 0" using assms(1) by (simp_all add: log_ready_def)
    show ?thesis
    proof (cases "1 \<le> lg_macro_level s")
      case True
      let ?n = "if 1 \<le> lg_level s then [log_prefix (le_time env2) 1 src ln (text_of ''_lz_log'') (text_of ''logrotate'') @ notice] else []"
      have "log_ready (add_lines path ?n ?s1) path" using r by simp
      from log_write_ok [OF this assms(2)] show ?thesis
        using True fail r assms(4) log_write_ok [OF r(1) assms(3)]
        by (cases "1 \<le> lg_level s") (simp_all add: lz_log_fn_def)
    next
      case False
      then show ?thesis using fail r assms(4) log_write_ok [OF r(1) assms(2)] by (simp add: lz_log_fn_def)
    qed
  next
    case switch
    let ?s3 = "s\<lparr>lg_rotate := False, lg_streams := (lg_streams s)(le_fopen env \<mapsto> name, lg_file s := None), lg_file := le_fopen env\<rparr>"
    have ne: "lg_file s \<noteq> le_fopen env" "lg_file s \<noteq> 0" using assms(1,5) by (auto simp: log_ready_def)
    then have "log_ready ?s3 name" using assms(1) switch by (simp add: log_ready_def)
    from log_write_ok [OF this assms(2)] this show ?thesis
      using switch assms(4) ne by (simp add: lz_log_fn_def open_append_def fun_upd_twist)
  qed
qed

section \<open>Which file a client writes to\<close>

text \<open>There is a first client, with its stream open.\<close>

definition one_client :: "addr \<Rightarrow> nat \<Rightarrow> cstring \<Rightarrow> log_state \<Rightarrow> bool" where
  "one_client a f path s \<longleftrightarrow>
     lg_clients s = a \<and> a \<noteq> 0 \<and> ring (lg_links s) (a + 16) [] \<and> map_option cl_file (lg_client s a) = Some f \<and> lg_streams s f = Some path"

lemma log_from_one_client:
  assumes "one_client a f path s"
  shows "lz_log_from_client env env2 msg ident s = Some (Inr (add_lines path [msg] s, 0)) \<and> one_client a f path (add_lines path [msg] s)"
proof -
  obtain c where c: "lg_client s a = Some c" "cl_file c = f" using assms by (auto simp: one_client_def)
  have "list_next (lg_links s (a + 16)) - 16 = a" "lg_clients s = a" "a \<noteq> 0" "lg_streams s f = Some path"
    using assms by (simp_all add: one_client_def ring_def)
  moreover have "client_find s (a + 16) a ident = Some (Inr a)" by (simp add: client_find.simps)
  ultimately have "logfile_for_client env env2 ident s = Some (Inr (s, f))" using c by (simp add: logfile_for_client_def Let_def)
  then show ?thesis using assms by (simp add: lz_log_from_client_def put_line_def one_client_def add_lines_def)
qed

lemma log_from_new_client:
  assumes "lg_clients s = 0" and "ce_calloc env \<noteq> 0" and "ce_path env" and "ce_fopen env \<noteq> 0"
  shows "\<exists>s'. lz_log_from_client env env2 msg ident s = Some (Inr (s', 0))
    \<and> one_client (ce_calloc env) (ce_fopen env) (client_path (lg_filename s) ident) s'
    \<and> lg_disk s' = lg_disk (add_lines (client_path (lg_filename s) ident) [msg] s)"
proof -
  let ?a = "ce_calloc env" and ?p = "client_path (lg_filename s) ident"
  let ?s1 = "(client_log_init env ?a ident s)\<lparr>lg_clients := ?a\<rparr>"
  have one: "one_client ?a (ce_fopen env) ?p ?s1"
    using assms by (simp add: one_client_def client_log_init_def open_append_def Let_def ring_def init_list_head_def)
  have "client_find ?s1 (?a + 16) (list_next (lg_links ?s1 (?a + 16)) - 16) ident = Some (Inr ?a)"
    using one by (simp add: one_client_def ring_def client_find.simps)
  then have "logfile_for_client env env2 ident s = Some (Inr (?s1, ce_fopen env))"
    using assms one by (auto simp: logfile_for_client_def Let_def one_client_def)
  moreover have "put_line (ce_fopen env) msg ?s1 = Inr (add_lines ?p [msg] ?s1)"
    using one by (simp add: one_client_def put_line_def add_lines_def)
  moreover have "one_client ?a (ce_fopen env) ?p (add_lines ?p [msg] ?s1)"
    using one by (simp add: one_client_def add_lines_def)
  moreover have "lg_disk ?s1 = lg_disk s" using assms by (simp add: client_log_init_def open_append_def Let_def)
  ultimately show ?thesis by (simp add: lz_log_from_client_def)
qed

text \<open>Calls of \<open>lz_log_from_client\<close>, each with its message and its client.\<close>

fun client_calls :: "(client_env \<times> client_env \<times> cstring \<times> cstring) list \<Rightarrow> log_state \<Rightarrow> (log_error + log_state) option" where
  "client_calls [] s = Some (Inr s)"
| "client_calls ((env, env2, msg, ident) # calls) s =
     (case lz_log_from_client env env2 msg ident s of
        None \<Rightarrow> None
      | Some (Inl e) \<Rightarrow> Some (Inl e)
      | Some (Inr (s1, _)) \<Rightarrow> client_calls calls s1)"

lemma client_calls_one:
  "one_client a f path s \<Longrightarrow> client_calls calls s = Some (Inr (add_lines path (map (\<lambda>(_, _, msg, _). msg) calls) s))"
proof (induction calls arbitrary: s)
  case (Cons c calls)
  obtain env env2 msg ident where c: "c = (env, env2, msg, ident)" by (cases c)
  show ?case using log_from_one_client [OF Cons.prems, of env env2 msg ident] Cons.IH [of "add_lines path [msg] s"]
    by (simp add: c)
qed simp

text \<open>
  C40: Every call of \<open>lz_log_from_client\<close> returns, and all messages of all clients go, in order, to the file named after the client of the
  first call: the loop over the clients starts behind its own head, which is the first client, and ends there without a null
  pointer, so no other client is ever compared or appended.
\<close>

theorem client_logs_one_file:
  assumes "lg_clients s = 0" and "ce_calloc env \<noteq> 0" and "ce_path env" and "ce_fopen env \<noteq> 0"
  shows "\<exists>s'. client_calls ((env, env2, msg, ident) # calls) s = Some (Inr s')
    \<and> (let path = client_path (lg_filename s) ident
       in lg_disk s' = (lg_disk s)(path := lg_disk s path @ msg # map (\<lambda>(_, _, m, _). m) calls))"
proof -
  obtain s1 where s1: "lz_log_from_client env env2 msg ident s = Some (Inr (s1, 0))"
      "one_client (ce_calloc env) (ce_fopen env) (client_path (lg_filename s) ident) s1"
      "lg_disk s1 = lg_disk (add_lines (client_path (lg_filename s) ident) [msg] s)"
    using log_from_new_client [OF assms] by blast
  show ?thesis using s1(1,3) client_calls_one [OF s1(2), of calls] by simp
qed

definition demo_log :: log_state where
  "demo_log = \<lparr>lg_filename = Some (text_of ''log''), lg_rotate = True, lg_file = 3, lg_level = 5, lg_macro_level = 5, lg_locked = False,
     lg_streams = [3 \<mapsto> text_of ''log''], lg_disk = (\<lambda>_. []), lg_clients = 0, lg_client = Map.empty,
     lg_links = (\<lambda>_. \<lparr>list_next = 0, list_prev = 0\<rparr>)\<rparr>"

definition demo_log_env :: "nat \<Rightarrow> log_env" where
  "demo_log_env f = \<lparr>le_fopen = f, le_time = text_of ''now'', le_prefix = True, le_message = Some (text_of ''hi''), le_malloc = True\<rparr>"

theorem log_line_written_witness:
  "\<exists>s'. lz_log_fn (demo_log_env 4) (demo_log_env 0) (text_of ''logging.c'') 169 (Some (text_of ''main'')) (Some (text_of ''src/a.c'')) (Some (text_of ''f'')) 7 1
      True demo_log = Inr (s', 0)
    \<and> lg_disk s' (text_of ''log'') = [text_of ''[now] C [a.c:7:f] main: hi''] \<and> lg_streams s' = [4 \<mapsto> text_of ''log'']"
proof -
  have "print_int 7 = text_of ''7''" by code_simp
  then show ?thesis
    using log_line_written [of demo_log "text_of ''log''" "demo_log_env 4" "text_of ''hi''" "demo_log_env 0" "text_of ''hi''" "text_of ''log''"
        "text_of ''logging.c''" 169 "text_of ''main''" "text_of ''src/a.c''" "text_of ''f''" 7 1]
    by (auto simp: log_ready_def formatted_def demo_log_def demo_log_env_def log_prefix_def level_strings_def base_name_def text_of_def fun_upd_twist Let_def)
qed

theorem client_logs_one_file_witness:
  "\<exists>s'. client_calls [(\<lparr>ce_calloc = 64, ce_path = True, ce_fopen = 5\<rparr>, \<lparr>ce_calloc = 0, ce_path = True, ce_fopen = 0\<rparr>, [1], text_of ''a''),
       (\<lparr>ce_calloc = 96, ce_path = True, ce_fopen = 6\<rparr>, \<lparr>ce_calloc = 0, ce_path = True, ce_fopen = 0\<rparr>, [2], text_of ''b'')] demo_log = Some (Inr s')
     \<and> lg_disk s' (text_of ''log.client-a'') = [[1], [2]] \<and> lg_disk s' (text_of ''log.client-b'') = []"
  using client_logs_one_file [of demo_log "\<lparr>ce_calloc = 64, ce_path = True, ce_fopen = 5\<rparr>" "\<lparr>ce_calloc = 0, ce_path = True, ce_fopen = 0\<rparr>" "[1]" "text_of ''a''"
      "[(\<lparr>ce_calloc = 96, ce_path = True, ce_fopen = 6\<rparr>, \<lparr>ce_calloc = 0, ce_path = True, ce_fopen = 0\<rparr>, [2], text_of ''b'')]"]
  by (auto simp: demo_log_def client_path_def text_of_def)

text \<open>A file that cannot be opened is written to through a null pointer.\<close>

lemma client_log_no_file:
  assumes "lg_clients s = 0" and "ce_calloc env \<noteq> 0" and "ce_path env" and "ce_fopen env = 0" and "lg_streams s 0 = None"
  shows "lz_log_from_client env env2 msg ident s = Some (Inl Log_Fault)"
  using assms
  by (simp add: lz_log_from_client_def logfile_for_client_def client_log_init_def open_append_def init_list_head_def Let_def client_find.simps put_line_def)

end
