(* ===== verification/Lz_Common_Utils.thy ===== *)
theory Lz_Common_Utils
  imports Lz_Numeric
begin

text \<open>
  \<^verbatim>\<open>src/src/common-utils.c\<close>: the string and number utilities.  A C string argument is an option (a null pointer is
  \<open>None\<close>) of the list of its bytes.  The \<open>lz_string2*\<close> functions return the code, the number written through
  the result pointer, if any, and the value of \<^verbatim>\<open>errno\<close> after the call, given the value before.  \<open>lz_trim\<close>
  works in place and is modelled on the block of memory.  The outcomes of allocations and of
  \<^verbatim>\<open>read\<close> are arguments.
\<close>

section \<open>Character classes\<close>

definition is_upper :: "u8 \<Rightarrow> bool" where "is_upper c \<longleftrightarrow> 65 \<le> c \<and> c \<le> 90"
definition is_lower :: "u8 \<Rightarrow> bool" where "is_lower c \<longleftrightarrow> 97 \<le> c \<and> c \<le> 122"
definition is_alpha :: "u8 \<Rightarrow> bool" where "is_alpha c \<longleftrightarrow> is_upper c \<or> is_lower c"
definition is_alnum :: "u8 \<Rightarrow> bool" where "is_alnum c \<longleftrightarrow> is_alpha c \<or> 48 \<le> c \<and> c \<le> 57"
definition to_lower :: "u8 \<Rightarrow> u8" where "to_lower c = (if is_upper c then c + 32 else c)"

text \<open>\<^verbatim>\<open>strcasecmp (a, b) == 0\<close>, and \<^verbatim>\<open>strcmp\<close>.\<close>

definition strcase_equal :: "cstring \<Rightarrow> cstring \<Rightarrow> bool" where
  "strcase_equal a b \<longleftrightarrow> map to_lower a = map to_lower b"

definition c_strcmp :: "cstring \<Rightarrow> cstring \<Rightarrow> int" where
  "c_strcmp a b = memcmp (a @ [0]) (b @ [0]) (max (length a) (length b) + 1)"

section \<open>Logarithm\<close>

fun log_base2_loop :: "nat \<Rightarrow> int \<Rightarrow> int" where
  "log_base2_loop x val = (if 1 < x then log_base2_loop (x div 2) (val + 1) else val)"

declare log_base2_loop.simps [simp del]

definition log_base2 :: "u64 \<Rightarrow> int" where
  "log_base2 x = log_base2_loop (unat x) 0"

section \<open>Trimming and splitting\<close>

fun trim_back :: "u8 list \<Rightarrow> nat \<Rightarrow> nat \<Rightarrow> nat" where
  "trim_back block s 0 = 0"
| "trim_back block s (Suc t) = (if s < Suc t \<and> is_space (block ! Suc t) then trim_back block s t else Suc t)"

text \<open>
  The block of memory at \<open>string\<close>; the result is the block after the call and the offset of the pointer returned.
  A block without a terminator is undefined.
\<close>

definition lz_trim :: "u8 list option \<Rightarrow> (u8 list option \<times> nat) option" where
  "lz_trim string =
     (case string of
        None \<Rightarrow> Some (None, 0)
      | Some block \<Rightarrow>
          if 0 \<notin> set block then None
          else
            let s = length (takeWhile is_space block)
            in if block ! s = 0 then Some (Some block, s)
               else
                 let t = trim_back block s (s + length (takeWhile (\<lambda>c. c \<noteq> 0) (drop s block)) - 1)
                 in Some (Some (block[t + 1 := 0]), s))"

lemma dropWhile_Cons_less: "dropWhile P xs = c # rest \<Longrightarrow> length rest < length xs"
  using length_dropWhile_le [of P xs] by simp

text \<open>The tokens that \<^verbatim>\<open>strsep\<close> returns until \<open>running\<close> is null.\<close>

function strsep_tokens :: "cstring \<Rightarrow> cstring \<Rightarrow> cstring list" where
  "strsep_tokens delim running =
     (let token = takeWhile (\<lambda>c. c \<notin> set delim) running
      in case dropWhile (\<lambda>c. c \<notin> set delim) running of
           [] \<Rightarrow> [token]
         | c # rest \<Rightarrow> token # strsep_tokens delim rest)"
  by pat_completeness auto
termination by (relation "measure (\<lambda>(delim, running). length running)") (auto dest: dropWhile_Cons_less)

declare strsep_tokens.simps [simp del]

fun split_fill :: "(nat \<Rightarrow> bool) \<Rightarrow> nat \<Rightarrow> cstring list \<Rightarrow> cstring list option" where
  "split_fill dup i [] = Some []"
| "split_fill dup i (token # rest) =
     (if token = [] then split_fill dup i rest
      else if \<not> dup i then None
      else map_option ((#) token) (split_fill dup (Suc i) rest))"

text \<open>\<open>dup1\<close>, \<open>dup2\<close>, \<open>list_ok\<close> and \<open>dup i\<close> say whether the allocations succeed, \<open>ptrs\<close> that the result pointers are not null.\<close>

definition lz_strsplit ::
  "bool \<Rightarrow> bool \<Rightarrow> bool \<Rightarrow> (nat \<Rightarrow> bool) \<Rightarrow> cstring option \<Rightarrow> cstring option \<Rightarrow> bool
   \<Rightarrow> int \<times> (cstring list \<times> nat) option" where
  "lz_strsplit dup1 dup2 list_ok dup str delim ptrs =
     (case (str, delim) of
        (Some s, Some d) \<Rightarrow>
          if \<not> ptrs then (-1, None)
          else if \<not> dup1 then (-1, None)
          else
            let count = length (filter (\<lambda>t. t \<noteq> []) (strsep_tokens d s))
            in if \<not> dup2 then (-1, None)
               else if \<not> list_ok then (-1, None)
               else
                 (case split_fill dup 0 (strsep_tokens d s) of
                    None \<Rightarrow> (-1, None)
                  | Some tokens \<Rightarrow> (0, Some (tokens, count)))
      | _ \<Rightarrow> (-1, None))"

text \<open>\<^verbatim>\<open>strtok_r\<close> returns the non-empty tokens.  \<^verbatim>\<open>strdup\<close> of a null \<open>str\<close> is undefined.\<close>

fun strstr_loop :: "cstring \<Rightarrow> cstring list \<Rightarrow> int \<Rightarrow> int" where
  "strstr_loop match [] ret = ret"
| "strstr_loop match (tmp # rest) ret =
     (let ret' = c_strcmp tmp match in if ret' = 0 then ret' else strstr_loop match rest ret')"

definition lz_strstr :: "bool \<Rightarrow> cstring option \<Rightarrow> cstring option \<Rightarrow> cstring option \<Rightarrow> int option" where
  "lz_strstr dup str delim match =
     (case str of
        None \<Rightarrow> None
      | Some s \<Rightarrow>
          (case (delim, match) of
             (Some d, Some mt) \<Rightarrow>
               if \<not> dup then Some (-1)
               else Some (strstr_loop mt (filter (\<lambda>t. t \<noteq> []) (strsep_tokens d s)) 0)
           | _ \<Rightarrow> Some (-1)))"

definition lz_volume_name_validate :: "cstring option \<Rightarrow> int" where
  "lz_volume_name_validate volume_name =
     (case volume_name of
        None \<Rightarrow> -1
      | Some [] \<Rightarrow> 1
      | Some (c # cs) \<Rightarrow> if \<not> is_alpha c then 1 else if list_all (\<lambda>c. is_alnum c \<or> c = 95) cs then 0 else 1)"

section \<open>Numbers\<close>

text \<open>The test for a minus sign after white space.\<close>

definition starts_minus :: "cstring \<Rightarrow> bool" where
  "starts_minus str = (take 1 (dropWhile is_space str) = [45])"

text \<open>
  The body that the parsers share: \<^verbatim>\<open>errno\<close> is cleared, the conversion called, an error returned, the old value
  restored, and what follows the number tested.
\<close>

definition string2number ::
  "(cstring \<Rightarrow> 'n \<times> int \<times> cstring) \<Rightarrow> (cstring \<Rightarrow> bool) \<Rightarrow> int \<Rightarrow> cstring \<Rightarrow> int \<times> 'n option \<times> int" where
  "string2number strto tail_ok errno str =
     (case strto str of (value, e, tail) \<Rightarrow>
        if e = ERANGE \<or> e = EINVAL then (-1, None, e)
        else
          let errno' = (if e = 0 then errno else e)
          in if \<not> tail_ok tail then (-1, None, errno') else (0, Some value, errno'))"

definition string2_checked ::
  "bool \<Rightarrow> (cstring \<Rightarrow> 'n \<times> int \<times> cstring) \<Rightarrow> (cstring \<Rightarrow> bool) \<Rightarrow> int \<Rightarrow> cstring option \<Rightarrow> bool
   \<Rightarrow> int \<times> 'n option \<times> int" where
  "string2_checked nonneg strto tail_ok errno str n =
     (case str of
        None \<Rightarrow> (-1, None, EINVAL)
      | Some s \<Rightarrow>
          if \<not> n then (-1, None, EINVAL)
          else if nonneg \<and> starts_minus s then (-1, None, errno)
          else string2number strto tail_ok errno s)"

definition lz_string2time :: "int \<Rightarrow> cstring option \<Rightarrow> bool \<Rightarrow> int \<times> u32 option \<times> int" where
  "lz_string2time errno str n =
     (case string2_checked True (strtol 0) (\<lambda>tail. tail \<in> {[], [115], [115, 101, 99]}) errno str n of
        (ret, v, e) \<Rightarrow> (ret, map_option word_of_int v, e))"

definition lz_string2percent :: "int \<Rightarrow> cstring option \<Rightarrow> bool \<Rightarrow> int \<times> u32 option \<times> int" where
  "lz_string2percent errno str n =
     (case string2_checked True (strtol 0) (\<lambda>tail. tail \<in> {[], [37]}) errno str n of
        (ret, v, e) \<Rightarrow> (ret, map_option word_of_int v, e))"

definition string2long :: "nat \<Rightarrow> int \<Rightarrow> cstring option \<Rightarrow> bool \<Rightarrow> int \<times> int option \<times> int" where
  "string2long base errno str n = string2_checked False (strtol base) (\<lambda>tail. tail = []) errno str n"

definition string2ulong :: "nat \<Rightarrow> int \<Rightarrow> cstring option \<Rightarrow> bool \<Rightarrow> int \<times> int option \<times> int" where
  "string2ulong base errno str n = string2_checked True (strtoul base) (\<lambda>tail. tail = []) errno str n"

text \<open>The cast to \<^verbatim>\<open>unsigned int\<close> has no range test.\<close>

definition string2uint :: "nat \<Rightarrow> int \<Rightarrow> cstring option \<Rightarrow> bool \<Rightarrow> int \<times> u32 option \<times> int" where
  "string2uint base errno str n =
     (case string2_checked True (strtoul base) (\<lambda>tail. tail = []) errno str n of
        (ret, v, e) \<Rightarrow> (ret, map_option word_of_int v, e))"

definition string2double ::
  "(cstring \<Rightarrow> 'd \<times> int \<times> cstring) \<Rightarrow> int \<Rightarrow> cstring option \<Rightarrow> bool \<Rightarrow> int \<times> 'd option \<times> int" where
  "string2double strtod errno str n = string2_checked False strtod (\<lambda>tail. tail = []) errno str n"

definition string2longlong :: "nat \<Rightarrow> int \<Rightarrow> cstring option \<Rightarrow> bool \<Rightarrow> int \<times> int option \<times> int" where
  "string2longlong base errno str n = string2_checked False (strtol base) (\<lambda>tail. tail = []) errno str n"

definition string2ulonglong :: "nat \<Rightarrow> int \<Rightarrow> cstring option \<Rightarrow> bool \<Rightarrow> int \<times> int option \<times> int" where
  "string2ulonglong base errno str n = string2_checked True (strtoul base) (\<lambda>tail. tail = []) errno str n"

definition lz_string2long :: "int \<Rightarrow> cstring option \<Rightarrow> bool \<Rightarrow> int \<times> int option \<times> int" where
  "lz_string2long errno str n = string2long 0 errno str n"

definition lz_string2ulong :: "int \<Rightarrow> cstring option \<Rightarrow> bool \<Rightarrow> int \<times> int option \<times> int" where
  "lz_string2ulong errno str n = string2ulong 0 errno str n"

text \<open>The pointer to an \<^verbatim>\<open>int\<close> is cast to \<^verbatim>\<open>long *\<close>: the 64-bit value is what the call stores there.\<close>

definition lz_string2int :: "int \<Rightarrow> cstring option \<Rightarrow> bool \<Rightarrow> int \<times> u64 option \<times> int" where
  "lz_string2int errno str n =
     (case string2long 0 errno str n of (ret, v, e) \<Rightarrow> (ret, map_option word_of_int v, e))"

definition lz_string2uint :: "int \<Rightarrow> cstring option \<Rightarrow> bool \<Rightarrow> int \<times> u32 option \<times> int" where
  "lz_string2uint errno str n = string2uint 0 errno str n"

definition lz_string2double ::
  "(cstring \<Rightarrow> 'd \<times> int \<times> cstring) \<Rightarrow> int \<Rightarrow> cstring option \<Rightarrow> bool \<Rightarrow> int \<times> 'd option \<times> int" where
  "lz_string2double strtod errno str n = string2double strtod errno str n"

definition lz_string2longlong :: "int \<Rightarrow> cstring option \<Rightarrow> bool \<Rightarrow> int \<times> int option \<times> int" where
  "lz_string2longlong errno str n = string2longlong 0 errno str n"

definition lz_string2ulonglong :: "int \<Rightarrow> cstring option \<Rightarrow> bool \<Rightarrow> int \<times> int option \<times> int" where
  "lz_string2ulonglong errno str n = string2ulonglong 0 errno str n"

text \<open>
  The sized variants parse into a local variable and test the range; their result pointer is not tested,
  the model takes it to be valid.
\<close>

definition range_checked :: "int \<Rightarrow> int \<Rightarrow> int \<times> int option \<times> int \<Rightarrow> int \<times> 'a::len word option \<times> int" where
  "range_checked lo hi r =
     (case r of (rv, v, e) \<Rightarrow>
        if rv \<noteq> 0 then (rv, None, e)
        else (case v of
                Some l \<Rightarrow> if lo \<le> l \<and> l \<le> hi then (0, Some (word_of_int l), e) else (-1, None, ERANGE)
              | None \<Rightarrow> (-1, None, ERANGE)))"

definition lz_string2int8 :: "int \<Rightarrow> cstring option \<Rightarrow> int \<times> u8 option \<times> int" where
  "lz_string2int8 errno str = range_checked (- (2 ^ 7)) (2 ^ 7 - 1) (string2long 0 errno str True)"

definition lz_string2int16 :: "int \<Rightarrow> cstring option \<Rightarrow> int \<times> u16 option \<times> int" where
  "lz_string2int16 errno str = range_checked (- (2 ^ 15)) (2 ^ 15 - 1) (string2long 0 errno str True)"

definition lz_string2int32 :: "int \<Rightarrow> cstring option \<Rightarrow> int \<times> u32 option \<times> int" where
  "lz_string2int32 errno str = range_checked (- (2 ^ 31)) (2 ^ 31 - 1) (string2long 0 errno str True)"

definition lz_string2int64 :: "int \<Rightarrow> cstring option \<Rightarrow> int \<times> u64 option \<times> int" where
  "lz_string2int64 errno str = range_checked (- (2 ^ 63)) (2 ^ 63 - 1) (string2longlong 0 errno str True)"

definition lz_string2uint8 :: "int \<Rightarrow> cstring option \<Rightarrow> int \<times> u8 option \<times> int" where
  "lz_string2uint8 errno str = range_checked 0 (2 ^ 8 - 1) (string2ulong 0 errno str True)"

definition lz_string2uint16 :: "int \<Rightarrow> cstring option \<Rightarrow> int \<times> u16 option \<times> int" where
  "lz_string2uint16 errno str = range_checked 0 (2 ^ 16 - 1) (string2ulong 0 errno str True)"

definition lz_string2uint32 :: "int \<Rightarrow> cstring option \<Rightarrow> int \<times> u32 option \<times> int" where
  "lz_string2uint32 errno str = range_checked 0 (2 ^ 32 - 1) (string2ulong 0 errno str True)"

definition lz_string2uint64 :: "int \<Rightarrow> cstring option \<Rightarrow> int \<times> u64 option \<times> int" where
  "lz_string2uint64 errno str = range_checked 0 (2 ^ 64 - 1) (string2ulonglong 0 errno str True)"

definition lz_string2ulong_base10 :: "int \<Rightarrow> cstring option \<Rightarrow> bool \<Rightarrow> int \<times> int option \<times> int" where
  "lz_string2ulong_base10 errno str n = string2ulong 10 errno str n"

definition lz_string2uint_base10 :: "int \<Rightarrow> cstring option \<Rightarrow> bool \<Rightarrow> int \<times> u32 option \<times> int" where
  "lz_string2uint_base10 errno str n = string2uint 10 errno str n"

definition lz_string2uint8_base10 :: "int \<Rightarrow> cstring option \<Rightarrow> int \<times> u8 option \<times> int" where
  "lz_string2uint8_base10 errno str = range_checked 0 (2 ^ 8 - 1) (string2ulong 10 errno str True)"

definition lz_string2uint16_base10 :: "int \<Rightarrow> cstring option \<Rightarrow> int \<times> u16 option \<times> int" where
  "lz_string2uint16_base10 errno str = range_checked 0 (2 ^ 16 - 1) (string2ulong 10 errno str True)"

definition lz_string2uint32_base10 :: "int \<Rightarrow> cstring option \<Rightarrow> int \<times> u32 option \<times> int" where
  "lz_string2uint32_base10 errno str = range_checked 0 (2 ^ 32 - 1) (string2ulong 10 errno str True)"

definition lz_string2uint64_base10 :: "int \<Rightarrow> cstring option \<Rightarrow> int \<times> u64 option \<times> int" where
  "lz_string2uint64_base10 errno str = range_checked 0 (2 ^ 64 - 1) (string2ulonglong 10 errno str True)"

text \<open>The unit after a size; the product wraps around at 64 bits.\<close>

definition byte_unit :: "cstring \<Rightarrow> u64 option" where
  "byte_unit tail =
     (if tail = [] then Some 1
      else if strcase_equal tail [75, 66] then Some 1024
      else if strcase_equal tail [77, 66] then Some 1048576
      else if strcase_equal tail [71, 66] then Some 1073741824
      else if strcase_equal tail [84, 66] then Some 1099511627776
      else if strcase_equal tail [80, 66] then Some 1125899906842624
      else None)"

definition lz_string2bytesize :: "int \<Rightarrow> cstring option \<Rightarrow> bool \<Rightarrow> int \<times> u64 option \<times> int" where
  "lz_string2bytesize errno str n =
     (case str of
        None \<Rightarrow> (-1, None, EINVAL)
      | Some s \<Rightarrow>
          if \<not> n then (-1, None, EINVAL)
          else if starts_minus s then (-1, None, errno)
          else
            (case strtoul 10 s of (value, e, tail) \<Rightarrow>
               if e = ERANGE \<or> e = EINVAL then (-1, None, e)
               else
                 let errno' = (if e = 0 then errno else e)
                 in (case byte_unit tail of
                       None \<Rightarrow> (-1, None, errno')
                     | Some u \<Rightarrow> (0, Some (word_of_int value * u), errno'))))"

definition long_long_unit :: "cstring \<Rightarrow> u64" where
  "long_long_unit tail =
     (case tail of
        c # d # _ \<Rightarrow>
          if d = 66 \<or> d = 98 then
            (if c = 71 \<or> c = 103 then 1073741824 else if c = 77 \<or> c = 109 then 1048576
             else if c = 75 \<or> c = 107 then 1024 else 1)
          else 1
      | _ \<Rightarrow> 1)"

definition lz_str_to_long_long :: "cstring option \<Rightarrow> u64" where
  "lz_str_to_long_long number =
     (case number of
        None \<Rightarrow> 0
      | Some s \<Rightarrow> (case strtol 0 s of (ret, _, endptr) \<Rightarrow> word_of_int ret * long_long_unit endptr))"

definition lz_string2boolean :: "cstring option \<Rightarrow> int \<times> bool option" where
  "lz_string2boolean str =
     (case str of
        None \<Rightarrow> (-1, None)
      | Some s \<Rightarrow>
          if strcase_equal s [49] \<or> strcase_equal s [111, 110] \<or> strcase_equal s [121, 101, 115]
             \<or> strcase_equal s [116, 114, 117, 101] \<or> strcase_equal s [101, 110, 97, 98, 108, 101] then (0, Some True)
          else if strcase_equal s [48] \<or> strcase_equal s [111, 102, 102] \<or> strcase_equal s [110, 111]
             \<or> strcase_equal s [102, 97, 108, 115, 101] \<or> strcase_equal s [100, 105, 115, 97, 98, 108, 101]
          then (0, Some False)
          else (-1, None))"

section \<open>Dumping a buffer\<close>

text \<open>The text written to \<^verbatim>\<open>stderr\<close>; \<open>None\<close> when a byte outside the buffer is read.\<close>

fun buffer_dump :: "u8 list \<Rightarrow> nat \<Rightarrow> nat \<Rightarrow> cstring option" where
  "buffer_dump buffer i 0 = Some [10]"
| "buffer_dump buffer i (Suc n) =
     (if length buffer \<le> i then None
      else map_option (\<lambda>rest. (if i mod 16 = 0 then [10] else [])
             @ [91, digit_char (unat (buffer ! i) div 16), digit_char (unat (buffer ! i) mod 16), 93] @ rest)
             (buffer_dump buffer (Suc i) n))"

definition lz_buffer2string :: "u8 list option \<Rightarrow> int \<Rightarrow> (cstring \<times> int) option" where
  "lz_buffer2string buffer len =
     (case buffer of
        None \<Rightarrow> Some ([], -1)
      | Some b \<Rightarrow> map_option (\<lambda>out. (out, 0)) (buffer_dump b 0 (nat len)))"

section \<open>The checksum of a file\<close>

text \<open>The 32-bit checksum as its four bytes in memory; \<open>size\<close> is at least 4.\<close>

definition xor_shifted :: "u8 list \<Rightarrow> nat \<Rightarrow> u8 \<Rightarrow> u8 list" where
  "xor_shifted checksum k b = checksum[k := checksum ! k XOR shl b k]"

function checksum_quads :: "u8 list \<Rightarrow> nat \<Rightarrow> nat \<Rightarrow> u8 list \<Rightarrow> u8 list" where
  "checksum_quads buf bsize i cs =
     (if i < bsize - 4
      then checksum_quads buf bsize (i + 4)
             (xor_shifted (xor_shifted (xor_shifted (xor_shifted cs 0 (buf ! i)) 1 (buf ! (i + 1))) 2 (buf ! (i + 2)))
                3 (buf ! (i + 3)))
      else cs)"
  by pat_completeness auto
termination by (relation "measure (\<lambda>(buf, bsize, i, cs). bsize - i)") auto

declare checksum_quads.simps [simp del]

definition compute_checksum :: "u8 list \<Rightarrow> nat \<Rightarrow> u8 list \<Rightarrow> u8 list" where
  "compute_checksum buf bsize checksum =
     (let c0 = (if checksum = [0, 0, 0, 0] then [0xba, 0xbe, 0xb0, 0x0b] else checksum);
          c1 = checksum_quads buf bsize 0 c0
      in foldl (\<lambda>c k. xor_shifted c k (buf ! (bsize - 4 + k))) c1 [0..<bsize mod 4 + 1])"

text \<open>
  The results of the successive calls of \<^verbatim>\<open>read\<close>: the bytes of every positive result, then the final result, 0 or
  negative.  A short read leaves the rest of the buffer as it was.
\<close>

fun checksum_reads :: "u8 list list \<Rightarrow> u8 list \<Rightarrow> u8 list \<Rightarrow> u8 list" where
  "checksum_reads [] buf checksum = checksum"
| "checksum_reads (chunk # reads) buf checksum =
     (let buf' = chunk @ drop (length chunk) buf
      in checksum_reads reads buf' (compute_checksum buf' 1024 checksum))"

definition get_checksum_for_file :: "u8 list list \<Rightarrow> int \<Rightarrow> u8 list \<Rightarrow> u8 list \<times> int" where
  "get_checksum_for_file reads final checksum = (checksum_reads reads (replicate 1024 0) checksum, final)"

section \<open>Logarithm: correctness\<close>

lemma log_base2_loop_spec:
  "0 < x \<Longrightarrow> \<exists>k. log_base2_loop x v = v + int k \<and> 2 ^ k \<le> x \<and> x < 2 ^ (k + 1)"
proof (induction x v rule: log_base2_loop.induct)
  case (1 x v)
  show ?case
  proof (cases "1 < x")
    case True
    then obtain k where "log_base2_loop (x div 2) (v + 1) = v + 1 + int k" "2 ^ k \<le> x div 2" "x div 2 < 2 ^ (k + 1)"
      using 1 by auto
    then have "log_base2_loop x v = v + int (Suc k)" "2 ^ Suc k \<le> x" "x < 2 ^ (Suc k + 1)"
      using True by (simp_all add: log_base2_loop.simps [of x])
    then show ?thesis by blast
  next
    case False
    then show ?thesis using 1(2) by (intro exI [of _ 0]) (simp add: log_base2_loop.simps [of x])
  qed
qed

section \<open>Trimming: correctness\<close>

definition strip :: "cstring \<Rightarrow> cstring" where
  "strip s = rev (dropWhile is_space (rev (dropWhile is_space s)))"

lemma trim_back_le: "trim_back block s t \<le> t"
  by (induction block s t rule: trim_back.induct) auto

lemma trim_back_ge: "s \<le> t \<Longrightarrow> s \<le> trim_back block s t"
  by (induction block s t rule: trim_back.induct) auto

text \<open>From the last byte of a text that does not start with a space, the loop stops at the last byte that is not one.\<close>

lemma trim_back_strip:
  assumes "u \<noteq> []" and "\<not> is_space (hd u)" and "block = pre @ u @ post"
  shows "trim_back block (length pre) (length pre + length u - 1) + 1
    = length pre + length (rev (dropWhile is_space (rev u)))"
  using assms
proof (induction u arbitrary: post rule: rev_induct)
  case (snoc c u)
  show ?case
  proof (cases "u = []")
    case True
    then show ?thesis using snoc.prems(2) by (cases pre) simp_all
  next
    case False
    then obtain k where k: "length pre + length u = Suc k" "length pre \<le> k" by (cases u) auto
    have nth: "block ! Suc k = c" using snoc.prems(3) nth_append_length [of "pre @ u" c post] k(1) by simp
    have "trim_back block (length pre) k + 1 = length pre + length (rev (dropWhile is_space (rev u)))"
      using snoc.IH [OF False, of "c # post"] snoc.prems(2,3) False k(1) by simp
    then show ?thesis using k nth by simp
  qed
qed simp

lemma lz_trim_spec:
  assumes "0 \<notin> set s"
  shows "\<exists>block off. lz_trim (Some (s @ 0 # rest)) = Some (Some block, off)
    \<and> takeWhile (\<lambda>c. c \<noteq> 0) (drop off block) = strip s \<and> length block = length (s @ 0 # rest)"
proof -
  define pre u where "pre = takeWhile is_space s" and "u = dropWhile is_space s"
  have s: "s = pre @ u" by (simp add: pre_def u_def)
  have st: "strip s = rev (dropWhile is_space (rev u))" by (simp add: strip_def u_def)
  have z: "\<not> is_space 0" by code_simp
  have nsp: "u = [] \<or> \<not> is_space (hd u)" unfolding u_def using hd_dropWhile by blast
  have nu: "0 \<notin> set u" using assms s by simp
  let ?b = "pre @ u @ 0 # rest"
  have tw: "takeWhile is_space ?b = pre"
  proof -
    have "\<forall>c \<in> set pre. is_space c" by (auto simp: pre_def dest: set_takeWhileD)
    moreover have "takeWhile is_space (u @ 0 # rest) = []" using nsp z by (cases u) auto
    ultimately show ?thesis by simp
  qed
  show ?thesis
  proof (cases "u = []")
    case True
    then show ?thesis using tw st by (simp add: lz_trim_def s)
  next
    case False
    define v where "v = rev (dropWhile is_space (rev u))"
    let ?t = "trim_back ?b (length pre) (length pre + length u - 1)"
    have t: "?t + 1 = length pre + length v" using trim_back_strip [OF False _ refl] nsp False unfolding v_def by blast
    obtain x where x: "u = v @ x" unfolding v_def by (metis rev_append rev_rev_ident takeWhile_dropWhile_id)
    have "u @ 0 # rest = v @ (x @ 0 # rest)" using x by (metis append.assoc)
    also have "x @ 0 # rest = hd (x @ 0 # rest) # tl (x @ 0 # rest)" by simp
    finally have "?b = (pre @ v) @ hd (x @ 0 # rest) # tl (x @ 0 # rest)" by simp
    then have upd: "?b[?t + 1 := 0] = pre @ v @ 0 # tl (x @ 0 # rest)"
      unfolding t using list_update_length [of "pre @ v" "hd (x @ 0 # rest)" "tl (x @ 0 # rest)" 0] by simp
    have nv: "0 \<notin> set v" using nu x by (metis Un_iff set_append)
    have "takeWhile (\<lambda>c. c \<noteq> 0) (drop (length pre) (?b[?t + 1 := 0])) = v"
      unfolding upd using takeWhile_nul [OF nv] by simp
    moreover have "?b ! length pre \<noteq> 0" using False nu by (cases u) auto
    then have "lz_trim (Some ?b) = Some (Some (?b[?t + 1 := 0]), length pre)"
      using tw takeWhile_nul [OF nu] by (simp add: lz_trim_def Let_def)
    ultimately show ?thesis unfolding st v_def [symmetric] by (simp add: s)
  qed
qed

section \<open>Splitting: correctness\<close>

text \<open>The fields of a string, character by character: the maximal non-empty runs without a delimiter.\<close>

fun fields :: "cstring \<Rightarrow> cstring \<Rightarrow> cstring \<Rightarrow> cstring list" where
  "fields d acc [] = (if acc = [] then [] else [acc])"
| "fields d acc (c # cs) =
     (if c \<in> set d then (if acc = [] then [] else [acc]) @ fields d [] cs else fields d (acc @ [c]) cs)"

lemma strsep_tokens_simps:
  "strsep_tokens d [] = [[]]"
  "strsep_tokens d (c # cs) = (if c \<in> set d then [] # strsep_tokens d cs
     else (c # hd (strsep_tokens d cs)) # tl (strsep_tokens d cs))"
proof -
  show "strsep_tokens d [] = [[]]" by (simp add: strsep_tokens.simps)
  show "strsep_tokens d (c # cs) = (if c \<in> set d then [] # strsep_tokens d cs
     else (c # hd (strsep_tokens d cs)) # tl (strsep_tokens d cs))"
    unfolding strsep_tokens.simps [of d "c # cs"]
    by (cases "c \<in> set d"; cases "dropWhile (\<lambda>c. c \<notin> set d) cs")
      (simp_all add: strsep_tokens.simps [of d cs] Let_def del: dropWhile_eq_Nil_conv)
qed

lemma strsep_tokens_nonempty: "strsep_tokens d s \<noteq> []"
  by (cases s) (simp_all add: strsep_tokens_simps)

lemma fields_tokens:
  "filter (\<lambda>t. t \<noteq> []) ((acc @ hd (strsep_tokens d s)) # tl (strsep_tokens d s)) = fields d acc s"
proof (induction s arbitrary: acc)
  case (Cons c s)
  show ?case using Cons.IH [of "[]"] Cons.IH [of "acc @ [c]"] strsep_tokens_nonempty [of d s]
    by (simp add: strsep_tokens_simps)
qed (simp add: strsep_tokens_simps)

lemma strsep_fields: "filter (\<lambda>t. t \<noteq> []) (strsep_tokens d s) = fields d [] s"
  using fields_tokens [of "[]" d s] strsep_tokens_nonempty [of d s] by simp

lemma split_fill_filter:
  "split_fill dup i ts =
     (if \<forall>j < length (filter (\<lambda>t. t \<noteq> []) ts). dup (i + j) then Some (filter (\<lambda>t. t \<noteq> []) ts) else None)"
proof (induction ts arbitrary: i)
  case (Cons t ts)
  have "(\<forall>j < Suc n. dup (i + j)) \<longleftrightarrow> dup i \<and> (\<forall>j < n. dup (Suc i + j))" for n
    using less_Suc_eq_0_disj by auto
  then show ?case using Cons.IH [of i] Cons.IH [of "Suc i"] by simp
qed simp

lemma fields_spec:
  "concat (fields d acc s) = acc @ filter (\<lambda>c. c \<notin> set d) s"
  "set acc \<inter> set d = {} \<Longrightarrow> \<forall>t \<in> set (fields d acc s). t \<noteq> [] \<and> set t \<inter> set d = {}"
proof -
  show "concat (fields d acc s) = acc @ filter (\<lambda>c. c \<notin> set d) s"
    by (induction d acc s rule: fields.induct) auto
  show "set acc \<inter> set d = {} \<Longrightarrow> \<forall>t \<in> set (fields d acc s). t \<noteq> [] \<and> set t \<inter> set d = {}"
    by (induction d acc s rule: fields.induct) auto
qed

section \<open>Numbers: correctness\<close>

lemma parse_print_nat10:
  "parse_number 10 (print_nat n @ t) = Some (False, n, t)" if "t = [] \<or> \<not> digit_in 10 (hd t)"
proof -
  obtain d where d: "d < 10" "hd (print_nat n) = digit_char d" using print_nat_hd by blast
  obtain c cs where c: "print_nat n = c # cs" by (metis list.exhaust print_base_nonempty print_nat_def)
  have dc: "\<not> is_space c" "c \<noteq> 45" "c \<noteq> 43" "digit_in 10 c"
    using d c digit_char_decimal [OF d(1)] digit_char_in [OF d(1)] by auto
  have digits: "\<forall>c \<in> set (print_nat n). digit_in 10 c" unfolding print_nat_def by (rule print_base_digits) simp_all
  have v: "fst (parse_digits 10 (print_nat n) 0) = n" unfolding print_nat_def by (rule parse_print_base) simp_all
  have "parse_digits 10 (print_nat n @ t) 0 = parse_digits 10 t n" using parse_digits_append [OF digits] v by simp
  also have "\<dots> = (n, t)" using that by (cases t) auto
  finally have "parse_digits 10 (print_nat n @ t) 0 = (n, t)" .
  then show ?thesis using c dc by (simp add: parse_number_def skip_sign_def skip_base_def)
qed

lemma print_nat_no_minus: "\<not> starts_minus (print_nat n @ t)"
proof -
  obtain d where d: "d < 10" "hd (print_nat n) = digit_char d" using print_nat_hd by blast
  obtain c cs where c: "print_nat n = c # cs" by (metis list.exhaust print_base_nonempty print_nat_def)
  then show ?thesis using d digit_char_decimal [OF d(1)] by (simp add: starts_minus_def)
qed

lemma string2long_print:
  "string2long 0 errno (Some (print_int i)) True
    = (if - (2 ^ 63) \<le> i \<and> i < 2 ^ 63 then (0, Some i, errno) else (-1, None, 34))"
  "string2longlong 0 errno (Some (print_int i)) True
    = (if - (2 ^ 63) \<le> i \<and> i < 2 ^ 63 then (0, Some i, errno) else (-1, None, 34))"
  by (auto simp: string2long_def string2longlong_def string2_checked_def string2number_def strtol_def print_int_def
      parse_number_print_nat parse_number_print_neg nat_le_iff zless_nat_eq_int_zless nat_less_iff)

lemma string2ulong_print:
  assumes "base = 0 \<or> base = 10"
  shows "string2ulong base errno (Some (print_nat n)) True = (if n < 2 ^ 64 then (0, Some (int n), errno) else (-1, None, 34))"
    and "string2ulonglong base errno (Some (print_nat n)) True = (if n < 2 ^ 64 then (0, Some (int n), errno) else (-1, None, 34))"
  using assms parse_print_nat10 [of "[]" n] print_nat_no_minus [of n "[]"]
  by (auto simp: string2ulong_def string2ulonglong_def string2_checked_def string2number_def strtoul_def parse_number_print_nat)

lemma byte_unit_no_digit: "byte_unit t = Some u \<Longrightarrow> t = [] \<or> \<not> digit_in 10 (hd t)"
proof (cases t)
  case (Cons c cs)
  assume u: "byte_unit t = Some u"
  then have "to_lower c \<in> {107, 109, 103, 116, 112}"
    unfolding Cons byte_unit_def strcase_equal_def by (auto simp: to_lower_def is_upper_def split: if_splits)
  then have "c \<in> {107, 109, 103, 116, 112, 75, 77, 71, 84, 80}"
    by (auto simp: to_lower_def split: if_splits)
  then have "\<not> digit_in 10 c" by (auto simp: digit_in_def digit_value_def)
  then show ?thesis using Cons by simp
qed simp

section \<open>The file checksum\<close>

lemma checksum_quads_cong:
  assumes "\<forall>i < bsize - 4. buf ! i = buf' ! i" and "4 dvd bsize" and "4 dvd i"
  shows "checksum_quads buf bsize i cs = checksum_quads buf' bsize i cs"
  using assms
proof (induction buf bsize i cs rule: checksum_quads.induct)
  case (1 buf bsize i cs)
  show ?case
  proof (cases "i < bsize - 4")
    case True
    then obtain p q where p: "bsize = 4 * p" "i = 4 * q" using 1(3,4) by (elim dvdE) blast
    with True have "i + 3 < bsize - 4" by presburger
    then have "buf ! i = buf' ! i" "buf ! (i + 1) = buf' ! (i + 1)" "buf ! (i + 2) = buf' ! (i + 2)"
        "buf ! (i + 3) = buf' ! (i + 3)"
      using 1(2) by simp_all
    then show ?thesis using 1(1) [OF True] 1(2-4) True
      by (subst (1 2) checksum_quads.simps) (simp add: dvd_add)
  next
    case False then show ?thesis by (simp add: checksum_quads.simps [of _ bsize i])
  qed
qed

section \<open>Properties\<close>

text \<open>
  the integer parsers.  Given the decimal form of any integer, however large, the sized parsers return 0 and exactly
  that number when it fits the type, and otherwise -1 with \<^verbatim>\<open>ERANGE\<close> and no result; \<^verbatim>\<open>errno\<close> is left alone on success.
\<close>

theorem lz_string2int_exact:
  "lz_string2int8 errno (Some (print_int i)) = (if - (2 ^ 7) \<le> i \<and> i < 2 ^ 7 then (0, Some (word_of_int i), errno) else (-1, None, 34))
   \<and> lz_string2int16 errno (Some (print_int i)) = (if - (2 ^ 15) \<le> i \<and> i < 2 ^ 15 then (0, Some (word_of_int i), errno) else (-1, None, 34))
   \<and> lz_string2int32 errno (Some (print_int i)) = (if - (2 ^ 31) \<le> i \<and> i < 2 ^ 31 then (0, Some (word_of_int i), errno) else (-1, None, 34))
   \<and> lz_string2int64 errno (Some (print_int i)) = (if - (2 ^ 63) \<le> i \<and> i < 2 ^ 63 then (0, Some (word_of_int i), errno) else (-1, None, 34))
   \<and> lz_string2uint8 errno (Some (print_nat n)) = (if n < 2 ^ 8 then (0, Some (of_nat n), errno) else (-1, None, 34))
   \<and> lz_string2uint16 errno (Some (print_nat n)) = (if n < 2 ^ 16 then (0, Some (of_nat n), errno) else (-1, None, 34))
   \<and> lz_string2uint32 errno (Some (print_nat n)) = (if n < 2 ^ 32 then (0, Some (of_nat n), errno) else (-1, None, 34))
   \<and> lz_string2uint64 errno (Some (print_nat n)) = (if n < 2 ^ 64 then (0, Some (of_nat n), errno) else (-1, None, 34))
   \<and> lz_string2uint8_base10 errno (Some (print_nat n)) = (if n < 2 ^ 8 then (0, Some (of_nat n), errno) else (-1, None, 34))
   \<and> lz_string2uint64_base10 errno (Some (print_nat n)) = (if n < 2 ^ 64 then (0, Some (of_nat n), errno) else (-1, None, 34))"
  unfolding lz_string2int8_def lz_string2int16_def lz_string2int32_def lz_string2int64_def lz_string2uint8_def
    lz_string2uint16_def lz_string2uint32_def lz_string2uint64_def lz_string2uint8_base10_def lz_string2uint64_base10_def
    string2long_print string2ulong_print(1) [of 0, simplified] string2ulong_print(2) [of 0, simplified]
    string2ulong_print(1) [of 10, simplified] string2ulong_print(2) [of 10, simplified] range_checked_def
  by (intro conjI) auto

text \<open>
  sizes with a unit.  A decimal number below 2 to the 64 followed by nothing or by one of the units \<^verbatim>\<open>KB\<close> to \<^verbatim>\<open>PB\<close>, in any
  case, gives the number times the unit, modulo 2 to the 64.
\<close>

theorem lz_string2bytesize_units:
  assumes "n < 2 ^ 64" and "byte_unit unit = Some u"
  shows "lz_string2bytesize errno (Some (print_nat n @ unit)) True = (0, Some (of_nat n * u), errno)"
  using assms parse_print_nat10 [OF byte_unit_no_digit [OF assms(2)], of n]
  by (simp add: lz_string2bytesize_def print_nat_no_minus strtoul_def)

theorem lz_string2bytesize_units_witness:
  "lz_string2bytesize 5 (Some [49, 54, 109, 66]) True = (0, Some 0x1000000, 5)"
proof -
  have u: "byte_unit [109, 66] = Some 1048576" "print_nat 16 @ [109, 66] = [49, 54, 109, 66]" by code_simp+
  have "(16 :: nat) < 2 ^ 64" by simp
  from lz_string2bytesize_units [OF this u(1), of 5] u(2) show ?thesis by simp
qed

text \<open>
  splitting.  When the copies can be allocated, \<open>lz_strsplit\<close> returns the fields of the string, the maximal non-empty
  runs of bytes that are not delimiters, in order and with their number; when a copy fails it returns
  -1.  The fields are not empty, contain no delimiter, and together are the string without its delimiters.
\<close>

theorem lz_strsplit_fields:
  "lz_strsplit True True True dup (Some s) (Some d) True =
     (if list_all dup [0..<length (fields d [] s)] then (0, Some (fields d [] s, length (fields d [] s))) else (-1, None))
   \<and> concat (fields d [] s) = filter (\<lambda>c. c \<notin> set d) s
   \<and> list_all (\<lambda>t. t \<noteq> [] \<and> set t \<inter> set d = {}) (fields d [] s)"
  using fields_spec(1) [of d "[]" s] fields_spec(2) [of "[]" d s] split_fill_filter [of dup 0 "strsep_tokens d s"]
  by (simp add: lz_strsplit_def strsep_fields list_all_iff Ball_def)

text \<open>
  trimming.  For a string \<open>s\<close> in a block of memory, \<open>lz_trim\<close> returns a pointer to \<open>s\<close> without its leading and trailing
  white space, and the block keeps its length (the write of the terminator is inside it).
\<close>

theorem lz_trim_strips:
  assumes "0 \<notin> set s"
  shows "\<exists>block off. lz_trim (Some (s @ 0 # rest)) = Some (Some block, off)
    \<and> takeWhile (\<lambda>c. c \<noteq> 0) (drop off block) = strip s \<and> length block = length (s @ 0 # rest)"
  using assms by (rule lz_trim_spec)

theorem lz_trim_strips_witness:
  "\<exists>block off. lz_trim (Some [32, 97, 32, 98, 32, 9, 0]) = Some (Some block, off)
    \<and> takeWhile (\<lambda>c. c \<noteq> 0) (drop off block) = [97, 32, 98]"
proof -
  have "strip [32, 97, 32, 98, 32, 9] = [97, 32, 98]" by code_simp
  then show ?thesis using lz_trim_strips [of "[32, 97, 32, 98, 32, 9]" "[]"] by auto
qed

text \<open>
  The checksum of a file ignores three bytes of every block of 1024: two blocks that agree on the first 1021 bytes have
  the same checksum.
\<close>

theorem compute_checksum_ignores:
  assumes "\<forall>i < 1021. buf ! i = buf' ! i"
  shows "compute_checksum buf 1024 cs = compute_checksum buf' 1024 cs"
proof -
  have "buf ! 1020 = buf' ! 1020" using assms by simp
  moreover have "\<forall>i < 1024 - 4. buf ! i = buf' ! i" using assms by simp
  ultimately show ?thesis using checksum_quads_cong [of 1024 buf buf' 0]
    by (simp add: compute_checksum_def Let_def)
qed

end
