(* ===== verification/Lz_Name.thy ===== *)
theory Lz_Name
  imports Lz_Dict_Typed Lz_Common_Utils
begin

text \<open>
  \<^verbatim>\<open>src/src/name.c\<close>: the addresses of a transport.  They are read from the options of the context, a dictionary of theory
  \<open>Lz_Dict\<close>.  A \<^verbatim>\<open>struct sockaddr_storage\<close> is a record with the fields of the address families the code uses; a port is the two
  bytes in memory.  The resolver that the code calls (\<^verbatim>\<open>gf_resolve_ip6\<close>, which is declared nowhere in the repository), \<^verbatim>\<open>bind\<close>,
  \<^verbatim>\<open>getaddrinfo\<close> and \<^verbatim>\<open>getnameinfo\<close> are parameters.  \<open>None\<close> is undefined behaviour: a null pointer, or a string that overflows its array,
  as a unix path of exactly \<^verbatim>\<open>UNIX_PATH_MAX\<close> bytes does: the comparison admits it and \<^verbatim>\<open>strcpy\<close> writes its terminator behind the array.

  The theorems: which address family the options determine, for every combination of options; the address and the
  port that are used; the client binds to the highest free port below the ceiling; the identifier of a mapped IPv4 address.
\<close>

section \<open>State\<close>

record sockaddr =
  sa_family :: int
  sa_port :: "u8 list"
  sa_host :: "u8 list"
  sa_path :: cstring

record peer_info =
  pi_sockaddr :: sockaddr
  pi_sockaddr_len :: nat
  pi_identifier :: "cstring option"

abbreviation (input) AF_UNSPEC :: int where "AF_UNSPEC \<equiv> 0"
abbreviation (input) AF_UNIX :: int where "AF_UNIX \<equiv> 1"
abbreviation (input) AF_INET :: int where "AF_INET \<equiv> 2"
abbreviation (input) AF_INET6 :: int where "AF_INET6 \<equiv> 10"
abbreviation (input) AF_INET_SDP :: int where "AF_INET_SDP \<equiv> 27"
abbreviation (input) EACCES :: int where "EACCES \<equiv> 13"
abbreviation (input) UNIX_PATH_MAX :: nat where "UNIX_PATH_MAX \<equiv> 108"
abbreviation (input) sizeof_in :: nat where "sizeof_in \<equiv> 16"
abbreviation (input) sizeof_in6 :: nat where "sizeof_in6 \<equiv> 28"
abbreviation (input) sizeof_un :: nat where "sizeof_un \<equiv> 110"

definition htons :: "u16 \<Rightarrow> u8 list" where
  "htons x = [ucast (drop_bit 8 x), ucast x]"

text \<open>The bytes of a string of the source, and the string at a pointer.\<close>

definition chars :: "string \<Rightarrow> cstring" where
  "chars s = map of_char s"

definition c_string :: "u8 list \<Rightarrow> cstring option" where
  "c_string bs = map_option (\<lambda>n. take n bs) (c_strlen bs)"

definition opt_data :: "store \<Rightarrow> dict option \<Rightarrow> string \<Rightarrow> addr option" where
  "opt_data w options key = dict_get w options (Some (chars key))"

definition opt_str :: "store \<Rightarrow> addr \<Rightarrow> cstring option option" where
  "opt_str w a =
     do {
       p \<leftarrow> data_to_str a w;
       (case p of None \<Rightarrow> Some None | Some c \<Rightarrow> map_option Some (c_string (ptr_bytes c)))
     }"

section \<open>Binding a client\<close>

text \<open>The loop over the ports; \<open>try_bind\<close> gives the return value and \<^verbatim>\<open>errno\<close>.\<close>

fun bind_port_loop :: "(sockaddr \<Rightarrow> nat \<Rightarrow> int \<times> int) \<Rightarrow> nat \<Rightarrow> sockaddr \<Rightarrow> nat \<Rightarrow> int \<Rightarrow> sockaddr \<times> int" where
  "bind_port_loop try_bind 0 sa len ret = (sa, ret)"
| "bind_port_loop try_bind (Suc p) sa len ret =
     (let sa1 = (if sa_family sa \<in> {AF_INET6, AF_INET_SDP, AF_INET} then sa\<lparr>sa_port := htons (of_nat (Suc p))\<rparr> else sa);
          (ret1, errno) = try_bind sa1 len
      in if ret1 = 0 \<or> (ret1 = -1 \<and> errno = EACCES) then (sa1, ret1) else bind_port_loop try_bind p sa1 len ret1)"

definition af_inet_bind_to_port_lt_ceiling :: "(sockaddr \<Rightarrow> nat \<Rightarrow> int \<times> int) \<Rightarrow> sockaddr \<Rightarrow> nat \<Rightarrow> int \<Rightarrow> sockaddr \<times> int" where
  "af_inet_bind_to_port_lt_ceiling try_bind sa len ceiling =
     bind_port_loop try_bind (unat (word_of_int (ceiling - 1) :: u16)) sa len (-1)"

definition af_unix_client_bind ::
  "store \<Rightarrow> dict option \<Rightarrow> (sockaddr \<Rightarrow> nat \<Rightarrow> int \<times> int) \<Rightarrow> sockaddr \<Rightarrow> nat \<Rightarrow> (sockaddr \<times> int) option" where
  "af_unix_client_bind w options try_bind sa len =
     do {
       path_data \<leftarrow> opt_data w options ''transport.socket.bind-path'';
       if path_data \<noteq> 0
       then do {
         path \<leftarrow> opt_str w path_data;
         (case path of
            None \<Rightarrow> Some (sa, 0)
          | Some p \<Rightarrow>
              if length p > UNIX_PATH_MAX then Some (sa, 0)
              else if length p = UNIX_PATH_MAX then None
              else let addr = sa\<lparr>sa_path := p\<rparr> in Some (addr, fst (try_bind addr len)))
       }
       else Some (sa, 0)
     }"

definition client_bind ::
  "store \<Rightarrow> dict option \<Rightarrow> (sockaddr \<Rightarrow> nat \<Rightarrow> int \<times> int) \<Rightarrow> sockaddr \<Rightarrow> (sockaddr \<times> nat \<times> int) option" where
  "client_bind w options try_bind sa =
     (if sa_family sa = AF_INET_SDP \<or> sa_family sa = AF_INET \<or> sa_family sa = AF_INET6
      then
        let len = (if sa_family sa = AF_INET6 then sizeof_in6 else sizeof_in);
            (sa1, ret) = af_inet_bind_to_port_lt_ceiling try_bind sa len 1024
        in Some (sa1, len, if ret = -1 then 0 else ret)
      else if sa_family sa = AF_UNIX
      then map_option (\<lambda>(sa1, ret). (sa1, sizeof_un, ret)) (af_unix_client_bind w options try_bind sa sizeof_un)
      else Some (sa, sizeof_in6, -1))"

section \<open>The address of the peer of a client\<close>

text \<open>The names of the address families; the comparisons exclude each other, so their order is of no importance.\<close>

definition family_of_name :: "cstring \<Rightarrow> int option" where
  "family_of_name name =
     (if strcase_equal name (chars ''unix'') then Some AF_UNIX
      else if strcase_equal name (chars ''inet'') then Some AF_INET
      else if strcase_equal name (chars ''inet6'') then Some AF_INET6
      else if strcase_equal name (chars ''inet-sdp'') then Some AF_INET_SDP
      else if strcase_equal name (chars ''inet/inet6'') \<or> strcase_equal name (chars ''inet6/inet'') then Some AF_UNSPEC
      else None)"

text \<open>The return value and the family, unchanged on failure.\<close>

definition client_fill_address_family :: "store \<Rightarrow> dict option \<Rightarrow> int \<Rightarrow> (int \<times> int) option" where
  "client_fill_address_family w options family =
     do {
       address_family_data \<leftarrow> opt_data w options ''transport.address-family'';
       if address_family_data = 0
       then do {
         remote_host_data \<leftarrow> opt_data w options ''remote-host'';
         connect_path_data \<leftarrow> opt_data w options ''transport.socket.connect-path'';
         if (remote_host_data = 0 \<and> connect_path_data = 0) \<or> (remote_host_data \<noteq> 0 \<and> connect_path_data \<noteq> 0)
         then Some (-1, family)
         else if remote_host_data \<noteq> 0 then Some (0, AF_UNSPEC)
         else Some (0, AF_UNIX)
       }
       else do {
         address_family \<leftarrow> opt_str w address_family_data;
         name \<leftarrow> address_family;
         (case family_of_name name of None \<Rightarrow> Some (-1, family) | Some f \<Rightarrow> Some (0, f))
       }
     }"

definition DEFAULT_SOCKET_LISTEN_PORT :: u16 where
  "DEFAULT_SOCKET_LISTEN_PORT = 6996"

type_synonym 'c resolver = "cstring \<Rightarrow> u16 \<Rightarrow> int \<Rightarrow> 'c \<Rightarrow> 'c \<times> int \<times> (sockaddr \<times> nat) option"

text \<open>The result has the cache of the resolver, the address and its length if it was written, and the return value.\<close>

definition af_inet_client_get_remote_sockaddr ::
  "'c resolver \<Rightarrow> store \<Rightarrow> dict option \<Rightarrow> 'c \<Rightarrow> sockaddr \<Rightarrow> nat \<Rightarrow> ('c \<times> sockaddr \<times> nat \<times> int) option" where
  "af_inet_client_get_remote_sockaddr gf_resolve_ip6 w options cache sa len =
     do {
       remote_host_data \<leftarrow> opt_data w options ''remote-host'';
       if remote_host_data = 0 then Some (cache, sa, len, -1)
       else do {
         host \<leftarrow> opt_str w remote_host_data;
         (case host of
            None \<Rightarrow> Some (cache, sa, len, -1)
          | Some remote_host \<Rightarrow>
              do {
                remote_port_data \<leftarrow> opt_data w options ''remote-port'';
                remote_port \<leftarrow> (if remote_port_data = 0 then Some DEFAULT_SOCKET_LISTEN_PORT else data_to_uint16 remote_port_data w);
                if remote_port = -1 then Some (cache, sa, len, -1)
                else
                  (case gf_resolve_ip6 remote_host remote_port (sa_family sa) cache of
                     (cache1, ret, addr_info) \<Rightarrow>
                       if ret = -1 then Some (cache1, sa, len, ret)
                       else map_option (\<lambda>(a, l). (cache1, a, l, ret)) addr_info)
              })
       }
     }"

definition af_unix_client_get_remote_sockaddr :: "store \<Rightarrow> dict option \<Rightarrow> sockaddr \<Rightarrow> nat \<Rightarrow> (sockaddr \<times> nat \<times> int) option" where
  "af_unix_client_get_remote_sockaddr w options sa len =
     do {
       connect_path_data \<leftarrow> opt_data w options ''transport.socket.connect-path'';
       if connect_path_data = 0 then Some (sa, len, -1)
       else do {
         path \<leftarrow> opt_str w connect_path_data;
         (case path of
            None \<Rightarrow> Some (sa, len, -1)
          | Some connect_path \<Rightarrow>
              if length connect_path > UNIX_PATH_MAX then Some (sa, len, -1)
              else if length connect_path = UNIX_PATH_MAX then None
              else Some (sa\<lparr>sa_path := connect_path\<rparr>, sizeof_un, 0))
       }
     }"

text \<open>
  \<open>socket_client_get_remote_sockaddr\<close> with pointers that are not null: the cache, the address with its length, the family for \<^verbatim>\<open>socket\<close>, the
  return value.
\<close>

definition socket_client_get_remote_sockaddr ::
  "'c resolver \<Rightarrow> store \<Rightarrow> dict option \<Rightarrow> 'c \<Rightarrow> sockaddr \<Rightarrow> nat \<Rightarrow> int \<Rightarrow> ('c \<times> sockaddr \<times> nat \<times> int \<times> int) option" where
  "socket_client_get_remote_sockaddr gf_resolve_ip6 w options cache sa len family =
     do {
       (ret, f) \<leftarrow> client_fill_address_family w options (sa_family sa);
       if ret \<noteq> 0 then Some (cache, sa\<lparr>sa_family := f\<rparr>, len, family, -1)
       else do {
         let sa1 = sa\<lparr>sa_family := if f = AF_INET_SDP then AF_INET else f\<rparr>;
         (cache1, sa2, len2, ret2) \<leftarrow>
           (if f = AF_INET_SDP \<or> f = AF_INET \<or> f = AF_INET6 \<or> f = AF_UNSPEC
            then af_inet_client_get_remote_sockaddr gf_resolve_ip6 w options cache sa1 len
            else if f = AF_UNIX
            then map_option (\<lambda>(a, l, r). (cache, a, l, r)) (af_unix_client_get_remote_sockaddr w options sa1 len)
            else Some (cache, sa1, len, -1));
         Some (cache1, sa2, len2, if f = AF_UNSPEC then sa_family sa2 else f, ret2)
       }
     }"

section \<open>The address of a server\<close>

definition af_unix_server_get_local_sockaddr :: "store \<Rightarrow> dict option \<Rightarrow> sockaddr \<Rightarrow> nat \<Rightarrow> (sockaddr \<times> nat \<times> int) option" where
  "af_unix_server_get_local_sockaddr w options sa len =
     do {
       listen_path_data \<leftarrow> opt_data w options ''transport.socket.listen-path'';
       if listen_path_data = 0 then Some (sa, len, -1)
       else do {
         path \<leftarrow> opt_str w listen_path_data;
         listen_path \<leftarrow> path;
         if length listen_path > UNIX_PATH_MAX then Some (sa, len, -1)
         else if length listen_path = UNIX_PATH_MAX then None
         else Some (sa\<lparr>sa_family := AF_UNIX, sa_path := listen_path\<rparr>, sizeof_un, 0)
       }
     }"

text \<open>\<open>getaddrinfo\<close> gets the host, the service and the family; its flags are constants.\<close>

definition af_inet_server_get_local_sockaddr ::
  "(cstring option \<Rightarrow> cstring \<Rightarrow> int \<Rightarrow> int + sockaddr \<times> nat) \<Rightarrow> store \<Rightarrow> dict option \<Rightarrow> sockaddr \<Rightarrow> nat \<Rightarrow> (sockaddr \<times> nat \<times> int) option" where
  "af_inet_server_get_local_sockaddr getaddrinfo w options sa len =
     do {
       listen_port_data \<leftarrow> opt_data w options ''transport.socket.listen-port'';
       listen_host_data \<leftarrow> opt_data w options ''transport.socket.bind-address'';
       port \<leftarrow> (if listen_port_data \<noteq> 0 then data_to_uint16 listen_port_data w else Some (-1));
       let listen_port = (if port = -1 then DEFAULT_SOCKET_LISTEN_PORT else port);
       listen_host \<leftarrow> (if listen_host_data \<noteq> 0 then opt_str w listen_host_data else Some None);
       if listen_host_data = 0 \<and> sa_family sa = AF_INET6
       then Some (sa\<lparr>sa_host := replicate 16 0, sa_port := htons listen_port\<rparr>, sizeof_in6, 0)
       else if listen_host_data = 0 \<and> sa_family sa = AF_INET
       then Some (sa\<lparr>sa_host := replicate 4 0, sa_port := htons listen_port\<rparr>, sizeof_in, 0)
       else
         (case getaddrinfo listen_host (print_nat (unat listen_port)) (sa_family sa) of
            Inl e \<Rightarrow> Some (sa, len, -1)
          | Inr (a, l) \<Rightarrow> Some (a, l, 0))
     }"

definition server_fill_address_family :: "store \<Rightarrow> dict option \<Rightarrow> int \<Rightarrow> (int \<times> int) option" where
  "server_fill_address_family w options family =
     do {
       address_family_data \<leftarrow> opt_data w options ''transport.address-family'';
       if address_family_data \<noteq> 0
       then do {
         address_family \<leftarrow> opt_str w address_family_data;
         name \<leftarrow> address_family;
         (case family_of_name name of None \<Rightarrow> Some (-1, family) | Some f \<Rightarrow> Some (0, f))
       }
       else Some (0, AF_UNSPEC)
     }"

definition socket_server_get_local_sockaddr ::
  "(cstring option \<Rightarrow> cstring \<Rightarrow> int \<Rightarrow> int + sockaddr \<times> nat) \<Rightarrow> store \<Rightarrow> dict option \<Rightarrow> sockaddr \<Rightarrow> nat \<Rightarrow> int
   \<Rightarrow> (sockaddr \<times> nat \<times> int \<times> int) option" where
  "socket_server_get_local_sockaddr getaddrinfo w options sa len family =
     do {
       (ret, f) \<leftarrow> server_fill_address_family w options (sa_family sa);
       if ret = -1 then Some (sa\<lparr>sa_family := f\<rparr>, len, family, ret)
       else do {
         let sa1 = sa\<lparr>sa_family := if f = AF_INET_SDP then AF_INET else f\<rparr>;
         (sa2, len2, ret2) \<leftarrow>
           (if f = AF_INET_SDP \<or> f = AF_INET \<or> f = AF_INET6 \<or> f = AF_UNSPEC
            then af_inet_server_get_local_sockaddr getaddrinfo w options sa1 len
            else if f = AF_UNIX then af_unix_server_get_local_sockaddr w options sa1 len
            else Some (sa1, len, ret));
         Some (sa2, len2, if f = AF_UNSPEC then sa_family sa2 else f, ret2)
       }
     }"

section \<open>Identifiers\<close>

definition mapped_v4 :: "u8 list \<Rightarrow> bool" where
  "mapped_v4 host \<longleftrightarrow> take 4 host = [0, 0, 0, 0] \<and> take 4 (drop 4 host) = [0, 0, 0, 0]
     \<and> take 2 (drop 8 host) = [0, 0] \<and> take 2 (drop 10 host) = [255, 255]"

text \<open>The address that is given to \<^verbatim>\<open>getnameinfo\<close>.\<close>

definition name_address :: "sockaddr \<Rightarrow> nat \<Rightarrow> sockaddr \<times> nat" where
  "name_address addr len =
     (if sa_family addr = AF_INET6 \<and> mapped_v4 (sa_host addr)
      then (\<lparr>sa_family = AF_INET, sa_port = sa_port addr, sa_host = take 4 (drop 12 (sa_host addr)), sa_path = []\<rparr>, sizeof_in)
      else (addr, len))"

text \<open>
  The return value and the identifier.  When \<^verbatim>\<open>getnameinfo\<close> fails the two buffers that are printed were not written: the
  identifier is undetermined.
\<close>

definition fill_inet6_inet_identifiers ::
  "(sockaddr \<Rightarrow> nat \<Rightarrow> int \<times> cstring \<times> cstring) \<Rightarrow> sockaddr \<Rightarrow> nat \<Rightarrow> int \<times> cstring option" where
  "fill_inet6_inet_identifiers getnameinfo addr len =
     (case name_address addr len of
        (tmpaddr, tmpaddr_len) \<Rightarrow>
          (case getnameinfo tmpaddr tmpaddr_len of
             (ret, host, service) \<Rightarrow> (ret, if ret \<noteq> 0 then None else Some (host @ chars '':'' @ service))))"

definition pi_family :: "int \<Rightarrow> peer_info \<Rightarrow> peer_info" where
  "pi_family f p = p\<lparr>pi_sockaddr := (pi_sockaddr p)\<lparr>sa_family := f\<rparr>\<rparr>"

text \<open>The addresses of the two ends; a path that does not fit the identifier is undefined.\<close>

definition get_transport_identifiers ::
  "(sockaddr \<Rightarrow> nat \<Rightarrow> int \<times> cstring \<times> cstring) \<Rightarrow> peer_info \<Rightarrow> peer_info \<Rightarrow> (peer_info \<times> peer_info \<times> int) option" where
  "get_transport_identifiers getnameinfo my peer =
     (let f = sa_family (pi_sockaddr my)
      in if f = AF_INET_SDP \<or> f = AF_INET \<or> f = AF_INET6
         then
           let my1 = (if f = AF_INET_SDP then pi_family AF_INET my else my);
               peer1 = (if f = AF_INET_SDP then pi_family AF_INET peer else peer);
               (ret, id) = fill_inet6_inet_identifiers getnameinfo (pi_sockaddr my1) (pi_sockaddr_len my1);
               my2 = my1\<lparr>pi_identifier := id\<rparr>
           in if ret = -1 then Some (my2, peer1, ret)
              else
                let (ret2, id2) = fill_inet6_inet_identifiers getnameinfo (pi_sockaddr peer1) (pi_sockaddr_len peer1);
                    peer2 = peer1\<lparr>pi_identifier := id2\<rparr>
                in if ret2 = -1 then Some (my2, peer2, ret2)
                   else Some (if f = AF_INET_SDP then (pi_family AF_INET_SDP my2, pi_family AF_INET_SDP peer2, ret2)
                              else (my2, peer2, ret2))
         else if f = AF_UNIX
         then
           (if UNIX_PATH_MAX \<le> length (sa_path (pi_sockaddr my)) \<or> UNIX_PATH_MAX \<le> length (sa_path (pi_sockaddr peer)) then None
            else Some (my\<lparr>pi_identifier := Some (sa_path (pi_sockaddr my))\<rparr>, peer\<lparr>pi_identifier := Some (sa_path (pi_sockaddr peer))\<rparr>, 0))
         else Some (my, peer, -1))"

section \<open>The options as a map\<close>

text \<open>The dictionary binds exactly the names of \<open>opts\<close>, each to its text with the terminating NUL.\<close>

definition options_are :: "store \<Rightarrow> dict \<Rightarrow> (cstring \<rightharpoonup> cstring) \<Rightarrow> bool" where
  "options_are w d opts \<longleftrightarrow>
     (\<exists>ext. store_inv ext w) \<and> dict_ok w d
     \<and> (\<forall>k. case dict_map w d k of
              None \<Rightarrow> opts k = None
            | Some a \<Rightarrow> (\<exists>e p t. datas w a = Some e \<and> data_data e = Some p \<and> opts k = Some t \<and> 0 \<notin> set t
                \<and> take (length t + 1) (ptr_bytes p) = t @ [0] \<and> data_len e = int (length t) + 1))"

lemma take_NUL: "take (Suc (length t)) bs = t @ [0] \<Longrightarrow> 0 \<notin> set t \<Longrightarrow>
    takeWhile (\<lambda>c. c \<noteq> (0::u8)) bs = t \<and> 0 \<in> set bs \<and> Suc (length t) \<le> length bs"
proof -
  assume t: "take (Suc (length t)) bs = t @ [0]" "0 \<notin> set t"
  then obtain r where bs: "bs = (t @ [0]) @ r" by (metis append_take_drop_id)
  have "takeWhile (\<lambda>c. c \<noteq> 0) (t @ 0 # r) = t" using t(2) by (subst takeWhile_append2) auto
  then show ?thesis using bs by simp
qed

lemma opt_none: "options_are w d opts \<Longrightarrow> opts (chars key) = None \<Longrightarrow> opt_data w (Some d) key = Some 0"
  by (auto simp: options_are_def opt_data_def dict_get_spec split: option.splits dest: spec [of _ "chars key"])

lemma opt_some:
  assumes o: "options_are w d opts" and t: "opts (chars key) = Some t"
  shows "\<exists>a. opt_data w (Some d) key = Some a \<and> a \<noteq> 0 \<and> opt_str w a = Some (Some t)
    \<and> data_to_uint16 a w = Some (word_of_int (fst (strtol 0 t)))"
proof -
  obtain ext where inv: "store_inv ext w" and ok: "dict_ok w d" using o by (auto simp: options_are_def)
  have "dict_map w d (chars key) \<noteq> None" using o t by (auto simp: options_are_def split: option.splits dest: spec [of _ "chars key"])
  then obtain a where a: "dict_map w d (chars key) = Some a" by blast
  have "case dict_map w d (chars key) of None \<Rightarrow> opts (chars key) = None
      | Some a \<Rightarrow> (\<exists>e p t. datas w a = Some e \<and> data_data e = Some p \<and> opts (chars key) = Some t \<and> 0 \<notin> set t
          \<and> take (length t + 1) (ptr_bytes p) = t @ [0] \<and> data_len e = int (length t) + 1)"
    using o unfolding options_are_def by blast
  with a t obtain e p where e: "datas w a = Some e" "data_data e = Some p" "0 \<notin> set t"
      "take (Suc (length t)) (ptr_bytes p) = t @ [0]" "data_len e = int (length t) + 1"
    by auto
  note T = take_NUL [OF e(4,3)]
  have a0: "a \<noteq> 0" using dict_map_nonnull [OF ok a] .
  have "take (length t) (ptr_bytes p) = t"
    using e(4) by (metis append_eq_conv_conj le_SucI min.absorb1 order_refl take_take)
  then have s: "opt_str w a = Some (Some t)" using a0 e(1,2) T
    by (simp add: opt_str_def data_to_str_def data_to_ptr_def c_string_def c_strlen_def)
  have "nat (int (length t) + 1) = Suc (length t)" by simp
  then have "data_text e = Some t" using e T by (simp add: data_text_def Let_def take_NUL [of t "t @ [0]"])
  then have "data_to_uint16 a w = Some (word_of_int (fst (strtol 0 t)))" using a0 e(1)
    by (simp add: data_to_uint16_def data_strto_def)
  then show ?thesis using s a0 a inv ok by (auto simp: opt_data_def dict_get_spec)
qed

text \<open>The specifications on the map of the options.\<close>

definition client_family :: "(cstring \<rightharpoonup> cstring) \<Rightarrow> int option" where
  "client_family opts =
     (case opts (chars ''transport.address-family'') of
        Some name \<Rightarrow> family_of_name name
      | None \<Rightarrow>
          (case (opts (chars ''remote-host''), opts (chars ''transport.socket.connect-path'')) of
             (Some _, None) \<Rightarrow> Some AF_UNSPEC
           | (None, Some _) \<Rightarrow> Some AF_UNIX
           | _ \<Rightarrow> None))"

definition port_option :: "(cstring \<rightharpoonup> cstring) \<Rightarrow> string \<Rightarrow> u16 option" where
  "port_option opts key = map_option (\<lambda>t. word_of_int (fst (strtol 0 t))) (opts (chars key))"

text \<open>\<open>Path_Overflow\<close> is a path that fills its array without room for the terminator.\<close>

datatype client_address = No_Address | Unix_Path cstring | Path_Overflow | Inet_Peer cstring u16 int

definition client_address :: "(cstring \<rightharpoonup> cstring) \<Rightarrow> client_address" where
  "client_address opts =
     (case client_family opts of
        None \<Rightarrow> No_Address
      | Some f \<Rightarrow>
          if f = AF_UNIX
          then (case opts (chars ''transport.socket.connect-path'') of
                  None \<Rightarrow> No_Address
                | Some path \<Rightarrow>
                    if length path < UNIX_PATH_MAX then Unix_Path path
                    else if length path = UNIX_PATH_MAX then Path_Overflow else No_Address)
          else (case opts (chars ''remote-host'') of
                  None \<Rightarrow> No_Address
                | Some host \<Rightarrow>
                    let port = (case port_option opts ''remote-port'' of None \<Rightarrow> 6996 | Some p \<Rightarrow> p)
                    in if port = 65535 then No_Address else Inet_Peer host port f))"

lemma family_of_name_cases: "family_of_name name = Some f \<Longrightarrow> f \<in> {AF_UNIX, AF_INET, AF_INET6, AF_INET_SDP, AF_UNSPEC}"
  by (auto simp: family_of_name_def split: if_splits)

lemma client_family_cases: "client_family opts = Some f \<Longrightarrow> f \<in> {AF_UNIX, AF_INET, AF_INET6, AF_INET_SDP, AF_UNSPEC}"
  using family_of_name_cases by (fastforce simp: client_family_def split: option.splits)

lemma client_fill_spec:
  assumes o: "options_are w d opts"
  shows "client_fill_address_family w (Some d) family
    = Some (case client_family opts of None \<Rightarrow> (-1, family) | Some f \<Rightarrow> (0, f))"
proof (cases "opts (chars ''transport.address-family'')")
  case None
  have h: "\<exists>a. opt_data w (Some d) key = Some a \<and> (a = 0 \<longleftrightarrow> opts (chars key) = None)" for key
    using opt_none [OF o, of key] opt_some [OF o, of key] by (cases "opts (chars key)") auto
  obtain a b where "opt_data w (Some d) ''remote-host'' = Some a" "a = 0 \<longleftrightarrow> opts (chars ''remote-host'') = None"
      "opt_data w (Some d) ''transport.socket.connect-path'' = Some b" "b = 0 \<longleftrightarrow> opts (chars ''transport.socket.connect-path'') = None"
    using h by blast
  then show ?thesis using opt_none [OF o None] None
    by (auto simp: client_fill_address_family_def client_family_def split: option.splits)
next
  case (Some name)
  from opt_some [OF o this] obtain a where "opt_data w (Some d) ''transport.address-family'' = Some a" "a \<noteq> 0"
      "opt_str w a = Some (Some name)" by blast
  then show ?thesis using Some by (simp add: client_fill_address_family_def client_family_def split: option.split)
qed

section \<open>The lookups of a client\<close>

lemma remote_port_spec:
  assumes "options_are w d opts"
  shows "\<exists>b. opt_data w (Some d) ''remote-port'' = Some b
    \<and> (if b = 0 then Some DEFAULT_SOCKET_LISTEN_PORT else data_to_uint16 b w)
      = Some (case port_option opts ''remote-port'' of None \<Rightarrow> 6996 | Some p \<Rightarrow> p)"
proof (cases "opts (chars ''remote-port'')")
  case None
  then show ?thesis using opt_none [OF assms None] by (simp add: port_option_def DEFAULT_SOCKET_LISTEN_PORT_def)
next
  case (Some t)
  then obtain a where "opt_data w (Some d) ''remote-port'' = Some a" "a \<noteq> 0"
      "data_to_uint16 a w = Some (word_of_int (fst (strtol 0 t)))" using opt_some [OF assms Some] by blast
  then show ?thesis using Some by (intro exI [of _ a]) (simp add: port_option_def)
qed

lemma af_inet_client_spec:
  assumes "options_are w d opts"
  shows "af_inet_client_get_remote_sockaddr resolve w (Some d) cache sa len
    = (case opts (chars ''remote-host'') of
         None \<Rightarrow> Some (cache, sa, len, -1)
       | Some host \<Rightarrow>
           let port = (case port_option opts ''remote-port'' of None \<Rightarrow> 6996 | Some p \<Rightarrow> p)
           in if port = 65535 then Some (cache, sa, len, -1)
              else case resolve host port (sa_family sa) cache of
                (c, ret, info) \<Rightarrow> if ret = -1 then Some (c, sa, len, ret) else map_option (\<lambda>(x, l). (c, x, l, ret)) info)"
proof (cases "opts (chars ''remote-host'')")
  case None
  then show ?thesis using opt_none [OF assms None] by (simp add: af_inet_client_get_remote_sockaddr_def)
next
  case (Some host)
  obtain a where a: "opt_data w (Some d) ''remote-host'' = Some a" "a \<noteq> 0" "opt_str w a = Some (Some host)"
    using opt_some [OF assms Some] by blast
  define port where "port = (case port_option opts ''remote-port'' of None \<Rightarrow> 6996 | Some p \<Rightarrow> p)"
  obtain b where b: "opt_data w (Some d) ''remote-port'' = Some b"
      "(if b = 0 then Some DEFAULT_SOCKET_LISTEN_PORT else data_to_uint16 b w) = Some port"
    using remote_port_spec [OF assms] unfolding port_def by blast
  show ?thesis unfolding Some port_def [symmetric] using a b
    by (simp add: af_inet_client_get_remote_sockaddr_def Let_def)
qed

lemma af_unix_client_spec:
  assumes "options_are w d opts"
  shows "af_unix_client_get_remote_sockaddr w (Some d) sa len
    = (case opts (chars ''transport.socket.connect-path'') of
        None \<Rightarrow> Some (sa, len, -1)
      | Some path \<Rightarrow>
          if length path < UNIX_PATH_MAX then Some (sa\<lparr>sa_path := path\<rparr>, sizeof_un, 0)
          else if length path = UNIX_PATH_MAX then None else Some (sa, len, -1))"
proof (cases "opts (chars ''transport.socket.connect-path'')")
  case None
  then show ?thesis using opt_none [OF assms None] by (simp add: af_unix_client_get_remote_sockaddr_def)
next
  case (Some path)
  from opt_some [OF assms Some] show ?thesis using Some by (auto simp: af_unix_client_get_remote_sockaddr_def)
qed

section \<open>Theorems\<close>

text \<open>
  C32: The address a client connects to is the one its options name, for every combination of options: the family given or guessed from the options
  that are present, the path of a unix socket, or the host and port that are handed to the resolver, with port 6996 when none is
  given and refusal of port 65535; in all other cases the call fails, except for a unix path of exactly 108 bytes, which passes
  the comparison with \<^verbatim>\<open>UNIX_PATH_MAX\<close> and overflows the array of the address (\<open>None\<close>).  The family for \<^verbatim>\<open>socket\<close> is the requested one, or the family of the
  answer when none was requested.
\<close>

theorem client_address_from_options:
  assumes "options_are w d opts"
  shows "socket_client_get_remote_sockaddr resolve w (Some d) cache sa len family
    = (case client_address opts of
         No_Address \<Rightarrow>
           (case client_family opts of
              None \<Rightarrow> Some (cache, sa, len, family, -1)
            | Some f \<Rightarrow> let g = (if f = AF_INET_SDP then AF_INET else f)
                in Some (cache, sa\<lparr>sa_family := g\<rparr>, len, f, -1))
       | Unix_Path path \<Rightarrow> Some (cache, sa\<lparr>sa_family := AF_UNIX, sa_path := path\<rparr>, sizeof_un, AF_UNIX, 0)
       | Path_Overflow \<Rightarrow> None
       | Inet_Peer host port f \<Rightarrow>
           (let g = (if f = AF_INET_SDP then AF_INET else f)
            in case resolve host port g cache of
                 (cache', ret, answer) \<Rightarrow>
                   if ret = -1 then Some (cache', sa\<lparr>sa_family := g\<rparr>, len, if f = AF_UNSPEC then AF_UNSPEC else f, -1)
                   else map_option (\<lambda>(a, l). (cache', a, l, if f = AF_UNSPEC then sa_family a else f, ret)) answer))"
proof (cases "client_family opts")
  case None
  then show ?thesis using client_fill_spec [OF assms]
    by (simp add: socket_client_get_remote_sockaddr_def client_address_def)
next
  case (Some f)
  note F = client_family_cases [OF Some]
  have fill: "client_fill_address_family w (Some d) fam = Some (0, f)" for fam using client_fill_spec [OF assms] Some by simp
  let ?sa = "sa\<lparr>sa_family := if f = AF_INET_SDP then AF_INET else f\<rparr>"
  show ?thesis
  proof (cases "f = AF_UNIX")
    case True
    then show ?thesis using Some fill af_unix_client_spec [OF assms, of ?sa len]
      by (auto simp: socket_client_get_remote_sockaddr_def client_address_def Let_def split: option.split)
  next
    case False
    have eq: "socket_client_get_remote_sockaddr resolve w (Some d) cache sa len family
        = map_option (\<lambda>(c, a, l, r). (c, a, l, if f = AF_UNSPEC then sa_family a else f, r))
            (af_inet_client_get_remote_sockaddr resolve w (Some d) cache ?sa len)"
      by (cases "af_inet_client_get_remote_sockaddr resolve w (Some d) cache ?sa len")
        (use F False fill in \<open>auto simp: socket_client_get_remote_sockaddr_def Let_def\<close>)
    show ?thesis unfolding eq af_inet_client_spec [OF assms] client_address_def Some using False
      by (auto simp: Let_def option.map_comp comp_def case_prod_unfold split: option.splits)
  qed
qed

text \<open>An options dictionary with one entry.\<close>

definition name_store :: "cstring \<Rightarrow> store" where
  "name_store t = \<lparr>datas = [5 \<mapsto> zero_data\<lparr>data_len := int (length t) + 1, data_data := Some \<lparr>ptr_addr = 50, ptr_bytes = t @ [0]\<rparr>\<rparr>],
     pairs = Map.empty, freed = []\<rparr>"

lemma demo_options:
  assumes "0 \<notin> set t"
  shows "\<exists>w d. options_are w d [k \<mapsto> t]"
proof -
  have inv: "store_inv (\<lambda>_. 0) (name_store t)"
    by (simp add: store_inv_def counted_def name_store_def Lz_Dict.refs_def pair_refs_def zero_data_def)
  have al: "set_allocs_ok demo_set (name_store t)" by (simp add: set_allocs_ok_def demo_set_def name_store_def)
  from dict_set_new [OF inv demo_dict_ok(1) _ _ demo_dict_ok(3) al, of 5 _ k]
  obtain w d where w: "store_inv (\<lambda>_. 0) w" "dict_ok w d" "dict_map w d = [k \<mapsto> 5]"
      "datas w 5 = Some (zero_data\<lparr>data_len := int (length t) + 1, data_data := Some \<lparr>ptr_addr = 50, ptr_bytes = t @ [0]\<rparr>, data_refcount := 1\<rparr>)"
    by (auto simp: name_store_def demo_dict_ok(2) zero_data_def)
  then have "options_are w d [k \<mapsto> t]" using assms by (auto simp: options_are_def)
  then show ?thesis by blast
qed

theorem client_address_from_options_witness:
  "\<exists>w d. socket_client_get_remote_sockaddr (\<lambda>host port f c. (c, 0, Some (\<lparr>sa_family = 2, sa_port = htons port, sa_host = host, sa_path = []\<rparr>, 16)))
       w (Some d) () \<lparr>sa_family = 0, sa_port = [], sa_host = [], sa_path = []\<rparr> 0 0
     = Some ((), \<lparr>sa_family = 2, sa_port = [27, 84], sa_host = [104], sa_path = []\<rparr>, 16, 2, 0)"
proof -
  obtain w d where o: "options_are w d [chars ''remote-host'' \<mapsto> [104]]" using demo_options [of "[104]" "chars ''remote-host''"] by auto
  have "client_address [chars ''remote-host'' \<mapsto> [104]] = Inet_Peer [104] 6996 0"
    "client_family [chars ''remote-host'' \<mapsto> [104]] = Some 0"
    by (simp_all add: client_address_def client_family_def port_option_def chars_def Let_def)
  then show ?thesis
    using client_address_from_options [OF o, of "\<lambda>host port f c. (c, 0, Some (\<lparr>sa_family = 2, sa_port = htons port, sa_host = host, sa_path = []\<rparr>, 16))"
        "()" "\<lparr>sa_family = 0, sa_port = [], sa_host = [], sa_path = []\<rparr>" 0 0]
    by (intro exI [of _ w] exI [of _ d]) (simp add: Let_def htons_def)
qed

definition with_port :: "nat \<Rightarrow> sockaddr \<Rightarrow> sockaddr" where
  "with_port p sa = sa\<lparr>sa_port := htons (of_nat p)\<rparr>"

lemma bind_port_loop_find:
  assumes "sa_family sa \<in> {AF_INET6, AF_INET_SDP, AF_INET}"
  shows "bind_port_loop try_bind n sa len r
    = (case find (\<lambda>p. fst (try_bind (with_port p sa) len) = 0 \<or> try_bind (with_port p sa) len = (-1, EACCES)) (rev [1 ..< Suc n]) of
         Some p \<Rightarrow> (with_port p sa, fst (try_bind (with_port p sa) len))
       | None \<Rightarrow> if n = 0 then (sa, r) else (with_port 1 sa, fst (try_bind (with_port 1 sa) len)))"
  using assms
proof (induction n arbitrary: sa r)
  case (Suc n)
  let ?sa = "with_port (Suc n) sa"
  obtain r1 e1 where b: "try_bind ?sa len = (r1, e1)" by fastforce
  have f: "sa_family ?sa \<in> {AF_INET6, AF_INET_SDP, AF_INET}" using Suc.prems by (simp add: with_port_def)
  have again: "with_port q ?sa = with_port q sa" for q by (simp add: with_port_def)
  have up: "rev [1 ..< Suc (Suc n)] = Suc n # rev [1 ..< Suc n]" by simp
  have step: "bind_port_loop try_bind (Suc n) sa len r
      = (if r1 = 0 \<or> r1 = -1 \<and> e1 = EACCES then (?sa, r1) else bind_port_loop try_bind n ?sa len r1)"
    using Suc.prems b by (simp add: with_port_def Let_def)
  show ?case
  proof (cases "r1 = 0 \<or> r1 = -1 \<and> e1 = EACCES")
    case True
    then show ?thesis unfolding step up using b by auto
  next
    case False
    have "(r1, e1) \<noteq> (-1, EACCES)" "r1 \<noteq> 0" using False by auto
    then show ?thesis unfolding step up using False b Suc.IH [OF f, of r1, unfolded again]
      by (auto split: option.split)
  qed
qed simp

text \<open>
  C33: A client socket is bound to the highest port below 1024 that the system gives it: the search stops at the first port, from 1023 down, that can be
  bound or that needs a privilege the process has not, and ends at port 1 otherwise; \<open>client_bind\<close> reports success in any case,
  with the length of the address of the family.
\<close>

theorem client_bind_highest_port:
  assumes "sa_family sa \<in> {AF_INET, AF_INET6, AF_INET_SDP}" and "\<forall>a l. fst (try_bind a l) \<in> {0, -1}"
  shows "client_bind w options try_bind sa
    = (let len = (if sa_family sa = AF_INET6 then sizeof_in6 else sizeof_in)
       in Some (with_port (case find (\<lambda>p. fst (try_bind (with_port p sa) len) = 0 \<or> snd (try_bind (with_port p sa) len) = EACCES) (rev [1 ..< 1024]) of
                             Some p \<Rightarrow> p | None \<Rightarrow> 1) sa, len, 0))"
proof -
  let ?len = "if sa_family sa = AF_INET6 then sizeof_in6 else sizeof_in"
  have f: "sa_family sa \<in> {AF_INET6, AF_INET_SDP, AF_INET}" using assms(1) by auto
  have stop: "fst (try_bind a l) = 0 \<or> try_bind a l = (-1, EACCES) \<longleftrightarrow> fst (try_bind a l) = 0 \<or> snd (try_bind a l) = EACCES" for a l
    using assms(2) [rule_format, of a l] by (cases "try_bind a l") auto
  have ret: "fst (try_bind a l) = 0 \<or> fst (try_bind a l) = -1" for a l using assms(2) by auto
  have n: "Suc 1023 = 1024" "(unat (word_of_int (1024 - 1) :: u16)) = 1023" by simp_all
  have "client_bind w options try_bind sa
      = (case bind_port_loop try_bind 1023 sa ?len (-1) of (sa1, ret) \<Rightarrow> Some (sa1, ?len, if ret = -1 then 0 else ret))"
    using f by (auto simp: client_bind_def af_inet_bind_to_port_lt_ceiling_def n Let_def)
  also have "\<dots> = Some (with_port (case find (\<lambda>p. fst (try_bind (with_port p sa) ?len) = 0 \<or> snd (try_bind (with_port p sa) ?len) = EACCES)
      (rev [1 ..< 1024]) of Some p \<Rightarrow> p | None \<Rightarrow> 1) sa, ?len, 0)"
    unfolding bind_port_loop_find [OF f] stop n using ret by (auto split: option.split)
  finally show ?thesis by (simp only: Let_def)
qed

theorem client_bind_highest_port_witness:
  "client_bind demo_store None (\<lambda>a l. (if sa_port a = htons 1023 then -1 else 0, 98)) \<lparr>sa_family = 2, sa_port = [0, 0], sa_host = [], sa_path = []\<rparr>
     = Some (\<lparr>sa_family = 2, sa_port = [3, 254], sa_host = [], sa_path = []\<rparr>, 16, 0)"
proof -
  let ?b = "\<lambda>(a::sockaddr) (l::nat). (if sa_port a = htons 1023 then -1 else 0 :: int, 98 :: int)"
  let ?sa = "\<lparr>sa_family = 2, sa_port = [0, 0], sa_host = [], sa_path = []\<rparr>"
  have "[1 ..< 1024] = [1 ..< Suc (Suc 1022)]" by simp
  then have up: "rev [1 ..< 1024] = 1023 # 1022 # rev [1 ..< (1022 :: nat)]" unfolding upt_Suc by simp
  have "\<forall>a l. fst (?b a l) \<in> {0, -1}" by simp
  from client_bind_highest_port [of ?sa ?b, OF _ this, of demo_store None] show ?thesis
    unfolding up by (simp add: Let_def with_port_def htons_def)
qed

text \<open>
  An IPv4 peer has the same identifier whether its connection came in over an IPv4 socket or over an IPv6 socket with a mapped
  address: \<open>fill_inet6_inet_identifiers\<close> gives the two the same text and return value.
\<close>

theorem mapped_identifier:
  assumes "length v4 = 4"
  shows "fill_inet6_inet_identifiers getnameinfo
      \<lparr>sa_family = AF_INET6, sa_port = port, sa_host = replicate 10 0 @ [255, 255] @ v4, sa_path = path\<rparr> len
    = fill_inet6_inet_identifiers getnameinfo \<lparr>sa_family = AF_INET, sa_port = port, sa_host = v4, sa_path = []\<rparr> sizeof_in"
  using assms
  by (simp add: fill_inet6_inet_identifiers_def name_address_def mapped_v4_def eval_nat_numeral)

theorem mapped_identifier_witness:
  "snd (fill_inet6_inet_identifiers (\<lambda>a l. (0, sa_host a, sa_port a))
     \<lparr>sa_family = AF_INET6, sa_port = [1, 2], sa_host = replicate 10 0 @ [255, 255] @ [10, 0, 0, 1], sa_path = []\<rparr> 28)
   = Some [10, 0, 0, 1, 58, 1, 2]"
proof -
  have "length [10, 0, 0, 1 :: u8] = 4" by simp
  from mapped_identifier [OF this, of "\<lambda>a l. (0, sa_host a, sa_port a)" "[1, 2]" "[]" 28] show ?thesis
    by (simp only: fill_inet6_inet_identifiers_def [of _ "\<lparr>sa_family = AF_INET, sa_port = [1, 2], sa_host = [10, 0, 0, 1], sa_path = []\<rparr>"])
      (simp add: name_address_def chars_def)
qed

lemma unix_connect_path:
  assumes "options_are w d [chars ''transport.socket.connect-path'' \<mapsto> path]" and "length path < 108"
  shows "socket_client_get_remote_sockaddr resolve w (Some d) cache sa len family
      = Some (cache, sa\<lparr>sa_family := AF_UNIX, sa_path := path\<rparr>, sizeof_un, AF_UNIX, 0)"
proof -
  have o: "opt_data w (Some d) ''transport.address-family'' = Some 0" "opt_data w (Some d) ''remote-host'' = Some 0"
    using opt_none [OF assms(1)] by (simp_all add: chars_def)
  obtain a where "opt_data w (Some d) ''transport.socket.connect-path'' = Some a" "a \<noteq> 0" "opt_str w a = Some (Some path)"
    using opt_some [OF assms(1), of "''transport.socket.connect-path''"] by auto
  then show ?thesis
    using o assms(2) by (simp add: socket_client_get_remote_sockaddr_def client_fill_address_family_def af_unix_client_get_remote_sockaddr_def Let_def)
qed

text \<open>A path of 108 bytes in an address, wherever it comes from, has no room in the identifier either.\<close>

lemma unix_path_overflow:
  "\<lbrakk>sa_family (pi_sockaddr my) = AF_UNIX; length (sa_path (pi_sockaddr peer)) = 108\<rbrakk>
   \<Longrightarrow> get_transport_identifiers getnameinfo my peer = None"
  by (simp add: get_transport_identifiers_def Let_def)

lemma dict_get_str_spec:
  assumes inv: "store_inv ext w" and ok: "dict_ok w d" and v: "dict_map w d k = Some v"
    and e: "datas w v = Some e" "data_data e = Some p"
  shows "dict_get_str w (Some d) (Some k) True = Some (w, 0, Some p)"
proof -
  have null: "pairs w 0 = None" using store_inv_null [OF inv] by simp
  obtain a q where a: "dict_lookup w (Some d) (Some k) = Some a" "a \<noteq> 0" "pairs w a = Some q"
      "pair_value q = v" "v \<noteq> 0"
    using dict_lookup_found [OF ok null v] by blast
  have pos: "0 < Lz_Dict.refs ext w v" using refs_pair [OF inv a(3)] a(4) by simp
  have "0 < data_refcount e" using store_inv_live [OF inv a(5) pos] e(1) pos by auto
  moreover obtain w1 where w1: "data_ref v w = Some (w1, v)" using data_ref_inv [OF inv a(5) e(1)] by blast
  ultimately show ?thesis using a w1 data_ref_unref [OF a(5) e(1) _ w1] e(2)
    by (simp add: dict_get_str_def dict_get_with_ref_def)
qed

lemma opt_get_str:
  assumes o: "options_are w d opts"
  shows "\<exists>ret out. dict_get_str w (Some d) (Some (chars key)) True = Some (w, ret, out)
    \<and> (case opts (chars key) of
         None \<Rightarrow> ret = -2 \<and> out = None
       | Some t \<Rightarrow> ret = 0 \<and> (\<exists>p. out = Some p \<and> c_string (ptr_bytes p) = Some t))"
proof -
  obtain ext where inv: "store_inv ext w" and ok: "dict_ok w d" using o by (auto simp: options_are_def)
  have c: "case dict_map w d (chars key) of None \<Rightarrow> opts (chars key) = None
      | Some a \<Rightarrow> (\<exists>e p t. datas w a = Some e \<and> data_data e = Some p \<and> opts (chars key) = Some t \<and> 0 \<notin> set t
          \<and> take (length t + 1) (ptr_bytes p) = t @ [0] \<and> data_len e = int (length t) + 1)"
    using o unfolding options_are_def by blast
  show ?thesis
  proof (cases "dict_map w d (chars key)")
    case None
    then show ?thesis using c dict_get_with_ref_unbound(1) [OF inv ok None]
      by (simp add: dict_get_str_def data_unref_def)
  next
    case (Some a)
    with c obtain e p t where e: "datas w a = Some e" "data_data e = Some p" "opts (chars key) = Some t" "0 \<notin> set t"
        "take (Suc (length t)) (ptr_bytes p) = t @ [0]" by auto
    have "c_string (ptr_bytes p) = Some t"
      using take_NUL [OF e(5,4)] takeWhile_eq_take [of "\<lambda>c. c \<noteq> 0" "ptr_bytes p"] by (simp add: c_string_def c_strlen_def)
    then show ?thesis using dict_get_str_spec [OF inv ok Some e(1,2)] e(3) by simp
  qed
qed

end
