(* ===== verification/Lz_Transport.thy ===== *)
theory Lz_Transport
  imports Lz_Socket Lz_Name
begin

text \<open>
  The set-up of connections: the second half of \<^verbatim>\<open>src/src/socket.c\<close> (\<^verbatim>\<open>socket_init\<close>, \<^verbatim>\<open>socket_connect\<close>, \<^verbatim>\<open>socket_listen\<close>,
  \<^verbatim>\<open>socket_server_event_handler\<close>) and \<^verbatim>\<open>src/src/transport.c\<close>.  A transport has the connection of theory \<open>Lz_Socket\<close>, which counts
  when its private pointer is set, the addresses of theory \<open>Lz_Name\<close>, and the options of its context.  The results of the
  system calls are the record \<open>net_env\<close>; \<^verbatim>\<open>string2boolean\<close> and \<^verbatim>\<open>string2bytesize\<close> are called by the code and defined nowhere
  in the repository (\<^verbatim>\<open>lz_string2boolean\<close> and \<^verbatim>\<open>lz_string2bytesize\<close> are), so they are parameters.  \<open>None\<close> is undefined behaviour, in most
  cases the dereference of a null pointer.

  The theorems: what connecting and listening leave of the descriptor, the reference and the registration on every outcome; the settings
  \<^verbatim>\<open>socket_init\<close> reads from the options; no call of \<^verbatim>\<open>transport_load\<close> returns a transport, and accepting a connection
  dereferences a null pointer.
\<close>

section \<open>State\<close>

record 'c transport =
  t_sock :: sock
  t_private :: bool
  t_ops :: bool
  t_ctx :: "dict option option"
  t_dnscache :: 'c
  t_peerinfo :: peer_info
  t_myinfo :: peer_info

record net_env =
  n_socket :: int
  n_nodelay :: int
  n_fcntl_get :: int
  n_fcntl_set :: int
  n_bind :: "sockaddr \<Rightarrow> nat \<Rightarrow> int \<times> int"
  n_connect :: "int \<times> int"
  n_listen :: int
  n_accept :: "int \<times> sockaddr \<times> nat"
  n_getsockname :: "int \<times> sockaddr \<times> nat"
  n_getaddrinfo :: "cstring option \<Rightarrow> cstring \<Rightarrow> int \<Rightarrow> int + sockaddr \<times> nat"
  n_getnameinfo :: "sockaddr \<Rightarrow> nat \<Rightarrow> int \<times> cstring \<times> cstring"
  n_grown :: bool
  n_ctl :: bool

definition zero_sockaddr :: sockaddr where
  "zero_sockaddr = \<lparr>sa_family = 0, sa_port = [0, 0], sa_host = [], sa_path = []\<rparr>"

definition zero_peer :: peer_info where
  "zero_peer = \<lparr>pi_sockaddr = zero_sockaddr, pi_sockaddr_len = 0, pi_identifier = Some []\<rparr>"

definition upd_sock :: "(sock \<Rightarrow> sock) \<Rightarrow> 'c transport \<Rightarrow> 'c transport" where
  "upd_sock f t = t\<lparr>t_sock := f (t_sock t)\<rparr>"

section \<open>Initialisation\<close>

definition DEFAULT_SOCKET_WINDOW_SIZE :: u64 where
  "DEFAULT_SOCKET_WINDOW_SIZE = 524288"

definition init_private :: "addr \<Rightarrow> bool \<Rightarrow> bool \<Rightarrow> bool \<Rightarrow> int \<Rightarrow> socket_private" where
  "init_private new bio nodelay lowlat windowsize =
     \<lparr>sp_sock = -1, sp_idx = -1, sp_connected = -1, sp_bio = bio, sp_connect_finish_log = False, sp_submit_log = False,
      sp_ioq = [], sp_incoming = zero_incoming, sp_header = new + 36, sp_windowsize = windowsize, sp_lowlat = lowlat, sp_nodelay = nodelay\<rparr>"

text \<open>A boolean option: \<open>tmp\<close> is the value of the variable before, an option that is no boolean counts as true.\<close>

definition bool_option ::
  "(cstring option \<Rightarrow> int \<times> bool option) \<Rightarrow> store \<Rightarrow> dict option \<Rightarrow> string \<Rightarrow> bool \<Rightarrow> bool \<Rightarrow> (bool \<times> bool) option" where
  "bool_option string2boolean w options key tmp dflt =
     do {
       a \<leftarrow> opt_data w options key;
       if a \<noteq> 0
       then do {
         optstr \<leftarrow> opt_str w a;
         let (ret, b) = string2boolean optstr;
         let tmp1 = (if ret = -1 then True else case b of None \<Rightarrow> tmp | Some x \<Rightarrow> x);
         Some (tmp1, tmp1)
       }
       else Some (tmp, dflt)
     }"

definition socket_init ::
  "(cstring option \<Rightarrow> int \<times> bool option) \<Rightarrow> (cstring option \<Rightarrow> int \<times> u64 option) \<Rightarrow> addr \<Rightarrow> store \<Rightarrow> 'c transport
   \<Rightarrow> (store \<times> 'c transport \<times> int) option" where
  "socket_init string2boolean string2bytesize new w t =
     (if t_private t then Some (w, t, -1)
      else if new = 0 then Some (w, t, -1)
      else do {
        options \<leftarrow> t_ctx t;
        (tmp, nbio) \<leftarrow> bool_option string2boolean w options ''non-blocking-io'' False True;
        (tmp, nodelay) \<leftarrow> bool_option string2boolean w options ''transport.socket.nodelay'' tmp True;
        (w1, ret, optstr) \<leftarrow> dict_get_str w options (Some (chars ''transport.window-size'')) True;
        size \<leftarrow> (if ret = 0
                then do {
                  s \<leftarrow> (case optstr of None \<Rightarrow> Some None | Some p \<Rightarrow> map_option Some (c_string (ptr_bytes p)));
                  Some (string2bytesize s)
                }
                else Some (0, None));
        if fst size \<noteq> 0 then Some (w1, t, -1)
        else do {
          let windowsize = (case snd size of None \<Rightarrow> DEFAULT_SOCKET_WINDOW_SIZE | Some n \<Rightarrow> n);
          (w2, ret2, _) \<leftarrow> dict_get_str w1 options (Some (chars ''transport.socket.lowlat'')) True;
          Some (w2, upd_sock (\<lambda>s. s\<lparr>sk_priv := init_private new (\<not> nbio) nodelay (ret2 = 0) (sint (ucast windowsize :: u32))\<rparr>)
                      (t\<lparr>t_private := True\<rparr>), 0)
        }
      })"

definition socket_fini :: "'c transport \<Rightarrow> 'c transport option" where
  "socket_fini t = (if t_private t then Some (t\<lparr>t_private := False\<rparr>) else None)"

section \<open>Connecting and listening\<close>

definition socket_nonblock :: "net_env \<Rightarrow> int" where
  "socket_nonblock env = (if n_fcntl_get env \<noteq> -1 then n_fcntl_set env else -1)"

definition socket_nodelay :: "net_env \<Rightarrow> int" where
  "socket_nodelay env = n_nodelay env"

definition socket_server_bind :: "net_env \<Rightarrow> peer_info \<Rightarrow> int" where
  "socket_server_bind env my = fst (n_bind env (pi_sockaddr my) (pi_sockaddr_len my))"

definition close_sock :: "sock \<Rightarrow> sock" where
  "close_sock s = upd_priv (\<lambda>p. p\<lparr>sp_sock := -1\<rparr>) (s\<lparr>sk_closed := sp_sock (sk_priv s) # sk_closed s\<rparr>)"

text \<open>Registering the descriptor of a connection, with the reference that the event handler holds.\<close>

definition register_sock :: "net_env \<Rightarrow> sock_handler \<Rightarrow> addr \<Rightarrow> int \<Rightarrow> int \<Rightarrow> sock \<Rightarrow> sock option" where
  "register_sock env handler this poll_in poll_out s =
     do {
       (ev, idx) \<leftarrow> event_register (n_grown env) (n_ctl env) (sk_events s) (sp_sock (sk_priv s)) (Some handler) this poll_in poll_out;
       Some (upd_priv (\<lambda>p. p\<lparr>sp_idx := idx\<rparr>) (s\<lparr>sk_events := ev\<rparr>))
     }"

definition socket_connect :: "'c resolver \<Rightarrow> net_env \<Rightarrow> addr \<Rightarrow> store \<Rightarrow> 'c transport \<Rightarrow> ('c transport \<times> int) option" where
  "socket_connect gf_resolve_ip6 env this w t =
     (if \<not> t_private t then Some (t, -1)
      else if sp_sock (sk_priv (t_sock t)) \<noteq> -1 then Some (t, 0)
      else do {
        options \<leftarrow> t_ctx t;
        (cache, sa, len, family, ret) \<leftarrow> socket_client_get_remote_sockaddr gf_resolve_ip6 w options (t_dnscache t) zero_sockaddr 0 0;
        let t1 = t\<lparr>t_dnscache := cache\<rparr>;
        if ret = -1 then Some (t1, ret)
        else do {
          let t2 = upd_sock (upd_priv (\<lambda>p. p\<lparr>sp_sock := n_socket env\<rparr>))
                     (t1\<lparr>t_peerinfo := (t_peerinfo t1)\<lparr>pi_sockaddr := sa, pi_sockaddr_len := len\<rparr>\<rparr>);
          let p = sk_priv (t_sock t2);
          if n_socket env = -1 then Some (t2, ret)
          else do {
            let ret1 = (if sp_nodelay p \<and> sp_lowlat p then socket_nodelay env else ret);
            let ret2 = (if sp_bio p then ret1 else socket_nonblock env);
            if \<not> sp_bio p \<and> ret2 = -1 then Some (upd_sock close_sock t2, ret2)
            else do {
              (my, my_len, ret3) \<leftarrow> client_bind w options (n_bind env) ((pi_sockaddr (t_myinfo t2))\<lparr>sa_family := sa_family sa\<rparr>);
              let t3 = t2\<lparr>t_myinfo := (t_myinfo t2)\<lparr>pi_sockaddr := my, pi_sockaddr_len := my_len\<rparr>\<rparr>;
              if ret3 = -1 then Some (upd_sock close_sock t3, ret3)
              else if fst (n_connect env) = -1 \<and> snd (n_connect env) \<noteq> EINPROGRESS
              then Some (upd_sock close_sock t3, fst (n_connect env))
              else do {
                s4 \<leftarrow> register_sock env Socket_Event_Handler this 1 1 (transport_ref (upd_priv (\<lambda>p. p\<lparr>sp_connected := 0\<rparr>) (t_sock t3)));
                Some (t3\<lparr>t_sock := s4\<rparr>, if sp_idx (sk_priv s4) = -1 then -1 else fst (n_connect env))
              }
            }
          }
        }
      })"

text \<open>\<open>junk\<close> is the address in the local variable before it is filled.\<close>

definition socket_listen :: "sockaddr \<Rightarrow> net_env \<Rightarrow> addr \<Rightarrow> store \<Rightarrow> 'c transport \<Rightarrow> ('c transport \<times> int) option" where
  "socket_listen junk env this w t =
     (if \<not> t_private t then None
      else if sp_sock (sk_priv (t_sock t)) \<noteq> -1 then Some (t, -1)
      else do {
        options \<leftarrow> t_ctx t;
        (sa, len, family, ret) \<leftarrow> socket_server_get_local_sockaddr (n_getaddrinfo env) w options junk 0 0;
        if ret = -1 then Some (t, ret)
        else do {
          let t2 = upd_sock (upd_priv (\<lambda>p. p\<lparr>sp_sock := n_socket env\<rparr>))
                     (t\<lparr>t_myinfo := (t_myinfo t)\<lparr>pi_sockaddr := sa, pi_sockaddr_len := len\<rparr>\<rparr>);
          let p = sk_priv (t_sock t2);
          if n_socket env = -1 then Some (t2, ret)
          else do {
            let ret1 = (if sp_nodelay p then socket_nodelay env else ret);
            let ret2 = (if sp_bio p then ret1 else socket_nonblock env);
            let ret3 = socket_server_bind env (t_myinfo t2);
            if \<not> sp_bio p \<and> ret2 = -1 then Some (upd_sock close_sock t2, ret2)
            else if ret3 = -1 then Some (upd_sock close_sock t2, ret3)
            else if n_listen env = -1 then Some (upd_sock close_sock t2, n_listen env)
            else do {
              s4 \<leftarrow> register_sock env Socket_Server_Event_Handler this 1 0 (transport_ref (t_sock t2));
              if sp_idx (sk_priv s4) = -1 then Some (t2\<lparr>t_sock := close_sock s4\<rparr>, -1)
              else Some (t2\<lparr>t_sock := s4\<rparr>, n_listen env)
            }
          }
        }
      })"

section \<open>Accepting\<close>

text \<open>
  The new transport is zeroed memory of which the addresses are filled in; neither its context nor its buffer pool is set.  \<open>blank\<close> is the
  kernel's and the heap's part of its state.  The handler returns the listening transport, the new transport if there is one, and the
  return value.
\<close>

definition new_transport :: "sock \<Rightarrow> 'c \<Rightarrow> 'c transport" where
  "new_transport blank no_cache =
     \<lparr>t_sock = blank, t_private = False, t_ops = False, t_ctx = None, t_dnscache = no_cache, t_peerinfo = zero_peer, t_myinfo = zero_peer\<rparr>"

definition socket_server_event_handler ::
  "(cstring option \<Rightarrow> int \<times> bool option) \<Rightarrow> (cstring option \<Rightarrow> int \<times> u64 option) \<Rightarrow> net_env \<Rightarrow> addr \<Rightarrow> addr \<Rightarrow> sock \<Rightarrow> 'c
   \<Rightarrow> int \<Rightarrow> u32 \<Rightarrow> store \<Rightarrow> 'c transport \<Rightarrow> ('c transport \<times> 'c transport option \<times> int) option" where
  "socket_server_event_handler string2boolean string2bytesize env new_trans new_priv blank no_cache idx poll_in w t =
     (if \<not> t_private t then None
      else do {
        let t1 = upd_sock (upd_priv (\<lambda>p. p\<lparr>sp_idx := idx\<rparr>)) t;
        let p = sk_priv (t_sock t1);
        let (new_sock, new_sockaddr, addrlen) = n_accept env;
        let ret1 = (if sp_bio p then 0 else socket_nonblock env);
        let closed = upd_sock (\<lambda>s. s\<lparr>sk_closed := new_sock # sk_closed s\<rparr>) t1;
        if poll_in = 0 then Some (t1, None, 0)
        else if new_sock = -1 then Some (t1, None, 0)
        else if \<not> sp_bio p \<and> ret1 = -1 then Some (closed, None, ret1)
        else if new_trans = 0 then None
        else
          let (ret2, my, my_len) = n_getsockname env;
              nt = (new_transport blank no_cache)\<lparr>
                     t_peerinfo := zero_peer\<lparr>pi_sockaddr := new_sockaddr, pi_sockaddr_len := addrlen\<rparr>,
                     t_myinfo := zero_peer\<lparr>pi_sockaddr := my, pi_sockaddr_len := my_len\<rparr>\<rparr>
          in if ret2 = -1 then Some (closed, None, ret2)
             else do {
               (my2, peer2, _) \<leftarrow> get_transport_identifiers (n_getnameinfo env) (t_myinfo nt) (t_peerinfo nt);
               (w1, nt1, _) \<leftarrow> socket_init string2boolean string2bytesize new_priv w (nt\<lparr>t_myinfo := my2, t_peerinfo := peer2\<rparr>);
               if \<not> t_private nt1 \<or> t_ctx t1 = None then None
               else do {
                 let s1 = transport_ref (upd_priv (\<lambda>p. p\<lparr>sp_sock := new_sock, sp_connected := 1\<rparr>) (t_sock nt1));
                 s2 \<leftarrow> register_sock env Socket_Event_Handler new_trans 1 0 (s1\<lparr>sk_events := sk_events (t_sock t1)\<rparr>);
                 Some (upd_sock (\<lambda>s. s\<lparr>sk_events := sk_events s2\<rparr>) t1, Some (nt1\<lparr>t_sock := s2, t_ops := True\<rparr>),
                       if sp_idx (sk_priv s2) = -1 then -1 else ret2)
               }
             }
      })"

section \<open>The interface of transports\<close>

text \<open>
  A transport is an optional value, \<open>None\<close> being the null pointer; the operations go through the table that \<^verbatim>\<open>transport_load\<close> sets,
  which has the functions of \<^verbatim>\<open>socket.c\<close>.  The first argument of the submission and the reception is the pointer check.
\<close>

definition transport_submit ::
  "sock_env \<Rightarrow> addr \<Rightarrow> int \<Rightarrow> siov list \<Rightarrow> int \<Rightarrow> addr \<Rightarrow> 'c transport option \<Rightarrow> ('c transport option \<times> int) option" where
  "transport_submit env buf len vector count iobref this =
     (case this of
        None \<Rightarrow> Some (this, -1)
      | Some t \<Rightarrow>
          if \<not> t_ops t then Some (this, -1)
          else if \<not> t_private t then None
          else map_option (\<lambda>(s, ret). (Some (t\<lparr>t_sock := s\<rparr>), ret)) (socket_submit env buf len vector count iobref (t_sock t)))"

definition transport_connect ::
  "'c resolver \<Rightarrow> net_env \<Rightarrow> addr \<Rightarrow> store \<Rightarrow> 'c transport option \<Rightarrow> ('c transport option \<times> int) option" where
  "transport_connect gf_resolve_ip6 env addr w this =
     (case this of
        None \<Rightarrow> Some (this, -1)
      | Some t \<Rightarrow>
          if \<not> t_ops t then None
          else map_option (\<lambda>(t', ret). (Some t', ret)) (socket_connect gf_resolve_ip6 env addr w t))"

definition transport_listen ::
  "sockaddr \<Rightarrow> net_env \<Rightarrow> addr \<Rightarrow> store \<Rightarrow> 'c transport option \<Rightarrow> ('c transport option \<times> int) option" where
  "transport_listen junk env addr w this =
     (case this of
        None \<Rightarrow> Some (this, -1)
      | Some t \<Rightarrow>
          if \<not> t_ops t then None
          else map_option (\<lambda>(t', ret). (Some t', ret)) (socket_listen junk env addr w t))"

definition transport_disconnect :: "sock_env \<Rightarrow> 'c transport option \<Rightarrow> ('c transport option \<times> int) option" where
  "transport_disconnect env this =
     (case this of
        None \<Rightarrow> Some (this, -1)
      | Some t \<Rightarrow>
          if \<not> t_ops t \<or> \<not> t_private t then None
          else case socket_disconnect env (t_sock t) of (s, ret) \<Rightarrow> Some (Some (t\<lparr>t_sock := s\<rparr>), ret))"

definition transport_receive ::
  "bool \<Rightarrow> 'c transport option \<Rightarrow> ('c transport option \<times> int \<times> (addr \<times> nat \<times> addr) option) option" where
  "transport_receive ptrs this =
     (case this of
        None \<Rightarrow> Some (this, -1, None)
      | Some t \<Rightarrow>
          if \<not> t_ops t \<or> \<not> t_private t then None
          else case socket_receive ptrs (t_sock t) of (s, ret, out) \<Rightarrow> Some (Some (t\<lparr>t_sock := s\<rparr>), ret, out))"

section \<open>Loading\<close>

text \<open>The type is cut at the first slash, in the memory of the option.\<close>

definition cut_slash :: "addr \<Rightarrow> store \<Rightarrow> store option" where
  "cut_slash a w =
     do {
       d \<leftarrow> datas w a;
       p \<leftarrow> data_data d;
       type \<leftarrow> c_string (ptr_bytes p);
       let i = length (takeWhile (\<lambda>c. c \<noteq> of_char (CHR ''/'')) type);
       Some (if i < length type
             then put_data a (d\<lparr>data_data := Some (p\<lparr>ptr_bytes := (ptr_bytes p)[i := 0]\<rparr>)\<rparr>) w
             else w)
     }"

record load_env =
  l_trans :: addr
  l_priv :: addr
  l_new :: new_allocs
  l_set :: set_allocs
  l_literal :: addr

text \<open>A string constant of the program at the address \<open>a\<close>.\<close>

definition literal :: "addr \<Rightarrow> string \<Rightarrow> cptr option" where
  "literal a s = Some \<lparr>ptr_addr = a, ptr_bytes = chars s @ [0]\<rparr>"

text \<open>
  \<open>transport_load\<close>.  An option without data leaves the type at its initial text, which has no slash and names no address family.
  The result has the store, the options and the new transport.  The context is an argument of the function but is
  not stored in the transport.
\<close>

definition transport_load ::
  "(cstring option \<Rightarrow> int \<times> bool option) \<Rightarrow> (cstring option \<Rightarrow> int \<times> u64 option) \<Rightarrow> load_env \<Rightarrow> sock \<Rightarrow> 'c \<Rightarrow> store
   \<Rightarrow> dict option \<Rightarrow> dict option option \<Rightarrow> (store \<times> dict option \<times> 'c transport option) option" where
  "transport_load string2boolean string2bytesize env blank no_cache w options ctx =
     (if options = None then Some (w, options, None)
      else if l_trans env = 0 then Some (w, options, None)
      else do {
        (w1, ret, type) \<leftarrow> dict_get_str w options (Some (chars ''transport-type'')) True;
        (w2, options2) \<leftarrow>
          (if ret < 0
           then map_option (\<lambda>(w', d', _). (w', d'))
                  (dict_set_str (l_new env) (l_set env) w1 options (Some (chars ''transport-type'')) (literal (l_literal env) ''socket''))
           else if type = None then Some (w1, options)
           else do {
             a \<leftarrow> opt_data w1 options ''transport-type'';
             w' \<leftarrow> cut_slash a w1;
             s \<leftarrow> opt_str w' a;
             name \<leftarrow> s;
             (if name = chars ''tcp''
              then map_option (\<lambda>(w'', d', _). (w'', d'))
                     (dict_set_str (l_new env) (l_set env) w' options (Some (chars ''transport.address-family'')) (literal (l_literal env) ''inet''))
              else Some (w', options))
           });
        (w3, this, ret2) \<leftarrow> socket_init string2boolean string2bytesize (l_priv env) w2 ((new_transport blank no_cache)\<lparr>t_ops := True\<rparr>);
        if ret2 \<noteq> 0 then Some (w3, options2, None) else Some (w3, options2, Some this)
      })"

section \<open>No context\<close>

lemma socket_init_no_ctx:
  "\<lbrakk>t_ctx t = None; \<not> t_private t\<rbrakk> \<Longrightarrow> socket_init b z new w t = (if new = 0 then Some (w, t, -1) else None)"
  by (simp add: socket_init_def)

text \<open>
  C35: No transport can be made with this code.  Whatever the options are, \<open>transport_load\<close> returns a null pointer or dereferences
  one, because the context it is given is never stored in the transport that \<open>socket_init\<close> reads the options from; for the same reason
  the event handler of a listening transport dereferences a null pointer as soon as it has accepted a connection and allocated its
  transport.
\<close>

theorem no_transport_without_context:
  "(transport_load b z env blank no_cache w options ctx = Some (w', options', this) \<longrightarrow> this = None)
    \<and> (poll_in \<noteq> 0 \<and> fst (n_accept nenv) \<noteq> -1 \<and> (sp_bio (sk_priv (t_sock t)) \<or> socket_nonblock nenv \<noteq> -1)
         \<and> fst (n_getsockname nenv) \<noteq> -1 \<and> new_priv \<noteq> 0 \<longrightarrow>
       socket_server_event_handler b z nenv new_trans new_priv blank no_cache idx poll_in w t = None)"
proof (intro conjI impI)
  assume "transport_load b z env blank no_cache w options ctx = Some (w', options', this)"
  then show "this = None"
    by (auto simp: transport_load_def socket_init_no_ctx new_transport_def split: if_splits Option.bind_splits prod.splits)
next
  assume a: "poll_in \<noteq> 0 \<and> fst (n_accept nenv) \<noteq> -1 \<and> (sp_bio (sk_priv (t_sock t)) \<or> socket_nonblock nenv \<noteq> -1)
         \<and> fst (n_getsockname nenv) \<noteq> -1 \<and> new_priv \<noteq> 0"
  obtain fd sa len where acc: "n_accept nenv = (fd, sa, len)" by (cases "n_accept nenv")
  obtain r my l where gs: "n_getsockname nenv = (r, my, l)" by (cases "n_getsockname nenv")
  show "socket_server_event_handler b z nenv new_trans new_priv blank no_cache idx poll_in w t = None"
    using a acc gs
    by (auto simp: socket_server_event_handler_def socket_init_no_ctx new_transport_def Let_def upd_sock_def upd_priv_def
        split: Option.bind_splits prod.splits)
qed

section \<open>Settings\<close>

definition bool_setting :: "(cstring option \<Rightarrow> int \<times> bool option) \<Rightarrow> (cstring \<rightharpoonup> cstring) \<Rightarrow> string \<Rightarrow> bool" where
  "bool_setting string2boolean opts key =
     (case opts (chars key) of
        None \<Rightarrow> True
      | Some t \<Rightarrow> (case string2boolean (Some t) of (ret, b) \<Rightarrow> ret = -1 \<or> b = Some True))"

lemma bool_option_spec:
  assumes o: "options_are w d opts" and b: "\<forall>s. fst (b s) = -1 \<or> snd (b s) \<noteq> None"
  shows "\<exists>tmp'. bool_option b w (Some d) key tmp True = Some (tmp', bool_setting b opts key)"
proof (cases "opts (chars key)")
  case None
  then show ?thesis using opt_none [OF o None] by (simp add: bool_option_def bool_setting_def)
next
  case (Some t)
  obtain a where "opt_data w (Some d) key = Some a" "a \<noteq> 0" "opt_str w a = Some (Some t)" using opt_some [OF o Some] by blast
  moreover obtain r x where "b (Some t) = (r, x)" by fastforce
  moreover from this have "r = -1 \<or> x \<noteq> None" using b [rule_format, of "Some t"] by simp
  ultimately show ?thesis using Some by (auto simp: bool_option_def bool_setting_def Let_def)
qed

text \<open>
  C36: \<open>socket_init\<close> gives a disconnected transport with an empty queue whose settings are those of the options: non-blocking unless
  the option says otherwise, the delay algorithm off unless the option says otherwise, values that are no booleans
  counting as true, the window of the option or of 512 KB, low latency when the option is present.  It fails, and
  leaves the transport as it was, on a second call, without memory, and on a window that is not a size.
\<close>

theorem socket_init_settings:
  assumes "options_are w d opts" and "t_ctx t = Some (Some d)" and "\<forall>s. fst (b s) = -1 \<or> snd (b s) \<noteq> None"
  shows "socket_init b z new w t =
    (if t_private t \<or> new = 0 then Some (w, t, -1)
     else
       case (case opts (chars ''transport.window-size'') of None \<Rightarrow> (0, None) | Some s \<Rightarrow> z (Some s)) of
         (ret, wsize) \<Rightarrow>
           if ret \<noteq> 0 then Some (w, t, -1)
           else Some (w, t\<lparr>t_private := True,
                           t_sock := (t_sock t)\<lparr>sk_priv :=
                             init_private new (\<not> bool_setting b opts ''non-blocking-io'') (bool_setting b opts ''transport.socket.nodelay'')
                               (opts (chars ''transport.socket.lowlat'') \<noteq> None)
                               (sint (ucast (case wsize of None \<Rightarrow> DEFAULT_SOCKET_WINDOW_SIZE | Some n \<Rightarrow> n) :: u32))\<rparr>\<rparr>, 0))"
proof (cases "t_private t \<or> new = 0")
  case True
  then show ?thesis by (auto simp: socket_init_def)
next
  case False
  obtain tmp1 where b1: "bool_option b w (Some d) ''non-blocking-io'' False True = Some (tmp1, bool_setting b opts ''non-blocking-io'')"
    using bool_option_spec [OF assms(1,3)] by blast
  obtain tmp2 where b2: "bool_option b w (Some d) ''transport.socket.nodelay'' tmp1 True = Some (tmp2, bool_setting b opts ''transport.socket.nodelay'')"
    using bool_option_spec [OF assms(1,3)] by blast
  obtain ret out where g: "dict_get_str w (Some d) (Some (chars ''transport.window-size'')) True = Some (w, ret, out)"
      "case opts (chars ''transport.window-size'') of None \<Rightarrow> ret = -2 \<and> out = None
       | Some t \<Rightarrow> ret = 0 \<and> (\<exists>p. out = Some p \<and> c_string (ptr_bytes p) = Some t)"
    using opt_get_str [OF assms(1)] by blast
  obtain ret2 out2 where l: "dict_get_str w (Some d) (Some (chars ''transport.socket.lowlat'')) True = Some (w, ret2, out2)"
      "case opts (chars ''transport.socket.lowlat'') of None \<Rightarrow> ret2 = -2 \<and> out2 = None
       | Some t \<Rightarrow> ret2 = 0 \<and> (\<exists>p. out2 = Some p \<and> c_string (ptr_bytes p) = Some t)"
    using opt_get_str [OF assms(1)] by blast
  have lowlat: "ret2 = 0 \<longleftrightarrow> opts (chars ''transport.socket.lowlat'') \<noteq> None" using l(2) by (auto split: option.splits)
  define wsize where "wsize = (case opts (chars ''transport.window-size'') of None \<Rightarrow> (0, None) | Some s \<Rightarrow> z (Some s))"
  have "(if ret = 0 then do { s \<leftarrow> (case out of None \<Rightarrow> Some None | Some p \<Rightarrow> map_option Some (c_string (ptr_bytes p))); Some (z s) }
      else Some (0, None)) = Some wsize"
    using g(2) by (auto simp: wsize_def split: option.splits)
  then have "socket_init b z new w t = (if fst wsize \<noteq> 0 then Some (w, t, -1)
      else Some (w, upd_sock (\<lambda>s. s\<lparr>sk_priv := init_private new (\<not> bool_setting b opts ''non-blocking-io'')
         (bool_setting b opts ''transport.socket.nodelay'') (ret2 = 0)
         (sint (ucast (case snd wsize of None \<Rightarrow> DEFAULT_SOCKET_WINDOW_SIZE | Some n \<Rightarrow> n) :: u32))\<rparr>) (t\<lparr>t_private := True\<rparr>), 0))"
    using False assms(2) b1 b2 g(1) l(1) by (simp add: socket_init_def Let_def)
  then show ?thesis using False unfolding wsize_def [symmetric] lowlat by (simp add: upd_sock_def split: prod.split)
qed

definition blank_transport :: "dict option option \<Rightarrow> unit transport" where
  "blank_transport ctx = \<lparr>t_sock = demo_sock, t_private = False, t_ops = True, t_ctx = ctx, t_dnscache = (), t_peerinfo = zero_peer, t_myinfo = zero_peer\<rparr>"

lemma lz_string2boolean_total: "fst (lz_string2boolean s) = -1 \<or> snd (lz_string2boolean s) \<noteq> None"
  by (auto simp: lz_string2boolean_def split: option.split)

theorem socket_init_settings_witness:
  "\<exists>w d t'. socket_init lz_string2boolean (\<lambda>s. (0, None)) 64 w (blank_transport (Some (Some d))) = Some (w, t', 0)
     \<and> sp_bio (sk_priv (t_sock t')) \<and> sp_nodelay (sk_priv (t_sock t')) \<and> sp_windowsize (sk_priv (t_sock t')) = 524288"
proof -
  obtain w d where o: "options_are w d [chars ''non-blocking-io'' \<mapsto> chars ''off'']"
    using demo_options [of "chars ''off''" "chars ''non-blocking-io''"] by (auto simp: chars_def)
  let ?o = "[chars ''non-blocking-io'' \<mapsto> chars ''off'']"
  have v: "\<not> bool_setting lz_string2boolean ?o ''non-blocking-io''" "bool_setting lz_string2boolean ?o ''transport.socket.nodelay''"
      "?o (chars ''transport.window-size'') = None"
    by (simp_all add: bool_setting_def chars_def lz_string2boolean_def strcase_equal_def to_lower_def is_upper_def)
  have "t_ctx (blank_transport (Some (Some d))) = Some (Some d)" "\<not> t_private (blank_transport (Some (Some d)))"
    by (simp_all add: blank_transport_def)
  then show ?thesis
    using socket_init_settings [OF o, of "blank_transport (Some (Some d))" lz_string2boolean "\<lambda>s. (0, None)" 64] v lz_string2boolean_total
    by (intro exI [of _ w] exI [of _ d]) (auto simp: init_private_def DEFAULT_SOCKET_WINDOW_SIZE_def)
qed

definition demo_net :: net_env where
  "demo_net = \<lparr>n_socket = 7, n_nodelay = 0, n_fcntl_get = 0, n_fcntl_set = 0, n_bind = (\<lambda>a l. (0, 0)), n_connect = (-1, 115),
     n_listen = 0, n_accept = (9, zero_sockaddr, 16), n_getsockname = (0, zero_sockaddr\<lparr>sa_family := 2\<rparr>, 16),
     n_getaddrinfo = (\<lambda>h s f. Inl 1), n_getnameinfo = (\<lambda>a l. (0, [], [])), n_grown = True, n_ctl = True\<rparr>"

theorem no_transport_without_context_witness:
  "socket_server_event_handler lz_string2boolean (\<lambda>s. (0, None)) demo_net 48 64 demo_sock () 3 1 demo_store
     ((blank_transport (Some None))\<lparr>t_private := True\<rparr>) = None"
  using no_transport_without_context [of lz_string2boolean "\<lambda>s. (0, None)" _ demo_sock "()" demo_store _ _ _ _ _ 1 demo_net
      "(blank_transport (Some None))\<lparr>t_private := True\<rparr>"]
  by (simp add: demo_net_def socket_nonblock_def)

section \<open>Descriptors\<close>

text \<open>
  What an attempt to open a descriptor leaves of the connection \<open>s\<close>: nothing changed; the new descriptor closed again; or the
  connection has the new descriptor, a further reference and the result of its registration.
\<close>

definition opened :: "net_env \<Rightarrow> sock_handler \<Rightarrow> addr \<Rightarrow> int \<Rightarrow> sock \<Rightarrow> sock \<Rightarrow> bool" where
  "opened env handler this poll_out s s' \<longleftrightarrow>
     n_socket env \<noteq> -1 \<and> sp_sock (sk_priv s') = n_socket env \<and> sk_closed s' = sk_closed s \<and> sk_refcount s' = sk_refcount s + 1
     \<and> event_register (n_grown env) (n_ctl env) (sk_events s) (n_socket env) (Some handler) this 1 poll_out
         = Some (sk_events s', sp_idx (sk_priv s'))"

definition closed_again :: "net_env \<Rightarrow> sock \<Rightarrow> sock \<Rightarrow> bool" where
  "closed_again env s s' \<longleftrightarrow> n_socket env \<noteq> -1 \<and> s' = s\<lparr>sk_closed := n_socket env # sk_closed s\<rparr>"

text \<open>
  Whether a descriptor is opened at all: the transport is initialised, its address is found and \<^verbatim>\<open>socket\<close> succeeds.
\<close>

definition connect_opens :: "'c resolver \<Rightarrow> net_env \<Rightarrow> store \<Rightarrow> 'c transport \<Rightarrow> bool" where
  "connect_opens resolve env w t \<longleftrightarrow> t_private t \<and> n_socket env \<noteq> -1
     \<and> (case t_ctx t of
          None \<Rightarrow> False
        | Some options \<Rightarrow>
            (case socket_client_get_remote_sockaddr resolve w options (t_dnscache t) zero_sockaddr 0 0 of
               None \<Rightarrow> False
             | Some (cache, sa, len, family, r) \<Rightarrow> r \<noteq> -1))"

definition listen_opens :: "sockaddr \<Rightarrow> net_env \<Rightarrow> store \<Rightarrow> 'c transport \<Rightarrow> bool" where
  "listen_opens junk env w t \<longleftrightarrow> n_socket env \<noteq> -1
     \<and> (case t_ctx t of
          None \<Rightarrow> False
        | Some options \<Rightarrow>
            (case socket_server_get_local_sockaddr (n_getaddrinfo env) w options junk 0 0 of
               None \<Rightarrow> False
             | Some (sa, len, family, r) \<Rightarrow> r \<noteq> -1))"

definition connect_refused :: "net_env \<Rightarrow> 'c transport \<Rightarrow> bool" where
  "connect_refused env t \<longleftrightarrow> \<not> sp_bio (sk_priv (t_sock t)) \<and> socket_nonblock env = -1
     \<or> fst (n_connect env) = -1 \<and> snd (n_connect env) \<noteq> EINPROGRESS"

definition listen_refused :: "net_env \<Rightarrow> peer_info \<Rightarrow> 'c transport \<Rightarrow> bool" where
  "listen_refused env my t \<longleftrightarrow> \<not> sp_bio (sk_priv (t_sock t)) \<and> socket_nonblock env = -1
     \<or> fst (n_bind env (pi_sockaddr my) (pi_sockaddr_len my)) = -1 \<or> n_listen env = -1"

lemma open_fail: "sp_sock (sk_priv s) = -1 \<Longrightarrow> upd_priv (\<lambda>p. p\<lparr>sp_sock := -1\<rparr>) s = s"
  by (simp add: upd_priv_def)

lemma open_close:
  "\<lbrakk>sp_sock (sk_priv s) = -1; n_socket env \<noteq> -1\<rbrakk> \<Longrightarrow> closed_again env s (close_sock (upd_priv (\<lambda>p. p\<lparr>sp_sock := n_socket env\<rparr>) s))"
  by (simp add: upd_priv_def close_sock_def closed_again_def)

lemma open_register:
  assumes "register_sock env handler this 1 out (transport_ref s1) = Some s'" and "n_socket env \<noteq> -1"
    and "sp_sock (sk_priv s1) = n_socket env" "sk_closed s1 = sk_closed s" "sk_refcount s1 = sk_refcount s" "sk_events s1 = sk_events s"
  shows "opened env handler this out s s' \<and> sp_connected (sk_priv s') = sp_connected (sk_priv s1)"
  using assms by (auto simp: register_sock_def transport_ref_def opened_def upd_priv_def split: Option.bind_splits)

lemma connect_descriptors:
  assumes sock: "sp_sock (sk_priv (t_sock t)) = -1" and c: "socket_connect resolve env this w t = Some (t', ret)"
  shows "if \<not> connect_opens resolve env w t then t_sock t' = t_sock t
    else closed_again env (t_sock t) (t_sock t') \<and> ret = -1
      \<or> \<not> connect_refused env t \<and> opened env Socket_Event_Handler this 1 (t_sock t) (t_sock t')
        \<and> sp_connected (sk_priv (t_sock t')) = 0
        \<and> ret = (if sp_idx (sk_priv (t_sock t')) = -1 then -1 else fst (n_connect env))"
proof (cases "t_private t")
  case True
  let ?s = "upd_priv (\<lambda>p. p\<lparr>sp_sock := n_socket env\<rparr>) (t_sock t)"
  obtain options cache sa len family r where o: "t_ctx t = Some options"
      "socket_client_get_remote_sockaddr resolve w options (t_dnscache t) zero_sockaddr 0 0 = Some (cache, sa, len, family, r)"
    using c True sock by (auto simp: socket_connect_def split: Option.bind_splits)
  note c1 = c [unfolded socket_connect_def upd_sock_def]
  show ?thesis
  proof (cases "r = -1 \<or> n_socket env = -1")
    case fail: True
    then have "t_sock t' = t_sock t" using c1 True sock o open_fail [OF sock] by (cases "r = -1") (auto simp: Let_def)
    moreover have "\<not> connect_opens resolve env w t" using fail o by (auto simp: connect_opens_def)
    ultimately show ?thesis by simp
  next
    case False
    have opens: "connect_opens resolve env w t" using False True o by (simp add: connect_opens_def)
    note closed = open_close [OF sock, of env]
    show ?thesis
    proof (cases "\<not> sp_bio (sk_priv (t_sock t)) \<and> socket_nonblock env = -1")
      case nb: True
      then have "t_sock t' = close_sock ?s \<and> ret = -1" using c1 True sock o False by (auto simp: Let_def upd_priv_def)
      then show ?thesis using closed False opens by simp
    next
      case nb: False
      obtain my my_len r3 where b: "client_bind w options (n_bind env) ((pi_sockaddr (t_myinfo t))\<lparr>sa_family := sa_family sa\<rparr>) = Some (my, my_len, r3)"
        using c1 True sock o False nb by (auto simp: Let_def upd_priv_def split: Option.bind_splits if_splits)
      show ?thesis
      proof (cases "r3 = -1 \<or> fst (n_connect env) = -1 \<and> snd (n_connect env) \<noteq> EINPROGRESS")
        case True
        then have "t_sock t' = close_sock ?s \<and> ret = -1"
          using c1 \<open>t_private t\<close> sock o False nb b by (cases "r3 = -1") (auto simp: Let_def upd_priv_def split: if_splits)
        then show ?thesis using closed False opens by simp
      next
        case ok: False
        let ?s1 = "upd_priv (\<lambda>p. p\<lparr>sp_connected := 0\<rparr>) ?s"
        obtain s4 where s4: "register_sock env Socket_Event_Handler this 1 1 (transport_ref ?s1) = Some s4"
            "t_sock t' = s4" "ret = (if sp_idx (sk_priv s4) = -1 then -1 else fst (n_connect env))"
          using c1 \<open>t_private t\<close> sock o False nb b ok by (auto simp: Let_def upd_priv_def split: Option.bind_splits if_splits)
        have "opened env Socket_Event_Handler this 1 (t_sock t) s4 \<and> sp_connected (sk_priv s4) = sp_connected (sk_priv ?s1)"
          using False by (intro open_register [OF s4(1)]) (simp_all add: upd_priv_def)
        moreover have "\<not> connect_refused env t" using nb ok by (auto simp: connect_refused_def)
        ultimately show ?thesis using s4(2,3) opens by (simp add: upd_priv_def)
      qed
    qed
  qed
next
  case False
  then show ?thesis using c by (simp add: socket_connect_def connect_opens_def)
qed

lemma listen_descriptors:
  assumes sock: "sp_sock (sk_priv (t_sock t)) = -1" and c: "socket_listen junk env this w t = Some (t', ret)"
  shows "if \<not> listen_opens junk env w t then t_sock t' = t_sock t
    else if listen_refused env (t_myinfo t') t then closed_again env (t_sock t) (t_sock t') \<and> ret = -1
    else (\<exists>s. opened env Socket_Server_Event_Handler this 0 (t_sock t) s
           \<and> (if sp_idx (sk_priv s) = -1
              then t_sock t' = s\<lparr>sk_priv := (sk_priv s)\<lparr>sp_sock := -1\<rparr>, sk_closed := n_socket env # sk_closed s\<rparr> \<and> ret = -1
              else t_sock t' = s \<and> ret = n_listen env))"
proof -
  let ?s = "upd_priv (\<lambda>p. p\<lparr>sp_sock := n_socket env\<rparr>) (t_sock t)"
  note c1 = c [unfolded socket_listen_def upd_sock_def]
  have True: "t_private t" using c by (auto simp: socket_listen_def split: if_splits)
  obtain options sa len family r where o: "t_ctx t = Some options"
      "socket_server_get_local_sockaddr (n_getaddrinfo env) w options junk 0 0 = Some (sa, len, family, r)"
    using c True sock by (auto simp: socket_listen_def split: Option.bind_splits)
  show ?thesis
  proof (cases "r = -1 \<or> n_socket env = -1")
    case fail: True
    then have "t_sock t' = t_sock t" using c1 True sock o open_fail [OF sock] by (cases "r = -1") (auto simp: Let_def)
    moreover have "\<not> listen_opens junk env w t" using fail o by (auto simp: listen_opens_def)
    ultimately show ?thesis by simp
  next
    case False
    have opens: "listen_opens junk env w t" using False True o by (simp add: listen_opens_def)
    note closed = open_close [OF sock, of env]
    let ?my = "(t_myinfo t)\<lparr>pi_sockaddr := sa, pi_sockaddr_len := len\<rparr>"
    show ?thesis
    proof (cases "\<not> sp_bio (sk_priv (t_sock t)) \<and> socket_nonblock env = -1 \<or> socket_server_bind env ?my = -1 \<or> n_listen env = -1")
      case fail: True
      have "t_sock t' = close_sock ?s \<and> ret = -1 \<and> t_myinfo t' = ?my"
        using c1 True sock o False fail by (auto simp: Let_def upd_priv_def split: if_splits)
      moreover from this have "listen_refused env (t_myinfo t') t" using fail by (simp add: listen_refused_def socket_server_bind_def)
      ultimately show ?thesis using closed False opens by simp
    next
      case ok: False
      then obtain s4 where s4: "register_sock env Socket_Server_Event_Handler this 1 0 (transport_ref ?s) = Some s4"
          "if sp_idx (sk_priv s4) = -1 then t_sock t' = close_sock s4 \<and> ret = -1 else t_sock t' = s4 \<and> ret = n_listen env"
          "t_myinfo t' = ?my"
        using c1 True sock o False by (auto simp: Let_def upd_priv_def split: Option.bind_splits if_splits)
      have "opened env Socket_Server_Event_Handler this 0 (t_sock t) s4 \<and> sp_connected (sk_priv s4) = sp_connected (sk_priv ?s)"
        using False by (intro open_register [OF s4(1)]) (simp_all add: upd_priv_def)
      moreover from this have "close_sock s4 = s4\<lparr>sk_priv := (sk_priv s4)\<lparr>sp_sock := -1\<rparr>, sk_closed := n_socket env # sk_closed s4\<rparr>"
        by (simp add: close_sock_def upd_priv_def opened_def)
      moreover have "\<not> listen_refused env (t_myinfo t') t" using ok s4(3) by (simp add: listen_refused_def socket_server_bind_def)
      ultimately show ?thesis using s4(2) opens by (intro if_not_P [THEN iffD2] exI [of _ s4]) auto
    qed
  qed
qed

text \<open>A failure of \<^verbatim>\<open>socket\<close> is reported as the success of the resolution of the address.\<close>

lemma connect_no_socket:
  assumes "t_private t" "sp_sock (sk_priv (t_sock t)) = -1" "t_ctx t = Some options" "n_socket env = -1"
    and "socket_client_get_remote_sockaddr resolve w options (t_dnscache t) zero_sockaddr 0 0 = Some (cache, sa, len, family, 0)"
  shows "\<exists>t'. socket_connect resolve env this w t = Some (t', 0) \<and> sp_sock (sk_priv (t_sock t')) = -1"
  using assms by (simp add: socket_connect_def upd_sock_def upd_priv_def Let_def)

text \<open>
  C34: Connecting and listening never lose a descriptor.  When none was opened, because the transport is not initialised, its
  address is not found or \<^verbatim>\<open>socket\<close> fails, the connection is as it was.  One that was opened is either closed again, exactly once, with the
  connection as it was and -1 returned, or is the descriptor of the connection, which then has one more reference and
  was handed to the event registry; a failed registration returns -1.  It is closed whenever \<^verbatim>\<open>fcntl\<close>, \<^verbatim>\<open>connect\<close> (other than
  by EINPROGRESS), \<^verbatim>\<open>bind\<close> or \<^verbatim>\<open>listen\<close> refuses; for listening only then, or when the registration fails, which closes it but keeps
  the reference.
\<close>

theorem connect_listen_descriptors:
  assumes "sp_sock (sk_priv (t_sock t)) = -1"
  shows "(socket_connect resolve env this w t = Some (t', ret) \<longrightarrow>
      (if \<not> connect_opens resolve env w t then t_sock t' = t_sock t
       else closed_again env (t_sock t) (t_sock t') \<and> ret = -1
         \<or> \<not> connect_refused env t \<and> opened env Socket_Event_Handler this 1 (t_sock t) (t_sock t')
           \<and> sp_connected (sk_priv (t_sock t')) = 0
           \<and> ret = (if sp_idx (sk_priv (t_sock t')) = -1 then -1 else fst (n_connect env))))
    \<and> (socket_listen junk env this w t = Some (t', ret) \<longrightarrow>
      (if \<not> listen_opens junk env w t then t_sock t' = t_sock t
       else if listen_refused env (t_myinfo t') t then closed_again env (t_sock t) (t_sock t') \<and> ret = -1
       else (\<exists>s. opened env Socket_Server_Event_Handler this 0 (t_sock t) s
           \<and> (if sp_idx (sk_priv s) = -1
              then t_sock t' = s\<lparr>sk_priv := (sk_priv s)\<lparr>sp_sock := -1\<rparr>, sk_closed := n_socket env # sk_closed s\<rparr> \<and> ret = -1
              else t_sock t' = s \<and> ret = n_listen env))))"
  using connect_descriptors [OF assms] listen_descriptors [OF assms] by blast

theorem connect_listen_descriptors_witness:
  "\<exists>w d t'. socket_connect (\<lambda>h p f c. ((), 0, None)) (demo_net\<lparr>n_fcntl_set := -1\<rparr>) 48 w
       (upd_sock (upd_priv (\<lambda>p. p\<lparr>sp_sock := -1\<rparr>)) (blank_transport (Some (Some d))\<lparr>t_private := True\<rparr>)) = Some (t', -1)
     \<and> closed_again (demo_net\<lparr>n_fcntl_set := -1\<rparr>) (upd_priv (\<lambda>p. p\<lparr>sp_sock := -1\<rparr>) demo_sock) (t_sock t')"
proof -
  let ?env = "demo_net\<lparr>n_fcntl_set := -1\<rparr>" and ?r = "\<lambda>h p f (c :: unit). ((), 0 :: int, None)"
  obtain w d where o: "options_are w d [chars ''transport.socket.connect-path'' \<mapsto> [47]]"
    using demo_options [of "[47]" "chars ''transport.socket.connect-path''"] by auto
  let ?t = "upd_sock (upd_priv (\<lambda>p. p\<lparr>sp_sock := -1\<rparr>)) (blank_transport (Some (Some d))\<lparr>t_private := True\<rparr>)"
  have s: "sp_sock (sk_priv (t_sock ?t)) = -1" "t_sock ?t = upd_priv (\<lambda>p. p\<lparr>sp_sock := -1\<rparr>) demo_sock"
    by (simp_all add: upd_sock_def upd_priv_def blank_transport_def)
  have "length [47 :: u8] < 108" by simp
  note addr = unix_connect_path [OF o this, of ?r]
  obtain t' where c: "socket_connect ?r ?env 48 w ?t = Some (t', -1)" "sk_closed (t_sock t') = [7]"
    by (simp add: socket_connect_def addr blank_transport_def upd_sock_def upd_priv_def demo_sock_def demo_net_def
        socket_nonblock_def close_sock_def Let_def)
  have "connect_opens ?r ?env w ?t" by (simp add: connect_opens_def addr blank_transport_def upd_sock_def demo_net_def)
  moreover have "connect_refused ?env ?t"
    by (simp add: connect_refused_def blank_transport_def upd_sock_def upd_priv_def demo_sock_def demo_net_def socket_nonblock_def)
  ultimately have "closed_again ?env (t_sock ?t) (t_sock t')"
    using connect_listen_descriptors [OF s(1), of ?r ?env 48 w t' "-1" zero_sockaddr, THEN conjunct1, rule_format, OF c(1)] by simp
  then show ?thesis using c(1) unfolding s(2) by blast
qed

end
