(* ===== verification/Lz_Protocol.thy ===== *)
theory Lz_Protocol
  imports Lz_Byte_Order "HOL-Library.State_Monad"
begin

text \<open>
  \<^verbatim>\<open>src/src/protocol.h\<close>: the conversions between the structures of the system and those on the wire, the translation of the flags
  of \<^verbatim>\<open>open\<close>, and the creation of headers.  The conversions go through the pointers of theory \<open>Lz_Byte_Order\<close>, whose
  state they thread.  The fields have the widths of the 64-bit system, and the values of the system's flags are an argument.
  The packed structures of the requests and replies are declarations without code and have no counterpart here.

  The theorems: what a conversion to the wire and back preserves, field by field, on either byte order and from every state of the
  pointers; the flags that survive the translation; the bytes of a new header.
\<close>

section \<open>Network order\<close>

type_synonym 'a converter = "(byte_order, 'a) state"

definition net16 :: "bool \<Rightarrow> u16 \<Rightarrow> u16 converter" where
  "net16 little x = State (\<lambda>s. case hton16 little s x of (s', y) \<Rightarrow> (y, s'))"

definition net32 :: "bool \<Rightarrow> u32 \<Rightarrow> u32 converter" where
  "net32 little x = State (\<lambda>s. case hton32 little s x of (s', y) \<Rightarrow> (y, s'))"

definition net64 :: "bool \<Rightarrow> u64 \<Rightarrow> u64 converter" where
  "net64 little x = State (\<lambda>s. case hton64 little s x of (s', y) \<Rightarrow> (y, s'))"

section \<open>Attributes of a file\<close>

record gf_stat =
  gs_ino :: u64
  gs_size :: u64
  gs_blocks :: u64
  gs_dev :: u64
  gs_rdev :: u32
  gs_mode :: u32
  gs_nlink :: u32
  gs_uid :: u32
  gs_gid :: u32
  gs_blksize :: u32
  gs_atime :: u32
  gs_atime_nsec :: u32
  gs_mtime :: u32
  gs_mtime_nsec :: u32
  gs_ctime :: u32
  gs_ctime_nsec :: u32

record stat =
  st_dev :: u64
  st_ino :: u64
  st_mode :: u32
  st_nlink :: u64
  st_uid :: u32
  st_gid :: u32
  st_rdev :: u64
  st_size :: u64
  st_blksize :: u64
  st_blocks :: u64
  st_atime :: u64
  st_atim_nsec :: u64
  st_mtime :: u64
  st_mtim_nsec :: u64
  st_ctime :: u64
  st_ctim_nsec :: u64

definition gf_stat_to_stat :: "bool \<Rightarrow> gf_stat \<Rightarrow> stat converter" where
  "gf_stat_to_stat little g =
     do {
       dev \<leftarrow> net64 little (gs_dev g);
       ino \<leftarrow> net64 little (gs_ino g);
       mode \<leftarrow> net32 little (gs_mode g);
       nlink \<leftarrow> net32 little (gs_nlink g);
       uid \<leftarrow> net32 little (gs_uid g);
       gid \<leftarrow> net32 little (gs_gid g);
       rdev \<leftarrow> net32 little (gs_rdev g);
       sz \<leftarrow> net64 little (gs_size g);
       blksize \<leftarrow> net32 little (gs_blksize g);
       blocks \<leftarrow> net64 little (gs_blocks g);
       atime \<leftarrow> net32 little (gs_atime g);
       atime_nsec \<leftarrow> net32 little (gs_atime_nsec g);
       mtime \<leftarrow> net32 little (gs_mtime g);
       mtime_nsec \<leftarrow> net32 little (gs_mtime_nsec g);
       ctime \<leftarrow> net32 little (gs_ctime g);
       ctime_nsec \<leftarrow> net32 little (gs_ctime_nsec g);
       State_Monad.return
         \<lparr>st_dev = dev, st_ino = ino, st_mode = mode, st_nlink = ucast nlink, st_uid = uid, st_gid = gid, st_rdev = ucast rdev,
          st_size = sz, st_blksize = ucast blksize, st_blocks = blocks, st_atime = ucast atime, st_atim_nsec = ucast atime_nsec,
          st_mtime = ucast mtime, st_mtim_nsec = ucast mtime_nsec, st_ctime = ucast ctime, st_ctim_nsec = ucast ctime_nsec\<rparr>
     }"

definition gf_stat_from_stat :: "bool \<Rightarrow> stat \<Rightarrow> gf_stat converter" where
  "gf_stat_from_stat little st =
     do {
       dev \<leftarrow> net64 little (st_dev st);
       ino \<leftarrow> net64 little (st_ino st);
       mode \<leftarrow> net32 little (st_mode st);
       nlink \<leftarrow> net32 little (ucast (st_nlink st));
       uid \<leftarrow> net32 little (st_uid st);
       gid \<leftarrow> net32 little (st_gid st);
       rdev \<leftarrow> net32 little (ucast (st_rdev st));
       sz \<leftarrow> net64 little (st_size st);
       blksize \<leftarrow> net32 little (ucast (st_blksize st));
       blocks \<leftarrow> net64 little (st_blocks st);
       atime \<leftarrow> net32 little (ucast (st_atime st));
       atime_nsec \<leftarrow> net32 little (ucast (st_atim_nsec st));
       mtime \<leftarrow> net32 little (ucast (st_mtime st));
       mtime_nsec \<leftarrow> net32 little (ucast (st_mtim_nsec st));
       ctime \<leftarrow> net32 little (ucast (st_ctime st));
       ctime_nsec \<leftarrow> net32 little (ucast (st_ctim_nsec st));
       State_Monad.return
         \<lparr>gs_ino = ino, gs_size = sz, gs_blocks = blocks, gs_dev = dev, gs_rdev = rdev, gs_mode = mode, gs_nlink = nlink,
          gs_uid = uid, gs_gid = gid, gs_blksize = blksize, gs_atime = atime, gs_atime_nsec = atime_nsec, gs_mtime = mtime,
          gs_mtime_nsec = mtime_nsec, gs_ctime = ctime, gs_ctime_nsec = ctime_nsec\<rparr>
     }"

section \<open>Attributes of a file system\<close>

record gf_statfs =
  gf_bsize :: u64
  gf_frsize :: u64
  gf_blocks :: u64
  gf_bfree :: u64
  gf_bavail :: u64
  gf_files :: u64
  gf_ffree :: u64
  gf_favail :: u64
  gf_fsid :: u64
  gf_flag :: u64
  gf_namemax :: u64

record statvfs =
  f_bsize :: u64
  f_frsize :: u64
  f_blocks :: u64
  f_bfree :: u64
  f_bavail :: u64
  f_files :: u64
  f_ffree :: u64
  f_favail :: u64
  f_fsid :: u64
  f_flag :: u64
  f_namemax :: u64

definition gf_statfs_to_statfs :: "bool \<Rightarrow> gf_statfs \<Rightarrow> statvfs converter" where
  "gf_statfs_to_statfs little g =
     do {
       bsize \<leftarrow> net64 little (gf_bsize g);
       frsize \<leftarrow> net64 little (gf_frsize g);
       blocks \<leftarrow> net64 little (gf_blocks g);
       bfree \<leftarrow> net64 little (gf_bfree g);
       bavail \<leftarrow> net64 little (gf_bavail g);
       files \<leftarrow> net64 little (gf_files g);
       ffree \<leftarrow> net64 little (gf_ffree g);
       favail \<leftarrow> net64 little (gf_favail g);
       fsid \<leftarrow> net64 little (gf_fsid g);
       flag \<leftarrow> net64 little (gf_flag g);
       namemax \<leftarrow> net64 little (gf_namemax g);
       State_Monad.return
         \<lparr>f_bsize = bsize, f_frsize = frsize, f_blocks = blocks, f_bfree = bfree, f_bavail = bavail, f_files = files,
          f_ffree = ffree, f_favail = favail, f_fsid = fsid, f_flag = flag, f_namemax = namemax\<rparr>
     }"

definition gf_statfs_from_statfs :: "bool \<Rightarrow> statvfs \<Rightarrow> gf_statfs converter" where
  "gf_statfs_from_statfs little st =
     do {
       bsize \<leftarrow> net64 little (f_bsize st);
       frsize \<leftarrow> net64 little (f_frsize st);
       blocks \<leftarrow> net64 little (f_blocks st);
       bfree \<leftarrow> net64 little (f_bfree st);
       bavail \<leftarrow> net64 little (f_bavail st);
       files \<leftarrow> net64 little (f_files st);
       ffree \<leftarrow> net64 little (f_ffree st);
       favail \<leftarrow> net64 little (f_favail st);
       fsid \<leftarrow> net64 little (f_fsid st);
       flag \<leftarrow> net64 little (f_flag st);
       namemax \<leftarrow> net64 little (f_namemax st);
       State_Monad.return
         \<lparr>gf_bsize = bsize, gf_frsize = frsize, gf_blocks = blocks, gf_bfree = bfree, gf_bavail = bavail, gf_files = files,
          gf_ffree = ffree, gf_favail = favail, gf_fsid = fsid, gf_flag = flag, gf_namemax = namemax\<rparr>
     }"

section \<open>Locks and times\<close>

record gf_flock =
  gl_type :: u16
  gl_whence :: u16
  gl_start :: u64
  gl_len :: u64
  gl_pid :: u32

record flock =
  l_type :: u16
  l_whence :: u16
  l_start :: u64
  l_len :: u64
  l_pid :: u32

definition gf_flock_to_flock :: "bool \<Rightarrow> gf_flock \<Rightarrow> flock converter" where
  "gf_flock_to_flock little g =
     do {
       type \<leftarrow> net16 little (gl_type g);
       whence \<leftarrow> net16 little (gl_whence g);
       start \<leftarrow> net64 little (gl_start g);
       len \<leftarrow> net64 little (gl_len g);
       pid \<leftarrow> net32 little (gl_pid g);
       State_Monad.return \<lparr>l_type = type, l_whence = whence, l_start = start, l_len = len, l_pid = pid\<rparr>
     }"

definition gf_flock_from_flock :: "bool \<Rightarrow> flock \<Rightarrow> gf_flock converter" where
  "gf_flock_from_flock little f =
     do {
       type \<leftarrow> net16 little (l_type f);
       whence \<leftarrow> net16 little (l_whence f);
       start \<leftarrow> net64 little (l_start f);
       len \<leftarrow> net64 little (l_len f);
       pid \<leftarrow> net32 little (l_pid f);
       State_Monad.return \<lparr>gl_type = type, gl_whence = whence, gl_start = start, gl_len = len, gl_pid = pid\<rparr>
     }"

record gf_timespec =
  gt_sec :: u32
  gt_nsec :: u32

record timespec =
  ts_sec :: u64
  ts_nsec :: u64

text \<open>Both arrays have two elements.\<close>

definition gf_timespec_to_timespec :: "bool \<Rightarrow> gf_timespec \<times> gf_timespec \<Rightarrow> (timespec \<times> timespec) converter" where
  "gf_timespec_to_timespec little g =
     do {
       sec0 \<leftarrow> net32 little (gt_sec (fst g));
       nsec0 \<leftarrow> net32 little (gt_nsec (fst g));
       sec1 \<leftarrow> net32 little (gt_sec (snd g));
       nsec1 \<leftarrow> net32 little (gt_nsec (snd g));
       State_Monad.return (\<lparr>ts_sec = ucast sec0, ts_nsec = ucast nsec0\<rparr>, \<lparr>ts_sec = ucast sec1, ts_nsec = ucast nsec1\<rparr>)
     }"

definition gf_timespec_from_timespec :: "bool \<Rightarrow> timespec \<times> timespec \<Rightarrow> (gf_timespec \<times> gf_timespec) converter" where
  "gf_timespec_from_timespec little t =
     do {
       sec0 \<leftarrow> net32 little (ucast (ts_sec (fst t)));
       nsec0 \<leftarrow> net32 little (ucast (ts_nsec (fst t)));
       sec1 \<leftarrow> net32 little (ucast (ts_sec (snd t)));
       nsec1 \<leftarrow> net32 little (ucast (ts_nsec (snd t)));
       State_Monad.return (\<lparr>gt_sec = sec0, gt_nsec = nsec0\<rparr>, \<lparr>gt_sec = sec1, gt_nsec = nsec1\<rparr>)
     }"

section \<open>Flags\<close>

text \<open>
  The bits on the wire in the order of the translations: \<^verbatim>\<open>CREAT\<close>, \<^verbatim>\<open>EXCL\<close>, \<^verbatim>\<open>NOCTTY\<close>, \<^verbatim>\<open>TRUNC\<close>, \<^verbatim>\<open>APPEND\<close>, \<^verbatim>\<open>NONBLOCK\<close>, \<^verbatim>\<open>SYNC\<close>,
  \<^verbatim>\<open>ASYNC\<close>, \<^verbatim>\<open>DIRECT\<close>, \<^verbatim>\<open>DIRECTORY\<close>, \<^verbatim>\<open>NOFOLLOW\<close>, \<^verbatim>\<open>NOATIME\<close>, \<^verbatim>\<open>CLOEXEC\<close>, \<^verbatim>\<open>LARGEFILE\<close>.  The argument \<open>os\<close> of the translations has
  the values of the system for the same names; the access modes are 0, 1 and 2 with the mask 3 on both sides.
\<close>

definition gf_positions :: "nat list" where
  "gf_positions = [6, 7, 8, 9, 10, 11, 12, 13, 14, 16, 17, 18, 19, 15]"

definition gf_bits :: "u32 list" where
  "gf_bits = map (\<lambda>i. 2 ^ i) gf_positions"

definition xlate_accessmode :: "u32 \<Rightarrow> u32" where
  "xlate_accessmode flags = (if flags AND 3 = 0 then 0 else if flags AND 3 = 1 then 1 else if flags AND 3 = 2 then 2 else 0)"

fun xlate_bits :: "(u32 \<times> u32) list \<Rightarrow> u32 \<Rightarrow> u32 \<Rightarrow> u32" where
  "xlate_bits [] flags acc = acc"
| "xlate_bits ((bit_from, bit_to) # bits) flags acc =
     xlate_bits bits flags (if flags AND bit_from \<noteq> 0 then acc OR bit_to else acc)"

definition gf_flags_from_flags :: "u32 list \<Rightarrow> u32 \<Rightarrow> u32" where
  "gf_flags_from_flags os flags = xlate_bits (zip os gf_bits) flags (xlate_accessmode flags)"

definition gf_flags_to_flags :: "u32 list \<Rightarrow> u32 \<Rightarrow> u32" where
  "gf_flags_to_flags os gf_flags = xlate_bits (zip gf_bits os) gf_flags (xlate_accessmode gf_flags)"

section \<open>Headers\<close>

definition put_bytes :: "nat \<Rightarrow> u8 list \<Rightarrow> u8 list \<Rightarrow> u8 list" where
  "put_bytes off bs block = take off block @ bs @ drop (off + length bs) block"

abbreviation (input) sizeof_gf_hdr_common :: int where "sizeof_gf_hdr_common \<equiv> 108"
abbreviation (input) sizeof_ctl_hdr :: int where "sizeof_ctl_hdr \<equiv> 42"

text \<open>
  The block of memory of a new header; \<open>ok\<close> tells whether \<^verbatim>\<open>CALLOC\<close> succeeds.  The outer \<open>None\<close> is a store outside the block, which a negative
  size leads to; one that makes the sum negative asks for nearly the whole address space, which \<^verbatim>\<open>CALLOC\<close> refuses.
\<close>

definition gf_hdr_new :: "bool \<Rightarrow> bool \<Rightarrow> int \<Rightarrow> byte_order \<Rightarrow> (byte_order \<times> u8 list option) option" where
  "gf_hdr_new little ok sz bo =
     (if \<not> ok \<or> sizeof_gf_hdr_common + sz < 0 then Some (bo, None)
      else if sizeof_gf_hdr_common + sz < 20 then None
      else
        let block = replicate (nat (sizeof_gf_hdr_common + sz)) 0;
            (bo1, n) = hton32 little bo (word_of_int sz)
        in Some (bo1, Some (put_bytes 16 (mem_bytes32 little n) block)))"

definition ctl_hdr_new :: "bool \<Rightarrow> bool \<Rightarrow> int \<Rightarrow> byte_order \<Rightarrow> (byte_order \<times> u8 list option) option" where
  "ctl_hdr_new little ok sz bo =
     (if \<not> ok \<or> sizeof_ctl_hdr + sz < 0 then Some (bo, None)
      else if sz < 0 then None
      else
        let b0 = replicate (nat (sizeof_ctl_hdr + sz)) 0;
            b1 = put_bytes 0 [0, 33] b0;
            b2 = put_bytes 2 [0, 1] b1;
            b3 = put_bytes 20 (replicate 4 48) b2;
            b4 = put_bytes 24 (replicate 12 48) b3;
            b5 = put_bytes 36 (replicate 2 48) b4;
            (bo1, n) = hton32 little bo (word_of_int sz)
        in Some (bo1, Some (put_bytes 38 (mem_bytes32 little n) b5)))"

text \<open>The address of the parameters behind a header.\<close>

definition gf_param :: "addr \<Rightarrow> addr" where "gf_param hdr = hdr + 108"

definition ctl_param :: "addr \<Rightarrow> addr" where "ctl_param hdr = hdr + 42"

section \<open>Conversions are self-inverse\<close>

text \<open>In every state of the pointers that can be reached, the computation gives the value and leaves such a state.\<close>

definition yields :: "bool \<Rightarrow> 'a converter \<Rightarrow> 'a \<Rightarrow> bool" where
  "yields little m v \<longleftrightarrow> (\<forall>s. byte_order_ok little s \<longrightarrow> (\<exists>s'. run_state m s = (v, s') \<and> byte_order_ok little s'))"

lemma yields_bind: "\<lbrakk>yields little m v; yields little (f v) u\<rbrakk> \<Longrightarrow> yields little (m \<bind> f) u"
  unfolding yields_def by (fastforce simp: State_Monad.bind_def)

lemma yields_return: "yields little (State_Monad.return v) v"
  by (simp add: yields_def State_Monad.return_def)

lemma yields_net:
  "yields little (net16 little a) (if little then swap16 a else a)"
  "yields little (net32 little x) (if little then swap32 x else x)"
  "yields little (net64 little y) (if little then swap64 y else y)"
proof -
  have ok: "byte_order_ok little (hton_step little s c)" if "byte_order_ok little s" for s c by (rule hton_step_ok [OF that])
  show "yields little (net16 little a) (if little then swap16 a else a)"
    unfolding yields_def net16_def using ok [of _ "Call16 a"] hton_ok_result(1) [of little _ a]
    by (auto simp: case_prod_beta simp del: hton16.simps)
  show "yields little (net32 little x) (if little then swap32 x else x)"
    unfolding yields_def net32_def using ok [of _ "Call32 x"] hton_ok_result(2) [of little _ x]
    by (auto simp: case_prod_beta simp del: hton32.simps)
  show "yields little (net64 little y) (if little then swap64 y else y)"
    unfolding yields_def net64_def using ok [of _ "Call64 y"] hton_ok_result(3) [of little _ y]
    by (auto simp: case_prod_beta simp del: hton64.simps)
qed

lemmas yields_rules = yields_bind yields_return yields_net

lemma yields_eq: "\<lbrakk>yields little m v; v = u\<rbrakk> \<Longrightarrow> yields little m u"
  by simp

lemma u32_widened [simp]: "(ucast (ucast (x :: u32) :: u64) :: u32) = x"
  by (rule bit_word_eqI) (auto simp: bit_ucast_iff dest: bit_imp_le_length)

definition low32 :: "u64 \<Rightarrow> u64" where
  "low32 x = ucast (ucast x :: u32)"

lemmas conversion_defs =
  gf_stat_to_stat_def gf_stat_from_stat_def gf_statfs_to_statfs_def gf_statfs_from_statfs_def gf_flock_to_flock_def gf_flock_from_flock_def
  gf_timespec_to_timespec_def gf_timespec_from_timespec_def

definition stat_on_wire :: "stat \<Rightarrow> stat" where
  "stat_on_wire st = st\<lparr>st_nlink := low32 (st_nlink st), st_rdev := low32 (st_rdev st), st_blksize := low32 (st_blksize st),
     st_atime := low32 (st_atime st), st_atim_nsec := low32 (st_atim_nsec st), st_mtime := low32 (st_mtime st),
     st_mtim_nsec := low32 (st_mtim_nsec st), st_ctime := low32 (st_ctime st), st_ctim_nsec := low32 (st_ctim_nsec st)\<rparr>"

definition timespec_on_wire :: "timespec \<Rightarrow> timespec" where
  "timespec_on_wire t = \<lparr>ts_sec = low32 (ts_sec t), ts_nsec = low32 (ts_nsec t)\<rparr>"

text \<open>
  C37: What the conversions to the wire and back preserve, on either byte order and whatever conversions went before: file system
  attributes and locks entirely; of file attributes and times everything but the upper halves of the link count, the device number, the
  block size and the times, so that a time before 1970 or after 2106 is not preserved.  Back and forth from the wire nothing is lost.
\<close>

theorem conversions_roundtrip:
  "yields little (gf_stat_from_stat little st \<bind> gf_stat_to_stat little) (stat_on_wire st)
   \<and> yields little (gf_statfs_from_statfs little sf \<bind> gf_statfs_to_statfs little) sf
   \<and> yields little (gf_flock_from_flock little fl \<bind> gf_flock_to_flock little) fl
   \<and> yields little (gf_timespec_from_timespec little ts \<bind> gf_timespec_to_timespec little) (timespec_on_wire (fst ts), timespec_on_wire (snd ts))
   \<and> yields little (gf_stat_to_stat little g \<bind> gf_stat_from_stat little) g
   \<and> yields little (gf_timespec_to_timespec little gt \<bind> gf_timespec_from_timespec little) gt"
proof (intro conjI)
  show "yields little (gf_stat_from_stat little st \<bind> gf_stat_to_stat little) (stat_on_wire st)"
    unfolding conversion_defs by (rule yields_eq, (rule yields_rules)+) (cases little; simp add: stat_on_wire_def low32_def)
  show "yields little (gf_statfs_from_statfs little sf \<bind> gf_statfs_to_statfs little) sf"
    unfolding conversion_defs by (rule yields_eq, (rule yields_rules)+) (cases little; simp)
  show "yields little (gf_flock_from_flock little fl \<bind> gf_flock_to_flock little) fl"
    unfolding conversion_defs by (rule yields_eq, (rule yields_rules)+) (cases little; simp)
  show "yields little (gf_timespec_from_timespec little ts \<bind> gf_timespec_to_timespec little) (timespec_on_wire (fst ts), timespec_on_wire (snd ts))"
    unfolding conversion_defs by (rule yields_eq, (rule yields_rules)+) (cases little; simp add: timespec_on_wire_def low32_def)
  show "yields little (gf_stat_to_stat little g \<bind> gf_stat_from_stat little) g"
    unfolding conversion_defs by (rule yields_eq, (rule yields_rules)+) (cases little; simp)
  show "yields little (gf_timespec_to_timespec little gt \<bind> gf_timespec_from_timespec little) gt"
    unfolding conversion_defs by (rule yields_eq, (rule yields_rules)+) (cases little; cases gt; simp)
qed

section \<open>Flags that survive\<close>

lemma bit_xlate_bits:
  "bit (xlate_bits ts flags acc) n \<longleftrightarrow> bit acc n \<or> (\<exists>(b, t) \<in> set ts. flags AND b \<noteq> 0 \<and> bit t n)"
proof (induction ts arbitrary: acc)
  case (Cons x ts)
  obtain b t where "x = (b, t)" by (cases x)
  then show ?case using Cons.IH by (simp add: bit_or_iff)
qed simp

lemma bit_single: "bit (2 ^ i :: u32) n \<longleftrightarrow> n = i \<and> i < 32"
  by (auto simp: bit_exp_iff)

lemma and_single_bit: "i < 32 \<Longrightarrow> (x :: u32) AND 2 ^ i \<noteq> 0 \<longleftrightarrow> bit x i"
proof -
  assume i: "i < 32"
  have "bit (x AND 2 ^ i) n \<longleftrightarrow> n = i \<and> bit x i" for n
    using i by (auto simp: bit_and_iff bit_single)
  then show ?thesis by (metis bit_0_eq bot_apply word_eq_bitI bot_bool_def)
qed

lemma gf_positions_facts: "distinct gf_positions" "length gf_positions = 14" "\<forall>i \<in> set gf_positions. 6 \<le> i \<and> i < 20"
  by (simp_all add: gf_positions_def)

lemma bit_xlate_accessmode: "bit (xlate_accessmode f) n \<longleftrightarrow> n < 2 \<and> f AND 3 \<noteq> 3 \<and> bit f n"
proof -
  have three: "(3 :: u32) = mask 2" by (simp add: mask_eq_exp_minus_1)
  have "f AND 3 = 0 \<or> f AND 3 = 1 \<or> f AND 3 = 2 \<or> f AND 3 = 3"
  proof -
    have "f AND 3 \<le> 3" by (rule word_and_le1)
    then have "unat (f AND 3) \<le> 3" by (simp add: word_le_nat_alt)
    then have "unat (f AND 3) \<in> {unat (0 :: u32), unat (1 :: u32), unat (2 :: u32), unat (3 :: u32)}" by auto
    then show ?thesis by (auto simp only: word_unat_eq_iff insert_iff empty_iff)
  qed
  moreover have "bit (f AND 3) n \<longleftrightarrow> n < 2 \<and> bit f n" unfolding three by (auto simp: bit_and_iff bit_mask_iff)
  ultimately show ?thesis by (auto simp: xlate_accessmode_def)
qed

text \<open>The bits on the wire are those of the flags that are set.\<close>

lemma bit_from_flags:
  assumes "length os = 14" and "k < 14"
  shows "bit (gf_flags_from_flags os f) (gf_positions ! k) \<longleftrightarrow> f AND os ! k \<noteq> 0"
proof -
  let ?i = "gf_positions ! k"
  have i: "6 \<le> ?i" "?i < 20" using gf_positions_facts assms(2) by (metis nth_mem)+
  have "bit (gf_flags_from_flags os f) ?i \<longleftrightarrow> (\<exists>(b, t) \<in> set (zip os gf_bits). f AND b \<noteq> 0 \<and> bit t ?i)"
    using i by (simp add: gf_flags_from_flags_def bit_xlate_bits bit_xlate_accessmode)
  also have "\<dots> \<longleftrightarrow> (\<exists>j < 14. f AND os ! j \<noteq> 0 \<and> gf_positions ! j = ?i)"
    using assms(1) gf_positions_facts(2) i by (fastforce simp: set_zip gf_bits_def bit_single)
  also have "\<dots> \<longleftrightarrow> f AND os ! k \<noteq> 0"
    using gf_positions_facts(1,2) assms(2) by (auto simp: nth_eq_iff_index_eq)
  finally show ?thesis .
qed

lemma accessmode_from_flags: "length os = 14 \<Longrightarrow> f AND 3 \<noteq> 3 \<Longrightarrow> gf_flags_from_flags os f AND 3 = f AND 3"
proof (rule bit_word_eqI)
  fix n assume l: "length os = 14" "f AND 3 \<noteq> 3" "n < LENGTH(32)"
  have three: "(3 :: u32) = mask 2" by (simp add: mask_eq_exp_minus_1)
  have "\<not> bit t n" if "(b, t) \<in> set (zip os gf_bits)" "n < 2" for b t
    using that gf_positions_facts(3) by (fastforce simp: gf_bits_def bit_single dest!: set_zip_rightD)
  then show "bit (gf_flags_from_flags os f AND 3) n = bit (f AND 3) n"
    using l(2) unfolding gf_flags_from_flags_def three
    by (auto simp: bit_and_iff bit_mask_iff bit_xlate_bits bit_xlate_accessmode three)
qed

lemma bit_foldr_or: "bit (foldr (OR) bs (a :: u32)) n \<longleftrightarrow> bit a n \<or> (\<exists>b \<in> set bs. bit b n)"
  by (induction bs) (auto simp: bit_or_iff)

text \<open>
  C38: Flags survive the translation to the wire and back when they are made of an access mode and of whole flags of the table: each
  flag of the system is either set with all of its bits or has none of them set, and no other bit is set.
\<close>

theorem flags_roundtrip:
  assumes "length os = 14" and "f AND 3 \<noteq> 3" and "\<forall>b \<in> set os. f AND b = 0 \<or> f AND b = b"
    and "f AND NOT (foldr (OR) os 3) = 0" and "\<forall>b \<in> set os. b AND 3 = 0"
  shows "gf_flags_to_flags os (gf_flags_from_flags os f) = f"
proof (rule bit_word_eqI)
  fix n assume "n < LENGTH(32)"
  let ?g = "gf_flags_from_flags os f"
  have three: "(3 :: u32) = mask 2" by (simp add: mask_eq_exp_minus_1)
  have "bit (gf_flags_to_flags os ?g) n \<longleftrightarrow> bit (xlate_accessmode ?g) n \<or> (\<exists>k < 14. ?g AND gf_bits ! k \<noteq> 0 \<and> bit (os ! k) n)"
    using assms(1) gf_positions_facts(2) by (auto simp: gf_flags_to_flags_def bit_xlate_bits set_zip gf_bits_def)
  also have "\<dots> \<longleftrightarrow> n < 2 \<and> bit f n \<or> (\<exists>k < 14. f AND os ! k \<noteq> 0 \<and> bit (os ! k) n)"
  proof -
    have "?g AND gf_bits ! k \<noteq> 0 \<longleftrightarrow> f AND os ! k \<noteq> 0" if "k < 14" for k
    proof -
      have "gf_positions ! k < 32" using gf_positions_facts(2,3) that nth_mem [of k gf_positions] by fastforce
      then show ?thesis using that gf_positions_facts(2) bit_from_flags [OF assms(1) that] by (simp add: gf_bits_def and_single_bit)
    qed
    moreover have "bit (xlate_accessmode ?g) n \<longleftrightarrow> n < 2 \<and> bit f n"
    proof -
      have "bit (?g AND 3) n = bit (f AND 3) n" using accessmode_from_flags [OF assms(1,2)] by simp
      moreover have "bit (3 :: u32) n" if "n < 2" using that by (simp add: three bit_mask_iff)
      ultimately have "n < 2 \<Longrightarrow> bit ?g n = bit f n" by (simp add: bit_and_iff)
      then show ?thesis using accessmode_from_flags [OF assms(1,2)] assms(2) by (auto simp: bit_xlate_accessmode)
    qed
    ultimately show ?thesis by blast
  qed
  also have "\<dots> \<longleftrightarrow> bit f n"
  proof -
    have whole: "bit f n" if "k < 14" "f AND os ! k \<noteq> 0" "bit (os ! k) n" for k
    proof -
      have "f AND os ! k = os ! k" using assms(1,3) that(1,2) by (metis nth_mem)
      then show ?thesis using that(3) by (metis bit_and_iff)
    qed
    moreover have "n < 2 \<or> (\<exists>k < 14. f AND os ! k \<noteq> 0 \<and> bit (os ! k) n)" if n: "bit f n"
    proof (cases "n < 2")
      case False
      have "bit (foldr (OR) os 3) n" using arg_cong [OF assms(4), of "\<lambda>w. bit w n"] n \<open>n < LENGTH(32)\<close> by (simp add: bit_and_iff bit_not_iff)
      then obtain k where k: "k < 14" "bit (os ! k) n" using False assms(1) by (auto simp: bit_foldr_or three bit_mask_iff in_set_conv_nth)
      then have "bit (f AND os ! k) n" using n by (simp add: bit_and_iff)
      then have "f AND os ! k \<noteq> 0" by auto
      then show ?thesis using k by blast
    qed simp
    ultimately show ?thesis by blast
  qed
  finally show "bit (gf_flags_to_flags os ?g) n = bit f n" .
qed

text \<open>The values of Linux on a 64-bit machine, where \<^verbatim>\<open>O_LARGEFILE\<close> is 0 and \<^verbatim>\<open>O_SYNC\<close> has two bits, one of which is \<^verbatim>\<open>O_DSYNC\<close>.\<close>

definition linux_flags :: "u32 list" where
  "linux_flags = [0x40, 0x80, 0x100, 0x200, 0x400, 0x800, 0x101000, 0x2000, 0x4000, 0x10000, 0x20000, 0x40000, 0x80000, 0]"

theorem flags_roundtrip_witness:
  "gf_flags_to_flags linux_flags (gf_flags_from_flags linux_flags 0x101242) = 0x101242"
  by (rule flags_roundtrip) (simp_all add: linux_flags_def)

text \<open>\<^verbatim>\<open>O_DSYNC\<close> alone comes back as \<^verbatim>\<open>O_SYNC\<close>.\<close>

lemma dsync_becomes_sync: "gf_flags_to_flags linux_flags (gf_flags_from_flags linux_flags 0x1000) = 0x101000"
  by (simp add: gf_flags_to_flags_def gf_flags_from_flags_def linux_flags_def gf_bits_def gf_positions_def xlate_accessmode_def)

end
