(* ===== verification/Lz_Md5.thy ===== *)
theory Lz_Md5
  imports Lz_Byte_Order
begin

text \<open>
  \<^verbatim>\<open>src/src/md5.c\<close>, \<^verbatim>\<open>src/src/md5.h\<close>, \<^verbatim>\<open>src/src/checksum.c\<close>: the MD5 digest and the two rsync checksums.  The context is
  a record of the four 32-bit registers, the two halves of the byte count and the 64-byte buffer; the
  64 steps of \<open>md5_process\<close> are the table of the source (word index, rotation, constant) with the round
  function of each group.  The theorems compare the streaming implementation with RFC 1321: the
  digest after any sequence of updates is the RFC's digest of the concatenated input.
\<close>

section \<open>Byte access\<close>

definition IVAL :: "u8 list \<Rightarrow> nat \<Rightarrow> u32" where
  "IVAL buf pos = (ucast (buf ! pos) OR shl (ucast (buf ! (pos + 1))) 8)
     OR shl (ucast (buf ! (pos + 2)) OR shl (ucast (buf ! (pos + 3))) 8) 16"

definition SSVALX :: "u8 list \<Rightarrow> nat \<Rightarrow> u32 \<Rightarrow> u8 list" where
  "SSVALX buf pos val = buf[pos := ucast (val AND 0xFF), pos + 1 := ucast (shr val 8)]"

definition SIVAL :: "u8 list \<Rightarrow> nat \<Rightarrow> u32 \<Rightarrow> u8 list" where
  "SIVAL buf pos val = SSVALX (SSVALX buf pos (val AND 0xFFFF)) (pos + 2) (shr val 16)"

section \<open>The context\<close>

record md_context =
  md_A :: u32
  md_B :: u32
  md_C :: u32
  md_D :: u32
  totalN :: u32
  totalN2 :: u32
  md_buffer :: "u8 list"

abbreviation (input) CSUM_CHUNK :: nat where "CSUM_CHUNK \<equiv> 64"

text \<open>The buffer of an uninitialised context is kept.\<close>

definition md5_begin :: "md_context \<Rightarrow> md_context" where
  "md5_begin ctx = ctx\<lparr>md_A := 0x67452301, md_B := 0xEFCDAB89, md_C := 0x98BADCFE, md_D := 0x10325476,
     totalN := 0, totalN2 := 0\<rparr>"

section \<open>The compression function\<close>

text \<open>\<open>S\<close>, the four definitions of \<open>F\<close>, and the step \<open>P\<close>.\<close>

definition md5_S :: "u32 \<Rightarrow> nat \<Rightarrow> u32" where
  "md5_S x n = shl x n OR shr (x AND 0xFFFFFFFF) (32 - n)"

definition md5_F1 :: "u32 \<Rightarrow> u32 \<Rightarrow> u32 \<Rightarrow> u32" where "md5_F1 x y z = z XOR (x AND (y XOR z))"
definition md5_F2 :: "u32 \<Rightarrow> u32 \<Rightarrow> u32 \<Rightarrow> u32" where "md5_F2 x y z = y XOR (z AND (x XOR y))"
definition md5_F3 :: "u32 \<Rightarrow> u32 \<Rightarrow> u32 \<Rightarrow> u32" where "md5_F3 x y z = x XOR y XOR z"
definition md5_F4 :: "u32 \<Rightarrow> u32 \<Rightarrow> u32 \<Rightarrow> u32" where "md5_F4 x y z = y XOR (x OR NOT z)"

type_synonym regs = "u32 \<times> u32 \<times> u32 \<times> u32"

definition md5_P :: "(u32 \<Rightarrow> u32 \<Rightarrow> u32 \<Rightarrow> u32) \<Rightarrow> u32 list \<Rightarrow> u32 \<Rightarrow> u32 \<Rightarrow> u32 \<Rightarrow> u32 \<Rightarrow> nat \<Rightarrow> nat \<Rightarrow> u32 \<Rightarrow> u32" where
  "md5_P F X a b c d k s t = md5_S (a + (F b c d + X ! k + t)) s + b"

text \<open>
  The steps come in the cyclic order \<^verbatim>\<open>P (A,B,C,D)\<close>, \<^verbatim>\<open>P (D,A,B,C)\<close>, \<^verbatim>\<open>P (C,D,A,B)\<close>, \<^verbatim>\<open>P (B,C,D,A)\<close>: each step assigns
  the first of its four arguments and the next step's arguments are rotated by one.
\<close>

fun md5_steps :: "(u32 \<Rightarrow> u32 \<Rightarrow> u32 \<Rightarrow> u32) \<Rightarrow> u32 list \<Rightarrow> (nat \<times> nat \<times> u32) list \<Rightarrow> regs \<Rightarrow> regs" where
  "md5_steps F X [] r = r"
| "md5_steps F X ((k, s, t) # ops) (a, b, c, d) = md5_steps F X ops (d, md5_P F X a b c d k s t, b, c)"

definition md5_round1 :: "(nat \<times> nat \<times> u32) list" where
  "md5_round1 =
    [(0, 7, 0xD76AA478), (1, 12, 0xE8C7B756), (2, 17, 0x242070DB), (3, 22, 0xC1BDCEEE),
     (4, 7, 0xF57C0FAF), (5, 12, 0x4787C62A), (6, 17, 0xA8304613), (7, 22, 0xFD469501),
     (8, 7, 0x698098D8), (9, 12, 0x8B44F7AF), (10, 17, 0xFFFF5BB1), (11, 22, 0x895CD7BE),
     (12, 7, 0x6B901122), (13, 12, 0xFD987193), (14, 17, 0xA679438E), (15, 22, 0x49B40821)]"

definition md5_round2 :: "(nat \<times> nat \<times> u32) list" where
  "md5_round2 =
    [(1, 5, 0xF61E2562), (6, 9, 0xC040B340), (11, 14, 0x265E5A51), (0, 20, 0xE9B6C7AA),
     (5, 5, 0xD62F105D), (10, 9, 0x02441453), (15, 14, 0xD8A1E681), (4, 20, 0xE7D3FBC8),
     (9, 5, 0x21E1CDE6), (14, 9, 0xC33707D6), (3, 14, 0xF4D50D87), (8, 20, 0x455A14ED),
     (13, 5, 0xA9E3E905), (2, 9, 0xFCEFA3F8), (7, 14, 0x676F02D9), (12, 20, 0x8D2A4C8A)]"

definition md5_round3 :: "(nat \<times> nat \<times> u32) list" where
  "md5_round3 =
    [(5, 4, 0xFFFA3942), (8, 11, 0x8771F681), (11, 16, 0x6D9D6122), (14, 23, 0xFDE5380C),
     (1, 4, 0xA4BEEA44), (4, 11, 0x4BDECFA9), (7, 16, 0xF6BB4B60), (10, 23, 0xBEBFBC70),
     (13, 4, 0x289B7EC6), (0, 11, 0xEAA127FA), (3, 16, 0xD4EF3085), (6, 23, 0x04881D05),
     (9, 4, 0xD9D4D039), (12, 11, 0xE6DB99E5), (15, 16, 0x1FA27CF8), (2, 23, 0xC4AC5665)]"

definition md5_round4 :: "(nat \<times> nat \<times> u32) list" where
  "md5_round4 =
    [(0, 6, 0xF4292244), (7, 10, 0x432AFF97), (14, 15, 0xAB9423A7), (5, 21, 0xFC93A039),
     (12, 6, 0x655B59C3), (3, 10, 0x8F0CCC92), (10, 15, 0xFFEFF47D), (1, 21, 0x85845DD1),
     (8, 6, 0x6FA87E4F), (15, 10, 0xFE2CE6E0), (6, 15, 0xA3014314), (13, 21, 0x4E0811A1),
     (4, 6, 0xF7537E82), (11, 10, 0xBD3AF235), (2, 15, 0x2AD7D2BB), (9, 21, 0xEB86D391)]"

definition md5_process :: "md_context \<Rightarrow> u8 list \<Rightarrow> md_context" where
  "md5_process ctx data =
     (let X = map (\<lambda>i. IVAL data (4 * i)) [0..<16];
          r1 = md5_steps md5_F1 X md5_round1 (md_A ctx, md_B ctx, md_C ctx, md_D ctx);
          r2 = md5_steps md5_F2 X md5_round2 r1;
          r3 = md5_steps md5_F3 X md5_round3 r2;
          (A, B, C, D) = md5_steps md5_F4 X md5_round4 r3
      in ctx\<lparr>md_A := md_A ctx + A, md_B := md_B ctx + B, md_C := md_C ctx + C, md_D := md_D ctx + D\<rparr>)"

section \<open>Streaming\<close>

definition buf_copy :: "u8 list \<Rightarrow> nat \<Rightarrow> u8 list \<Rightarrow> u8 list" where
  "buf_copy buf pos bs = take pos buf @ bs @ drop (pos + length bs) buf"

function md5_chunks :: "md_context \<Rightarrow> u8 list \<Rightarrow> nat \<Rightarrow> md_context \<times> u8 list \<times> nat" where
  "md5_chunks ctx input len =
     (if CSUM_CHUNK \<le> len
      then md5_chunks (md5_process ctx (take CSUM_CHUNK input)) (drop CSUM_CHUNK input) (len - CSUM_CHUNK)
      else (ctx, input, len))"
  by pat_completeness auto
termination by (relation "measure (\<lambda>(ctx, input, len). len)") auto

declare md5_chunks.simps [simp del]

text \<open>\<open>len\<close> is the argument \<open>length\<close>; the input holds at least that many bytes.\<close>

definition md5_update :: "md_context \<Rightarrow> u8 list \<Rightarrow> u32 \<Rightarrow> md_context" where
  "md5_update ctx input len =
     (if len = 0 then ctx
      else
        let left = unat (totalN ctx AND 0x3F);
            fill = CSUM_CHUNK - left;
            ctx1 = ctx\<lparr>totalN := totalN ctx + len\<rparr>;
            ctx2 = (if totalN ctx1 < len then ctx1\<lparr>totalN2 := totalN2 ctx1 + 1\<rparr> else ctx1);
            (ctx3, input3, len3, left3) =
              (if left \<noteq> 0 \<and> fill \<le> unat len
               then let c = ctx2\<lparr>md_buffer := buf_copy (md_buffer ctx2) left (take fill input)\<rparr>
                    in (md5_process c (md_buffer c), drop fill input, unat len - fill, 0)
               else (ctx2, input, unat len, left));
            (ctx4, input4, len4) = md5_chunks ctx3 input3 len3
        in if len4 \<noteq> 0
           then ctx4\<lparr>md_buffer := buf_copy (md_buffer ctx4) left3 (take len4 input4)\<rparr>
           else ctx4)"

definition md5_padding :: "u8 list" where
  "md5_padding = 0x80 # replicate 63 0"

definition md5_result :: "md_context \<Rightarrow> u8 list \<Rightarrow> md_context \<times> u8 list" where
  "md5_result ctx digest =
     (let high = shr (totalN ctx) 29 OR shl (totalN2 ctx) 3;
          low = shl (totalN ctx) 3;
          msglen = SIVAL (SIVAL (replicate 8 0) 0 low) 4 high;
          last = totalN ctx AND 0x3F;
          padn = (if last < 56 then 56 - last else 120 - last);
          ctx1 = md5_update ctx md5_padding padn;
          ctx2 = md5_update ctx1 msglen 8
      in (ctx2, SIVAL (SIVAL (SIVAL (SIVAL digest 0 (md_A ctx2)) 4 (md_B ctx2)) 8 (md_C ctx2)) 12 (md_D ctx2)))"

text \<open>\<open>ctx\<close> is the uninitialised local variable; \<open>n\<close> is converted to \<^verbatim>\<open>uint32_t\<close>.\<close>

definition get_md5 :: "md_context \<Rightarrow> u8 list \<Rightarrow> u8 list \<Rightarrow> int \<Rightarrow> u8 list" where
  "get_md5 ctx out input n = snd (md5_result (md5_update (md5_begin ctx) input (word_of_int n)) out)"

section \<open>The rsync checksums\<close>

text \<open>The bytes are signed.\<close>

definition schar_at :: "u8 list \<Rightarrow> nat \<Rightarrow> u32" where
  "schar_at buf i = sx8 (buf ! i)"

function rsync_weak_quads :: "u8 list \<Rightarrow> int \<Rightarrow> nat \<Rightarrow> u32 \<Rightarrow> u32 \<Rightarrow> nat \<times> u32 \<times> u32" where
  "rsync_weak_quads buf len i s1 s2 =
     (if int i < len - 4
      then rsync_weak_quads buf len (i + 4)
             (s1 + (schar_at buf i + schar_at buf (i + 1) + schar_at buf (i + 2) + schar_at buf (i + 3)))
             (s2 + (4 * (s1 + schar_at buf i) + 3 * schar_at buf (i + 1) + 2 * schar_at buf (i + 2) + schar_at buf (i + 3)))
      else (i, s1, s2))"
  by pat_completeness auto
termination by (relation "measure (\<lambda>(buf, len, i, s1, s2). nat (len - int i))") auto

function rsync_weak_bytes :: "u8 list \<Rightarrow> int \<Rightarrow> nat \<Rightarrow> u32 \<Rightarrow> u32 \<Rightarrow> u32 \<times> u32" where
  "rsync_weak_bytes buf len i s1 s2 =
     (if int i < len
      then rsync_weak_bytes buf len (i + 1) (s1 + schar_at buf i) (s2 + (s1 + schar_at buf i))
      else (s1, s2))"
  by pat_completeness auto
termination by (relation "measure (\<lambda>(buf, len, i, s1, s2). nat (len - int i))") auto

declare rsync_weak_quads.simps [simp del] rsync_weak_bytes.simps [simp del]

definition rsync_weak_checksum :: "u8 list \<Rightarrow> int \<Rightarrow> u32" where
  "rsync_weak_checksum buf1 len =
     (case rsync_weak_quads buf1 len 0 0 0 of (i, s1, s2) \<Rightarrow>
        (case rsync_weak_bytes buf1 len i s1 s2 of (s1', s2') \<Rightarrow> (s1' AND 0xffff) + shl s2' 16))"

definition rsync_strong_checksum :: "md_context \<Rightarrow> u8 list \<Rightarrow> int \<Rightarrow> u8 list \<Rightarrow> u8 list" where
  "rsync_strong_checksum m buf len digest = snd (md5_result (md5_update (md5_begin m) buf (word_of_int len)) digest)"

section \<open>RFC 1321\<close>

text \<open>
  The reference: the auxiliary functions, the 64 operations with their message index, rotation and the
  constants of the table \<open>T\<close> as the RFC states them, the padding of the message and the digest of the
  sequence of its 64-byte blocks.
\<close>

definition rfc_F :: "u32 \<Rightarrow> u32 \<Rightarrow> u32 \<Rightarrow> u32" where "rfc_F x y z = (x AND y) OR (NOT x AND z)"
definition rfc_G :: "u32 \<Rightarrow> u32 \<Rightarrow> u32 \<Rightarrow> u32" where "rfc_G x y z = (x AND z) OR (y AND NOT z)"
definition rfc_H :: "u32 \<Rightarrow> u32 \<Rightarrow> u32 \<Rightarrow> u32" where "rfc_H x y z = x XOR y XOR z"
definition rfc_I :: "u32 \<Rightarrow> u32 \<Rightarrow> u32 \<Rightarrow> u32" where "rfc_I x y z = y XOR (x OR NOT z)"

definition rfc_T :: "u32 list" where
  "rfc_T = [0xd76aa478, 0xe8c7b756, 0x242070db, 0xc1bdceee, 0xf57c0faf, 0x4787c62a, 0xa8304613, 0xfd469501,
    0x698098d8, 0x8b44f7af, 0xffff5bb1, 0x895cd7be, 0x6b901122, 0xfd987193, 0xa679438e, 0x49b40821,
    0xf61e2562, 0xc040b340, 0x265e5a51, 0xe9b6c7aa, 0xd62f105d, 0x02441453, 0xd8a1e681, 0xe7d3fbc8,
    0x21e1cde6, 0xc33707d6, 0xf4d50d87, 0x455a14ed, 0xa9e3e905, 0xfcefa3f8, 0x676f02d9, 0x8d2a4c8a,
    0xfffa3942, 0x8771f681, 0x6d9d6122, 0xfde5380c, 0xa4beea44, 0x4bdecfa9, 0xf6bb4b60, 0xbebfbc70,
    0x289b7ec6, 0xeaa127fa, 0xd4ef3085, 0x04881d05, 0xd9d4d039, 0xe6db99e5, 0x1fa27cf8, 0xc4ac5665,
    0xf4292244, 0x432aff97, 0xab9423a7, 0xfc93a039, 0x655b59c3, 0x8f0ccc92, 0xffeff47d, 0x85845dd1,
    0x6fa87e4f, 0xfe2ce6e0, 0xa3014314, 0x4e0811a1, 0xf7537e82, 0xbd3af235, 0x2ad7d2bb, 0xeb86d391]"

definition rfc_index :: "nat \<Rightarrow> nat" where
  "rfc_index i = (if i < 16 then i else if i < 32 then (5 * i + 1) mod 16
     else if i < 48 then (3 * i + 5) mod 16 else 7 * i mod 16)"

definition rfc_shift :: "nat \<Rightarrow> nat" where
  "rfc_shift i = (if i < 16 then [7, 12, 17, 22] else if i < 32 then [5, 9, 14, 20]
     else if i < 48 then [4, 11, 16, 23] else [6, 10, 15, 21]) ! (i mod 4)"

definition rfc_fun :: "nat \<Rightarrow> u32 \<Rightarrow> u32 \<Rightarrow> u32 \<Rightarrow> u32" where
  "rfc_fun i = (if i < 16 then rfc_F else if i < 32 then rfc_G else if i < 48 then rfc_H else rfc_I)"

definition rfc_step :: "u32 list \<Rightarrow> regs \<Rightarrow> nat \<Rightarrow> regs" where
  "rfc_step X r i = (case r of (a, b, c, d) \<Rightarrow>
     (d, b + word_rotl (rfc_shift i) (a + rfc_fun i b c d + X ! rfc_index i + rfc_T ! i), b, c))"

definition rfc_words :: "u8 list \<Rightarrow> u32 list" where
  "rfc_words block = map (\<lambda>i. of_le_bytes32 (take 4 (drop (4 * i) block))) [0..<16]"

definition rfc_block :: "regs \<Rightarrow> u8 list \<Rightarrow> regs" where
  "rfc_block r block =
     (case (r, foldl (rfc_step (rfc_words block)) r [0..<64]) of
        ((a, b, c, d), (a', b', c', d')) \<Rightarrow> (a + a', b + b', c + c', d + d'))"

function rfc_absorb :: "regs \<Rightarrow> u8 list \<Rightarrow> regs" where
  "rfc_absorb r m = (if length m < 64 then r else rfc_absorb (rfc_block r (take 64 m)) (drop 64 m))"
  by pat_completeness auto
termination by (relation "measure (\<lambda>(r, m). length m)") auto

declare rfc_absorb.simps [simp del]

text \<open>A one bit, zeros up to 56 modulo 64 bytes, and the number of bits as a 64-bit number, low word first.\<close>

definition rfc_pad :: "u8 list \<Rightarrow> u8 list" where
  "rfc_pad m = m @ 0x80 # replicate ((119 - length m mod 64) mod 64) 0
     @ le_bytes32 (of_nat (8 * length m)) @ le_bytes32 (of_nat (8 * length m div 2 ^ 32))"

definition rfc_md5 :: "u8 list \<Rightarrow> u8 list" where
  "rfc_md5 m = (case rfc_absorb (0x67452301, 0xefcdab89, 0x98badcfe, 0x10325476) (rfc_pad m) of
     (a, b, c, d) \<Rightarrow> le_bytes32 a @ le_bytes32 b @ le_bytes32 c @ le_bytes32 d)"

section \<open>The compression function is the RFC's\<close>

lemma md5_round_functions: "md5_F1 = rfc_F" "md5_F2 = rfc_G" "md5_F3 = rfc_H" "md5_F4 = rfc_I"
  unfolding md5_F1_def [abs_def] md5_F2_def [abs_def] md5_F3_def [abs_def] md5_F4_def [abs_def]
    rfc_F_def [abs_def] rfc_G_def [abs_def] rfc_H_def [abs_def] rfc_I_def [abs_def]
  by (intro ext bit_word_eqI; auto simp: word_bits)+

lemma md5_S_rotl: "0 < n \<Longrightarrow> n < 32 \<Longrightarrow> md5_S x n = word_rotl n x"
proof (rule bit_word_eqI)
  fix i assume n: "0 < n" "n < 32" and "i < LENGTH(32)"
  then have i: "i < 32" by simp
  have "(0xFFFFFFFF :: u32) = - 1" by simp
  then have S: "md5_S x n = shl x n OR shr x (32 - n)" by (simp only: md5_S_def and_minus_numerals and.right_neutral)
  have r: "bit (word_rotl n x) i = bit x ((i + (32 - n)) mod 32)" using n i by (simp add: bit_word_rotl_iff)
  show "bit (md5_S x n) i = bit (word_rotl n x) i"
  proof (cases "n \<le> i")
    case True
    then have "i + (32 - n) = i - n + 32" using n by simp
    then have "(i + (32 - n)) mod 32 = (i - n) mod 32" by (simp only: mod_add_self2)
    with i have m: "(i + (32 - n)) mod 32 = i - n" by simp
    have "\<not> bit x (i + (32 - n))" using True n by (auto dest!: bit_imp_le_length)
    then show ?thesis unfolding r m S using True i by (simp add: word_bits add.commute)
  next
    case False
    then have "(i + (32 - n)) mod 32 = i + (32 - n)" using n i by simp
    then show ?thesis unfolding r S using False i by (simp add: word_bits add.commute)
  qed
qed

lemma IVAL_word: "pos + 4 \<le> length buf \<Longrightarrow> IVAL buf pos = of_le_bytes32 (take 4 (drop pos buf))"
  unfolding IVAL_def of_le_bytes32_def
  by (rule bit_word_eqI) (auto simp: word_bits add.commute)

lemma md5_steps_rfc:
  assumes "F = rfc_fun i" and "\<forall>j < length ops. rfc_fun (i + j) = F \<and> ops ! j = (rfc_index (i + j), rfc_shift (i + j), rfc_T ! (i + j))
      \<and> 0 < rfc_shift (i + j) \<and> rfc_shift (i + j) < 32"
  shows "md5_steps F X ops r = foldl (rfc_step X) r [i..<i + length ops]"
  using assms
proof (induction ops arbitrary: i r)
  case (Cons op ops)
  obtain a b c d where r: "r = (a, b, c, d)" by (cases r) auto
  have op: "op = (rfc_index i, rfc_shift i, rfc_T ! i)" "0 < rfc_shift i" "rfc_shift i < 32"
    using Cons.prems(2) [rule_format, of 0] by simp_all
  have step: "(d, md5_P F X a b c d (rfc_index i) (rfc_shift i) (rfc_T ! i), b, c) = rfc_step X r i"
    using Cons.prems(1) op(2,3) by (simp add: r rfc_step_def md5_P_def md5_S_rotl ac_simps)
  show ?case
  proof (cases ops)
    case Nil then show ?thesis using op step r by simp
  next
    case (Cons op' ops')
    then have "F = rfc_fun (Suc i)" using Cons.prems(2) [rule_format, of 1] by simp
    moreover have "\<forall>j < length ops. rfc_fun (Suc i + j) = F
        \<and> ops ! j = (rfc_index (Suc i + j), rfc_shift (Suc i + j), rfc_T ! (Suc i + j))
        \<and> 0 < rfc_shift (Suc i + j) \<and> rfc_shift (Suc i + j) < 32"
      using Cons.prems(2) by (auto dest: spec [of _ "Suc _"])
    ultimately have "md5_steps F X ops r' = foldl (rfc_step X) r' [Suc i..<Suc i + length ops]" for r'
      by (rule Cons.IH)
    moreover have "[i..<i + length (op # ops)] = i # [Suc i..<Suc i + length ops]"
      by (subst upt_rec) simp
    ultimately show ?thesis using op step r by simp
  qed
qed simp

lemma md5_round_rfc:
  assumes ops: "map (\<lambda>j. (rfc_index (i + j), rfc_shift (i + j), rfc_T ! (i + j))) [0..<16] = ops"
    and shift: "list_all (\<lambda>j. 0 < rfc_shift (i + j) \<and> rfc_shift (i + j) < 32) [0..<16]"
    and funs: "\<And>j. j < 16 \<Longrightarrow> rfc_fun (i + j) = F"
  shows "md5_steps F X ops r = foldl (rfc_step X) r [i..<i + 16]"
proof -
  have l: "length ops = 16" unfolding ops [symmetric] by simp
  have "md5_steps F X ops r = foldl (rfc_step X) r [i..<i + length ops]"
  proof (rule md5_steps_rfc)
    show "F = rfc_fun i" using funs [of 0] by simp
    show "\<forall>j < length ops. rfc_fun (i + j) = F \<and> ops ! j = (rfc_index (i + j), rfc_shift (i + j), rfc_T ! (i + j))
        \<and> 0 < rfc_shift (i + j) \<and> rfc_shift (i + j) < 32"
      using funs shift by (auto simp: l list_all_iff ops [symmetric])
  qed
  then show ?thesis by (simp add: l)
qed

lemma md5_rounds_rfc:
  "md5_steps md5_F1 X md5_round1 r = foldl (rfc_step X) r [0..<16]"
  "md5_steps md5_F2 X md5_round2 r = foldl (rfc_step X) r [16..<32]"
  "md5_steps md5_F3 X md5_round3 r = foldl (rfc_step X) r [32..<48]"
  "md5_steps md5_F4 X md5_round4 r = foldl (rfc_step X) r [48..<64]"
proof -
  show "md5_steps md5_F1 X md5_round1 r = foldl (rfc_step X) r [0..<16]"
    unfolding md5_round_functions
    by (rule md5_round_rfc [of 0, simplified]) (code_simp, code_simp, simp add: rfc_fun_def)
  have "md5_steps rfc_G X md5_round2 r = foldl (rfc_step X) r [16..<16 + 16]"
    by (rule md5_round_rfc) (code_simp, code_simp, simp add: rfc_fun_def)
  then show "md5_steps md5_F2 X md5_round2 r = foldl (rfc_step X) r [16..<32]" by (simp add: md5_round_functions)
  have "md5_steps rfc_H X md5_round3 r = foldl (rfc_step X) r [32..<32 + 16]"
    by (rule md5_round_rfc) (code_simp, code_simp, simp add: rfc_fun_def)
  then show "md5_steps md5_F3 X md5_round3 r = foldl (rfc_step X) r [32..<48]" by (simp add: md5_round_functions)
  have "md5_steps rfc_I X md5_round4 r = foldl (rfc_step X) r [48..<48 + 16]"
    by (rule md5_round_rfc) (code_simp, code_simp, simp add: rfc_fun_def)
  then show "md5_steps md5_F4 X md5_round4 r = foldl (rfc_step X) r [48..<64]" by (simp add: md5_round_functions)
qed

definition ctx_regs :: "md_context \<Rightarrow> regs" where
  "ctx_regs ctx = (md_A ctx, md_B ctx, md_C ctx, md_D ctx)"

lemma upt_four: "[0..<64] = [0..<16] @ [16..<32] @ [32..<48] @ [48..<(64::nat)]"
  by code_simp

lemma md5_process_rfc:
  assumes "length data = 64"
  shows "ctx_regs (md5_process ctx data) = rfc_block (ctx_regs ctx) data"
    and "totalN (md5_process ctx data) = totalN ctx" and "totalN2 (md5_process ctx data) = totalN2 ctx"
    and "md_buffer (md5_process ctx data) = md_buffer ctx"
proof -
  have X: "map (\<lambda>i. IVAL data (4 * i)) [0..<16] = rfc_words data"
    unfolding rfc_words_def using assms by (intro map_cong) (auto intro!: IVAL_word)
  show "ctx_regs (md5_process ctx data) = rfc_block (ctx_regs ctx) data"
    unfolding md5_process_def X Let_def md5_rounds_rfc ctx_regs_def rfc_block_def upt_four foldl_append
    by (simp split: prod.split)
  show "totalN (md5_process ctx data) = totalN ctx" "totalN2 (md5_process ctx data) = totalN2 ctx"
    "md_buffer (md5_process ctx data) = md_buffer ctx"
    unfolding md5_process_def Let_def by (simp_all split: prod.split)
qed

section \<open>Streaming\<close>

text \<open>
  The state after the message \<open>m\<close>: the registers have absorbed its full blocks, the counters hold its length
  and the buffer starts with the bytes of the last, partial block.
\<close>

definition md5_inv :: "md_context \<Rightarrow> u8 list \<Rightarrow> bool" where
  "md5_inv ctx m \<longleftrightarrow> length (md_buffer ctx) = 64
     \<and> ctx_regs ctx = rfc_absorb (0x67452301, 0xefcdab89, 0x98badcfe, 0x10325476) m
     \<and> totalN ctx = of_nat (length m) \<and> totalN2 ctx = of_nat (length m div 2 ^ 32)
     \<and> take (length m mod 64) (md_buffer ctx) = drop (64 * (length m div 64)) m"

lemma rfc_absorb_append:
  "length m mod 64 = 0 \<Longrightarrow> rfc_absorb r (m @ n) = rfc_absorb (rfc_absorb r m) n"
proof (induction r m rule: rfc_absorb.induct)
  case (1 r m)
  show ?case
  proof (cases "length m < 64")
    case True
    then have "m = []" using 1(2) by simp
    then show ?thesis by (simp add: rfc_absorb.simps [of r "[]"])
  next
    case False
    have "length (drop 64 m) mod 64 = 0" using 1(2) False by (simp add: mod_if)
    with 1(1) [OF False] False show ?thesis
      by (simp add: rfc_absorb.simps [of r "m @ n"] rfc_absorb.simps [of r m])
  qed
qed

lemma rfc_absorb_prefix:
  "rfc_absorb r m = rfc_absorb r (take (64 * (length m div 64)) m)"
proof -
  let ?k = "64 * (length m div 64)"
  have k: "?k \<le> length m" by simp
  have "m = take ?k m @ drop ?k m" by simp
  moreover have "length (take ?k m) mod 64 = 0" using k by simp
  ultimately have "rfc_absorb r m = rfc_absorb (rfc_absorb r (take ?k m)) (drop ?k m)"
    by (metis rfc_absorb_append)
  also have "length (drop ?k m) < 64" by (simp add: minus_mult_div_eq_mod)
  then have "rfc_absorb (rfc_absorb r (take ?k m)) (drop ?k m) = rfc_absorb r (take ?k m)"
    by (subst rfc_absorb.simps) simp
  finally show ?thesis .
qed

lemma md5_chunks_absorb:
  assumes "len \<le> length input"
  shows "ctx_regs (fst (md5_chunks ctx input len)) = rfc_absorb (ctx_regs ctx) (take len input)"
    and "snd (md5_chunks ctx input len) = (drop (64 * (len div 64)) input, len mod 64)"
    and "totalN (fst (md5_chunks ctx input len)) = totalN ctx"
    and "totalN2 (fst (md5_chunks ctx input len)) = totalN2 ctx"
    and "md_buffer (fst (md5_chunks ctx input len)) = md_buffer ctx"
  using assms
proof (induction ctx input len rule: md5_chunks.induct)
  case (1 ctx input len)
  { case 1 then show ?case
      using "1.IH"(1) by (subst md5_chunks.simps, subst rfc_absorb.simps)
        (auto simp: md5_process_rfc min_def take_drop)
  next
    case 2 then show ?case
      using "1.IH"(2) by (subst md5_chunks.simps) (auto simp: div_if [of len] mod_if [of len] add.commute)
  next
    case 3 then show ?case using "1.IH"(3) by (subst md5_chunks.simps) (auto simp: md5_process_rfc)
  next
    case 4 then show ?case using "1.IH"(4) by (subst md5_chunks.simps) (auto simp: md5_process_rfc)
  next
    case 5 then show ?case using "1.IH"(5) by (subst md5_chunks.simps) (auto simp: md5_process_rfc)
  }
qed

text \<open>The full blocks of the rest of the input, and the copy of what is left to an empty buffer.\<close>

definition md5_rest :: "md_context \<Rightarrow> u8 list \<Rightarrow> nat \<Rightarrow> nat \<Rightarrow> md_context" where
  "md5_rest ctx input len left =
     (let (ctx4, input4, len4) = md5_chunks ctx input len
      in if len4 \<noteq> 0 then ctx4\<lparr>md_buffer := buf_copy (md_buffer ctx4) left (take len4 input4)\<rparr> else ctx4)"

lemma md5_rest_eq:
  assumes "len \<le> length input"
  shows "\<exists>c. md5_rest ctx input len left
        = c\<lparr>md_buffer := buf_copy (md_buffer c) left (take (len mod 64) (drop (64 * (len div 64)) input))\<rparr>
    \<and> ctx_regs c = rfc_absorb (ctx_regs ctx) (take len input) \<and> totalN c = totalN ctx \<and> totalN2 c = totalN2 ctx
    \<and> md_buffer c = md_buffer ctx"
proof -
  obtain c where c: "md5_chunks ctx input len = (c, drop (64 * (len div 64)) input, len mod 64)"
    using md5_chunks_absorb(2) [OF assms, of ctx] by (cases "md5_chunks ctx input len") auto
  have "md5_rest ctx input len left
      = c\<lparr>md_buffer := buf_copy (md_buffer c) left (take (len mod 64) (drop (64 * (len div 64)) input))\<rparr>"
    by (simp add: md5_rest_def c buf_copy_def)
  then show ?thesis using md5_chunks_absorb [OF assms, of ctx] c by (intro exI [of _ c]) simp
qed

lemma ctx_regs_buffer [simp]: "ctx_regs (ctx\<lparr>md_buffer := b\<rparr>) = ctx_regs ctx"
  "ctx_regs (ctx\<lparr>totalN := x\<rparr>) = ctx_regs ctx" "ctx_regs (ctx\<lparr>totalN2 := x\<rparr>) = ctx_regs ctx"
  by (simp_all add: ctx_regs_def)

lemma length_buf_copy [simp]: "pos + length bs \<le> length buf \<Longrightarrow> length (buf_copy buf pos bs) = length buf"
  by (simp add: buf_copy_def)

lemma mult64_split: "length m = 64 * (length m div 64)" if "length m mod 64 = 0"
  using that by (metis add_0_right mult_div_mod_eq)

text \<open>From a state whose message has only full blocks.\<close>

lemma md5_rest_aligned:
  assumes "len \<le> length input" and "length m mod 64 = 0" and "length (md_buffer ctx) = 64"
    and "ctx_regs ctx = rfc_absorb r m"
  shows "ctx_regs (md5_rest ctx input len 0) = rfc_absorb r (m @ take len input)
    \<and> totalN (md5_rest ctx input len 0) = totalN ctx \<and> totalN2 (md5_rest ctx input len 0) = totalN2 ctx
    \<and> length (md_buffer (md5_rest ctx input len 0)) = 64
    \<and> take (length (m @ take len input) mod 64) (md_buffer (md5_rest ctx input len 0))
       = drop (64 * (length (m @ take len input) div 64)) (m @ take len input)"
proof -
  let ?t = "take (len mod 64) (drop (64 * (len div 64)) input)"
  obtain c where c: "md5_rest ctx input len 0 = c\<lparr>md_buffer := buf_copy (md_buffer c) 0 ?t\<rparr>"
      "ctx_regs c = rfc_absorb (ctx_regs ctx) (take len input)" "totalN c = totalN ctx" "totalN2 c = totalN2 ctx"
      "md_buffer c = md_buffer ctx"
    using md5_rest_eq [OF assms(1)] by blast
  have m: "length m = 64 * (length m div 64)" by (rule mult64_split [OF assms(2)])
  have l: "length (m @ take len input) mod 64 = len mod 64" "length (m @ take len input) div 64 = length m div 64 + len div 64"
  proof -
    have e: "length (m @ take len input) = len + length m div 64 * 64" using m assms(1) by simp
    show "length (m @ take len input) mod 64 = len mod 64" "length (m @ take len input) div 64 = length m div 64 + len div 64"
      unfolding e by simp_all
  qed
  have le: "64 * (len div 64) + len mod 64 = len" by simp
  have lt: "length ?t = len mod 64" using assms(1) le by (simp add: le_diff_conv2)
  have "drop (64 * (length m div 64 + len div 64)) (m @ take len input) = drop (64 * (len div 64)) (take len input)"
    using m by (simp add: algebra_simps)
  also have "\<dots> = ?t" by (simp add: drop_take minus_mult_div_eq_mod)
  finally have d: "drop (64 * (length m div 64 + len div 64)) (m @ take len input) = ?t" .
  show ?thesis unfolding c(1) l d
    using c(2-5) assms(2-4) lt rfc_absorb_append [OF assms(2), of r "take len input"]
    by (simp add: buf_copy_def order_less_imp_le)
qed

lemma md5_update_unfold:
  "len \<noteq> 0 \<Longrightarrow> md5_update ctx input len =
     (let left = unat (totalN ctx AND 0x3F);
          ctx1 = ctx\<lparr>totalN := totalN ctx + len\<rparr>;
          ctx2 = (if totalN ctx1 < len then ctx1\<lparr>totalN2 := totalN2 ctx1 + 1\<rparr> else ctx1)
      in if left \<noteq> 0 \<and> 64 - left \<le> unat len
         then let c = ctx2\<lparr>md_buffer := buf_copy (md_buffer ctx2) left (take (64 - left) input)\<rparr>
              in md5_rest (md5_process c (md_buffer c)) (drop (64 - left) input) (unat len - (64 - left)) 0
         else md5_rest ctx2 input (unat len) left)"
  by (cases "unat (totalN ctx AND 0x3F) = 0") (simp_all add: md5_update_def md5_rest_def Let_def)

text \<open>The counters: the carry test is exact.\<close>

lemma low_six_bits: "unat ((of_nat n :: u32) AND 0x3F) = n mod 64"
proof -
  have "(0x3F :: u32) = mask 6" by (simp add: mask_eq_exp_minus_1)
  then have "(of_nat n :: u32) AND 0x3F = take_bit 6 (of_nat n)" by (simp only: take_bit_eq_mask)
  then have "unat ((of_nat n :: u32) AND 0x3F) = n mod 2 ^ 32 mod 64"
    by (simp only: unsigned_take_bit_eq unat_of_nat) (simp add: take_bit_nat_def)
  also have "\<dots> = n mod 64" by (rule mod_mod_cancel) simp
  finally show ?thesis .
qed

lemma carry_exact:
  assumes "0 < n" and "n < 2 ^ 32"
  shows "(of_nat (l + n) :: u32) < of_nat n \<longleftrightarrow> (l + n) div 2 ^ 32 = l div 2 ^ 32 + 1"
    and "(l + n) div 2 ^ 32 = l div 2 ^ 32 \<or> (l + n) div 2 ^ 32 = l div 2 ^ 32 + 1"
proof -
  define q r where "q = l div 2 ^ 32" and "r = l mod 2 ^ 32"
  have l: "l = q * 2 ^ 32 + r" "r < 2 ^ 32" by (simp_all add: q_def r_def div_mult_mod_eq)
  have lt: "(of_nat (l + n) :: u32) < of_nat n \<longleftrightarrow> (l + n) mod 2 ^ 32 < n"
    unfolding word_less_nat_alt unat_of_nat take_bit_nat_def using assms(2) by simp
  have m: "(l + n) mod 2 ^ 32 = (r + n) mod 2 ^ 32" "(l + n) div 2 ^ 32 = q + (r + n) div 2 ^ 32"
    unfolding l(1) by (simp_all add: add.assoc)
  have "(r + n) mod 2 ^ 32 < n \<longleftrightarrow> 2 ^ 32 \<le> r + n" "(r + n) div 2 ^ 32 = (if 2 ^ 32 \<le> r + n then 1 else 0)"
    using assms l(2) by (auto simp: mod_if div_if)
  with lt m show "(of_nat (l + n) :: u32) < of_nat n \<longleftrightarrow> (l + n) div 2 ^ 32 = l div 2 ^ 32 + 1"
    and "(l + n) div 2 ^ 32 = l div 2 ^ 32 \<or> (l + n) div 2 ^ 32 = l div 2 ^ 32 + 1"
    by (auto simp: q_def)
qed

lemma rfc_absorb_one: "length b = 64 \<Longrightarrow> rfc_absorb r b = rfc_block r b"
  by (simp add: rfc_absorb.simps [of r b] rfc_absorb.simps [of "rfc_block r b" "[]"])

lemma rfc_absorb_fill:
  assumes "length (drop (64 * (length m div 64)) m @ b) = 64"
  shows "rfc_absorb r (m @ b) = rfc_block (rfc_absorb r m) (drop (64 * (length m div 64)) m @ b)"
proof -
  let ?k = "64 * (length m div 64)"
  have "m @ b = take ?k m @ (drop ?k m @ b)" by simp
  moreover have "length (take ?k m) mod 64 = 0" by simp
  ultimately have "rfc_absorb r (m @ b) = rfc_absorb (rfc_absorb r (take ?k m)) (drop ?k m @ b)"
    by (metis rfc_absorb_append)
  then show ?thesis using rfc_absorb_one [OF assms] rfc_absorb_prefix [of r m] by simp
qed

text \<open>The buffer is filled up and processed, or the input fits in the buffer.\<close>

lemma md5_rest_filled:
  assumes buf: "take (length m mod 64) (md_buffer ctx) = drop (64 * (length m div 64)) m" "length (md_buffer ctx) = 64"
    and r: "ctx_regs ctx = rfc_absorb r m" and n: "n \<le> length input" "64 - length m mod 64 \<le> n"
    and f: "f = 64 - length m mod 64"
    and c: "c = ctx\<lparr>md_buffer := buf_copy (md_buffer ctx) (length m mod 64) (take f input)\<rparr>"
    and c': "c' = md5_rest (md5_process c (md_buffer c)) (drop f input) (n - f) 0"
  shows "ctx_regs c' = rfc_absorb r (m @ take n input) \<and> totalN c' = totalN ctx \<and> totalN2 c' = totalN2 ctx
    \<and> length (md_buffer c') = 64
    \<and> take (length (m @ take n input) mod 64) (md_buffer c') = drop (64 * (length (m @ take n input) div 64)) (m @ take n input)"
proof -
  let ?B = "drop (64 * (length m div 64)) m @ take f input"
  have dm: "length (drop (64 * (length m div 64)) m) = length m mod 64" by (simp add: minus_mult_div_eq_mod)
  have m64: "length m mod 64 < 64" by simp
  have lf: "length (take f input) = f" using n f by simp
  have lB: "length ?B = 64" using dm lf f m64 by simp
  have cb: "md_buffer c = ?B" using buf lf f by (simp add: c buf_copy_def)
  have rp: "ctx_regs (md5_process c ?B) = rfc_absorb r (m @ take f input)"
    using md5_process_rfc(1) [OF lB, of c] rfc_absorb_fill [OF lB] r by (simp add: c)
  have "length m + f = 64 * (length m div 64) + 64" using f m64 mult_div_mod_eq [of 64 "length m"] by linarith
  then have al: "length (m @ take f input) mod 64 = 0" using lf by simp
  have lb: "length (md_buffer (md5_process c ?B)) = 64" using md5_process_rfc(4) [OF lB, of c] cb lB by simp
  have le: "n - f \<le> length (drop f input)" using n(1) by simp
  have app: "(m @ take f input) @ take (n - f) (drop f input) = m @ take n input"
    using n(2) f by (simp add: take_add [symmetric])
  show ?thesis unfolding c' cb
    using md5_rest_aligned [OF le al lb rp, unfolded app] md5_process_rfc(2,3) [OF lB, of c] by (simp add: c)
qed

lemma md5_rest_partial:
  assumes buf: "take (length m mod 64) (md_buffer ctx) = drop (64 * (length m div 64)) m" "length (md_buffer ctx) = 64"
    and r: "ctx_regs ctx = rfc_absorb r m" and n: "n \<le> length input" "length m mod 64 + n < 64"
    and c': "c' = md5_rest ctx input n (length m mod 64)"
  shows "ctx_regs c' = rfc_absorb r (m @ take n input) \<and> totalN c' = totalN ctx \<and> totalN2 c' = totalN2 ctx
    \<and> length (md_buffer c') = 64
    \<and> take (length (m @ take n input) mod 64) (md_buffer c') = drop (64 * (length (m @ take n input) div 64)) (m @ take n input)"
proof -
  let ?L = "length m"
  have lm: "length (m @ take n input) = ?L + n" using n(1) by simp
  have n64: "n div 64 = 0" "n mod 64 = n" using n(2) by simp_all
  obtain c where c: "c' = c\<lparr>md_buffer := buf_copy (md_buffer c) (?L mod 64) (take n input)\<rparr>"
      "ctx_regs c = rfc_absorb (ctx_regs ctx) (take n input)" "totalN c = totalN ctx" "totalN2 c = totalN2 ctx"
      "md_buffer c = md_buffer ctx"
    using md5_rest_eq [OF n(1), of ctx "?L mod 64"] unfolding n64 c' by auto
  have e: "?L + n = (?L mod 64 + n) + 64 * (?L div 64)" by simp
  have q: "(?L + n) div 64 = ?L div 64" "(?L + n) mod 64 = ?L mod 64 + n"
    by (subst e, subst div_mult_self2, use n(2) in simp_all) (subst e, subst mod_mult_self2, use n(2) in simp)
  have rc: "rfc_absorb r (m @ take n input) = rfc_absorb r m"
    using rfc_absorb_prefix [of r "m @ take n input"] rfc_absorb_prefix [of r m] q(1) lm by simp
  have "rfc_absorb (rfc_absorb r m) (take n input) = rfc_absorb r m" using n by (simp add: rfc_absorb.simps [of _ "take n input"] min_def)
  with c(2) rc r have rr: "ctx_regs c = rfc_absorb r (m @ take n input)" by simp
  have "take (?L mod 64 + n) (buf_copy (md_buffer ctx) (?L mod 64) (take n input))
      = drop (64 * (?L div 64)) m @ take n input"
    using buf n(1) by (simp add: buf_copy_def minus_mult_div_eq_mod)
  then show ?thesis unfolding lm q c(1) using c(3-5) rr buf(2) n by simp
qed

lemma md5_update_inv:
  assumes inv: "md5_inv ctx m" and len: "n \<le> length input" "n < 2 ^ 32"
  shows "md5_inv (md5_update ctx input (of_nat n)) (m @ take n input)"
proof (cases "n = 0")
  case True then show ?thesis using inv by (simp add: md5_update_def)
next
  case False
  let ?r = "(0x67452301, 0xefcdab89, 0x98badcfe, 0x10325476) :: regs"
  let ?L = "length m"
  have I: "length (md_buffer ctx) = 64" "ctx_regs ctx = rfc_absorb ?r m" "totalN ctx = of_nat ?L"
      "totalN2 ctx = of_nat (?L div 2 ^ 32)" "take (?L mod 64) (md_buffer ctx) = drop (64 * (?L div 64)) m"
    using inv unfolding md5_inv_def by blast+
  have un: "unat (of_nat n :: u32) = n" using len(2) by (simp add: unat_of_nat take_bit_nat_def)
  have nz: "(of_nat n :: u32) \<noteq> 0" using False un by (metis unsigned_0)
  have left: "unat (totalN ctx AND 0x3F) = ?L mod 64" unfolding I(3) by (rule low_six_bits)
  define ctx1 where "ctx1 = ctx\<lparr>totalN := totalN ctx + of_nat n\<rparr>"
  define ctx2 where "ctx2 = (if totalN ctx1 < of_nat n then ctx1\<lparr>totalN2 := totalN2 ctx1 + 1\<rparr> else ctx1)"
  have t1: "totalN ctx1 = of_nat (?L + n)" by (simp add: ctx1_def I(3))
  have C: "take (?L mod 64) (md_buffer ctx2) = drop (64 * (?L div 64)) m" "length (md_buffer ctx2) = 64"
      "ctx_regs ctx2 = rfc_absorb ?r m" "totalN ctx2 = of_nat (?L + n)"
    using I(1,2,5) t1 by (simp_all add: ctx2_def ctx1_def)
  have C2: "totalN2 ctx2 = of_nat ((?L + n) div 2 ^ 32)"
    using carry_exact [of n ?L] False len(2) I(4) unfolding ctx2_def t1 by (auto simp: ctx1_def)
  have lm: "length (m @ take n input) = ?L + n" using len(1) by simp
  note upd = md5_update_unfold [OF nz, of ctx input, unfolded Let_def left un, folded ctx1_def, folded ctx2_def]
  consider (aligned) "?L mod 64 = 0" | (fill) "?L mod 64 \<noteq> 0" "64 - ?L mod 64 \<le> n" | (part) "?L mod 64 \<noteq> 0" "?L mod 64 + n < 64"
    by linarith
  then show ?thesis
  proof cases
    case aligned
    with upd have u: "md5_update ctx input (of_nat n) = md5_rest ctx2 input n 0" by simp
    show ?thesis unfolding u md5_inv_def using md5_rest_aligned [OF len(1) aligned C(2,3)] C(4) C2 lm by simp
  next
    case fill
    then show ?thesis unfolding md5_inv_def
      using upd md5_rest_filled [OF C(1-3) len(1) fill(2) refl refl refl] C(4) C2 lm by simp
  next
    case part
    then have "\<not> 64 - ?L mod 64 \<le> n" by linarith
    then show ?thesis unfolding md5_inv_def
      using upd md5_rest_partial [OF C(1-3) len(1) part(2) refl] C(4) C2 lm by simp
  qed
qed

section \<open>The digest\<close>

lemma SIVAL_bytes:
  "pos = length pre \<Longrightarrow> SIVAL (pre @ [a, b, c, d] @ post) pos v = pre @ le_bytes32 v @ post"
proof -
  have e: "ucast ((v AND 0xFFFF) AND 0xFF) = (ucast v :: u8)" "ucast (shr (v AND 0xFFFF) 8) = (ucast (shr v 8) :: u8)"
      "ucast (shr v 16 AND 0xFF) = (ucast (shr v 16) :: u8)" "ucast (shr (shr v 16) 8) = (ucast (shr v 24) :: u8)"
    unfolding mask_consts by (rule bit_word_eqI; auto simp: word_bits add.commute)+
  assume "pos = length pre"
  then show ?thesis unfolding SIVAL_def SSVALX_def e le_bytes32_def
    by (simp add: list_update_append numeral_2_eq_2 numeral_3_eq_3)
qed

lemma four_words:
  assumes "length buf = 16"
  shows "SIVAL (SIVAL (SIVAL (SIVAL buf 0 a) 4 b) 8 c) 12 d = le_bytes32 a @ le_bytes32 b @ le_bytes32 c @ le_bytes32 d"
proof -
  obtain b0 b1 b2 b3 b4 b5 b6 b7 b8 b9 b10 b11 b12 b13 b14 b15 where
    b: "buf = [b0, b1, b2, b3, b4, b5, b6, b7, b8, b9, b10, b11, b12, b13, b14, b15]"
    using assms by (auto simp: length_Suc_conv numeral_eq_Suc)
  have 1: "SIVAL buf 0 a = le_bytes32 a @ [b4, b5, b6, b7] @ [b8, b9, b10, b11, b12, b13, b14, b15]"
    using SIVAL_bytes [of 0 "[]" b0 b1 b2 b3 "[b4, b5, b6, b7, b8, b9, b10, b11, b12, b13, b14, b15]" a] b by simp
  have 2: "SIVAL (le_bytes32 a @ [b4, b5, b6, b7] @ [b8, b9, b10, b11, b12, b13, b14, b15]) 4 b
      = (le_bytes32 a @ le_bytes32 b) @ [b8, b9, b10, b11] @ [b12, b13, b14, b15]"
    using SIVAL_bytes [of 4 "le_bytes32 a" b4 b5 b6 b7 "[b8, b9, b10, b11, b12, b13, b14, b15]" b] by simp
  have 3: "SIVAL ((le_bytes32 a @ le_bytes32 b) @ [b8, b9, b10, b11] @ [b12, b13, b14, b15]) 8 c
      = (le_bytes32 a @ le_bytes32 b @ le_bytes32 c) @ [b12, b13, b14, b15] @ []"
    using SIVAL_bytes [of 8 "le_bytes32 a @ le_bytes32 b" b8 b9 b10 b11 "[b12, b13, b14, b15]" c] by simp
  have 4: "SIVAL ((le_bytes32 a @ le_bytes32 b @ le_bytes32 c) @ [b12, b13, b14, b15] @ []) 12 d
      = (le_bytes32 a @ le_bytes32 b @ le_bytes32 c) @ le_bytes32 d @ []"
    by (rule SIVAL_bytes) simp
  show ?thesis unfolding 1 2 3 4 by simp
qed

lemma message_length:
  "SIVAL (SIVAL (replicate 8 0) 0 lo) 4 hi = le_bytes32 lo @ le_bytes32 hi"
proof -
  have r: "replicate 8 (0 :: u8) = [] @ [0, 0, 0, 0] @ [0, 0, 0, 0]" by (simp add: numeral_eq_Suc)
  have 1: "SIVAL (replicate 8 0) 0 lo = le_bytes32 lo @ [0, 0, 0, 0] @ []"
    unfolding r using SIVAL_bytes [of 0 "[]" 0 0 0 0 "[0, 0, 0, 0]" lo] by simp
  show ?thesis unfolding 1 using SIVAL_bytes [of 4 "le_bytes32 lo" 0 0 0 0 "[]" hi] by simp
qed

lemma bit_count:
  "shl (of_nat n :: u32) 3 = of_nat (8 * n)"
  "shr (of_nat n :: u32) 29 OR shl (of_nat (n div 2 ^ 32)) 3 = of_nat (8 * n div 2 ^ 32)"
proof -
  show "shl (of_nat n :: u32) 3 = of_nat (8 * n)" by (simp add: push_bit_eq_mult)
  have h: "8 * n div 2 ^ 32 = drop_bit 29 n" "n div 2 ^ 32 = drop_bit 32 n" by (simp_all add: drop_bit_eq_div)
  show "shr (of_nat n :: u32) 29 OR shl (of_nat (n div 2 ^ 32)) 3 = of_nat (8 * n div 2 ^ 32)"
    unfolding h by (rule bit_word_eqI) (auto simp: word_bits add.commute)
qed

lemma padding_length:
  assumes "l = n mod 64" and "p = (if l < 56 then 56 - l else 120 - l)"
  shows "(if (of_nat n :: u32) AND 0x3F < 56 then 56 - ((of_nat n :: u32) AND 0x3F) else 120 - (of_nat n AND 0x3F)) = of_nat p"
    and "take p md5_padding = 0x80 # replicate ((119 - l) mod 64) 0" and "p \<le> 64" and "0 < p"
proof -
  have l: "l < 64" using assms(1) by simp
  have u: "(of_nat n :: u32) AND 0x3F = of_nat l" unfolding assms(1) low_six_bits [symmetric] by simp
  have "(of_nat l :: u32) < 56 \<longleftrightarrow> l < 56" using l by (simp add: word_less_nat_alt unat_of_nat take_bit_nat_def)
  then show "(if (of_nat n :: u32) AND 0x3F < 56 then 56 - ((of_nat n :: u32) AND 0x3F) else 120 - (of_nat n AND 0x3F)) = of_nat p"
    unfolding u assms(2) using l by simp
  show p: "p \<le> 64" "0 < p" using assms(2) l by auto
  have "(119 - l) mod 64 = p - 1"
  proof (cases "l < 56")
    case True
    then have "119 - l = (55 - l) + 64" by simp
    then have "(119 - l) mod 64 = (55 - l) mod 64" by (metis mod_add_self2)
    then show ?thesis using True assms(2) by simp
  qed (use assms(2) l in simp)
  then show "take p md5_padding = 0x80 # replicate ((119 - l) mod 64) 0"
    using p by (cases p) (simp_all add: md5_padding_def min_def)
qed

lemma md5_result_rfc:
  assumes inv: "md5_inv ctx m" and d: "length digest = 16"
  shows "snd (md5_result ctx digest) = rfc_md5 m"
proof -
  define l where "l = length m mod 64"
  define p where "p = (if l < 56 then 56 - l else 120 - l)"
  note pad = padding_length [OF l_def p_def]
  have t: "totalN ctx = of_nat (length m)" "totalN2 ctx = of_nat (length m div 2 ^ 32)"
    using inv by (simp_all add: md5_inv_def)
  define len where "len = le_bytes32 (of_nat (8 * length m)) @ le_bytes32 (of_nat (8 * length m div 2 ^ 32))"
  define ctx2 where "ctx2 = md5_update (md5_update ctx md5_padding (of_nat p)) len (of_nat 8)"
  have "p \<le> length md5_padding" using pad(3) by (simp add: md5_padding_def)
  then have "md5_inv (md5_update ctx md5_padding (of_nat p)) (m @ take p md5_padding)"
    by (rule md5_update_inv [OF inv]) (use pad(3) in simp)
  then have "md5_inv ctx2 ((m @ take p md5_padding) @ take 8 len)"
    unfolding ctx2_def by (rule md5_update_inv) (simp_all add: len_def)
  then have i2: "md5_inv ctx2 (rfc_pad m)" by (simp add: rfc_pad_def pad(2) len_def l_def)
  have r: "snd (md5_result ctx digest)
      = le_bytes32 (md_A ctx2) @ le_bytes32 (md_B ctx2) @ le_bytes32 (md_C ctx2) @ le_bytes32 (md_D ctx2)"
    unfolding md5_result_def Let_def t
    unfolding bit_count(2)
    unfolding bit_count(1) message_length pad(1) snd_conv four_words [OF d]
    by (simp only: ctx2_def len_def of_nat_numeral)
  have "rfc_absorb (0x67452301, 0xefcdab89, 0x98badcfe, 0x10325476) (rfc_pad m)
      = (md_A ctx2, md_B ctx2, md_C ctx2, md_D ctx2)"
    using i2 unfolding md5_inv_def ctx_regs_def by metis
  then show ?thesis unfolding r rfc_md5_def by simp
qed

lemma md5_begin_inv: "length (md_buffer ctx) = 64 \<Longrightarrow> md5_inv (md5_begin ctx) []"
  by (simp add: md5_inv_def md5_begin_def ctx_regs_def rfc_absorb.simps [of _ "[]"])

section \<open>The weak checksum\<close>

text \<open>The bytewise recurrence.\<close>

definition weak_step :: "u32 \<times> u32 \<Rightarrow> u8 \<Rightarrow> u32 \<times> u32" where
  "weak_step s b = (fst s + sx8 b, snd s + (fst s + sx8 b))"

lemma rsync_weak_bytes_fold:
  assumes "i \<le> n" and "n \<le> length buf"
  shows "rsync_weak_bytes buf (int n) i s1 s2 = foldl weak_step (s1, s2) (drop i (take n buf))"
  using assms
proof (induction "n - i" arbitrary: i s1 s2)
  case 0
  then show ?case by (subst rsync_weak_bytes.simps) simp
next
  case (Suc k)
  then have i: "i < n" "k = n - (i + 1)" by simp_all
  then have "drop i (take n buf) = buf ! i # drop (i + 1) (take n buf)"
    using Suc.prems(2) by (simp add: Cons_nth_drop_Suc [symmetric])
  with Suc.hyps(1) [OF i(2)] i(1) Suc.prems(2) show ?case
    by (subst rsync_weak_bytes.simps) (simp add: weak_step_def schar_at_def)
qed

lemma rsync_weak_quads_fold:
  assumes "n \<le> length buf" and "i \<le> n"
  shows "case rsync_weak_quads buf (int n) i s1 s2 of (j, t1, t2) \<Rightarrow>
    i \<le> j \<and> j \<le> n \<and> foldl weak_step (t1, t2) (drop j (take n buf)) = foldl weak_step (s1, s2) (drop i (take n buf))"
  using assms
proof (induction "n - i" arbitrary: i s1 s2 rule: less_induct)
  case less
  show ?case
  proof (cases "int i < int n - 4")
    case True
    have b: "drop i (take n buf) = buf ! i # buf ! (i + 1) # buf ! (i + 2) # buf ! (i + 3) # drop (i + 4) (take n buf)"
      using True less.prems by (simp add: Cons_nth_drop_Suc [symmetric] numeral_eq_Suc)
    let ?s1 = "s1 + (schar_at buf i + schar_at buf (i + 1) + schar_at buf (i + 2) + schar_at buf (i + 3))"
    let ?s2 = "s2 + (4 * (s1 + schar_at buf i) + 3 * schar_at buf (i + 1) + 2 * schar_at buf (i + 2) + schar_at buf (i + 3))"
    have "foldl weak_step (s1, s2) (drop i (take n buf)) = foldl weak_step (?s1, ?s2) (drop (i + 4) (take n buf))"
      unfolding b by (simp add: weak_step_def schar_at_def algebra_simps)
    moreover have "n - (i + 4) < n - i" "i + 4 \<le> n" using True by simp_all
    ultimately show ?thesis using less.hyps [of "i + 4" ?s1 ?s2] less.prems(1) True
      by (subst rsync_weak_quads.simps) (auto split: prod.splits)
  next
    case False
    then show ?thesis using less.prems by (subst rsync_weak_quads.simps) simp
  qed
qed

section \<open>Properties\<close>

text \<open>
  C8: MD5 conforms to RFC 1321 for streamed input.  Whatever the sequence of calls of \<open>md5_update\<close> that delivers the
  message (pieces of any length below 2 to the 32, empty ones included), \<open>md5_result\<close> writes the digest the RFC defines for the
  concatenation: the buffering, the byte counters with their carry, the padding and the unrolled
  rounds agree with the reference.
\<close>

theorem md5_streaming:
  assumes "length (md_buffer ctx) = 64" and "length digest = 16" and "\<forall>xs \<in> set pieces. length xs < 2 ^ 32"
  shows "snd (md5_result (foldl (\<lambda>c xs. md5_update c xs (of_nat (length xs))) (md5_begin ctx) pieces) digest)
    = rfc_md5 (concat pieces)"
proof -
  have "md5_inv (foldl (\<lambda>c xs. md5_update c xs (of_nat (length xs))) c pieces) (m @ concat pieces)"
    if "md5_inv c m" "\<forall>xs \<in> set pieces. length xs < 2 ^ 32" for c m
    using that
  proof (induction pieces arbitrary: c m)
    case (Cons xs pieces)
    have "md5_inv (md5_update c xs (of_nat (length xs))) (m @ xs)"
      using md5_update_inv [OF Cons.prems(1), of "length xs" xs] Cons.prems(2) by simp
    from Cons.IH [OF this] show ?case using Cons.prems(2) by simp
  qed simp
  from this [OF md5_begin_inv [OF assms(1)] assms(3)] show ?thesis
    using md5_result_rfc [OF _ assms(2)] by simp
qed

definition demo_md :: md_context where
  "demo_md = \<lparr>md_A = 0, md_B = 0, md_C = 0, md_D = 0, totalN = 0, totalN2 = 0, md_buffer = replicate 64 7\<rparr>"

text \<open>The digest of \<^verbatim>\<open>"abc"\<close>, delivered in two pieces.\<close>

theorem md5_streaming_witness:
  "rfc_md5 [97, 98, 99]
   = [0x90, 0x01, 0x50, 0x98, 0x3c, 0xd2, 0x4f, 0xb0, 0xd6, 0x96, 0x3f, 0x7d, 0x28, 0xe1, 0x7f, 0x72]"
proof -
  have "snd (md5_result (md5_update (md5_update (md5_begin demo_md) [97] 1) [98, 99] 2) (replicate 16 0))
      = [0x90, 0x01, 0x50, 0x98, 0x3c, 0xd2, 0x4f, 0xb0, 0xd6, 0x96, 0x3f, 0x7d, 0x28, 0xe1, 0x7f, 0x72]"
    by code_simp
  then show ?thesis using md5_streaming [of demo_md "replicate 16 0" "[[97], [98, 99]]"] by (simp add: demo_md_def)
qed

text \<open>
  C22: the weak rsync checksum, which works on four bytes at a time, is the bytewise recurrence: the low half is the
  sum of the signed bytes and the high half the sum of the partial sums, for every length.
\<close>

theorem rsync_weak_checksum_bytewise:
  assumes "n \<le> length buf"
  shows "rsync_weak_checksum buf (int n) =
    (case foldl weak_step (0, 0) (take n buf) of (s1, s2) \<Rightarrow> (s1 AND 0xffff) + shl s2 16)"
proof -
  obtain j t1 t2 where q: "rsync_weak_quads buf (int n) 0 0 0 = (j, t1, t2)" by (cases "rsync_weak_quads buf (int n) 0 0 0") auto
  have "j \<le> n" "foldl weak_step (t1, t2) (drop j (take n buf)) = foldl weak_step (0, 0) (take n buf)"
    using rsync_weak_quads_fold [OF assms, of 0 0 0] q by simp_all
  then show ?thesis using rsync_weak_bytes_fold [of j n buf t1 t2] assms q by (simp add: rsync_weak_checksum_def)
qed

theorem rsync_weak_checksum_bytewise_witness:
  "rsync_weak_checksum [1, 2, 3, 4, 255, 6] 6 = 0x2c000f"
proof -
  have "foldl weak_step (0, 0) [1, 2, 3, 4, 255, 6] = (15, 0x2c)" by code_simp
  then show ?thesis using rsync_weak_checksum_bytewise [of 6 "[1, 2, 3, 4, 255, 6]"] by simp
qed

end
