(* ===== verification/Lz_Resolver.thy ===== *)
theory Lz_Resolver
  imports Lz_Prelude
begin

text \<open>
  \<open>lz_resolve_ip6\<close> of \<^verbatim>\<open>src/src/common-utils.c\<close>: the resolver with its one-entry cache.  The cache holds the list of
  addresses that \<^verbatim>\<open>getaddrinfo\<close> returned and the position of the next answer; both are lists of addresses
  here, the second a suffix of the first, and a null pointer is the empty list.  What the C library
  answers is an argument: \<open>gai\<close> is the result of \<^verbatim>\<open>getaddrinfo\<close> (an error code or the list) and \<open>gni\<close> tells
  for which addresses \<^verbatim>\<open>getnameinfo\<close> succeeds.
\<close>

section \<open>Operations\<close>

record 'a dnscache6 =
  dns_first :: "'a list"
  dns_next :: "'a list"

record resolver_env =
  env_calloc :: bool
  env_asprintf :: bool

text \<open>Flushing an exhausted cache.\<close>

definition dns_flush :: "'a dnscache6 \<Rightarrow> 'a dnscache6" where
  "dns_flush cache =
     (if dns_first cache \<noteq> [] \<and> dns_next cache = [] then \<lparr>dns_first = [], dns_next = []\<rparr> else cache)"

text \<open>
  The result is \<open>*dnscache\<close>, the return code and what was written to \<open>*addr_info\<close>; \<open>None\<close> is the dereference of a null pointer
  when the allocation of the cache fails or when the list is empty.
\<close>

definition dns_answer ::
  "('a \<Rightarrow> bool) \<Rightarrow> 'a dnscache6 \<Rightarrow> ('a dnscache6 option \<times> int \<times> 'a option) option" where
  "dns_answer gni cache =
     (case dns_next cache of
        [] \<Rightarrow> None
      | a # rest \<Rightarrow>
          if \<not> gni a then Some (None, -1, None)
          else
            let cache' = cache\<lparr>dns_next := rest\<rparr>
            in (case rest of
                  [] \<Rightarrow> Some (Some cache', 0, Some a)
                | b # _ \<Rightarrow> if \<not> gni b then Some (None, -1, Some a) else Some (Some cache', 0, Some a)))"

definition lz_resolve_ip6 ::
  "resolver_env \<Rightarrow> int + 'a list \<Rightarrow> ('a \<Rightarrow> bool) \<Rightarrow> bool \<Rightarrow> 'a dnscache6 option
   \<Rightarrow> ('a dnscache6 option \<times> int \<times> 'a option) option" where
  "lz_resolve_ip6 env gai gni hostname dnscache =
     (if \<not> hostname then Some (dnscache, -1, None)
      else
        (case (case dnscache of
                 None \<Rightarrow> if env_calloc env then Some \<lparr>dns_first = [], dns_next = []\<rparr> else None
               | Some c \<Rightarrow> Some c) of
           None \<Rightarrow> None
         | Some c \<Rightarrow>
             let cache = dns_flush c
             in if dns_first cache = []
                then
                  (if \<not> env_asprintf env then Some (Some cache, -1, None)
                   else (case gai of
                           Inl e \<Rightarrow> Some (None, -1, None)
                         | Inr as \<Rightarrow> dns_answer gni \<lparr>dns_first = as, dns_next = as\<rparr>))
                else dns_answer gni cache))"

section \<open>Correctness\<close>

text \<open>
  Successive calls.  \<open>f k\<close> is the list \<^verbatim>\<open>getaddrinfo\<close> would give during call number \<open>k\<close>, whether or not that call asks; the
  answers of the library may differ from call to call.
\<close>

fun resolve_calls ::
  "(nat \<Rightarrow> 'a list) \<Rightarrow> nat \<Rightarrow> nat \<Rightarrow> 'a dnscache6 option \<Rightarrow> ('a dnscache6 option \<times> 'a list) option" where
  "resolve_calls f k 0 cache = Some (cache, [])"
| "resolve_calls f k (Suc n) cache =
     (case lz_resolve_ip6 \<lparr>env_calloc = True, env_asprintf = True\<rparr> (Inr (f k)) (\<lambda>_. True) True cache of
        Some (cache', ret, Some a) \<Rightarrow>
          if ret \<noteq> 0 then None
          else (case resolve_calls f (Suc k) n cache' of None \<Rightarrow> None | Some (c, xs) \<Rightarrow> Some (c, a # xs))
      | _ \<Rightarrow> None)"

text \<open>A cache from which nothing can be answered: none yet, or one whose last address was handed out.\<close>

definition dns_exhausted :: "'a dnscache6 option \<Rightarrow> bool" where
  "dns_exhausted cache = (case cache of None \<Rightarrow> True | Some c \<Rightarrow> dns_next c = [])"

lemma dns_answer_first:
  "dns_answer (\<lambda>_. True) \<lparr>dns_first = as, dns_next = a # rest\<rparr> = Some (Some \<lparr>dns_first = as, dns_next = rest\<rparr>, 0, Some a)"
  by (cases rest) (simp_all add: dns_answer_def)

lemma resolve_cached:
  "as \<noteq> [] \<Longrightarrow> lz_resolve_ip6 \<lparr>env_calloc = True, env_asprintf = True\<rparr> gai (\<lambda>_. True) True
       (Some \<lparr>dns_first = as, dns_next = a # rest\<rparr>)
     = Some (Some \<lparr>dns_first = as, dns_next = rest\<rparr>, 0, Some a)"
  by (simp add: lz_resolve_ip6_def dns_flush_def dns_answer_first)

lemma resolve_fresh:
  assumes "dns_exhausted cache"
  shows "lz_resolve_ip6 \<lparr>env_calloc = True, env_asprintf = True\<rparr> (Inr (a # rest)) (\<lambda>_. True) True cache
    = Some (Some \<lparr>dns_first = a # rest, dns_next = rest\<rparr>, 0, Some a)"
  using assms
  by (cases cache) (auto simp: dns_exhausted_def lz_resolve_ip6_def dns_flush_def dns_answer_first Let_def)

lemma resolve_calls_cached:
  "\<lbrakk>as \<noteq> []; n \<le> length rest\<rbrakk> \<Longrightarrow> resolve_calls f k n (Some \<lparr>dns_first = as, dns_next = rest\<rparr>)
     = Some (Some \<lparr>dns_first = as, dns_next = drop n rest\<rparr>, take n rest)"
proof (induction n arbitrary: k rest)
  case (Suc n)
  then show ?case by (cases rest) (simp_all add: resolve_cached)
qed simp

lemma resolve_calls_fresh:
  assumes "dns_exhausted cache" and "f k \<noteq> []" and "0 < n" and "n \<le> length (f k)"
  shows "resolve_calls f k n cache
    = Some (Some \<lparr>dns_first = f k, dns_next = drop n (f k)\<rparr>, take n (f k))"
proof -
  obtain a rest where fk: "f k = a # rest" using assms(2) by (cases "f k") auto
  obtain m where n: "n = Suc m" using assms(3) by (cases n) auto
  show ?thesis using resolve_calls_cached [of "a # rest" m rest f "Suc k"] assms(4)
    by (simp add: n fk resolve_fresh [OF assms(1)])
qed

lemma resolve_calls_append:
  "resolve_calls f k m cache = Some (c, xs) \<Longrightarrow> resolve_calls f k (m + n) cache
     = map_option (\<lambda>(c', ys). (c', xs @ ys)) (resolve_calls f (k + m) n c)"
proof (induction m arbitrary: k cache c xs)
  case 0
  then show ?case by (cases "resolve_calls f k n cache") auto
next
  case (Suc m)
  from Suc.prems obtain c1 a xs1 where r:
    "lz_resolve_ip6 \<lparr>env_calloc = True, env_asprintf = True\<rparr> (Inr (f k)) (\<lambda>_. True) True cache = Some (c1, 0, Some a)"
    "resolve_calls f (Suc k) m c1 = Some (c, xs1)" "xs = a # xs1"
    by (auto split: option.splits if_splits prod.splits)
  show ?case using Suc.IH [OF r(2)] r(1,3)
    by (cases "resolve_calls f (Suc (k + m)) n c") auto
qed

lemma resolve_calls_lists:
  "\<lbrakk>dns_exhausted cache; [] \<notin> set ass; \<forall>j < length ass. f (k + length (concat (take j ass))) = ass ! j;
     n \<le> length (concat ass)\<rbrakk>
   \<Longrightarrow> \<exists>c. resolve_calls f k n cache = Some (c, take n (concat ass))"
proof (induction ass arbitrary: k n cache)
  case (Cons as ass)
  have fk: "f k = as" using Cons.prems(3) [rule_format, of 0] by simp
  have ne: "as \<noteq> []" using Cons.prems(2) by auto
  consider "n = 0" | "0 < n" "n \<le> length as" | m where "n = length as + m"
    by (metis le_add_diff_inverse linorder_le_cases not_gr_zero)
  then show ?case
  proof cases
    case 2
    then show ?thesis using resolve_calls_fresh [OF Cons.prems(1), of f k n] fk ne by simp
  next
    case (3 m)
    have all: "resolve_calls f k (length as) cache = Some (Some \<lparr>dns_first = as, dns_next = []\<rparr>, as)"
      using resolve_calls_fresh [OF Cons.prems(1), of f k "length as"] fk ne by simp
    have nxt: "\<forall>j < length ass. f (k + length as + length (concat (take j ass))) = ass ! j"
    proof (intro allI impI)
      fix j assume "j < length ass"
      then show "f (k + length as + length (concat (take j ass))) = ass ! j"
        using Cons.prems(3) [rule_format, of "Suc j"] by (simp add: add.assoc)
    qed
    obtain c where "resolve_calls f (k + length as) m (Some \<lparr>dns_first = as, dns_next = []\<rparr>) = Some (c, take m (concat ass))"
      using Cons.IH [OF _ _ nxt, of "Some \<lparr>dns_first = as, dns_next = []\<rparr>" m] Cons.prems(2,4) 3
      by (auto simp: dns_exhausted_def)
    then show ?thesis using resolve_calls_append [OF all, of m] 3 by simp
  qed simp
qed simp

section \<open>Properties\<close>

text \<open>
  C23: the resolver hands out every address of a list once, in order, and then asks the library again.  Let the library
  give the non-empty lists \<open>ass\<close>, the next one of them whenever the addresses of the lists before have all been returned.
  Then any number of calls starting with an empty cache succeed and return the addresses of the lists one after the
  other: the first addresses of their concatenation.  A call that is answered from the cache does not depend on
  what the library would say during it, and one that finds the cache exhausted never repeats an old list.  (The
  allocations and \<^verbatim>\<open>getnameinfo\<close> succeed.)
\<close>

theorem lz_resolve_ip6_round_robin:
  assumes "[] \<notin> set ass" and "\<forall>j < length ass. f (length (concat (take j ass))) = ass ! j"
    and "n \<le> length (concat ass)"
  shows "\<exists>cache. resolve_calls f 0 n None = Some (cache, take n (concat ass))"
  using resolve_calls_lists [of None ass f 0 n] assms by (simp add: dns_exhausted_def)

theorem lz_resolve_ip6_round_robin_witness:
  "\<exists>cache. resolve_calls (\<lambda>k. if k < 3 then [10, 20, 30 :: nat] else [40, 50]) 0 5 None = Some (cache, [10, 20, 30, 40, 50])"
  using lz_resolve_ip6_round_robin [of "[[10, 20, 30], [40, 50 :: nat]]" "\<lambda>k. if k < 3 then [10, 20, 30] else [40, 50]" 5]
  by (simp add: less_Suc_eq numeral_2_eq_2)

end
