(* ===== verification/Spec2Isabelle.thy ===== *)
theory Spec2Isabelle
  imports Lz_Rbthash Lz_Rb_Traverse Lz_Iobuf Lz_Event Lz_Socket_Recv Lz_Timer Lz_Log Lz_Transport Lz_Protocol Lz_Iovec Lz_Md5 Lz_Common_Utils Lz_Resolver
begin

text \<open>
  A verification development for \<^verbatim>\<open>lz_lib\<close>, the C library under \<^verbatim>\<open>src/src\<close>: containers (lists, red-black trees, hash tables, dictionaries), memory
  (a pool of objects, a pool of I/O buffers), checksums, an event registry, timers, logging, and message transport over sockets.

  \<^bold>\<open>The parts and how they interact.\<close>  The pools keep their free objects on the intrusive lists of \<^verbatim>\<open>list.h\<close>.  The
  hash table \<^verbatim>\<open>rbthash.c\<close> has red-black trees (\<^verbatim>\<open>rb.c\<close>) as buckets and takes its entries from the memory pool.  The dictionary hashes keys with
  \<^verbatim>\<open>hashfn.c\<close> and is written to buffers, and to messages, in network order (\<^verbatim>\<open>byte-order.h\<close>).  A transport (\<^verbatim>\<open>transport.c\<close>) is a
  connection (\<^verbatim>\<open>socket.c\<close>) whose addresses come from a dictionary of options (\<^verbatim>\<open>name.c\<close>); it queues scatter lists for
  sending, reads messages into buffers of the I/O pool, and is driven by the event registry.  Every file logs with \<^verbatim>\<open>logging.c\<close>.

  \<^bold>\<open>Theories and sources.\<close>  A theory opens with what it models; here is what stands for what.

  \<^item> \<open>Lz_Prelude\<close>: the word types, addresses (natural numbers, 0 is the null pointer), \<^verbatim>\<open>memcmp\<close>, and lemmas all components share.
  \<^item> \<open>Lz_List\<close>, \<^verbatim>\<open>list.h\<close>: a store of links; \<open>list_add\<close>, \<open>list_del\<close>, \<open>list_move\<close>, \<open>list_splice\<close> are the sequences of stores of the functions of those names.
    A ring stands for a sequence, and every function is shown to be an operation on it.  The laws the clients use are the
    locale \<open>ring_ops\<close>, which the two deletions and the links of the timers implement.
  \<^item> \<open>Lz_Mem_Pool\<close>, \<^verbatim>\<open>mem-pool.c\<close>: \<open>mem_pool_new_fn\<close>, \<open>mem_get\<close>, \<open>mem_put\<close> on the real free list; in every run the counts and the list agree and no
    object is handed out twice.
  \<^item> \<open>Lz_Rb\<close>, \<^verbatim>\<open>rb.c\<close>: trees with the stack of the C functions as a path; \<open>rb_probe\<close> and \<open>rb_delete\<close> with every case of the rebalancing keep order, colours and
    black height and are insertion and deletion on the sorted items; the locale \<open>rb_order\<close> is the comparison.  \<open>Lz_Rb_Traverse\<close>: the traversers and copying.
  \<^item> \<open>Lz_Rbthash\<close>, \<^verbatim>\<open>rbthash.c\<close>: the hash table refines a map from keys to data, over the two previous components.
  \<^item> \<open>Lz_Hashfn\<close>, \<^verbatim>\<open>hashfn.c\<close>, and \<open>Lz_Md5\<close>, \<^verbatim>\<open>md5.c\<close> and \<^verbatim>\<open>checksum.c\<close>: the hashes on words of their widths; MD5 in pieces is the MD5 of RFC 1321.
  \<^item> \<open>Lz_Dict\<close>, \<open>Lz_Dict_Typed\<close>, \<open>Lz_Dict_Serial\<close>, \<^verbatim>\<open>dict.c\<close>: a store of values and pairs with reference counts; the operations refine a map and keep the
    counts exact.  Insertion takes the remainder of a signed hash and lookup that of an unsigned one: with one bucket, as the code always makes
    dictionaries, they agree, with more they do not for every key, and \<open>dict_set_correct\<close> says what happens then.
    Numbers and dictionaries survive their text and wire formats; \<open>Lz_Numeric\<close> has the conversions of the C library.
  \<^item> \<open>Lz_Common_Utils\<close>, \<open>Lz_Iovec\<close>, \<open>Lz_Resolver\<close>, \<^verbatim>\<open>common-utils.c\<close> and \<^verbatim>\<open>.h\<close>: strings, parsers of numbers and sizes, scatter lists, the cache of addresses.
  \<^item> \<open>Lz_Byte_Order\<close>, \<^verbatim>\<open>byte-order.h\<close>, and \<open>Lz_Protocol\<close>, \<^verbatim>\<open>protocol.h\<close>: the pointers to the conversions, which overwrite themselves at the first call, and the
    conversions of attributes, locks, times and flags through them.
  \<^item> \<open>Lz_Iobuf\<close>, \<^verbatim>\<open>iobuf.c\<close>: pools, arenas, buffers and vectors of buffers in one store; in every run the lists, counts and references agree.
  \<^item> \<open>Lz_Event\<close>, \<^verbatim>\<open>event.c\<close>: the locale \<open>event_registry\<close> is the contract of the registry, interpreted for the poll and the epoll back end; both refine the same map.
  \<^item> \<open>Lz_Sock_Io\<close>, \<open>Lz_Socket\<close>, \<open>Lz_Socket_Recv\<close>, \<^verbatim>\<open>socket.c\<close>: scatter reads and writes against a kernel that moves as many bytes as it likes; the queue
    of outgoing messages; the state machine of the receiver, with the pages of the buffer pool and the registry above.  A message
    handed to one end is the message taken at the other.
  \<^item> \<open>Lz_Name\<close>, \<^verbatim>\<open>name.c\<close>, and \<open>Lz_Transport\<close>, the set-up of connections in \<^verbatim>\<open>socket.c\<close> and \<^verbatim>\<open>transport.c\<close>: addresses from options, connecting, listening,
    accepting.  A unix path of exactly 108 bytes overflows the address.
  \<^item> \<open>Lz_Timer\<close>, \<^verbatim>\<open>timer.c\<close>: the rings of active and fired timers, and the turns of the timer thread between which others run.  The runs include the
    cancellation of the timer that the thread is about to call, after which it reads freed memory.
  \<^item> \<open>Lz_Log\<close>, \<^verbatim>\<open>logging.c\<close>: levels, rotation and the files of clients.

  \<^bold>\<open>How the code is rendered.\<close>  A structure is a record and a pointer to a shared object an address in a store that is threaded through.  What the C
  code leaves undefined, and what aborts, is the value \<open>None\<close> or an error value; a null result, an error code or an early return is a result
  like any other.  The outcomes of allocations and system calls are arguments, so every failure is a branch; fields of
  records called \<open>env\<close> or \<open>allocs\<close> hold them.  Words have the width of their C types where wrapping or sign matters.  A function
  that holds a mutex throughout is one step; runs are inductive relations or folds over such steps.

  \<^bold>\<open>Fuel and bounds.\<close>  \<open>list_for_each\<close> takes more fuel than the ring is long.  The churn and the flush of a queue take its length, which each turn
  shortens.  The receiver's \<open>proto_loop\<close> takes 6 turns, as each turn that goes on moves to a later one of the five states.  The reads and writes
  recurse on the schedule of the kernel, so not having returned means that the schedule is used up; the theorems say
  which schedules suffice.  A round of timers takes more fuel than there are active timers.  Loops that may run forever are
  \<open>partial_function\<close>s.  The stacks of 48 entries of \<^verbatim>\<open>rb.c\<close> suffice below \<open>2^23 - 1\<close> items.

  \<^bold>\<open>Not modelled.\<close>  \<^verbatim>\<open>globals.c\<close> has two functions around a pointer that is never assigned; \<^verbatim>\<open>locking.h\<close> renames the calls of the mutex; the packed structures of requests and
  replies in \<^verbatim>\<open>protocol.h\<close> are declarations without code; \<^verbatim>\<open>lz_lockfd\<close>, \<^verbatim>\<open>lz_unlockfd\<close> and the allocator macros only call the system.  Interleavings inside a
  function are not modelled, except for the timer thread, which releases its mutex between taking a timer and calling it.
\<close>

end
